(* ===== verification/Prelude.thy ===== *)
theory Prelude
  imports Main "HOL-Library.Word" "HOL-Library.List_Lexorder" "HOL-Library.Char_ord"
    "HOL-Library.Multiset"
begin

text \<open>
  Shared vocabulary of the development: the machine types of the Go code, errors as values,
  the parts of the Go standard library that every component uses (\<^verbatim>\<open>bytes.Compare\<close>, the
  little-endian and varint codecs of \<^verbatim>\<open>encoding/binary\<close>, \<^verbatim>\<open>sort.Search\<close>), and the generic
  list lemmas behind the component proofs.

  A Go \<^verbatim>\<open>[]byte\<close> is a list of 8-bit words. Where the code distinguishes \<^verbatim>\<open>nil\<close> from an empty
  slice the type is \<open>bytes option\<close> with \<open>None\<close> for \<^verbatim>\<open>nil\<close>. An \<^verbatim>\<open>int64\<close> is a 64-bit word read
  by \<open>sint\<close>, an unsigned integer is a word read by \<open>unat\<close>.
\<close>

type_synonym u8 = "8 word"
type_synonym u32 = "32 word"
type_synonym u64 = "64 word"
type_synonym i64 = "64 word"
type_synonym bytes = "u8 list"

named_theorems order_simps \<open>facts that move key comparisons through ordered leaf lists\<close>
named_theorems codec_simps \<open>length and round-trip facts of the byte codecs\<close>

section \<open>Errors\<close>

text \<open>
  Go errors carry a formatted message. The constructors keep which error it is, with the
  arguments the callers look at. \<open>Panic\<close> stands for a run-time panic.
\<close>

datatype gerror =
    EOF
  | UnexpectedEOF
  | VarintOverflow
  | VersionOverflow
  | UnknownTree string
  | NameConflict string
  | TreeNotEmpty string
  | MultiTreeNotEmpty
  | InvalidEndVersion
  | TargetPruned
  | WalCorrupt
  | WalNotFound
  | WalClosed
  | WalOutOfRange
  | KeyNotExist
  | KeyInState
  | EmptyTreeProof
  | BadMetadataSize
  | BadMagic
  | BadFormat
  | CorruptedSnapshot
  | InvalidNodeStructure
  | CommitInfoMismatch
  | PayloadOverrun
  | Unsupported
  | ReadOnlyDB
  | Canceled
  | AnyError string
  | Panic string
  | Wrapped gerror gerror

type_synonym 'a result = "gerror + 'a"

definition rbind :: "'a result \<Rightarrow> ('a \<Rightarrow> 'b result) \<Rightarrow> 'b result" where
  "rbind r f = (case r of Inl e \<Rightarrow> Inl e | Inr x \<Rightarrow> f x)"

section \<open>bytes.Compare\<close>

fun bytes_Compare :: "bytes \<Rightarrow> bytes \<Rightarrow> int" where
  "bytes_Compare [] [] = 0"
| "bytes_Compare [] (y # ys) = -1"
| "bytes_Compare (x # xs) [] = 1"
| "bytes_Compare (x # xs) (y # ys) =
     (if x < y then -1 else if y < x then 1 else bytes_Compare xs ys)"

section \<open>encoding/binary: little-endian integers\<close>

text \<open>
  \<open>le_bytes k n\<close> is the little-endian encoding of \<open>n\<close> in \<open>k\<close> bytes and \<open>le_val\<close> its inverse;
  \<^verbatim>\<open>binary.LittleEndian.PutUint32\<close> and \<^verbatim>\<open>Uint32\<close> are the instances at 4 bytes, the 64-bit ones
  at 8. \<^verbatim>\<open>Uint32\<close> on a slice that is too short panics.
\<close>

fun le_bytes :: "nat \<Rightarrow> nat \<Rightarrow> bytes" where
  "le_bytes 0 n = []"
| "le_bytes (Suc k) n = word_of_nat (n mod 256) # le_bytes k (n div 256)"

fun le_val :: "bytes \<Rightarrow> nat" where
  "le_val [] = 0"
| "le_val (b # bs) = unat b + 256 * le_val bs"

definition PutUint32 :: "u32 \<Rightarrow> bytes" where
  "PutUint32 w = le_bytes 4 (unat w)"

definition PutUint64 :: "u64 \<Rightarrow> bytes" where
  "PutUint64 w = le_bytes 8 (unat w)"

definition Uint32 :: "bytes \<Rightarrow> u32 result" where
  "Uint32 bs = (if length bs < 4 then Inl (Panic ''index out of range'')
     else Inr (word_of_nat (le_val (take 4 bs))))"

definition Uint64 :: "bytes \<Rightarrow> u64 result" where
  "Uint64 bs = (if length bs < 8 then Inl (Panic ''index out of range'')
     else Inr (word_of_nat (le_val (take 8 bs))))"

text \<open>Slicing \<^verbatim>\<open>bs[a:b]\<close>: panics unless \<^verbatim>\<open>a <= b <= len(bs)\<close>.\<close>

definition slice_bytes :: "bytes \<Rightarrow> nat \<Rightarrow> nat \<Rightarrow> bytes result" where
  "slice_bytes bs a b = (if a \<le> b \<and> b \<le> length bs then Inr (take (b - a) (drop a bs))
     else Inl (Panic ''slice bounds out of range''))"

section \<open>encoding/binary: varints\<close>

fun put_uvarint :: "nat \<Rightarrow> bytes" where
  "put_uvarint n = (if n < 128 then [word_of_nat n]
     else word_of_nat (n mod 128 + 128) # put_uvarint (n div 128))"

declare put_uvarint.simps [simp del]

definition PutUvarint :: "u64 \<Rightarrow> bytes" where
  "PutUvarint w = put_uvarint (unat w)"

text \<open>\<^verbatim>\<open>PutVarint\<close> is \<^verbatim>\<open>PutUvarint\<close> of the zig-zag image of the signed value.\<close>

definition zigzag :: "i64 \<Rightarrow> u64" where
  "zigzag x = (let ux = push_bit 1 x in if sint x < 0 then not ux else ux)"

text \<open>The value \<^verbatim>\<open>binary.Varint\<close> makes of the unsigned varint it has read.\<close>

definition unzigzag :: "u64 \<Rightarrow> i64" where
  "unzigzag ux = (let x = drop_bit 1 ux in if odd ux then not x else x)"

definition PutVarint :: "i64 \<Rightarrow> bytes" where
  "PutVarint x = PutUvarint (zigzag x)"

text \<open>
  \<^verbatim>\<open>binary.Uvarint\<close>: the loop over the buffer with the running value \<open>x\<close>, shift \<open>s\<close> and position
  \<open>i\<close>. The bits that \<^verbatim>\<open>x | uint64(b)<<s\<close> combines are disjoint, so the model adds. The result is
  the pair of the value and the number of bytes read, 0 when the buffer is too small and negative
  on overflow.
\<close>

fun uvarint_loop :: "bytes \<Rightarrow> nat \<Rightarrow> nat \<Rightarrow> nat \<Rightarrow> nat \<times> int" where
  "uvarint_loop [] i x s = (0, 0)"
| "uvarint_loop (b # bs) i x s =
     (if i = 10 then (0, - (int i + 1))
      else if unat b < 128 then
        (if i = 9 \<and> unat b > 1 then (0, - (int i + 1))
         else (x + unat b * 2 ^ s, int i + 1))
      else uvarint_loop bs (Suc i) (x + (unat b mod 128) * 2 ^ s) (s + 7))"

definition Uvarint :: "bytes \<Rightarrow> nat \<times> int" where
  "Uvarint bs = uvarint_loop bs 0 0 0"

text \<open>
  \<^verbatim>\<open>binary.ReadUvarint\<close> over a byte reader; a reader is the list of the bytes it still holds.
  An end of input before the first byte is \<^verbatim>\<open>io.EOF\<close>, later it is \<^verbatim>\<open>io.ErrUnexpectedEOF\<close>.
\<close>

fun read_uvarint_loop :: "nat \<Rightarrow> bytes \<Rightarrow> nat \<Rightarrow> nat \<Rightarrow> nat \<Rightarrow> (nat \<times> bytes) result" where
  "read_uvarint_loop 0 rd i x s = Inl VarintOverflow"
| "read_uvarint_loop (Suc fuel) rd i x s =
     (case rd of
        [] \<Rightarrow> Inl (if i > 0 then UnexpectedEOF else EOF)
      | b # rd' \<Rightarrow>
          if unat b < 128 then
            (if i = 9 \<and> unat b > 1 then Inl VarintOverflow
             else Inr (x + unat b * 2 ^ s, rd'))
          else read_uvarint_loop fuel rd' (Suc i) (x + (unat b mod 128) * 2 ^ s) (s + 7))"

definition ReadUvarint :: "bytes \<Rightarrow> (nat \<times> bytes) result" where
  "ReadUvarint rd = read_uvarint_loop 10 rd 0 0 0"

text \<open>\<^verbatim>\<open>io.ReadFull\<close> of \<open>n\<close> bytes.\<close>

definition ReadFull :: "nat \<Rightarrow> bytes \<Rightarrow> (bytes \<times> bytes) result" where
  "ReadFull n rd =
     (if n \<le> length rd then Inr (take n rd, drop n rd)
      else Inl (if rd = [] then EOF else UnexpectedEOF))"

section \<open>sort.Search\<close>

function search_loop :: "(nat \<Rightarrow> bool) \<Rightarrow> nat \<Rightarrow> nat \<Rightarrow> nat" where
  "search_loop f i j =
     (if i < j then
        let h = (i + j) div 2
        in if \<not> f h then search_loop f (h + 1) j else search_loop f i h
      else i)"
  by pat_completeness auto
termination
  by (relation "measure (\<lambda>(f, i, j). j - i)") auto

declare search_loop.simps [simp del]

definition sort_Search :: "nat \<Rightarrow> (nat \<Rightarrow> bool) \<Rightarrow> nat" where
  "sort_Search n f = search_loop f 0 n"

text \<open>The same search with a predicate that can fail, for instance with an index panic.\<close>

function search_loop_result :: "(nat \<Rightarrow> bool result) \<Rightarrow> nat \<Rightarrow> nat \<Rightarrow> nat result" where
  "search_loop_result f i j =
     (if i < j then
        let h = (i + j) div 2
        in (case f h of
              Inl e \<Rightarrow> Inl e
            | Inr b \<Rightarrow> if \<not> b then search_loop_result f (h + 1) j else search_loop_result f i h)
      else Inr i)"
  by pat_completeness auto
termination
  by (relation "measure (\<lambda>(f, i, j). j - i)") auto

declare search_loop_result.simps [simp del]

definition sort_Search_result :: "nat \<Rightarrow> (nat \<Rightarrow> bool result) \<Rightarrow> nat result" where
  "sort_Search_result n f = search_loop_result f 0 n"

section \<open>Lemmas: comparison\<close>

lemma bytes_Compare_range: "bytes_Compare a b \<in> {-1, 0, 1}"
  by (induction a b rule: bytes_Compare.induct) auto

lemma bytes_Compare_lt [simp]: "bytes_Compare a b = -1 \<longleftrightarrow> a < b"
  by (induction a b rule: bytes_Compare.induct) auto

lemma bytes_Compare_gt [simp]: "bytes_Compare a b = 1 \<longleftrightarrow> b < a"
  by (induction a b rule: bytes_Compare.induct) auto

lemma bytes_Compare_eq [simp]: "bytes_Compare a b = 0 \<longleftrightarrow> a = b"
  by (induction a b rule: bytes_Compare.induct) auto

lemma bytes_Compare_neg [simp]: "bytes_Compare a b < 0 \<longleftrightarrow> a < b"
  by (induction a b rule: bytes_Compare.induct) auto

lemma bytes_Compare_ge [simp]: "0 \<le> bytes_Compare a b \<longleftrightarrow> b \<le> a"
  using bytes_Compare_neg [of a b] by (metis not_le)

lemma bytes_Compare_le [simp]: "bytes_Compare a b \<le> 0 \<longleftrightarrow> a \<le> b"
  by (metis bytes_Compare_eq bytes_Compare_neg le_less)

section \<open>Lemmas: results\<close>

lemma rbind_simps [simp]:
  "rbind (Inl e) f = Inl e"
  "rbind (Inr x) f = f x"
  by (simp_all add: rbind_def)

lemma rbind_Inr_iff: "rbind r f = Inr y \<longleftrightarrow> (\<exists>x. r = Inr x \<and> f x = Inr y)"
  by (cases r) auto

section \<open>Lemmas: words\<close>

lemma unat_u8_less: "unat (w :: u8) < 256"
  using unsigned_less [of w, where ?'a = nat] by simp

lemma unat_u32_less: "unat (w :: u32) < 4294967296"
  using unsigned_less [of w, where ?'a = nat] by simp

lemma unat_u64_less: "unat (w :: u64) < 18446744073709551616"
  using unsigned_less [of w, where ?'a = nat] by simp

section \<open>Lemmas: little-endian codecs\<close>

lemma length_le_bytes [simp, codec_simps]: "length (le_bytes k n) = k"
  by (induction k arbitrary: n) auto

lemma le_val_le_bytes [codec_simps]: "le_val (le_bytes k n) = n mod 256 ^ k"
proof (induction k arbitrary: n)
  case 0
  then show ?case by simp
next
  case (Suc k)
  have "unat (word_of_nat (n mod 256) :: u8) = n mod 256"
    by (simp add: unat_of_nat)
  then show ?case
    using Suc by (simp add: mod_mult2_eq)
qed

lemma le_val_less: "le_val bs < 256 ^ length bs"
proof (induction bs)
  case Nil
  then show ?case by simp
next
  case (Cons b bs)
  define p :: nat where "p = 256 ^ length bs"
  have "le_val bs < p" using Cons by (simp add: p_def)
  moreover have "unat b < 256" by (rule unat_u8_less)
  ultimately have "unat b + 256 * le_val bs < 256 * p" by linarith
  then show ?case by (simp add: p_def)
qed

lemma length_PutUint32 [simp, codec_simps]: "length (PutUint32 w) = 4"
  by (simp add: PutUint32_def)

lemma length_PutUint64 [simp, codec_simps]: "length (PutUint64 w) = 8"
  by (simp add: PutUint64_def)

lemma le_val_PutUint32 [simp, codec_simps]: "le_val (PutUint32 w) = unat w"
  by (simp add: PutUint32_def le_val_le_bytes unat_u32_less)

lemma le_val_PutUint64 [simp, codec_simps]: "le_val (PutUint64 w) = unat w"
  by (simp add: PutUint64_def le_val_le_bytes unat_u64_less)

lemma Uint32_PutUint32 [simp, codec_simps]: "Uint32 (PutUint32 w @ bs) = Inr w"
  by (simp add: Uint32_def)

lemma Uint64_PutUint64 [simp, codec_simps]: "Uint64 (PutUint64 w @ bs) = Inr w"
  by (simp add: Uint64_def)

section \<open>Lemmas: varints\<close>

lemma put_uvarint_small: "n < 128 \<Longrightarrow> put_uvarint n = [word_of_nat n]"
  by (simp add: put_uvarint.simps)

lemma put_uvarint_step:
  "\<not> n < 128 \<Longrightarrow> put_uvarint n = word_of_nat (n mod 128 + 128) # put_uvarint (n div 128)"
  by (subst put_uvarint.simps) simp

lemma put_uvarint_not_Nil [simp]: "put_uvarint n \<noteq> []"
  by (subst put_uvarint.simps) simp

lemma length_put_uvarint_le: "n < 128 ^ Suc k \<Longrightarrow> length (put_uvarint n) \<le> Suc k"
proof (induction k arbitrary: n)
  case 0
  then show ?case by (simp add: put_uvarint_small)
next
  case (Suc k)
  show ?case
  proof (cases "n < 128")
    case True
    then show ?thesis by (simp add: put_uvarint_small)
  next
    case False
    have "n div 128 < 128 ^ Suc k"
      using Suc.prems by (simp add: less_mult_imp_div_less mult.commute)
    then have "length (put_uvarint (n div 128)) \<le> Suc k" by (rule Suc.IH)
    with False show ?thesis by (simp add: put_uvarint_step)
  qed
qed

lemma unat_low_byte: "n < 256 \<Longrightarrow> unat (word_of_nat n :: u8) = n"
  by (simp add: unat_of_nat)

text \<open>
  Both decoders, started at position \<open>i\<close> with shift \<open>7 * i\<close>, read back an encoded number that
  still fits: the value has fewer than \<open>64 - 7 * i\<close> bits left. One continuation byte leaves the
  quotient for position \<open>i + 1\<close>.
\<close>

lemma uvarint_step_fits:
  fixes n :: nat
  assumes "\<not> n < 128" and "n < 2 ^ (64 - 7 * i)" and "i \<le> 9"
  shows "i \<le> 8" and "n div 128 < 2 ^ (64 - 7 * Suc i)"
proof -
  show i8: "i \<le> 8"
    using assms by (cases "i = 9") auto
  define m where "m = 64 - 7 * Suc i"
  have m: "64 - 7 * i = 7 + m" using i8 by (simp add: m_def)
  have "(2::nat) ^ (64 - 7 * i) = 2 ^ (64 - 7 * Suc i) * 128"
    unfolding m m_def [symmetric] by (simp add: power_add)
  with assms(2) show "n div 128 < 2 ^ (64 - 7 * Suc i)"
    by (simp only: less_mult_imp_div_less)
qed

lemma uvarint_step_val:
  "(n mod 128) * 2 ^ (7 * i) + n div 128 * 2 ^ (7 * Suc i) = (n :: nat) * 2 ^ (7 * i)"
proof -
  have "(2::nat) ^ (7 * Suc i) = 128 * 2 ^ (7 * i)" by (simp add: power_add)
  then have "(n mod 128) * 2 ^ (7 * i) + n div 128 * 2 ^ (7 * Suc i)
      = (n mod 128 + 128 * (n div 128)) * 2 ^ (7 * i)"
    by (simp only: distrib_right distrib_left mult.assoc mult.commute mult.left_commute)
  also have "\<dots> = n * 2 ^ (7 * i)" by (simp only: mod_mult_div_eq)
  finally show ?thesis .
qed

lemma unat_cont_byte: "unat (word_of_nat (n mod 128 + 128) :: u8) = n mod 128 + 128"
  by (rule unat_low_byte) (metis mod_less_divisor add_less_mono1 numeral_Bit0 zero_less_numeral)

lemma uvarint_loop_put:
  "n < 2 ^ (64 - 7 * i) \<Longrightarrow> i \<le> 9 \<Longrightarrow>
     uvarint_loop (put_uvarint n @ bs) i x (7 * i) =
       (x + n * 2 ^ (7 * i), int (i + length (put_uvarint n)))"
proof (induction n arbitrary: i x rule: put_uvarint.induct)
  case (1 n)
  show ?case
  proof (cases "n < 128")
    case True
    moreover have "\<not> (i = 9 \<and> n > 1)" using "1.prems" by auto
    ultimately show ?thesis
      using "1.prems" by (simp add: put_uvarint_small unat_low_byte)
  next
    case False
    note fits = uvarint_step_fits [OF False "1.prems"]
    from "1.IH" [OF False fits(2), of "x + (n mod 128) * 2 ^ (7 * i)"] fits(1)
    have IH: "uvarint_loop (put_uvarint (n div 128) @ bs) (Suc i)
        (x + (n mod 128) * 2 ^ (7 * i)) (7 * Suc i) =
        (x + n * 2 ^ (7 * i), int (Suc i + length (put_uvarint (n div 128))))"
      by (simp add: add.assoc uvarint_step_val [of n i, simplified])
    have "uvarint_loop (put_uvarint n @ bs) i x (7 * i) =
        uvarint_loop (put_uvarint (n div 128) @ bs) (Suc i)
          (x + (n mod 128) * 2 ^ (7 * i)) (7 * Suc i)"
      using False fits(1) unat_cont_byte [of n] by (simp add: put_uvarint_step add.commute)
    with IH False show ?thesis by (simp add: put_uvarint_step)
  qed
qed

lemma Uvarint_put_uvarint [codec_simps]:
  "n < 2 ^ 64 \<Longrightarrow> Uvarint (put_uvarint n @ bs) = (n, int (length (put_uvarint n)))"
  using uvarint_loop_put [of n 0 bs 0] by (simp add: Uvarint_def)

lemma read_uvarint_loop_put:
  "n < 2 ^ (64 - 7 * i) \<Longrightarrow> i \<le> 9 \<Longrightarrow>
     read_uvarint_loop (10 - i) (put_uvarint n @ bs) i x (7 * i) = Inr (x + n * 2 ^ (7 * i), bs)"
proof (induction n arbitrary: i x rule: put_uvarint.induct)
  case (1 n)
  define fuel where "fuel = 9 - i"
  have fuel: "10 - i = Suc fuel" "fuel = 10 - Suc i"
    using "1.prems"(2) by (auto simp: fuel_def)
  show ?case
  proof (cases "n < 128")
    case True
    moreover have "\<not> (i = 9 \<and> n > 1)" using "1.prems" by auto
    ultimately show ?thesis
      using "1.prems" fuel(1) by (simp add: put_uvarint_small unat_low_byte)
  next
    case False
    note fits = uvarint_step_fits [OF False "1.prems"]
    from "1.IH" [OF False fits(2), of "x + (n mod 128) * 2 ^ (7 * i)"] fits(1)
    have "read_uvarint_loop fuel (put_uvarint (n div 128) @ bs) (Suc i)
        (x + (n mod 128) * 2 ^ (7 * i)) (7 * Suc i) = Inr (x + n * 2 ^ (7 * i), bs)"
      by (simp add: fuel(2) add.assoc uvarint_step_val [of n i, simplified])
    then show ?thesis
      using False fuel(1) unat_cont_byte [of n] by (simp add: put_uvarint_step add.commute)
  qed
qed

lemma ReadUvarint_put_uvarint [codec_simps]:
  "n < 2 ^ 64 \<Longrightarrow> ReadUvarint (put_uvarint n @ bs) = Inr (n, bs)"
  using read_uvarint_loop_put [of n 0 bs 0] by (simp add: ReadUvarint_def)

lemma ReadFull_append [codec_simps]: "n = length xs \<Longrightarrow> ReadFull n (xs @ ys) = Inr (xs, ys)"
  by (simp add: ReadFull_def)

section \<open>Lemmas: binary search\<close>

text \<open>On a monotone predicate the search returns the least index where it holds.\<close>

lemma search_loop_spec:
  assumes mono: "\<And>a b. a \<le> b \<Longrightarrow> b < n \<Longrightarrow> f a \<Longrightarrow> f b"
  shows "i \<le> j \<Longrightarrow> j \<le> n \<Longrightarrow> (\<forall>k<i. \<not> f k) \<Longrightarrow> (\<forall>k. j \<le> k \<and> k < n \<longrightarrow> f k) \<Longrightarrow>
    search_loop f i j \<le> n \<and> (\<forall>k < search_loop f i j. \<not> f k) \<and>
    (\<forall>k. search_loop f i j \<le> k \<and> k < n \<longrightarrow> f k)"
proof (induction "j - i" arbitrary: i j rule: less_induct)
  case less
  show ?case
  proof (cases "i < j")
    case False
    then have "search_loop f i j = i" by (simp add: search_loop.simps)
    with False less.prems show ?thesis by auto
  next
    case True
    define h where "h = (i + j) div 2"
    have h: "i \<le> h" "h < j" using True by (auto simp: h_def)
    have step: "search_loop f i j = (if \<not> f h then search_loop f (h + 1) j else search_loop f i h)"
      using True by (subst search_loop.simps) (simp add: h_def Let_def)
    show ?thesis
    proof (cases "f h")
      case True
      have "\<forall>k. h \<le> k \<and> k < n \<longrightarrow> f k" using True mono by blast
      with less.hyps [of h i] less.prems h step True show ?thesis by simp
    next
      case False
      have "\<forall>k < h + 1. \<not> f k"
        using False mono h less.prems(2) by (metis Suc_eq_plus1 less_Suc_eq_le order.strict_trans2)
      with less.hyps [of j "h + 1"] less.prems h step False show ?thesis by simp
    qed
  qed
qed

lemma sort_Search_spec:
  assumes "\<And>a b. a \<le> b \<Longrightarrow> b < n \<Longrightarrow> f a \<Longrightarrow> f b"
  shows "sort_Search n f \<le> n" and "k < sort_Search n f \<Longrightarrow> \<not> f k"
    and "sort_Search n f \<le> k \<Longrightarrow> k < n \<Longrightarrow> f k"
proof -
  have "sort_Search n f \<le> n \<and> (\<forall>k < sort_Search n f. \<not> f k) \<and>
      (\<forall>k. sort_Search n f \<le> k \<and> k < n \<longrightarrow> f k)"
    unfolding sort_Search_def by (rule search_loop_spec [OF assms]) auto
  then show "sort_Search n f \<le> n" and "k < sort_Search n f \<Longrightarrow> \<not> f k"
    and "sort_Search n f \<le> k \<Longrightarrow> k < n \<Longrightarrow> f k"
    by blast+
qed

lemma sort_Search_threshold:
  assumes "\<And>j. j < n \<Longrightarrow> f j \<longleftrightarrow> p \<le> j" and "p \<le> n"
  shows "sort_Search n f = p"
proof -
  have mono: "f b" if "a \<le> b" "b < n" "f a" for a b
    using assms(1) [of a] assms(1) [of b] that by simp
  have less: "\<not> f k" if "k < sort_Search n f" for k
    using sort_Search_spec(2) [of n f] mono that by blast
  have ge: "f k" if "sort_Search n f \<le> k" "k < n" for k
    using sort_Search_spec(3) [of n f] mono that by blast
  have le: "sort_Search n f \<le> n" using sort_Search_spec(1) [of n f] mono by blast
  show ?thesis
  proof (rule antisym)
    show "sort_Search n f \<le> p"
    proof (rule ccontr)
      assume "\<not> sort_Search n f \<le> p"
      then have "\<not> f p" "p < n" using le less [of p] by simp_all
      then show False using assms(1) [of p] by simp
    qed
    show "p \<le> sort_Search n f"
    proof (rule ccontr)
      assume *: "\<not> p \<le> sort_Search n f"
      then have "sort_Search n f < n" using assms(2) by simp
      then show False using * ge [of "sort_Search n f"] assms(1) [of "sort_Search n f"] by simp
    qed
  qed
qed

lemma sort_Search_cong:
  "(\<And>k. k < n \<Longrightarrow> f k = g k) \<Longrightarrow> sort_Search n f = sort_Search n g"
proof -
  assume fg: "\<And>k. k < n \<Longrightarrow> f k = g k"
  have "j \<le> n \<Longrightarrow> search_loop f i j = search_loop g i j" for i j
  proof (induction "j - i" arbitrary: i j rule: less_induct)
    case less
    show ?case
    proof (cases "i < j")
      case True
      then have h: "i \<le> (i + j) div 2" "(i + j) div 2 < j" by auto
      then have "f ((i + j) div 2) = g ((i + j) div 2)" using less.prems fg by simp
      with h True less.prems less.hyps [of "(i + j) div 2" i] less.hyps [of j "(i + j) div 2 + 1"]
      show ?thesis by (subst (1 2) search_loop.simps) (simp add: Let_def)
    qed (simp add: search_loop.simps)
  qed
  then show ?thesis by (simp add: sort_Search_def)
qed

section \<open>Lemmas: ordered leaf lists\<close>

text \<open>
  An ordered tree lists its leaves as \<open>(key, value)\<close> pairs with strictly increasing keys. The
  abstract effect of storing a key is to keep the smaller pairs, put the new pair, and keep the
  larger pairs; deleting filters the key out.
\<close>

definition put_pair :: "'k::linorder \<Rightarrow> 'v \<Rightarrow> ('k \<times> 'v) list \<Rightarrow> ('k \<times> 'v) list" where
  "put_pair k v xs = filter (\<lambda>p. fst p < k) xs @ (k, v) # filter (\<lambda>p. k < fst p) xs"

definition del_pair :: "'k \<Rightarrow> ('k \<times> 'v) list \<Rightarrow> ('k \<times> 'v) list" where
  "del_pair k xs = filter (\<lambda>p. fst p \<noteq> k) xs"

abbreviation keys_sorted :: "('k::linorder \<times> 'v) list \<Rightarrow> bool" where
  "keys_sorted xs \<equiv> sorted_wrt (<) (map fst xs)"

lemma filter_all: "(\<And>x. x \<in> set xs \<Longrightarrow> P x) \<Longrightarrow> filter P xs = xs"
  by (induction xs) auto

lemma filter_none: "(\<And>x. x \<in> set xs \<Longrightarrow> \<not> P x) \<Longrightarrow> filter P xs = []"
  by (induction xs) auto

lemma put_pair_append_left [order_simps]:
  assumes "k < m" and "\<And>p. p \<in> set ys \<Longrightarrow> m \<le> fst p"
  shows "put_pair k v (xs @ ys) = put_pair k v xs @ ys"
proof -
  have "filter (\<lambda>p. fst p < k) ys = []" "filter (\<lambda>p. k < fst p) ys = ys"
    using assms by (auto intro!: filter_none filter_all simp: less_le_trans)
      (metis assms less_le_trans not_less_iff_gr_or_eq fst_conv)
  then show ?thesis by (simp add: put_pair_def)
qed

lemma put_pair_append_right [order_simps]:
  assumes "m \<le> k" and "\<And>p. p \<in> set xs \<Longrightarrow> fst p < m"
  shows "put_pair k v (xs @ ys) = xs @ put_pair k v ys"
proof -
  have "filter (\<lambda>p. fst p < k) xs = xs" "filter (\<lambda>p. k < fst p) xs = []"
    using assms by (auto intro!: filter_none filter_all)
      (metis assms less_le_trans, metis assms less_le_trans not_less_iff_gr_or_eq fst_conv)
  then show ?thesis by (simp add: put_pair_def)
qed

lemma del_pair_append [simp]: "del_pair k (xs @ ys) = del_pair k xs @ del_pair k ys"
  by (simp add: del_pair_def)

lemma del_pair_absent: "k \<notin> fst ` set xs \<Longrightarrow> del_pair k xs = xs"
  by (auto simp: del_pair_def intro!: filter_all)

lemma keys_sorted_put_pair: "keys_sorted xs \<Longrightarrow> keys_sorted (put_pair k v xs)"
  by (induction xs) (auto simp: put_pair_def sorted_wrt_append)

lemma keys_sorted_del_pair: "keys_sorted xs \<Longrightarrow> keys_sorted (del_pair k xs)"
  by (induction xs) (auto simp: del_pair_def)

lemma map_of_filter_key:
  "map_of (filter (\<lambda>p. P (fst p)) xs) x = (if P x then map_of xs x else None)"
  by (induction xs) auto

lemma map_of_put_pair: "map_of (put_pair k v xs) = (map_of xs)(k \<mapsto> v)"
  using map_of_filter_key [of "\<lambda>x. x < k" xs] map_of_filter_key [of "\<lambda>x. k < x" xs]
  by (intro ext) (auto simp: put_pair_def map_add_def split: option.splits)

lemma map_of_del_pair: "map_of (del_pair k xs) = (map_of xs)(k := None)"
  by (induction xs) (auto simp: del_pair_def fun_eq_iff)

lemma set_put_pair: "set (put_pair k v xs) \<subseteq> insert (k, v) (set xs)"
  by (auto simp: put_pair_def)

lemma keys_put_pair: "fst ` set (put_pair k v xs) = insert k (fst ` set xs)"
  by (force simp: put_pair_def)

lemma keys_sorted_distinct: "keys_sorted xs \<Longrightarrow> distinct (map fst xs)"
  by (simp add: strict_sorted_iff)

lemma put_pair_not_Nil [simp]: "put_pair k v xs \<noteq> []"
  by (simp add: put_pair_def)

lemma hd_put_pair:
  assumes "xs \<noteq> []" and "keys_sorted xs" and "fst (hd xs) \<le> k"
  shows "fst (hd (put_pair k v xs)) = fst (hd xs)"
proof (cases xs)
  case (Cons x ys)
  then show ?thesis using assms
    by (auto simp: put_pair_def filter_empty_conv hd_append)
qed (use assms in simp)

lemma length_put_pair:
  assumes "keys_sorted xs"
  shows "length (put_pair k v xs) = (if k \<in> fst ` set xs then length xs else Suc (length xs))"
  using assms
proof (induction xs)
  case (Cons x xs)
  have "filter (\<lambda>p. fst p < fst x) xs = []" "filter (\<lambda>p. fst x < fst p) xs = xs"
    using Cons.prems by (auto intro!: filter_none filter_all)
  with Cons show ?case by (auto simp: put_pair_def split: if_splits)
qed (simp add: put_pair_def)

lemma length_del_pair:
  assumes "distinct (map fst xs)"
  shows "length (del_pair k xs) = (if k \<in> fst ` set xs then length xs - 1 else length xs)"
  using assms
proof (induction xs)
  case (Cons x xs)
  have "k \<in> fst ` set xs \<Longrightarrow> 0 < length xs" by auto
  with Cons show ?case by (auto simp: del_pair_def)
qed (simp add: del_pair_def)

lemma map_of_eq_None_keys: "map_of xs k = None \<longleftrightarrow> k \<notin> fst ` set xs"
  by (simp add: map_of_eq_None_iff)

lemma hd_del_pair: "xs \<noteq> [] \<Longrightarrow> fst (hd xs) \<noteq> k \<Longrightarrow> hd (del_pair k xs) = hd xs"
  by (cases xs) (simp_all add: del_pair_def)

lemma set_del_pair: "set (del_pair k xs) = {p \<in> set xs. fst p \<noteq> k}"
  by (simp add: del_pair_def)

text \<open>In a sorted list the number of smaller keys is the position of a key.\<close>

lemma map_of_nth_index:
  assumes "map_of xs k = Some v" and "keys_sorted xs"
  shows "length (filter (\<lambda>p. fst p < k) xs) < length xs \<and>
    xs ! length (filter (\<lambda>p. fst p < k) xs) = (k, v)"
  using assms
proof (induction xs)
  case (Cons x xs)
  show ?case
  proof (cases "fst x = k")
    case True
    then have "filter (\<lambda>p. fst p < k) xs = []" using Cons.prems(2) by (auto intro!: filter_none)
    then show ?thesis using True Cons.prems(1) by (cases x) auto
  next
    case False
    then have m: "map_of xs k = Some v" using Cons.prems(1) by (cases x) auto
    then have "fst x < k" using Cons.prems(2) map_of_SomeD [OF m] by force
    then show ?thesis using Cons.IH [OF m] Cons.prems(2) by simp
  qed
qed simp

text \<open>Binary search in a sorted list finds the number of smaller keys.\<close>

lemma sort_Search_rank:
  assumes "keys_sorted xs"
  shows "sort_Search (length xs) (\<lambda>i. k \<le> fst (xs ! i)) = length (filter (\<lambda>p. fst p < k) xs)"
proof -
  let ?f = "\<lambda>i. k \<le> fst (xs ! i)" and ?m = "sort_Search (length xs) (\<lambda>i. k \<le> fst (xs ! i))"
  have mono: "?f a \<Longrightarrow> ?f b" if "a \<le> b" "b < length xs" for a b
  proof (cases "a = b")
    case False
    then have "fst (xs ! a) < fst (xs ! b)" using that assms by (simp add: sorted_wrt_iff_nth_less)
    then show "?f a \<Longrightarrow> ?f b" by simp
  qed simp
  have sp: "?m \<le> length xs" "\<And>i. i < ?m \<Longrightarrow> \<not> ?f i" "\<And>i. ?m \<le> i \<Longrightarrow> i < length xs \<Longrightarrow> ?f i"
    using sort_Search_spec [of "length xs" ?f] mono by blast+
  have "fst p < k" if "p \<in> set (take ?m xs)" for p
  proof -
    obtain i where "i < ?m" "p = xs ! i" using \<open>p \<in> set (take ?m xs)\<close> by (force simp: in_set_conv_nth)
    then show ?thesis using sp(2) [of i] by simp
  qed
  then have "filter (\<lambda>p. fst p < k) (take ?m xs) = take ?m xs" by (rule filter_all)
  moreover have "\<not> fst p < k" if "p \<in> set (drop ?m xs)" for p
  proof -
    obtain i where "i < length xs - ?m" "p = xs ! (?m + i)"
      using \<open>p \<in> set (drop ?m xs)\<close> by (force simp: in_set_conv_nth)
    moreover from this have "?f (?m + i)" by (intro sp(3)) linarith+
    ultimately show ?thesis by simp
  qed
  then have "filter (\<lambda>p. fst p < k) (drop ?m xs) = []" by (rule filter_none)
  moreover have "filter (\<lambda>p. fst p < k) xs =
    filter (\<lambda>p. fst p < k) (take ?m xs) @ filter (\<lambda>p. fst p < k) (drop ?m xs)"
    unfolding filter_append [symmetric] by simp
  ultimately show ?thesis using sp(1) by simp
qed

section \<open>Lemmas: searches that can fail\<close>

lemma search_loop_result_Inr:
  assumes "\<And>h. i \<le> h \<Longrightarrow> h < j \<Longrightarrow> f h = Inr (g h)"
  shows "search_loop_result f i j = Inr (search_loop g i j)"
  using assms
proof (induction g i j rule: search_loop.induct)
  case (1 g i j)
  show ?case
  proof (cases "i < j")
    case True
    let ?h = "(i + j) div 2"
    have h: "i \<le> ?h" "?h < j" using True by auto
    then show ?thesis
      using True 1 by (simp add: search_loop_result.simps [of f i j] search_loop.simps [of g i j] Let_def)
  qed (simp add: search_loop_result.simps [of f i j] search_loop.simps [of g i j])
qed

lemma sort_Search_result_Inr:
  "(\<And>h. h < n \<Longrightarrow> f h = Inr (g h)) \<Longrightarrow> sort_Search_result n f = Inr (sort_Search n g)"
  unfolding sort_Search_result_def sort_Search_def by (rule search_loop_result_Inr) auto

section \<open>Lemmas: prefix codes\<close>

lemma put_uvarint_append_inj:
  assumes "put_uvarint m @ xs = put_uvarint n @ ys" and "m < 2 ^ 64" and "n < 2 ^ 64"
  shows "m = n \<and> xs = ys"
proof -
  have "Inr (m, xs) = (Inr (n, ys) :: (nat \<times> bytes) result)"
    using ReadUvarint_put_uvarint [OF assms(2), of xs] ReadUvarint_put_uvarint [OF assms(3), of ys]
    unfolding assms(1) by (rule trans [OF sym])
  then show ?thesis by simp
qed

lemma PutUvarint_append_inj: "PutUvarint a @ xs = PutUvarint b @ ys \<longleftrightarrow> a = b \<and> xs = ys"
  using put_uvarint_append_inj [of "unat a" xs "unat b" ys] unat_u64_less [of a] unat_u64_less [of b]
  by (auto simp: PutUvarint_def word_unat_eq_iff)

lemma sint_neg_iff_bit: "sint (x :: i64) < 0 \<longleftrightarrow> bit x 63"
  by (simp add: sint_uint signed_take_bit_negative_iff bit_uint_iff)

lemma unzigzag_zigzag: "unzigzag (zigzag x) = x"
proof (rule bit_eqI)
  fix n
  assume "possible_bit TYPE(64 word) n"
  then have "n < 64" by simp
  then have "n < 63 \<or> n = 63" by auto
  then show "bit (unzigzag (zigzag x)) n \<longleftrightarrow> bit x n"
    by (auto simp: unzigzag_def zigzag_def Let_def sint_neg_iff_bit bit_drop_bit_eq bit_push_bit_iff
        bit_not_iff even_push_bit_iff
        bit_double_iff mult.commute [of x 2])
qed

lemma PutVarint_append_inj: "PutVarint a @ xs = PutVarint b @ ys \<longleftrightarrow> a = b \<and> xs = ys"
  unfolding PutVarint_def PutUvarint_append_inj using unzigzag_zigzag by metis

lemma ucast_word_of_nat:
  "(ucast (word_of_nat n :: 64 word) :: 32 word) = word_of_nat n"
  by (simp add: unsigned_of_nat word_of_nat_eq_iff take_bit_take_bit)

lemma unat_ucast_u8 [simp]: "unat (ucast (a :: u8) :: u64) = unat a"
  using unat_u8_less [of a] by (simp add: unsigned_ucast_eq take_bit_nat_eq_self)

lemma unat_ucast_u32 [simp]: "unat (ucast (a :: u32) :: u64) = unat a"
  using unat_u32_less [of a] by (simp add: unsigned_ucast_eq take_bit_nat_eq_self)

lemma ucast_u8_inj [simp]: "(ucast (a :: u8) :: u64) = ucast b \<longleftrightarrow> a = b"
  by (metis unat_ucast_u8 word_unat_eq_iff)

lemma ucast_u32_inj [simp]: "(ucast (a :: u32) :: u64) = ucast b \<longleftrightarrow> a = b"
  by (metis unat_ucast_u32 word_unat_eq_iff)

lemma sint_i64_small:
  assumes "unat (x :: i64) < 2 ^ 63"
  shows "sint x = int (unat x)"
proof -
  have "int (unat x) < 2 ^ 63" using assms by (metis of_nat_less_iff of_nat_numeral of_nat_power)
  then have "uint x < 2 ^ 63" by simp
  moreover have "- (2 ^ 63) \<le> uint x" by (rule order_trans [OF _ uint_ge_0]) simp
  ultimately have "signed_take_bit 63 (uint x) = uint x" by (intro signed_take_bit_int_eq_self)
  then show ?thesis unfolding sint_uint by simp
qed

lemma sint_ucast_u32: "sint (ucast (a :: u32) :: i64) = int (unat a)"
proof -
  have "unat (ucast a :: i64) < 2 ^ 63" using unat_u32_less [of a] by simp
  then show ?thesis by (simp only: sint_i64_small unat_ucast_u32)
qed

lemma ucast_u32_i64 [simp]: "ucast (ucast (a :: u32) :: i64) = a"
proof -
  have "unat (ucast (ucast a :: i64) :: u32) = take_bit 32 (unat (ucast a :: i64))"
    by (subst unsigned_ucast_eq) simp
  then show ?thesis using unat_u32_less [of a] by (simp add: word_unat_eq_iff take_bit_nat_eq_self)
qed

end
