(* ===== verification/Node.thy ===== *)
theory Node
  imports Sha256
begin

text \<open>
  The IAVL tree node of \<^verbatim>\<open>memiavl/node.go\<close> and \<^verbatim>\<open>memiavl/mem_node.go\<close>: a leaf-based, key-ordered,
  AVL-balanced Merkle tree. A branch keeps the smallest key of its right subtree.

  A value of the \<^verbatim>\<open>Node\<close> interface is a \<open>node\<close>. Its \<open>repr\<close> records which implementation holds it:
  \<open>Mem\<close> for a \<^verbatim>\<open>*MemNode\<close> with its hash cache (\<open>None\<close> is a \<^verbatim>\<open>nil\<close> \<^verbatim>\<open>hash\<close> field), \<open>Persisted\<close> for a
  \<^verbatim>\<open>PersistedNode\<close>, whose hash is stored with it. \<^verbatim>\<open>IsLeaf\<close> is \<^verbatim>\<open>height == 0\<close>; the model separates
  the two shapes of the struct by constructor, and \<open>Height\<close> of a leaf is 0. This file is the value
  view: \<^verbatim>\<open>Mutate\<close> returns the node it changes, whether the code clones it or changes it in place.

  The second half proves the structure: the leaf list of \<^verbatim>\<open>setRecursive\<close> and \<^verbatim>\<open>removeRecursive\<close>,
  order, balance, exact height and size fields, and hash caches that agree with the Merkle hash.
\<close>

section \<open>Data\<close>

datatype repr = Mem "bytes option" | Persisted bytes

datatype node =
    Leaf repr u32 bytes bytes
  | Branch repr u8 i64 u32 bytes node node

text \<open>The \<open>Leaf\<close> fields are repr, version, key, value; \<open>Branch\<close>: repr, height, size, version, key,
  left, right.\<close>

fun node_Height :: "node \<Rightarrow> u8" where
  "node_Height (Leaf rp ver k v) = 0"
| "node_Height (Branch rp h s ver k l r) = h"

definition node_IsLeaf :: "node \<Rightarrow> bool" where
  "node_IsLeaf n \<longleftrightarrow> node_Height n = 0"

fun node_Size :: "node \<Rightarrow> i64" where
  "node_Size (Leaf rp ver k v) = 1"
| "node_Size (Branch rp h s ver k l r) = s"

fun node_Version :: "node \<Rightarrow> u32" where
  "node_Version (Leaf rp ver k v) = ver"
| "node_Version (Branch rp h s ver k l r) = ver"

fun node_Key :: "node \<Rightarrow> bytes" where
  "node_Key (Leaf rp ver k v) = k"
| "node_Key (Branch rp h s ver k l r) = k"

text \<open>\<open>None\<close> is the \<^verbatim>\<open>nil\<close> value of a branch.\<close>

fun node_Value :: "node \<Rightarrow> bytes option" where
  "node_Value (Leaf rp ver k v) = Some v"
| "node_Value (Branch rp h s ver k l r) = None"

text \<open>The children of a leaf are never asked for: \<open>reBalance_shapes\<close> below.\<close>

fun node_Left :: "node \<Rightarrow> node" where
  "node_Left (Branch rp h s ver k l r) = l"
| "node_Left n = n"

fun node_Right :: "node \<Rightarrow> node" where
  "node_Right (Branch rp h s ver k l r) = r"
| "node_Right n = n"

fun with_left :: "node \<Rightarrow> node \<Rightarrow> node" where
  "with_left (Branch rp h s ver k l r) l' = Branch rp h s ver k l' r"
| "with_left n l' = n"

fun with_right :: "node \<Rightarrow> node \<Rightarrow> node" where
  "with_right (Branch rp h s ver k l r) r' = Branch rp h s ver k l r'"
| "with_right n r' = n"

fun with_key :: "node \<Rightarrow> bytes \<Rightarrow> node" where
  "with_key (Branch rp h s ver k l r) k' = Branch rp h s ver k' l r"
| "with_key (Leaf rp ver k v) k' = Leaf rp ver k' v"

fun with_value :: "node \<Rightarrow> bytes \<Rightarrow> node" where
  "with_value (Leaf rp ver k v) v' = Leaf rp ver k v'"
| "with_value n v' = n"

section \<open>Construction and balancing\<close>

definition newLeafNode :: "bytes \<Rightarrow> bytes \<Rightarrow> u32 \<Rightarrow> node" where
  "newLeafNode key value version = Leaf (Mem None) version key value"

text \<open>\<^verbatim>\<open>Mutate\<close> sets the version and drops the cached hash; on a persisted node it builds the
  corresponding \<^verbatim>\<open>MemNode\<close>, whose hash is not set.\<close>

fun Mutate :: "node \<Rightarrow> u32 \<Rightarrow> node" where
  "Mutate (Leaf rp ver k v) version = Leaf (Mem None) version k v"
| "Mutate (Branch rp h s ver k l r) version = Branch (Mem None) h s version k l r"

fun updateHeightSize :: "node \<Rightarrow> node" where
  "updateHeightSize (Branch rp h s ver k l r) =
     Branch rp (max (node_Height l) (node_Height r) + 1) (node_Size l + node_Size r) ver k l r"
| "updateHeightSize n = n"

definition calcBalance :: "node \<Rightarrow> int" where
  "calcBalance n = int (unat (node_Height (node_Left n))) - int (unat (node_Height (node_Right n)))"

definition rotateRight :: "node \<Rightarrow> u32 \<Rightarrow> node" where
  "rotateRight n version =
     (let newSelf = Mutate (node_Left n) version;
          n1 = with_left n (node_Right (node_Left n));
          n2 = updateHeightSize n1
      in updateHeightSize (with_right newSelf n2))"

definition rotateLeft :: "node \<Rightarrow> u32 \<Rightarrow> node" where
  "rotateLeft n version =
     (let newSelf = Mutate (node_Right n) version;
          n1 = with_right n (node_Left (node_Right n));
          n2 = updateHeightSize n1
      in updateHeightSize (with_left newSelf n2))"

definition reBalance :: "node \<Rightarrow> u32 \<Rightarrow> node" where
  "reBalance n version =
     (let balance = calcBalance n in
      if balance > 1 then
        (if calcBalance (node_Left n) \<ge> 0 then rotateRight n version
         else rotateRight (with_left n (rotateLeft (Mutate (node_Left n) version) version)) version)
      else if balance < -1 then
        (if calcBalance (node_Right n) \<le> 0 then rotateLeft n version
         else rotateLeft (with_right n (rotateRight (Mutate (node_Right n) version) version)) version)
      else n)"

section \<open>Set and remove\<close>

fun setRecursive :: "node option \<Rightarrow> bytes \<Rightarrow> bytes \<Rightarrow> u32 \<Rightarrow> node \<times> bool" where
  "setRecursive None key value version = (newLeafNode key value version, True)"
| "setRecursive (Some (Leaf rp ver nodeKey v)) key value version =
     (let node = Leaf rp ver nodeKey v; c = bytes_Compare key nodeKey in
      if c = -1 then
        (Branch (Mem None) 1 2 version nodeKey (newLeafNode key value version) node, False)
      else if c = 1 then
        (Branch (Mem None) 1 2 version key node (newLeafNode key value version), False)
      else (with_value (Mutate node version) value, True))"
| "setRecursive (Some (Branch rp h s ver nodeKey l r)) key value version =
     (let node = Branch rp h s ver nodeKey l r;
          (newNode, updated) =
            (if bytes_Compare key nodeKey = -1 then
               (let (newChild, updated) = setRecursive (Some l) key value version
                in (with_left (Mutate node version) newChild, updated))
             else
               (let (newChild, updated) = setRecursive (Some r) key value version
                in (with_right (Mutate node version) newChild, updated)))
      in if \<not> updated then (reBalance (updateHeightSize newNode) version, updated)
         else (newNode, updated))"

text \<open>
  The result is the removed value (\<open>None\<close> is \<^verbatim>\<open>nil\<close>: nothing changed), the new subtree (\<open>None\<close>
  when its only leaf went) and the new smallest key of the subtree, when it changed.
\<close>

fun removeRecursive ::
  "node option \<Rightarrow> bytes \<Rightarrow> u32 \<Rightarrow> bytes option \<times> node option \<times> bytes option" where
  "removeRecursive None key version = (None, None, None)"
| "removeRecursive (Some (Leaf rp ver k v)) key version =
     (if k = key then (Some v, None, None) else (None, Some (Leaf rp ver k v), None))"
| "removeRecursive (Some (Branch rp h s ver k l r)) key version =
     (let node = Branch rp h s ver k l r in
      if bytes_Compare key k = -1 then
        (case removeRecursive (Some l) key version of
           (None, _, _) \<Rightarrow> (None, Some node, None)
         | (Some value, None, newKey) \<Rightarrow> (Some value, Some (node_Right node), Some (node_Key node))
         | (Some value, Some newLeft, newKey) \<Rightarrow>
             (Some value,
              Some (reBalance (updateHeightSize (with_left (Mutate node version) newLeft)) version),
              newKey))
      else
        (case removeRecursive (Some r) key version of
           (None, _, _) \<Rightarrow> (None, Some node, None)
         | (Some value, None, newKey) \<Rightarrow> (Some value, Some (node_Left node), None)
         | (Some value, Some newRight, newKey) \<Rightarrow>
             (let n1 = with_right (Mutate node version) newRight;
                  n2 = (case newKey of None \<Rightarrow> n1 | Some nk \<Rightarrow> with_key n1 nk)
              in (Some value, Some (reBalance (updateHeightSize n2) version), None))))"

section \<open>Queries\<close>

text \<open>\<^verbatim>\<open>uint32(size)\<close> of an \<^verbatim>\<open>int64\<close> keeps the low 32 bits.\<close>

fun node_Get :: "node \<Rightarrow> bytes \<Rightarrow> bytes option \<times> u32" where
  "node_Get (Leaf rp ver k v) key =
     (let c = bytes_Compare k key in
      if c = -1 then (None, 1) else if c = 1 then (None, 0) else (Some v, 0))"
| "node_Get (Branch rp h s ver k l r) key =
     (if bytes_Compare key k = -1 then node_Get l key
      else (let (value, index) = node_Get r key
            in (value, index + ucast s - ucast (node_Size r))))"

text \<open>
  For a persisted subtree \<^verbatim>\<open>Get\<close> and \<^verbatim>\<open>GetByIndex\<close> have implementations of their own. They agree with
  this descent on every key and on every index in range; theory Snapshot shows it, and what happens
  out of range.
\<close>

fun node_GetByIndex :: "node \<Rightarrow> u32 \<Rightarrow> (bytes \<times> bytes) option" where
  "node_GetByIndex (Leaf rp ver k v) index = (if index = 0 then Some (k, v) else None)"
| "node_GetByIndex (Branch rp h s ver k l r) index =
     (let leftSize = ucast (node_Size l) in
      if index < leftSize then node_GetByIndex l index
      else node_GetByIndex r (index - leftSize))"

section \<open>Hashing\<close>

definition EncodeBytes :: "bytes \<Rightarrow> bytes" where
  "EncodeBytes bz = PutUvarint (word_of_nat (length bz)) @ bz"

definition hash_header :: "u8 \<Rightarrow> i64 \<Rightarrow> u32 \<Rightarrow> bytes" where
  "hash_header height sz version =
     PutVarint (ucast height) @ PutVarint sz @ PutVarint (ucast version)"

text \<open>
  \<^verbatim>\<open>Hash\<close> returns the cached or stored hash, and otherwise computes it with \<^verbatim>\<open>HashNode\<close> and keeps it
  in the node. \<^verbatim>\<open>HashNode\<close> digests \<^verbatim>\<open>writeHashBytes\<close>, which asks the children for their hashes, so
  their caches fill as well: both return the node with the caches they wrote.
\<close>

fun node_Hash :: "node \<Rightarrow> bytes \<times> node" where
  "node_Hash (Leaf (Persisted hs) ver k v) = (hs, Leaf (Persisted hs) ver k v)"
| "node_Hash (Leaf (Mem (Some hs)) ver k v) = (hs, Leaf (Mem (Some hs)) ver k v)"
| "node_Hash (Leaf (Mem None) ver k v) =
     (let hs = sha256 (hash_header 0 1 ver @ EncodeBytes k @ EncodeBytes (sha256 v))
      in (hs, Leaf (Mem (Some hs)) ver k v))"
| "node_Hash (Branch (Persisted hs) h s ver k l r) = (hs, Branch (Persisted hs) h s ver k l r)"
| "node_Hash (Branch (Mem (Some hs)) h s ver k l r) = (hs, Branch (Mem (Some hs)) h s ver k l r)"
| "node_Hash (Branch (Mem None) h s ver k l r) =
     (let (lh, l') = node_Hash l; (rh, r') = node_Hash r;
          hs = sha256 (hash_header h s ver @ EncodeBytes lh @ EncodeBytes rh)
      in (hs, Branch (Mem (Some hs)) h s ver k l' r'))"

fun writeHashBytes :: "node \<Rightarrow> bytes \<times> node" where
  "writeHashBytes (Leaf rp ver k v) =
     (hash_header 0 1 ver @ EncodeBytes k @ EncodeBytes (sha256 v), Leaf rp ver k v)"
| "writeHashBytes (Branch rp h s ver k l r) =
     (let (lh, l') = node_Hash l; (rh, r') = node_Hash r
      in (hash_header h s ver @ EncodeBytes lh @ EncodeBytes rh, Branch rp h s ver k l' r'))"

definition HashNode :: "node \<Rightarrow> bytes \<times> node" where
  "HashNode n = (let (bz, n') = writeHashBytes n in (sha256 bz, n'))"

definition VerifyHash :: "node \<Rightarrow> bool" where
  "VerifyHash n = (let (hs, n') = HashNode n in hs = fst (node_Hash n'))"

section \<open>Abstract view and invariants\<close>

text \<open>The leaves from left to right, the height of the tree as a number, and its smallest key.\<close>

fun leaves :: "node \<Rightarrow> (bytes \<times> bytes) list" where
  "leaves (Leaf rp ver k v) = [(k, v)]"
| "leaves (Branch rp h s ver k l r) = leaves l @ leaves r"

fun ht :: "node \<Rightarrow> nat" where
  "ht (Leaf rp ver k v) = 0"
| "ht (Branch rp h s ver k l r) = max (ht l) (ht r) + 1"

fun minkey :: "node \<Rightarrow> bytes" where
  "minkey (Leaf rp ver k v) = k"
| "minkey (Branch rp h s ver k l r) = minkey l"

text \<open>Order: everything on the left is smaller than the branch key, which is the smallest key on
  the right.\<close>

fun ordered :: "node \<Rightarrow> bool" where
  "ordered (Leaf rp ver k v) = True"
| "ordered (Branch rp h s ver k l r) =
     (ordered l \<and> ordered r \<and> (\<forall>p \<in> set (leaves l). fst p < k) \<and> k = minkey r)"

text \<open>Balance, with height fields that are the true height.\<close>

fun balanced :: "node \<Rightarrow> bool" where
  "balanced (Leaf rp ver k v) = True"
| "balanced (Branch rp h s ver k l r) =
     (balanced l \<and> balanced r \<and> \<bar>int (ht l) - int (ht r)\<bar> \<le> 1 \<and> unat h = max (ht l) (ht r) + 1)"

text \<open>Size fields count the leaves.\<close>

fun sized :: "node \<Rightarrow> bool" where
  "sized (Leaf rp ver k v) = True"
| "sized (Branch rp h s ver k l r) =
     (sized l \<and> sized r \<and> s = word_of_nat (length (leaves l) + length (leaves r)))"

text \<open>The Merkle hash, from the contents alone, and the statement that every cached or stored hash is
  the Merkle hash of its node.\<close>

fun merkle :: "node \<Rightarrow> bytes" where
  "merkle (Leaf rp ver k v) =
     sha256 (hash_header 0 1 ver @ EncodeBytes k @ EncodeBytes (sha256 v))"
| "merkle (Branch rp h s ver k l r) =
     sha256 (hash_header h s ver @ EncodeBytes (merkle l) @ EncodeBytes (merkle r))"

fun repr_ok :: "repr \<Rightarrow> bytes \<Rightarrow> bool" where
  "repr_ok (Mem None) hs = True"
| "repr_ok (Mem (Some c)) hs = (c = hs)"
| "repr_ok (Persisted c) hs = (c = hs)"

fun hashed :: "node \<Rightarrow> bool" where
  "hashed (Leaf rp ver k v) = repr_ok rp (merkle (Leaf rp ver k v))"
| "hashed (Branch rp h s ver k l r) =
     (repr_ok rp (merkle (Branch rp h s ver k l r)) \<and> hashed l \<and> hashed r)"

text \<open>What a node digests, and everything digested below a node: the inputs among which a collision
  of the hash function would have to be found.\<close>

fun hash_input :: "node \<Rightarrow> bytes" where
  "hash_input (Leaf rp ver k v) = hash_header 0 1 ver @ EncodeBytes k @ EncodeBytes (sha256 v)"
| "hash_input (Branch rp h s ver k l r) =
     hash_header h s ver @ EncodeBytes (merkle l) @ EncodeBytes (merkle r)"

fun hash_inputs :: "node \<Rightarrow> bytes set" where
  "hash_inputs (Leaf rp ver k v) = {hash_input (Leaf rp ver k v), v}"
| "hash_inputs (Branch rp h s ver k l r) =
     {hash_input (Branch rp h s ver k l r)} \<union> hash_inputs l \<union> hash_inputs r"

text \<open>A node without its cached and stored hashes.\<close>

fun strip :: "node \<Rightarrow> node" where
  "strip (Leaf rp ver k v) = Leaf (Mem None) ver k v"
| "strip (Branch rp h s ver k l r) = Branch (Mem None) h s ver k (strip l) (strip r)"

definition wf_node :: "node \<Rightarrow> bool" where
  "wf_node n \<longleftrightarrow> ordered n \<and> balanced n \<and> sized n \<and> hashed n"

section \<open>Basic facts\<close>

lemma leaves_not_Nil [simp]: "leaves n \<noteq> []"
  by (induction n) auto

lemma length_leaves_pos: "0 < length (leaves n)"
  by simp

lemma minkey_hd: "minkey n = fst (hd (leaves n))"
  by (induction n) auto

lemma minkey_in_leaves: "minkey n \<in> fst ` set (leaves n)"
  by (simp add: minkey_hd)

lemma ordered_minkey_le: "ordered n \<Longrightarrow> p \<in> set (leaves n) \<Longrightarrow> minkey n \<le> fst p"
proof (induction n)
  case (Branch rp h s ver k l r)
  obtain q where q: "q \<in> set (leaves l)" "minkey l = fst q"
    using minkey_in_leaves [of l] by auto
  with Branch.prems have "minkey l < k" by auto
  with Branch show ?case by fastforce
qed simp

lemma ordered_sorted: "ordered n \<Longrightarrow> keys_sorted (leaves n)"
proof (induction n)
  case (Branch rp h s ver k l r)
  then have "\<forall>p \<in> set (leaves r). k \<le> fst p" using ordered_minkey_le by auto
  with Branch show ?case by (auto simp: sorted_wrt_append dest: less_le_trans)
qed simp

lemma ordered_right_ge [order_simps]:
  "ordered (Branch rp h s ver k l r) \<Longrightarrow> p \<in> set (leaves r) \<Longrightarrow> k \<le> fst p"
  using ordered_minkey_le by auto

lemma ordered_not_in:
  assumes "ordered (Branch rp h s ver nk l r)"
  shows "k < nk \<Longrightarrow> k \<notin> fst ` set (leaves r)" and "nk \<le> k \<Longrightarrow> k \<notin> fst ` set (leaves l)"
  using ordered_right_ge [OF assms] assms by fastforce+

lemma balanced_Height: "balanced n \<Longrightarrow> unat (node_Height n) = ht n"
  by (cases n) auto

lemma sized_Size: "sized n \<Longrightarrow> node_Size n = word_of_nat (length (leaves n))"
  by (cases n) auto

lemma ht_0_iff: "ht n = 0 \<longleftrightarrow> (\<exists>rp ver k v. n = Leaf rp ver k v)"
  by (cases n) auto

text \<open>In a balanced node the constructor and the test \<^verbatim>\<open>height == 0\<close> agree.\<close>

lemma IsLeaf_iff: "balanced n \<Longrightarrow> node_IsLeaf n \<longleftrightarrow> (\<exists>rp ver k v. n = Leaf rp ver k v)"
  by (cases n) (auto simp: node_IsLeaf_def)

text \<open>
  A balanced tree of height \<open>h\<close> has at least \<open>2 ^ (h div 2)\<close> leaves, so the 8-bit height field has
  room for every tree whose leaves can be counted.
\<close>

lemma balanced_many_leaves: "balanced n \<Longrightarrow> 2 ^ (ht n div 2) \<le> length (leaves n)"
proof (induction n rule: measure_induct_rule [of ht])
  case (less n)
  show ?case
  proof (cases n)
    case (Leaf rp ver k v)
    then show ?thesis by simp
  next
    case (Branch rp h s ver k l r)
    have b: "balanced l" "balanced r" and d: "\<bar>int (ht l) - int (ht r)\<bar> \<le> 1"
      using less.prems Branch by auto
    have IH: "2 ^ (ht l div 2) \<le> length (leaves l)" "2 ^ (ht r div 2) \<le> length (leaves r)"
      using less.IH [of l] less.IH [of r] b Branch by auto
    show ?thesis
    proof (cases "ht n = 1")
      case True
      then show ?thesis
        using length_leaves_pos [of n] by (simp add: Suc_le_eq)
    next
      case False
      then obtain m where m: "ht n = Suc (Suc m)"
        using Branch by (metis One_nat_def Suc_eq_plus1 ht.simps(2) not0_implies_Suc)
      then have "m \<le> ht l" "m \<le> ht r" using d Branch by auto
      then have "2 ^ (m div 2) \<le> length (leaves l)" "2 ^ (m div 2) \<le> length (leaves r)"
        using IH by (meson div_le_mono le_trans one_le_numeral power_increasing)+
      then have "2 ^ (m div 2) + 2 ^ (m div 2) \<le> length (leaves n)"
        using Branch by simp
      then show ?thesis by (simp add: m)
    qed
  qed
qed

lemma balanced_ht_bound:
  assumes "balanced n" and "length (leaves n) < 2 ^ b"
  shows "ht n < 2 * b"
proof -
  have "(2::nat) ^ (ht n div 2) < 2 ^ b"
    using balanced_many_leaves [OF assms(1)] assms(2) by linarith
  then have "ht n div 2 < b" by (simp add: power_less_imp_less_exp)
  then show ?thesis by linarith
qed

section \<open>Rotations\<close>

text \<open>A branch whose height and size fields have just been recomputed.\<close>

abbreviation mkBranch :: "repr \<Rightarrow> u32 \<Rightarrow> bytes \<Rightarrow> node \<Rightarrow> node \<Rightarrow> node" where
  "mkBranch rp ver k l r \<equiv>
     Branch rp (max (node_Height l) (node_Height r) + 1) (node_Size l + node_Size r) ver k l r"

lemma calcBalance_left:
  assumes "calcBalance (Branch rp h s ver k l r) > 1"
  obtains lrp lh ls lver lk ll lr where "l = Branch lrp lh ls lver lk ll lr"
proof (cases l)
  case (Leaf lrp lver lk lv)
  then have "calcBalance (Branch rp h s ver k l r) \<le> 0" by (simp add: calcBalance_def)
  with assms show thesis by simp
qed (rule that)

lemma calcBalance_right:
  assumes "calcBalance (Branch rp h s ver k l r) < -1"
  obtains rrp rh rs rver rk rl rr where "r = Branch rrp rh rs rver rk rl rr"
proof (cases r)
  case (Leaf rrp rver rk rv)
  then have "0 \<le> calcBalance (Branch rp h s ver k l r)" by (simp add: calcBalance_def)
  with assms show thesis by simp
qed (rule that)

text \<open>
  The five outcomes of \<^verbatim>\<open>reBalance\<close>. A child is only taken apart when its height shows that it is a
  branch, so the missing children of a leaf are never reached.
\<close>

lemma reBalance_shapes:
  obtains
    (same) "\<bar>calcBalance (Branch rp h s ver k l r)\<bar> \<le> 1"
      "reBalance (Branch rp h s ver k l r) v = Branch rp h s ver k l r"
  | (LL) lrp lh ls lver lk ll lr where "l = Branch lrp lh ls lver lk ll lr"
      "calcBalance (Branch rp h s ver k l r) > 1" "node_Height lr \<le> node_Height ll"
      "reBalance (Branch rp h s ver k l r) v = mkBranch (Mem None) v lk ll (mkBranch rp ver k lr r)"
  | (LR) lrp lh ls lver lk ll mrp mh ms mver mk a b where
      "l = Branch lrp lh ls lver lk ll (Branch mrp mh ms mver mk a b)"
      "calcBalance (Branch rp h s ver k l r) > 1" "node_Height ll < mh"
      "reBalance (Branch rp h s ver k l r) v =
         mkBranch (Mem None) v mk (mkBranch (Mem None) v lk ll a) (mkBranch rp ver k b r)"
  | (RR) rrp rh rs rver rk rl rr where "r = Branch rrp rh rs rver rk rl rr"
      "calcBalance (Branch rp h s ver k l r) < -1" "node_Height rl \<le> node_Height rr"
      "reBalance (Branch rp h s ver k l r) v = mkBranch (Mem None) v rk (mkBranch rp ver k l rl) rr"
  | (RL) rrp rh rs rver rk rr mrp mh ms mver mk a b where
      "r = Branch rrp rh rs rver rk (Branch mrp mh ms mver mk a b) rr"
      "calcBalance (Branch rp h s ver k l r) < -1" "node_Height rr < mh"
      "reBalance (Branch rp h s ver k l r) v =
         mkBranch (Mem None) v mk (mkBranch rp ver k l a) (mkBranch (Mem None) v rk b rr)"
proof -
  let ?n = "Branch rp h s ver k l r"
  consider (S) "\<bar>calcBalance ?n\<bar> \<le> 1" | (L) "calcBalance ?n > 1" | (R) "calcBalance ?n < -1"
    by linarith
  then show thesis
  proof cases
    case S
    then show thesis by (intro same) (auto simp: reBalance_def Let_def)
  next
    case L
    then obtain lrp lh ls lver lk ll lr where l: "l = Branch lrp lh ls lver lk ll lr"
      by (rule calcBalance_left)
    show thesis
    proof (cases "node_Height lr \<le> node_Height ll")
      case True
      with L l show thesis
        by (intro LL) (auto simp: reBalance_def calcBalance_def rotateRight_def Let_def word_le_def)
    next
      case False
      then obtain mrp mh ms mver mk a b where lr: "lr = Branch mrp mh ms mver mk a b"
        by (cases lr) auto
      from False L l lr show thesis
        by (intro LR)
          (auto simp: reBalance_def calcBalance_def rotateRight_def rotateLeft_def Let_def word_le_def
            word_less_def)
    qed
  next
    case R
    then obtain rrp rh rs rver rk rl rr where r: "r = Branch rrp rh rs rver rk rl rr"
      by (rule calcBalance_right)
    show thesis
    proof (cases "node_Height rl \<le> node_Height rr")
      case True
      with R r show thesis
        by (intro RR) (auto simp: reBalance_def calcBalance_def rotateLeft_def Let_def word_le_def)
    next
      case False
      then obtain mrp mh ms mver mk a b where rl: "rl = Branch mrp mh ms mver mk a b"
        by (cases rl) auto
      from False R r rl show thesis
        by (intro RL)
          (auto simp: reBalance_def calcBalance_def rotateRight_def rotateLeft_def Let_def word_le_def
            word_less_def)
    qed
  qed
qed

lemma leaves_reBalance [simp]:
  "leaves (reBalance (Branch rp h s ver k l r) v) = leaves l @ leaves r"
  by (cases rule: reBalance_shapes [of rp h s ver k l r v]) auto

lemma minkey_reBalance [simp]: "minkey (reBalance (Branch rp h s ver k l r) v) = minkey l"
  by (simp add: minkey_hd)

lemma ordered_reBalance:
  assumes "ordered (Branch rp h s ver k l r)"
  shows "ordered (reBalance (Branch rp h s ver k l r) v)"
proof (cases rule: reBalance_shapes [of rp h s ver k l r v])
  case (LL lrp lh ls lver lk ll lr)
  with assms show ?thesis by (auto simp: minkey_in_leaves)
next
  case (LR lrp lh ls lver lk ll mrp mh ms mver mk a b)
  have "mk \<in> fst ` set (leaves b)" using assms LR minkey_in_leaves [of b] by auto
  moreover have "\<forall>p \<in> set (leaves b). fst p < k" using assms LR(1) by (auto simp: ball_Un)
  ultimately have "mk < k" by auto
  have "minkey a \<in> fst ` set (leaves a)" by (rule minkey_in_leaves)
  then have "lk < mk" using assms LR by auto
  then show ?thesis using assms LR by (auto dest: less_trans)
next
  case (RR rrp rh rs rver rk rl rr)
  have "k \<in> fst ` set (leaves rl)" using assms RR minkey_in_leaves [of rl] by auto
  then have "k < rk" using assms RR by auto
  then show ?thesis using assms RR by (auto dest: less_trans)
next
  case (RL rrp rh rs rver rk rr mrp mh ms mver mk a b)
  have "k \<in> fst ` set (leaves a)" using assms RL minkey_in_leaves [of a] by auto
  then have "k < mk" using assms RL by auto
  then show ?thesis using assms RL by (auto dest: less_trans)
qed (use assms in auto)

lemma sized_reBalance:
  "sized (Branch rp h s ver k l r) \<Longrightarrow> sized (reBalance (Branch rp h s ver k l r) v)"
  by (cases rule: reBalance_shapes [of rp h s ver k l r v]) (auto simp: sized_Size)

lemma hashed_reBalance:
  "rp = Mem None \<Longrightarrow> hashed l \<Longrightarrow> hashed r \<Longrightarrow> hashed (reBalance (Branch rp h s ver k l r) v)"
  by (cases rule: reBalance_shapes [of rp h s ver k l r v]) auto

lemma unat_max_Suc:
  assumes "unat (a :: u8) < 255" and "unat b < 255"
  shows "unat (max a b + 1) = max (unat a) (unat b) + 1"
proof -
  have "unat (max a b) < 255" using assms by (simp add: max_def)
  then have "unat (max a b + 1) = unat (max a b) + 1"
    by (simp add: unat_word_ariths)
  then show ?thesis by (simp add: max_def word_le_nat_alt)
qed

lemma balanced_mkBranch:
  assumes "balanced l" and "balanced r" and "\<bar>int (ht l) - int (ht r)\<bar> \<le> 1"
    and "ht l < 255" and "ht r < 255"
  shows "balanced (mkBranch rp ver k l r)"
  using assms by (simp add: unat_max_Suc balanced_Height)

lemma balanced_reBalance:
  assumes "balanced l" and "balanced r" and "\<bar>int (ht l) - int (ht r)\<bar> \<le> 2"
    and "ht l < 254" and "ht r < 254"
  shows "balanced (reBalance (mkBranch rp ver k l r) v) \<and>
    (if \<bar>int (ht l) - int (ht r)\<bar> \<le> 1
     then ht (reBalance (mkBranch rp ver k l r) v) = max (ht l) (ht r) + 1
     else ht (reBalance (mkBranch rp ver k l r) v) \<in> {max (ht l) (ht r), max (ht l) (ht r) + 1})"
    (is "balanced (reBalance ?n v) \<and> _")
proof -
  have cb: "calcBalance ?n = int (ht l) - int (ht r)"
    using assms by (simp add: calcBalance_def balanced_Height)
  note le = word_le_nat_alt [of "node_Height a" "node_Height b" for a b]
    and less = word_less_nat_alt [of "node_Height a" "node_Height b" for a b]
  show ?thesis
  proof (cases rule: reBalance_shapes [of rp "max (node_Height l) (node_Height r) + 1"
      "node_Size l + node_Size r" ver k l r v])
    case same
    with assms cb show ?thesis by (simp add: unat_max_Suc balanced_Height)
  next
    case (LL lrp lh ls lver lk ll lr)
    have b: "balanced ll" "balanced lr" "\<bar>int (ht ll) - int (ht lr)\<bar> \<le> 1" "ht lr \<le> ht ll"
      using assms LL(1,3) unfolding le by (auto simp: balanced_Height)
    have hl: "ht l = ht ll + 1" "ht l = ht r + 2" using assms(3) LL(1,2) b(4) cb by auto
    have i: "balanced (mkBranch rp ver k lr r)"
      using assms b hl by (intro balanced_mkBranch) auto
    have "balanced (mkBranch (Mem None) v lk ll (mkBranch rp ver k lr r))"
      using assms b hl i by (intro balanced_mkBranch) auto
    then show ?thesis unfolding LL(4) using b hl by auto
  next
    case (LR lrp lh ls lver lk ll mrp mh ms mver mk a b)
    have b: "balanced ll" "balanced a" "balanced b" "\<bar>int (ht a) - int (ht b)\<bar> \<le> 1"
      "ht ll < max (ht a) (ht b) + 1" "\<bar>int (ht ll) - int (max (ht a) (ht b) + 1)\<bar> \<le> 1"
      using assms(1) LR(1,3) unfolding word_less_nat_alt by (auto simp: balanced_Height)
    have hl: "ht ll = max (ht a) (ht b)" "ht l = ht ll + 2" "ht r = ht ll"
      using assms(3) LR(1,2) b cb by auto
    have i: "balanced (mkBranch rp ver k b r)" "balanced (mkBranch (Mem None) v lk ll a)"
      using assms b hl by (auto intro!: balanced_mkBranch simp del: balanced.simps)
    have "balanced (mkBranch (Mem None) v mk (mkBranch (Mem None) v lk ll a) (mkBranch rp ver k b r))"
      using assms b hl i by (intro balanced_mkBranch) auto
    then show ?thesis unfolding LR(4) using b hl by (auto simp: max_def)
  next
    case (RR rrp rh rs rver rk rl rr)
    have b: "balanced rl" "balanced rr" "\<bar>int (ht rl) - int (ht rr)\<bar> \<le> 1" "ht rl \<le> ht rr"
      using assms RR(1,3) unfolding le by (auto simp: balanced_Height)
    have hl: "ht r = ht rr + 1" "ht r = ht l + 2" using assms(3) RR(1,2) b(4) cb by auto
    have i: "balanced (mkBranch rp ver k l rl)"
      using assms b hl by (intro balanced_mkBranch) auto
    have "balanced (mkBranch (Mem None) v rk (mkBranch rp ver k l rl) rr)"
      using assms b hl i by (intro balanced_mkBranch) auto
    then show ?thesis unfolding RR(4) using b hl by auto
  next
    case (RL rrp rh rs rver rk rr mrp mh ms mver mk a b)
    have b: "balanced rr" "balanced a" "balanced b" "\<bar>int (ht a) - int (ht b)\<bar> \<le> 1"
      "ht rr < max (ht a) (ht b) + 1" "\<bar>int (ht rr) - int (max (ht a) (ht b) + 1)\<bar> \<le> 1"
      using assms(2) RL(1,3) unfolding word_less_nat_alt by (auto simp: balanced_Height)
    have hl: "ht rr = max (ht a) (ht b)" "ht r = ht rr + 2" "ht l = ht rr"
      using assms(3) RL(1,2) b cb by auto
    have i: "balanced (mkBranch rp ver k l a)" "balanced (mkBranch (Mem None) v rk b rr)"
      using assms b hl by (auto intro!: balanced_mkBranch simp del: balanced.simps)
    have "balanced (mkBranch (Mem None) v mk (mkBranch rp ver k l a) (mkBranch (Mem None) v rk b rr))"
      using assms b hl i by (intro balanced_mkBranch) auto
    then show ?thesis unfolding RL(4) using b hl by (auto simp: max_def)
  qed
qed

section \<open>Set\<close>

lemma setRecursive_Branch:
  "setRecursive (Some (Branch rp h s ver nk l r)) k v w =
     (if k < nk then
        (case setRecursive (Some l) k v w of (c, u) \<Rightarrow>
           (if u then Branch (Mem None) h s w nk c r
            else reBalance (mkBranch (Mem None) w nk c r) w, u))
      else
        (case setRecursive (Some r) k v w of (c, u) \<Rightarrow>
           (if u then Branch (Mem None) h s w nk l c
            else reBalance (mkBranch (Mem None) w nk l c) w, u)))"
  by (auto simp: Let_def split: prod.splits)

lemma setRecursive_Leaf:
  "setRecursive (Some (Leaf rp ver nk nv)) k v w =
     (if k < nk then (Branch (Mem None) 1 2 w nk (newLeafNode k v w) (Leaf rp ver nk nv), False)
      else if nk < k then (Branch (Mem None) 1 2 w k (Leaf rp ver nk nv) (newLeafNode k v w), False)
      else (Leaf (Mem None) w nk v, True))"
  by (simp add: Let_def)

declare setRecursive.simps(2,3) [simp del]

lemma setRecursive_BranchE:
  assumes "setRecursive (Some (Branch rp h s ver nk l r)) k v w = (c, u)"
  obtains
    (left) c' where "k < nk" "setRecursive (Some l) k v w = (c', u)"
      "c = (if u then Branch (Mem None) h s w nk c' r else reBalance (mkBranch (Mem None) w nk c' r) w)"
  | (right) c' where "nk \<le> k" "setRecursive (Some r) k v w = (c', u)"
      "c = (if u then Branch (Mem None) h s w nk l c' else reBalance (mkBranch (Mem None) w nk l c') w)"
proof (cases "k < nk")
  case True
  obtain c' u' where "setRecursive (Some l) k v w = (c', u')" by force
  with assms True show thesis by (intro left) (auto simp: setRecursive_Branch)
next
  case False
  obtain c' u' where "setRecursive (Some r) k v w = (c', u')" by force
  with assms False show thesis by (intro right) (auto simp: setRecursive_Branch)
qed

lemma setRecursive_contents:
  assumes "ordered n" and "setRecursive (Some n) k v w = (c, u)"
  shows "ordered c \<and> leaves c = put_pair k v (leaves n) \<and> (u \<longleftrightarrow> k \<in> fst ` set (leaves n))"
  using assms
proof (induction n arbitrary: c u)
  case (Leaf rp ver nk nv)
  then show ?case
    by (auto simp: setRecursive_Leaf newLeafNode_def put_pair_def split: if_splits)
next
  case (Branch rp h s ver nk l r)
  have o: "ordered l" "ordered r" "\<And>p. p \<in> set (leaves l) \<Longrightarrow> fst p < nk" "nk = minkey r"
    "\<And>p. p \<in> set (leaves r) \<Longrightarrow> nk \<le> fst p"
    using Branch.prems(1) ordered_right_ge by auto
  from Branch.prems(2) show ?case
  proof (cases rule: setRecursive_BranchE)
    case (left c')
    note True = left(1) and c' = left(2) and c = left(3)
    note IH = Branch.IH(1) [OF o(1) c']
    have "\<forall>p \<in> set (leaves c'). fst p < nk"
      using IH o(3) True set_put_pair [of k v "leaves l"] by auto
    then have "ordered c" using IH o c by (auto intro!: ordered_reBalance)
    moreover have "leaves c = put_pair k v (leaves (Branch rp h s ver nk l r))"
      using IH c put_pair_append_left [OF True o(5)] by simp
    ultimately show ?thesis using IH ordered_not_in(1) [OF Branch.prems(1) True] by auto
  next
    case (right c')
    note False = right(1) and c' = right(2) and c = right(3)
    note IH = Branch.IH(2) [OF o(2) c']
    have "minkey c' = nk"
      using IH o(2,4) False hd_put_pair [of "leaves r" k v] ordered_sorted [of r]
      by (simp add: minkey_hd)
    then have "ordered c" using IH o c by (auto intro!: ordered_reBalance)
    moreover have "leaves c = put_pair k v (leaves (Branch rp h s ver nk l r))"
      using IH c put_pair_append_right [of nk k "leaves l", OF _ o(3)] False by simp
    ultimately show ?thesis using IH ordered_not_in(2) [OF Branch.prems(1) False] by auto
  qed
qed

lemma setRecursive_sized:
  assumes "ordered n" and "sized n" and "setRecursive (Some n) k v w = (c, u)"
  shows "sized c"
  using assms
proof (induction n arbitrary: c u)
  case (Branch rp h s ver nk l r)
  have len: "u' \<Longrightarrow> length (leaves c') = length (leaves m)"
    if "ordered m" "setRecursive (Some m) k v w = (c', u')" for m c' u'
    using setRecursive_contents [OF that] length_put_pair [OF ordered_sorted [OF that(1)], of k v]
    by auto
  have o: "ordered l" "ordered r" and z: "sized l" "sized r"
    "s = word_of_nat (length (leaves l) + length (leaves r))"
    using Branch.prems(1,2) by auto
  from Branch.prems(3) show ?case
  proof (cases rule: setRecursive_BranchE)
    case (left c')
    have "sized c'" by (rule Branch.IH(1) [OF o(1) z(1) left(2)])
    with left z len [OF o(1) left(2)] show ?thesis by (auto simp: sized_Size intro!: sized_reBalance)
  next
    case (right c')
    have "sized c'" by (rule Branch.IH(2) [OF o(2) z(2) right(2)])
    with right z len [OF o(2) right(2)] show ?thesis by (auto simp: sized_Size intro!: sized_reBalance)
  qed
qed (auto simp: setRecursive_Leaf newLeafNode_def split: if_splits)

lemma setRecursive_hashed:
  "hashed n \<Longrightarrow> setRecursive (Some n) k v w = (c, u) \<Longrightarrow> hashed c"
proof (induction n arbitrary: c u)
  case (Branch rp h s ver nk l r)
  from Branch.prems(2) show ?case
  proof (cases rule: setRecursive_BranchE)
    case (left c')
    have "hashed c'" by (rule Branch.IH(1) [OF _ left(2)]) (use Branch.prems(1) in simp)
    then show ?thesis using left(3) Branch.prems(1) by (simp add: hashed_reBalance)
  next
    case (right c')
    have "hashed c'" by (rule Branch.IH(2) [OF _ right(2)]) (use Branch.prems(1) in simp)
    then show ?thesis using right(3) Branch.prems(1) by (simp add: hashed_reBalance)
  qed
qed (auto simp: setRecursive_Leaf newLeafNode_def split: if_splits)

lemma setRecursive_balanced:
  assumes "balanced n" and "ht n < 253" and "setRecursive (Some n) k v w = (c, u)"
  shows "balanced c \<and> (if u then ht c = ht n else ht c \<in> {ht n, ht n + 1})"
  using assms
proof (induction n arbitrary: c u)
  case (Leaf rp ver nk nv)
  then show ?case by (auto simp: setRecursive_Leaf newLeafNode_def split: if_splits)
next
  case (Branch rp h s ver nk l r)
  have b: "balanced l" "balanced r" "\<bar>int (ht l) - int (ht r)\<bar> \<le> 1" "ht l < 253" "ht r < 253"
    and h: "unat h = max (ht l) (ht r) + 1"
    using Branch.prems(1,2) by auto
  from Branch.prems(3) show ?case
  proof (cases rule: setRecursive_BranchE)
    case (left c')
    note True = left(1) and c' = left(2) and c = left(3)
    have IH: "balanced c'" "if u then ht c' = ht l else ht c' \<in> {ht l, ht l + 1}"
      using Branch.IH(1) [OF b(1,4) c'] by auto
    have "\<bar>int (ht c') - int (ht r)\<bar> \<le> 2" "ht c' < 254" using IH(2) b by (auto split: if_splits)
    from balanced_reBalance [OF IH(1) b(2) this(1) this(2), of "Mem None" w nk w]
    show ?thesis using IH b c h by (auto split: if_splits)
  next
    case (right c')
    note False = right(1) and c' = right(2) and c = right(3)
    have IH: "balanced c'" "if u then ht c' = ht r else ht c' \<in> {ht r, ht r + 1}"
      using Branch.IH(2) [OF b(2,5) c'] by auto
    have "\<bar>int (ht l) - int (ht c')\<bar> \<le> 2" "ht c' < 254" using IH(2) b by (auto split: if_splits)
    from balanced_reBalance [OF b(1) IH(1) this(1) _ this(2), of "Mem None" w nk w]
    show ?thesis using IH b c h by (auto split: if_splits)
  qed
qed

section \<open>Remove\<close>

declare removeRecursive.simps(3) [simp del]

lemma removeRecursive_BranchE:
  assumes "removeRecursive (Some (Branch rp h s ver nk l r)) k w = (Some val, n', key')"
  obtains
    (leftGone) x where "k < nk" "removeRecursive (Some l) k w = (Some val, None, x)"
      "n' = Some r" "key' = Some nk"
  | (left) c where "k < nk" "removeRecursive (Some l) k w = (Some val, Some c, key')"
      "n' = Some (reBalance (mkBranch (Mem None) w nk c r) w)"
  | (rightGone) x where "nk \<le> k" "removeRecursive (Some r) k w = (Some val, None, x)"
      "n' = Some l" "key' = None"
  | (right) c x where "nk \<le> k" "removeRecursive (Some r) k w = (Some val, Some c, x)"
      "n' = Some (reBalance (mkBranch (Mem None) w (case x of None \<Rightarrow> nk | Some q \<Rightarrow> q) l c) w)"
      "key' = None"
proof (cases "k < nk")
  case True
  obtain v' m x where "removeRecursive (Some l) k w = (v', m, x)" by (metis surj_pair)
  with assms True show thesis
    by (cases v'; cases m) (auto simp: removeRecursive.simps(3) Let_def intro: leftGone left)
next
  case False
  obtain v' m x where "removeRecursive (Some r) k w = (v', m, x)" by (metis surj_pair)
  with assms False show thesis
    by (cases v'; cases m; cases x)
      (auto simp: removeRecursive.simps(3) Let_def intro: rightGone right)
qed

lemma removeRecursive_NoneD:
  assumes "removeRecursive (Some n) k w = (None, n', key')"
  shows "n' = Some n \<and> key' = None"
  using assms
  by (cases n) (auto simp: removeRecursive.simps(3) Let_def split: if_splits prod.splits option.splits)

lemma removeRecursive_absent:
  assumes "ordered n"
  shows "fst (removeRecursive (Some n) k w) = None \<longleftrightarrow> k \<notin> fst ` set (leaves n)"
  using assms
proof (induction n)
  case (Leaf rp ver nk nv)
  then show ?case by auto
next
  case (Branch rp h s ver nk l r)
  note lr = ordered_not_in [OF Branch.prems, of k]
  have "fst (removeRecursive (Some (Branch rp h s ver nk l r)) k w) = None \<longleftrightarrow>
    fst (removeRecursive (Some (if k < nk then l else r)) k w) = None"
    by (auto simp: removeRecursive.simps(3) Let_def split: prod.splits option.splits)
  then show ?case using Branch lr by auto
qed

lemma removeRecursive_contents:
  assumes "ordered n" and "removeRecursive (Some n) k w = (Some val, n', key')"
  shows "map_of (leaves n) k = Some val \<and> pred_option ordered n' \<and>
    del_pair k (leaves n) = (case n' of None \<Rightarrow> [] | Some c \<Rightarrow> leaves c) \<and>
    key' = (if k = minkey n then map_option minkey n' else None)"
  using assms
proof (induction n arbitrary: n' key')
  case (Leaf rp ver nk nv)
  then show ?case by (auto simp: del_pair_def split: if_splits)
next
  case (Branch rp h s ver nk l r)
  have o: "ordered l" "ordered r" "\<And>p. p \<in> set (leaves l) \<Longrightarrow> fst p < nk" "nk = minkey r"
    "\<And>p. p \<in> set (leaves r) \<Longrightarrow> nk \<le> fst p"
    using Branch.prems(1) ordered_right_ge by auto
  note kr = ordered_not_in(1) [OF Branch.prems(1), of k]
    and kl = ordered_not_in(2) [OF Branch.prems(1), of k]
  have nl: "nk \<le> k \<Longrightarrow> map_of (leaves l) k = None" using kl by (simp add: map_of_eq_None_keys)
  have ml: "nk \<le> k \<Longrightarrow> k \<noteq> minkey l" using kl minkey_in_leaves [of l] by auto
  from Branch.prems(2) show ?case
  proof (cases rule: removeRecursive_BranchE)
    case (leftGone x)
    from Branch.IH(1) [OF o(1) this(2)] have "k = minkey l" "map_of (leaves l) k = Some val"
      "del_pair k (leaves l) = []"
      using minkey_in_leaves [of l] by (auto simp: del_pair_def filter_empty_conv)
    then show ?thesis using leftGone o kr by (simp add: del_pair_absent map_add_Some_iff)
  next
    case (left c)
    from Branch.IH(1) [OF o(1) this(2)] have IH: "ordered c" "del_pair k (leaves l) = leaves c"
      "map_of (leaves l) k = Some val" "key' = (if k = minkey l then Some (minkey c) else None)"
      by auto
    have "\<forall>p \<in> set (leaves c). fst p < nk" using o(3) IH(2) [symmetric] by (simp add: set_del_pair)
    then have "ordered (reBalance (mkBranch (Mem None) w nk c r) w)"
      using IH o by (intro ordered_reBalance) simp
    then show ?thesis using left IH kr by (simp add: del_pair_absent map_add_def map_of_eq_None_iff)
  next
    case (rightGone x)
    from Branch.IH(2) [OF o(2) this(2)] have "map_of (leaves r) k = Some val"
      "del_pair k (leaves r) = []" by auto
    then show ?thesis using rightGone o(1) kl ml nl by (simp add: del_pair_absent map_add_def)
  next
    case (right c x)
    from Branch.IH(2) [OF o(2) this(2)] have IH: "ordered c" "del_pair k (leaves r) = leaves c"
      "map_of (leaves r) k = Some val" "x = (if k = minkey r then Some (minkey c) else None)"
      by auto
    have q: "(case x of None \<Rightarrow> nk | Some q \<Rightarrow> q) = minkey c"
      using IH(2,4) o(4) hd_del_pair [of "leaves r" k] by (auto simp: minkey_hd)
    have "minkey c \<in> fst ` set (leaves r)"
      using minkey_in_leaves [of c] IH(2) [symmetric] by (auto simp: set_del_pair)
    then have "nk \<le> minkey c" using o(5) by auto
    then have "ordered (reBalance (mkBranch (Mem None) w (minkey c) l c) w)"
      using IH o by (intro ordered_reBalance) (auto dest: o(3))
    then show ?thesis using right IH kl ml nl q by (simp add: del_pair_absent map_add_def)
  qed
qed

lemma removeRecursive_sized:
  assumes "sized n" and "removeRecursive (Some n) k w = (Some val, n', key')"
  shows "pred_option sized n'"
  using assms
proof (induction n arbitrary: n' key')
  case (Branch rp h s ver nk l r)
  from Branch.prems(2) show ?case
  proof (cases rule: removeRecursive_BranchE)
    case (left c)
    have "sized c" using Branch.IH(1) [OF _ left(2)] Branch.prems(1) by simp
    then show ?thesis using left Branch.prems(1) by (auto simp: sized_Size intro!: sized_reBalance)
  next
    case (right c x)
    have "sized c" using Branch.IH(2) [OF _ right(2)] Branch.prems(1) by simp
    then show ?thesis using right Branch.prems(1) by (auto simp: sized_Size intro!: sized_reBalance)
  qed (use Branch.prems(1) in auto)
qed (auto split: if_splits)

lemma removeRecursive_hashed:
  assumes "hashed n" and "removeRecursive (Some n) k w = (Some val, n', key')"
  shows "pred_option hashed n'"
  using assms
proof (induction n arbitrary: n' key')
  case (Branch rp h s ver nk l r)
  from Branch.prems(2) show ?case
  proof (cases rule: removeRecursive_BranchE)
    case (left c)
    have "hashed c" using Branch.IH(1) [OF _ left(2)] Branch.prems(1) by simp
    then show ?thesis using left Branch.prems(1) by (simp add: hashed_reBalance)
  next
    case (right c x)
    have "hashed c" using Branch.IH(2) [OF _ right(2)] Branch.prems(1) by simp
    then show ?thesis using right Branch.prems(1) by (simp add: hashed_reBalance)
  qed (use Branch.prems(1) in auto)
qed (auto split: if_splits)

lemma removeRecursive_balanced:
  assumes "balanced n" and "ht n < 254" and "removeRecursive (Some n) k w = (Some val, n', key')"
  shows "case n' of None \<Rightarrow> ht n = 0 | Some c \<Rightarrow> balanced c \<and> (ht c = ht n \<or> Suc (ht c) = ht n)"
  using assms
proof (induction n arbitrary: n' key')
  case (Leaf rp ver nk nv)
  then show ?case by (auto split: if_splits)
next
  case (Branch rp h s ver nk l r)
  have b: "balanced l" "balanced r" "\<bar>int (ht l) - int (ht r)\<bar> \<le> 1" "ht l < 254" "ht r < 254"
    using Branch.prems(1,2) by auto
  from Branch.prems(3) show ?case
  proof (cases rule: removeRecursive_BranchE)
    case (leftGone x)
    then show ?thesis using Branch.IH(1) [OF b(1,4) leftGone(2)] b by auto
  next
    case (left c)
    have IH: "balanced c" "ht c = ht l \<or> Suc (ht c) = ht l"
      using Branch.IH(1) [OF b(1,4) left(2)] by auto
    have "\<bar>int (ht c) - int (ht r)\<bar> \<le> 2" "ht c < 254" using IH(2) b by auto
    from balanced_reBalance [OF IH(1) b(2) this(1) this(2), of "Mem None" w nk w]
    show ?thesis using IH b left(3) by (auto split: if_splits)
  next
    case (rightGone x)
    then show ?thesis using Branch.IH(2) [OF b(2,5) rightGone(2)] b by auto
  next
    case (right c x)
    have IH: "balanced c" "ht c = ht r \<or> Suc (ht c) = ht r"
      using Branch.IH(2) [OF b(2,5) right(2)] by auto
    have "\<bar>int (ht l) - int (ht c)\<bar> \<le> 2" "ht c < 254" using IH(2) b by auto
    from balanced_reBalance [OF b(1) IH(1) this(1) _ this(2), of "Mem None" w
        "case x of None \<Rightarrow> nk | Some q \<Rightarrow> q" w]
    show ?thesis using IH b right(3) by (auto split: if_splits)
  qed
qed

section \<open>Queries\<close>

lemma node_Get_spec:
  assumes "ordered n" and "sized n"
  shows "node_Get n k =
    (map_of (leaves n) k, word_of_nat (length (filter (\<lambda>p. fst p < k) (leaves n))))"
  using assms
proof (induction n)
  case (Leaf rp ver nk nv)
  then show ?case by (auto simp: Let_def not_less_iff_gr_or_eq)
next
  case (Branch rp h s ver nk l r)
  have o: "ordered l" "ordered r" "sized l" "sized r" "\<And>p. p \<in> set (leaves l) \<Longrightarrow> fst p < nk"
    "s = word_of_nat (length (leaves l) + length (leaves r))"
    "\<And>p. p \<in> set (leaves r) \<Longrightarrow> nk \<le> fst p"
    using Branch.prems ordered_right_ge by auto
  note absent = ordered_not_in [OF Branch.prems(1), of k]
  show ?case
  proof (cases "k < nk")
    case True
    have "filter (\<lambda>p. fst p < k) (leaves r) = []"
      using True o(7) by (force intro!: filter_none)
    moreover have "map_of (leaves r) k = None"
      using absent(1) [OF True] by (simp add: map_of_eq_None_keys)
    ultimately show ?thesis using True Branch.IH(1) [OF o(1,3)]
      by (simp add: map_add_def split: option.split)
  next
    case False
    then have "filter (\<lambda>p. fst p < k) (leaves l) = leaves l"
      using o(5) by (force intro!: filter_all)
    moreover have "map_of (leaves l) k = None"
      using absent(2) False by (simp add: map_of_eq_None_keys)
    ultimately show ?thesis using False Branch.IH(2) [OF o(2,4)] o(6) sized_Size [OF o(4)]
      by (simp add: map_add_def ucast_word_of_nat del: of_nat_add) simp
  qed
qed

lemma node_GetByIndex_spec:
  assumes "sized n" and "length (leaves n) < 2 ^ 32"
  shows "node_GetByIndex n i =
    (if unat i < length (leaves n) then Some (leaves n ! unat i) else None)"
  using assms
proof (induction n arbitrary: i)
  case (Leaf rp ver nk nv)
  then show ?case by (simp add: unat_eq_0)
next
  case (Branch rp h s ver nk l r)
  have z: "sized l" "sized r" "length (leaves l) < 2 ^ 32" "length (leaves r) < 2 ^ 32"
    using Branch.prems by auto
  let ?ls = "word_of_nat (length (leaves l)) :: u32"
  have ls: "unat ?ls = length (leaves l)" using z(3) by (simp add: unat_of_nat)
  have step: "node_GetByIndex (Branch rp h s ver nk l r) i =
    (if i < ?ls then node_GetByIndex l i else node_GetByIndex r (i - ?ls))"
    using sized_Size [OF z(1)] by (simp add: Let_def ucast_word_of_nat)
  show ?case
  proof (cases "i < ?ls")
    case True
    then show ?thesis using Branch.IH(1) [OF z(1,3)] ls step
      by (simp add: word_less_nat_alt nth_append)
  next
    case False
    then have "unat (i - ?ls) = unat i - length (leaves l)" "length (leaves l) \<le> unat i"
      using ls by (simp_all add: unat_sub word_less_nat_alt not_less word_le_nat_alt)
    then show ?thesis using Branch.IH(2) [OF z(2,4), of "i - ?ls"] False step
      by (auto simp: nth_append)
  qed
qed

section \<open>Hashes\<close>

lemma merkle_hash_input: "merkle n = sha256 (hash_input n)"
  by (cases n) auto

lemma strip_simps [simp]:
  "leaves (strip n) = leaves n" "minkey (strip n) = minkey n" "ht (strip n) = ht n"
  "ordered (strip n) = ordered n" "balanced (strip n) = balanced n" "sized (strip n) = sized n"
  "merkle (strip n) = merkle n"
proof -
  show l: "leaves (strip n) = leaves n" for n by (induction n) auto
  show m: "minkey (strip n) = minkey n" for n by (induction n) auto
  show h: "ht (strip n) = ht n" for n by (induction n) auto
  show "ordered (strip n) = ordered n" by (induction n) (auto simp: l m)
  show "balanced (strip n) = balanced n" by (induction n) (auto simp: h)
  show "sized (strip n) = sized n" by (induction n) (auto simp: l)
  show "merkle (strip n) = merkle n" by (induction n) auto
qed

lemma node_Hash_strip: "strip (snd (node_Hash n)) = strip n"
  by (induction n rule: node_Hash.induct) (auto simp: Let_def split: prod.splits)

lemma node_Hash_merkle: "hashed n \<Longrightarrow> fst (node_Hash n) = merkle n"
  by (induction n rule: node_Hash.induct) (auto simp: Let_def split: prod.splits)

lemma merkle_node_Hash: "merkle (snd (node_Hash n)) = merkle n"
  using strip_simps(7) node_Hash_strip by metis

lemma node_Hash_Branch:
  "node_Hash (Branch (Mem None) h s ver k l r) =
     (let hs = sha256 (hash_header h s ver @ EncodeBytes (fst (node_Hash l))
        @ EncodeBytes (fst (node_Hash r)))
      in (hs, Branch (Mem (Some hs)) h s ver k (snd (node_Hash l)) (snd (node_Hash r))))"
  by (simp add: Let_def split: prod.split)

lemma HashNode_Branch:
  "HashNode (Branch rp h s ver k l r) =
     (sha256 (hash_header h s ver @ EncodeBytes (fst (node_Hash l)) @ EncodeBytes (fst (node_Hash r))),
      Branch rp h s ver k (snd (node_Hash l)) (snd (node_Hash r)))"
  by (simp add: HashNode_def Let_def split: prod.split)

lemma node_Hash_hashed: "hashed n \<Longrightarrow> hashed (snd (node_Hash n))"
proof (induction n)
  case (Leaf rp ver k v)
  then show ?case by (cases "Leaf rp ver k v" rule: node_Hash.cases) (auto simp: Let_def)
next
  case (Branch rp h s ver k l r)
  then show ?case
    by (cases rp rule: repr_ok.cases [of "(rp, _)" for rp])
      (auto simp: node_Hash_Branch Let_def node_Hash_merkle merkle_node_Hash simp del: node_Hash.simps(6))
qed

text \<open>Asking again gives the same hash and writes nothing more.\<close>

lemma node_Hash_cached: "node_Hash (snd (node_Hash n)) = node_Hash n"
  by (induction n rule: node_Hash.induct) (auto simp: Let_def split: prod.splits)

lemma HashNode_spec:
  assumes "hashed n"
  shows "fst (HashNode n) = merkle n" and "hashed (snd (HashNode n))"
proof -
  have "fst (HashNode n) = merkle n \<and> hashed (snd (HashNode n))"
  proof (cases n)
    case (Leaf rp ver k v)
    then show ?thesis using assms by (simp add: HashNode_def)
  next
    case (Branch rp h s ver k l r)
    then show ?thesis using assms
      by (simp add: HashNode_Branch node_Hash_merkle merkle_node_Hash node_Hash_hashed)
  qed
  then show "fst (HashNode n) = merkle n" and "hashed (snd (HashNode n))" by auto
qed

lemma merkle_HashNode: "merkle (snd (HashNode n)) = merkle n"
proof (cases n)
  case (Leaf rp ver k v)
  then show ?thesis by (simp add: HashNode_def)
qed (simp add: HashNode_Branch merkle_node_Hash)

lemma VerifyHash_hashed: "hashed n \<Longrightarrow> VerifyHash n"
  using HashNode_spec [of n] node_Hash_merkle [of "snd (HashNode n)"] merkle_HashNode [of n]
  by (auto simp: VerifyHash_def split: prod.split)

text \<open>\<^verbatim>\<open>EncodeBytes\<close> and the header are prefix codes, so a digest input determines its parts.\<close>

lemma EncodeBytes_append_inj:
  assumes "length a < 2 ^ 64" and "length b < 2 ^ 64"
  shows "EncodeBytes a @ xs = EncodeBytes b @ ys \<longleftrightarrow> a = b \<and> xs = ys"
proof -
  have "(word_of_nat (length a) :: u64) = word_of_nat (length b) \<longleftrightarrow> length a = length b"
    using assms by (simp add: word_of_nat_eq_iff take_bit_nat_eq_self)
  then show ?thesis by (auto simp: EncodeBytes_def PutUvarint_append_inj)
qed

lemma hash_header_append_inj:
  "hash_header h s ver @ xs = hash_header h' s' ver' @ ys \<longleftrightarrow>
    h = h' \<and> s = s' \<and> ver = ver' \<and> xs = ys"
  by (simp add: hash_header_def PutVarint_append_inj)

text \<open>Two nodes with the same digest input and no collision below have the same parts.\<close>

lemma hash_input_Leaf_inj:
  assumes "hash_input (Leaf rp ver k v) = hash_input (Leaf rp' ver' k' v')"
    and "length k < 2 ^ 64" and "length k' < 2 ^ 64"
  shows "ver = ver' \<and> k = k' \<and> sha256 v = sha256 v'"
proof -
  have "length (sha256 x) < 2 ^ 64" for x by simp
  then show ?thesis
    using assms EncodeBytes_append_inj [OF assms(2,3), of "EncodeBytes (sha256 v)" "EncodeBytes (sha256 v')"]
      EncodeBytes_append_inj [of "sha256 v" "sha256 v'" "[]" "[]"]
    by (simp add: hash_header_append_inj)
qed

lemma hash_input_Branch_inj:
  assumes "hash_input (Branch rp h s ver k l r) = hash_input (Branch rp' h' s' ver' k' l' r')"
  shows "h = h' \<and> s = s' \<and> ver = ver' \<and> merkle l = merkle l' \<and> merkle r = merkle r'"
proof -
  have len: "length (merkle x) < 2 ^ 64" for x by (simp add: merkle_hash_input)
  then show ?thesis
    using assms EncodeBytes_append_inj [OF len len, of l "EncodeBytes (merkle r)" l' "EncodeBytes (merkle r')"]
      EncodeBytes_append_inj [OF len len, of r "[]" r' "[]"]
    by (simp add: hash_header_append_inj)
qed

lemma hash_input_Leaf_Branch:
  "h \<noteq> 0 \<Longrightarrow> hash_input (Leaf rp ver k v) \<noteq> hash_input (Branch rp' h s ver' k' l r)"
  by (simp add: hash_header_append_inj)

lemma hash_input_in: "hash_input n \<in> hash_inputs n"
  by (cases n) auto

lemma strip_eq_of_merkle:
  assumes "merkle n = merkle m" and "ordered n" and "ordered m" and "balanced n" and "balanced m"
    and "\<forall>p \<in> set (leaves n) \<union> set (leaves m). length (fst p) < 2 ^ 64"
    and "\<And>a b. a \<in> hash_inputs n \<Longrightarrow> b \<in> hash_inputs m \<Longrightarrow> sha256 a = sha256 b \<Longrightarrow> a = b"
  shows "strip n = strip m"
  using assms
proof (induction n arbitrary: m)
  case (Leaf rp ver k v)
  have eq: "hash_input (Leaf rp ver k v) = hash_input m"
    using Leaf.prems(1) unfolding merkle_hash_input by (rule Leaf.prems(7) [OF hash_input_in hash_input_in])
  show ?case
  proof (cases m)
    case (Leaf rp' ver' k' v')
    have "ver = ver' \<and> k = k' \<and> sha256 v = sha256 v'"
      using eq Leaf Leaf.prems(6) by (intro hash_input_Leaf_inj) auto
    then show ?thesis using Leaf Leaf.prems(7) [of v v'] by simp
  next
    case (Branch rp' h' s' ver' k' l' r')
    then have "h' \<noteq> 0" using Leaf.prems(5) by auto
    then show ?thesis using eq Branch hash_input_Leaf_Branch by metis
  qed
next
  case (Branch rp h s ver k l r)
  have eq: "hash_input (Branch rp h s ver k l r) = hash_input m"
    using Branch.prems(1) unfolding merkle_hash_input
    by (rule Branch.prems(7) [OF hash_input_in hash_input_in])
  show ?case
  proof (cases m)
    case (Leaf rp' ver' k' v')
    have "h \<noteq> 0" using Branch.prems(4) by auto
    then show ?thesis using eq Leaf hash_input_Leaf_Branch by metis
  next
    case m: (Branch rp' h' s' ver' k' l' r')
    have e: "h = h' \<and> s = s' \<and> ver = ver' \<and> merkle l = merkle l' \<and> merkle r = merkle r'"
      using eq unfolding m by (rule hash_input_Branch_inj)
    have "strip l = strip l'"
      using e Branch.prems(2-6) m by (intro Branch.IH(1)) (auto intro: Branch.prems(7))
    moreover have r: "strip r = strip r'"
      using e Branch.prems(2-6) m by (intro Branch.IH(2)) (auto intro: Branch.prems(7))
    moreover have "k = k'"
      using Branch.prems(2,3) m strip_simps(2) [of r] strip_simps(2) [of r'] r by simp
    ultimately show ?thesis using e m by simp
  qed
qed

section \<open>Properties\<close>

lemma wf_ht_bound: "wf_node n \<Longrightarrow> length (leaves n) < 2 ^ 63 \<Longrightarrow> ht n < 126"
  using balanced_ht_bound [of n 63] by (simp add: wf_node_def)

lemma setRecursive_wf:
  assumes "wf_node n" and "length (leaves n) < 2 ^ 63" and "setRecursive (Some n) k v w = (c, u)"
  shows "wf_node c"
proof -
  note ht = wf_ht_bound [OF assms(1,2)]
  have "ordered n" "balanced n" "sized n" "hashed n" using assms(1) by (auto simp: wf_node_def)
  then show ?thesis
    using ht setRecursive_contents [OF _ assms(3)] setRecursive_sized [OF _ _ assms(3)]
      setRecursive_hashed [OF _ assms(3)] setRecursive_balanced [OF _ _ assms(3)]
    by (simp add: wf_node_def)
qed

lemma removeRecursive_wf:
  assumes "wf_node n" and "length (leaves n) < 2 ^ 63"
    and "removeRecursive (Some n) k w = (Some val, Some c, key')"
  shows "wf_node c"
proof -
  note ht = wf_ht_bound [OF assms(1,2)]
  have "ordered n" "balanced n" "sized n" "hashed n" using assms(1) by (auto simp: wf_node_def)
  then show ?thesis
    using ht removeRecursive_contents [OF _ assms(3)] removeRecursive_sized [OF _ assms(3)]
      removeRecursive_hashed [OF _ assms(3)] removeRecursive_balanced [OF _ _ assms(3)]
    by (simp add: wf_node_def)
qed

text \<open>
  C4: \<^verbatim>\<open>setRecursive\<close> on a well-formed tree gives a well-formed tree (search order, AVL balance with exact
  height bytes, exact sizes, no stale cached hash) whose leaves are the old ones with the pair inserted
  or replaced. The flag tells whether the key was there, and the tree grows by at most one level.
\<close>

theorem setRecursive_correct:
  assumes "wf_node n" and "length (leaves n) < 2 ^ 63" and "setRecursive (Some n) k v w = (c, u)"
  shows "wf_node c \<and> leaves c = put_pair k v (leaves n) \<and> (u \<longleftrightarrow> k \<in> fst ` set (leaves n)) \<and>
    ht c \<le> ht n + 1"
proof -
  have "ordered n" "balanced n" "ht n < 253"
    using assms(1) wf_ht_bound [OF assms(1,2)] by (auto simp: wf_node_def)
  then show ?thesis
    using setRecursive_wf [OF assms] setRecursive_contents [OF _ assms(3)]
      setRecursive_balanced [OF _ _ assms(3)] by (auto split: if_splits)
qed

text \<open>A chain that insertion has to rotate: the keys 1 and 2, and then 3, with version 7.\<close>

definition two_keys :: node where
  "two_keys = Branch (Mem None) 1 2 1 [2] (Leaf (Mem None) 1 [1] [10]) (Leaf (Mem None) 1 [2] [20])"

lemma two_keys_leaves: "leaves two_keys = [([1], [10]), ([2], [20])]"
  by (simp add: two_keys_def)

lemma two_keys_wf: "wf_node two_keys" "length (leaves two_keys) < 2 ^ 63"
  by (simp_all add: two_keys_def wf_node_def)

theorem setRecursive_correct_witness:
  "wf_node (fst (setRecursive (Some two_keys) [3] [30] 7)) \<and>
   leaves (fst (setRecursive (Some two_keys) [3] [30] 7)) = [([1], [10]), ([2], [20]), ([3], [30])]"
  using setRecursive_correct [OF two_keys_wf prod.collapse [symmetric], of "[3]" "[30]" 7]
  by (simp add: two_keys_def put_pair_def)

text \<open>
  C7: \<^verbatim>\<open>removeRecursive\<close> reports the stored value, or \<^verbatim>\<open>nil\<close> exactly when the key is absent, and then it
  returns the node it was given. Otherwise the new tree (gone when the key was the last one) is
  well-formed, holds the other pairs, and the new smallest key is reported exactly when it changed.
\<close>

theorem removeRecursive_correct:
  assumes "wf_node n" and "length (leaves n) < 2 ^ 63"
    and "removeRecursive (Some n) k w = (value, n', newKey)"
  shows "value = map_of (leaves n) k \<and>
    (value = None \<longrightarrow> n' = Some n \<and> newKey = None) \<and>
    (value \<noteq> None \<longrightarrow>
      pred_option wf_node n' \<and>
      (case n' of None \<Rightarrow> [] | Some c \<Rightarrow> leaves c) = del_pair k (leaves n) \<and>
      newKey = (if k = minkey n then map_option minkey n' else None))"
proof (cases "value")
  case None
  then show ?thesis
    using removeRecursive_NoneD [of n k w n' newKey] removeRecursive_absent [of n k w] assms
    by (auto simp: wf_node_def map_of_eq_None_keys [symmetric])
next
  case (Some val)
  then show ?thesis
    using removeRecursive_contents [of n k w val n' newKey] assms
      removeRecursive_wf [OF assms(1,2), of k w val _ newKey]
    by (cases n') (auto simp: wf_node_def)
qed

theorem removeRecursive_correct_witness:
  "wf_node two_keys \<and> removeRecursive (Some two_keys) [1] 7 = (Some [10], Some (Leaf (Mem None) 1 [2] [20]), Some [2])
   \<and> del_pair [1] (leaves two_keys) = [([2], [20])]"
  using removeRecursive_correct [OF two_keys_wf, of "[1]" 7 "Some [10]"
      "Some (Leaf (Mem None) 1 [2] [20])" "Some [2]"] two_keys_wf
  by (simp add: two_keys_def removeRecursive.simps(3))

text \<open>
  C14: \<^verbatim>\<open>Get\<close> returns the value stored under the key and the number of smaller keys (as a \<^verbatim>\<open>uint32\<close>).
  \<^verbatim>\<open>GetByIndex\<close> returns the pair at a position below the size, and at the number \<^verbatim>\<open>Get\<close> returned for a
  key it finds that key again, in a tree of less than \<open>2 ^ 32\<close> leaves.
\<close>

theorem node_Get_correct:
  assumes "wf_node n" and "length (leaves n) < 2 ^ 32"
  shows "node_Get n k =
      (map_of (leaves n) k, word_of_nat (length (filter (\<lambda>p. fst p < k) (leaves n)))) \<and>
    (unat i < length (leaves n) \<longrightarrow> node_GetByIndex n i = Some (leaves n ! unat i)) \<and>
    (fst (node_Get n k) = Some v \<longrightarrow> node_GetByIndex n (snd (node_Get n k)) = Some (k, v))"
proof -
  have n: "ordered n" "sized n" using assms(1) by (auto simp: wf_node_def)
  let ?xs = "leaves n" and ?i = "length (filter (\<lambda>p. fst p < k) (leaves n))"
  have "?i < length ?xs \<and> ?xs ! ?i = (k, v)" if "map_of ?xs k = Some v"
    using that ordered_sorted [OF n(1)] by (rule map_of_nth_index)
  then show ?thesis
    using node_Get_spec [OF n, of k] node_GetByIndex_spec [OF n(2) assms(2)] assms(2)
    by (auto simp: unat_of_nat)
qed

theorem node_Get_correct_witness:
  "node_Get two_keys [2] = (Some [20], 1) \<and> node_GetByIndex two_keys 1 = Some ([2], [20])"
  using node_Get_correct [of two_keys "[2]" 1 "[20]"] two_keys_wf by (simp add: two_keys_def)

text \<open>
  C15: on a well-formed tree \<^verbatim>\<open>Hash\<close> returns the Merkle hash of the contents, whatever hashes were already
  cached. The caches it fills leave the tree well-formed with the same contents, and agree with
  \<^verbatim>\<open>HashNode\<close>, so that \<^verbatim>\<open>VerifyHash\<close> accepts.
\<close>

theorem node_Hash_correct:
  assumes "wf_node n"
  shows "fst (node_Hash n) = merkle n \<and> fst (HashNode n) = merkle n \<and> VerifyHash n \<and>
    wf_node (snd (node_Hash n)) \<and> strip (snd (node_Hash n)) = strip n \<and>
    node_Hash (snd (node_Hash n)) = node_Hash n"
proof -
  have h: "hashed n" and o: "ordered (strip n)" "balanced (strip n)" "sized (strip n)"
    using assms by (auto simp: wf_node_def)
  have "wf_node (snd (node_Hash n))"
    using o node_Hash_hashed [OF h] unfolding node_Hash_strip [symmetric, of n] by (simp add: wf_node_def)
  then show ?thesis
    using h by (simp add: node_Hash_merkle HashNode_spec(1) VerifyHash_hashed node_Hash_strip node_Hash_cached)
qed

theorem node_Hash_correct_witness:
  "wf_node two_keys \<and> fst (node_Hash two_keys) = merkle two_keys"
  using node_Hash_correct [OF two_keys_wf(1)] two_keys_wf(1) by simp

text \<open>
  C8: the root hash that \<^verbatim>\<open>Hash\<close> computes binds the whole tree, whatever is cached in its nodes. When it is the
  same for two well-formed trees, they have the same shape, versions, keys and values, and answer
  every query alike, or a byte string digested in the one collides with a different byte string
  digested in the other.
\<close>

theorem merkle_binding:
  assumes "wf_node n" and "wf_node m" and "fst (node_Hash n) = fst (node_Hash m)"
    and "\<forall>p \<in> set (leaves n) \<union> set (leaves m). length (fst p) < 2 ^ 64"
  shows "strip n = strip m \<and> leaves n = leaves m \<and> (\<forall>key. node_Get n key = node_Get m key) \<or>
    (\<exists>a \<in> hash_inputs n. \<exists>b \<in> hash_inputs m. sha256 a = sha256 b \<and> a \<noteq> b)"
proof -
  have wf: "ordered n" "sized n" "hashed n" "balanced n" "ordered m" "sized m" "hashed m" "balanced m"
    using assms(1,2) by (auto simp: wf_node_def)
  have "merkle n = merkle m" using assms(3) wf by (simp add: node_Hash_merkle)
  from strip_eq_of_merkle [OF this _ _ _ _ assms(4)] wf
  have "strip n = strip m \<or> (\<exists>a \<in> hash_inputs n. \<exists>b \<in> hash_inputs m. sha256 a = sha256 b \<and> a \<noteq> b)"
    by blast
  moreover have "leaves n = leaves m" if "strip n = strip m" using strip_simps(1) that by metis
  ultimately show ?thesis using node_Get_spec [OF wf(1,2)] node_Get_spec [OF wf(5,6)] by auto
qed

theorem merkle_binding_witness:
  "snd (node_Hash two_keys) \<noteq> two_keys \<and> fst (node_Hash two_keys) = fst (node_Hash (snd (node_Hash two_keys))) \<and>
   (strip two_keys = strip (snd (node_Hash two_keys)) \<or>
    (\<exists>a \<in> hash_inputs two_keys. \<exists>b \<in> hash_inputs (snd (node_Hash two_keys)).
      sha256 a = sha256 b \<and> a \<noteq> b))"
proof -
  have h: "hashed two_keys" using two_keys_wf(1) by (simp add: wf_node_def)
  have l: "leaves (snd (node_Hash two_keys)) = leaves two_keys"
    using strip_simps(1) node_Hash_strip by metis
  have wf: "wf_node (snd (node_Hash two_keys))"
    using two_keys_wf(1) node_Hash_hashed strip_simps(4-6) node_Hash_strip
    unfolding wf_node_def by metis
  have "snd (node_Hash two_keys) \<noteq> two_keys" by (simp add: two_keys_def Let_def)
  moreover have "\<forall>p \<in> set (leaves two_keys). length (fst p) < 2 ^ 64" by (simp add: two_keys_def)
  ultimately show ?thesis
    using merkle_binding [OF two_keys_wf(1) wf] l by (auto simp: node_Hash_cached)
qed

end
