(* ===== verification/Cache.thy ===== *)
theory Cache
  imports Prelude "HOL-Library.While_Combinator"
begin

text \<open>
  The node cache of \<^verbatim>\<open>memiavl/tree.go\<close>: \<^verbatim>\<open>sharedCache\<close> spreads the keys over up to 16 shards, each a
  cache of the package \<^verbatim>\<open>cosmos/iavl/cache\<close>. That package is not part of the repository: its
  operations are the record \<open>cache_ops\<close>, an argument of every definition below, and what it documents
  (a bounded map that may forget entries, least recently used first) is the locale \<open>cache_laws\<close>.
  \<^verbatim>\<open>sharedCache\<close> implements the same Go interface, and is shown to obey the same laws.

  The mutex of a shard makes each operation on it atomic; the model has one step per operation.
\<close>

unbundle bit_operations_syntax

section \<open>The cache interface\<close>

record cacheNode =
  cn_key :: bytes
  cn_value :: bytes

record 'c cache_ops =
  cache_New :: "int \<Rightarrow> 'c"
  cache_Add :: "cacheNode \<Rightarrow> 'c \<Rightarrow> cacheNode option \<times> 'c"
  cache_Get :: "bytes \<Rightarrow> 'c \<Rightarrow> cacheNode option \<times> 'c"
  cache_Has :: "bytes \<Rightarrow> 'c \<Rightarrow> bool"
  cache_Remove :: "bytes \<Rightarrow> 'c \<Rightarrow> cacheNode option \<times> 'c"
  cache_Len :: "'c \<Rightarrow> nat"

section \<open>hash/crc32\<close>

definition crc32_shift :: "u32 \<Rightarrow> u32" where
  "crc32_shift c = (if odd c then drop_bit 1 c XOR 3988292384 else drop_bit 1 c)"

definition crc32_byte :: "u32 \<Rightarrow> u8 \<Rightarrow> u32" where
  "crc32_byte c b = (crc32_shift ^^ 8) (c XOR ucast b)"

definition ChecksumIEEE :: "bytes \<Rightarrow> u32" where
  "ChecksumIEEE bs = NOT (foldl crc32_byte (NOT 0) bs)"

section \<open>Shared cache\<close>

record 'c sharedCache =
  sc_shards :: "'c option list"
  sc_shardCount :: nat
  sc_shardMask :: u32

definition maxSharedCacheShards :: nat where
  "maxSharedCacheShards = 16"

definition shard_count :: "int \<Rightarrow> nat" where
  "shard_count sz =
     while (\<lambda>n. n < maxSharedCacheShards \<and> int (push_bit 1 n) \<le> sz) (\<lambda>n. push_bit 1 n) 1"

definition newSharedCache :: "'c cache_ops \<Rightarrow> int \<Rightarrow> 'c sharedCache" where
  "newSharedCache ops sz =
     (let shardCount = shard_count sz;
          base = sz div int shardCount;
          rem = sz mod int shardCount
      in \<lparr> sc_shards = map (\<lambda>i. if i < shardCount
             then Some (cache_New ops (if int i < rem then base + 1 else base)) else None)
             [0..<maxSharedCacheShards],
           sc_shardCount = shardCount,
           sc_shardMask = word_of_nat (shardCount - 1) \<rparr>)"

definition NewCache :: "'c cache_ops \<Rightarrow> int \<Rightarrow> 'c sharedCache option" where
  "NewCache ops cacheSize = (if cacheSize = 0 then None else Some (newSharedCache ops cacheSize))"

definition hashKey :: "bytes \<Rightarrow> u32" where
  "hashKey key = ChecksumIEEE key"

definition shardForKey :: "'c sharedCache \<Rightarrow> bytes \<Rightarrow> nat" where
  "shardForKey c key = (if sc_shardMask c = 0 then 0 else unat (hashKey key AND sc_shardMask c))"

definition set_shard :: "'c sharedCache \<Rightarrow> nat \<Rightarrow> 'c \<Rightarrow> 'c sharedCache" where
  "set_shard c i s = c\<lparr>sc_shards := (sc_shards c)[i := Some s]\<rparr>"

definition sharedCache_Add ::
  "'c cache_ops \<Rightarrow> cacheNode option \<Rightarrow> 'c sharedCache \<Rightarrow> (cacheNode option \<times> 'c sharedCache) result" where
  "sharedCache_Add ops node c =
     (case node of
        None \<Rightarrow> Inl (Panic ''shared cache: node must not be nil'')
      | Some n \<Rightarrow>
          (let i = shardForKey c (cn_key n)
           in case sc_shards c ! i of
                None \<Rightarrow> Inr (None, c)
              | Some s \<Rightarrow> (let (old, s') = cache_Add ops n s in Inr (old, set_shard c i s'))))"

definition sharedCache_Get ::
  "'c cache_ops \<Rightarrow> bytes \<Rightarrow> 'c sharedCache \<Rightarrow> cacheNode option \<times> 'c sharedCache" where
  "sharedCache_Get ops key c =
     (let i = shardForKey c key
      in case sc_shards c ! i of
           None \<Rightarrow> (None, c)
         | Some s \<Rightarrow> (let (r, s') = cache_Get ops key s in (r, set_shard c i s')))"

definition sharedCache_Has :: "'c cache_ops \<Rightarrow> bytes \<Rightarrow> 'c sharedCache \<Rightarrow> bool" where
  "sharedCache_Has ops key c =
     (case sc_shards c ! shardForKey c key of None \<Rightarrow> False | Some s \<Rightarrow> cache_Has ops key s)"

definition sharedCache_Remove ::
  "'c cache_ops \<Rightarrow> bytes \<Rightarrow> 'c sharedCache \<Rightarrow> cacheNode option \<times> 'c sharedCache" where
  "sharedCache_Remove ops key c =
     (let i = shardForKey c key
      in case sc_shards c ! i of
           None \<Rightarrow> (None, c)
         | Some s \<Rightarrow> (let (r, s') = cache_Remove ops key s in (r, set_shard c i s')))"

definition sharedCache_Len :: "'c cache_ops \<Rightarrow> 'c sharedCache \<Rightarrow> nat" where
  "sharedCache_Len ops c =
     foldl (\<lambda>total i. case sc_shards c ! i of None \<Rightarrow> total | Some s \<Rightarrow> total + cache_Len ops s)
       0 [0..<sc_shardCount c]"

text \<open>The shared cache as an implementation of the interface: \<^verbatim>\<open>Add\<close> is only called on a node.\<close>

definition sharedCache_ops :: "'c cache_ops \<Rightarrow> 'c sharedCache cache_ops" where
  "sharedCache_ops ops =
     \<lparr> cache_New = newSharedCache ops,
       cache_Add = (\<lambda>n c. case sharedCache_Add ops (Some n) c of Inr r \<Rightarrow> r | Inl _ \<Rightarrow> (None, c)),
       cache_Get = sharedCache_Get ops,
       cache_Has = sharedCache_Has ops,
       cache_Remove = sharedCache_Remove ops,
       cache_Len = sharedCache_Len ops \<rparr>"

section \<open>What a cache promises\<close>

text \<open>
  \<open>cinv\<close> is the cache's own consistency, \<open>contents\<close> the map it stands for and \<open>limit\<close> its capacity.
  A cache may forget entries when it adds one, but never changes or invents one.
\<close>

locale cache_laws =
  fixes ops :: "'c cache_ops"
    and cinv :: "'c \<Rightarrow> bool"
    and contents :: "'c \<Rightarrow> bytes \<rightharpoonup> cacheNode"
    and limit :: "'c \<Rightarrow> nat"
  assumes inv_New: "cinv (cache_New ops n)"
    and contents_New: "contents (cache_New ops n) = Map.empty"
    and limit_New: "limit (cache_New ops n) = nat n"
    and inv_Add: "cinv c \<Longrightarrow> cinv (snd (cache_Add ops nd c))"
    and contents_Add: "cinv c \<Longrightarrow> contents (snd (cache_Add ops nd c)) \<subseteq>\<^sub>m (contents c)(cn_key nd \<mapsto> nd)"
    and limit_Add: "cinv c \<Longrightarrow> limit (snd (cache_Add ops nd c)) = limit c"
    and inv_Get: "cinv c \<Longrightarrow> cinv (snd (cache_Get ops k c))"
    and result_Get: "cinv c \<Longrightarrow> fst (cache_Get ops k c) = contents c k"
    and contents_Get: "cinv c \<Longrightarrow> contents (snd (cache_Get ops k c)) = contents c"
    and limit_Get: "cinv c \<Longrightarrow> limit (snd (cache_Get ops k c)) = limit c"
    and result_Has: "cinv c \<Longrightarrow> cache_Has ops k c = (contents c k \<noteq> None)"
    and inv_Remove: "cinv c \<Longrightarrow> cinv (snd (cache_Remove ops k c))"
    and result_Remove: "cinv c \<Longrightarrow> fst (cache_Remove ops k c) = contents c k"
    and contents_Remove: "cinv c \<Longrightarrow> contents (snd (cache_Remove ops k c)) = (contents c)(k := None)"
    and limit_Remove: "cinv c \<Longrightarrow> limit (snd (cache_Remove ops k c)) = limit c"
    and finite_contents: "cinv c \<Longrightarrow> finite (dom (contents c))"
    and result_Len: "cinv c \<Longrightarrow> cache_Len ops c = card (dom (contents c))"
    and Len_limit: "cinv c \<Longrightarrow> card (dom (contents c)) \<le> limit c"

text \<open>The same for a shared cache over a cache with \<open>cinv\<close>, \<open>contents\<close> and \<open>limit\<close>.\<close>

definition sc_contents :: "('c \<Rightarrow> bytes \<rightharpoonup> cacheNode) \<Rightarrow> 'c sharedCache \<Rightarrow> bytes \<rightharpoonup> cacheNode" where
  "sc_contents contents c k =
     (case sc_shards c ! shardForKey c k of None \<Rightarrow> None | Some s \<Rightarrow> contents s k)"

definition sc_limit :: "('c \<Rightarrow> nat) \<Rightarrow> 'c sharedCache \<Rightarrow> nat" where
  "sc_limit limit c =
     sum (\<lambda>i. case sc_shards c ! i of None \<Rightarrow> 0 | Some s \<Rightarrow> limit s) {..<sc_shardCount c}"

definition sc_inv :: "('c \<Rightarrow> bool) \<Rightarrow> ('c \<Rightarrow> bytes \<rightharpoonup> cacheNode) \<Rightarrow> 'c sharedCache \<Rightarrow> bool" where
  "sc_inv cinv contents c \<longleftrightarrow>
     length (sc_shards c) = maxSharedCacheShards \<and>
     (\<exists>j \<le> 4. sc_shardCount c = 2 ^ j) \<and>
     sc_shardMask c = word_of_nat (sc_shardCount c - 1) \<and>
     (\<forall>i < sc_shardCount c. \<exists>s. sc_shards c ! i = Some s \<and> cinv s \<and>
        (\<forall>k. contents s k \<noteq> None \<longrightarrow> shardForKey c k = i))"

section \<open>Shards\<close>

lemma shard_count_spec:
  "\<exists>j \<le> 4. shard_count sz = 2 ^ j \<and> (0 < sz \<longrightarrow> 2 ^ j \<le> sz)"
proof -
  let ?P = "\<lambda>n. \<exists>j \<le> 4. n = (2::nat) ^ j \<and> (0 < sz \<longrightarrow> 2 ^ j \<le> sz)"
  have "?P (while (\<lambda>n. n < maxSharedCacheShards \<and> int (push_bit 1 n) \<le> sz) (\<lambda>n. push_bit 1 n) 1)"
  proof (rule while_rule [where P = ?P and r = "measure (\<lambda>n. 16 - n)"])
    show "?P 1" by (intro exI [of _ 0]) auto
    fix n
    assume P: "?P n" and b: "n < maxSharedCacheShards \<and> int (push_bit 1 n) \<le> sz"
    then obtain j where j: "j \<le> 4" "n = 2 ^ j" by auto
    have "j \<noteq> 4" using b j by (auto simp: maxSharedCacheShards_def)
    then show "?P (push_bit 1 n)" using b j by (intro exI [of _ "Suc j"]) (auto simp: push_bit_eq_mult)
    have "0 < n" using j by simp
    then show "(push_bit 1 n, n) \<in> measure (\<lambda>n. 16 - n)"
      using b by (auto simp: maxSharedCacheShards_def push_bit_eq_mult)
  qed auto
  then show ?thesis by (simp add: shard_count_def)
qed

lemma and_mask_less: "unat (w AND (word_of_nat (2 ^ j - 1) :: u32)) < 2 ^ j"
proof -
  have "(word_of_nat (2 ^ j - 1) :: u32) = mask j"
    by (simp add: mask_eq_exp_minus_1 of_nat_diff)
  then have "unat (w AND (word_of_nat (2 ^ j - 1) :: u32)) = take_bit j (unat w)"
    by (simp add: take_bit_eq_mask [symmetric] unsigned_take_bit_eq)
  then show ?thesis by simp
qed

lemma sc_inv_mask:
  assumes "sc_inv cinv contents c"
  obtains j where "j \<le> 4" "sc_shardCount c = 2 ^ j" "sc_shardMask c = word_of_nat (2 ^ j - 1)"
    "length (sc_shards c) = 16"
  using assms by (auto simp: sc_inv_def maxSharedCacheShards_def)

lemma shardForKey_less:
  assumes "sc_inv cinv contents c"
  shows "shardForKey c k < sc_shardCount c" and "shardForKey c k < length (sc_shards c)"
proof -
  obtain j where j: "j \<le> 4" "sc_shardCount c = 2 ^ j" "sc_shardMask c = word_of_nat (2 ^ j - 1)"
    "length (sc_shards c) = 16"
    by (rule sc_inv_mask [OF assms])
  then show c: "shardForKey c k < sc_shardCount c"
    using and_mask_less [of "hashKey k" j] by (simp add: shardForKey_def)
  have "(2::nat) ^ j \<le> 2 ^ 4" using j(1) by (intro power_increasing) auto
  then show "shardForKey c k < length (sc_shards c)" using c j by simp
qed

lemma sc_inv_shard:
  assumes "sc_inv cinv contents c"
  obtains s where "sc_shards c ! shardForKey c k = Some s" "cinv s"
  using assms shardForKey_less(1) [OF assms, of k] unfolding sc_inv_def by auto

lemma set_shard_simps [simp]:
  "shardForKey (set_shard c i s) k = shardForKey c k"
  "sc_shardCount (set_shard c i s) = sc_shardCount c"
  "sc_shardMask (set_shard c i s) = sc_shardMask c"
  "sc_shards (set_shard c i s) = (sc_shards c)[i := Some s]"
  by (simp_all add: set_shard_def shardForKey_def)

lemma sc_inv_set_shard:
  assumes "sc_inv cinv contents c" and "sc_shards c ! shardForKey c k = Some s" and "cinv s'"
    and "dom (contents s') \<subseteq> insert k (dom (contents s))"
  shows "sc_inv cinv contents (set_shard c (shardForKey c k) s')"
proof -
  have "shardForKey c k' = shardForKey c k" if "contents s' k' \<noteq> None" for k'
    using assms shardForKey_less(1) [OF assms(1), of k] that unfolding sc_inv_def by fastforce
  then show ?thesis
    using assms shardForKey_less(2) [OF assms(1), of k] unfolding sc_inv_def
    by (auto simp: nth_list_update)
qed

lemma sc_contents_set_shard:
  assumes "sc_inv cinv contents c"
  shows "sc_contents contents (set_shard c (shardForKey c k) s') k' =
    (if shardForKey c k' = shardForKey c k then contents s' k' else sc_contents contents c k')"
  using shardForKey_less(2) [OF assms, of k] by (simp add: sc_contents_def nth_list_update)

lemma sc_limit_set_shard:
  assumes "sc_inv cinv contents c" and "sc_shards c ! shardForKey c k = Some s" and "limit s' = limit s"
  shows "sc_limit limit (set_shard c (shardForKey c k) s') = sc_limit limit c"
  unfolding sc_limit_def set_shard_simps
  using assms shardForKey_less [OF assms(1), of k]
  by (intro sum.cong) (auto simp: nth_list_update)

lemma sc_dom:
  assumes "sc_inv cinv contents c"
  shows "dom (sc_contents contents c) = (\<Union>i\<in>{..<sc_shardCount c}. dom (contents (the (sc_shards c ! i))))"
    and "\<And>i j. i < sc_shardCount c \<Longrightarrow> j < sc_shardCount c \<Longrightarrow> i \<noteq> j \<Longrightarrow>
      dom (contents (the (sc_shards c ! i))) \<inter> dom (contents (the (sc_shards c ! j))) = {}"
proof -
  have own: "shardForKey c k = i"
    if "i < sc_shardCount c" "k \<in> dom (contents (the (sc_shards c ! i)))" for i k
    using assms that unfolding sc_inv_def by fastforce
  show "dom (sc_contents contents c) = (\<Union>i\<in>{..<sc_shardCount c}. dom (contents (the (sc_shards c ! i))))"
  proof (intro set_eqI iffI)
    fix k assume "k \<in> dom (sc_contents contents c)"
    then show "k \<in> (\<Union>i\<in>{..<sc_shardCount c}. dom (contents (the (sc_shards c ! i))))"
      using shardForKey_less(1) [OF assms, of k]
      by (intro UN_I [of "shardForKey c k"]) (auto simp: sc_contents_def split: option.splits)
  next
    fix k assume "k \<in> (\<Union>i\<in>{..<sc_shardCount c}. dom (contents (the (sc_shards c ! i))))"
    then obtain i where i: "i < sc_shardCount c" "k \<in> dom (contents (the (sc_shards c ! i)))" by auto
    obtain s where "sc_shards c ! i = Some s" using assms i(1) unfolding sc_inv_def by blast
    then show "k \<in> dom (sc_contents contents c)" using i own [OF i] by (auto simp: sc_contents_def)
  qed
  show "dom (contents (the (sc_shards c ! i))) \<inter> dom (contents (the (sc_shards c ! j))) = {}"
    if "i < sc_shardCount c" "j < sc_shardCount c" "i \<noteq> j" for i j
    using own [OF that(1)] own [OF that(2)] that(3) by auto
qed

section \<open>The shared cache obeys the laws\<close>

lemma foldl_add_sum: "foldl (\<lambda>t i. t + (g i :: nat)) a [0..<n] = a + sum g {..<n}"
  by (induction n) simp_all

lemma sum_capacity:
  assumes "0 < n" and "0 \<le> sz"
  shows "sum (\<lambda>i. nat (if int i < sz mod int n then sz div int n + 1 else sz div int n)) {..<n} = nat sz"
proof -
  let ?b = "sz div int n" and ?r = "sz mod int n"
  have b: "0 \<le> ?b" using assms by (simp add: div_int_pos_iff)
  have r: "0 \<le> ?r" "?r < int n" using assms by simp_all
  have "(\<lambda>i. nat (if int i < ?r then ?b + 1 else ?b)) = (\<lambda>i. nat ?b + (if i < nat ?r then 1 else 0))"
    using b r by (auto simp: nat_add_distrib zless_nat_eq_int_zless)
  moreover have "sum (\<lambda>i. if i < nat ?r then 1 else 0 :: nat) {..<n} = nat ?r"
  proof -
    have "{..<n} \<inter> {i. i < nat ?r} = {..<nat ?r}" using r by auto
    then show ?thesis by (simp add: sum.If_cases)
  qed
  ultimately have "sum (\<lambda>i. nat (if int i < ?r then ?b + 1 else ?b)) {..<n} = n * nat ?b + nat ?r"
    by (simp only: sum.distrib) simp
  also have "int (n * nat ?b + nat ?r) = sz" using b r by simp
  then have "n * nat ?b + nat ?r = nat sz" by linarith
  finally show ?thesis .
qed

lemma newSharedCache_shard:
  "i < shard_count sz \<Longrightarrow> sc_shards (newSharedCache ops sz) ! i =
     Some (cache_New ops (if int i < sz mod int (shard_count sz) then sz div int (shard_count sz) + 1
       else sz div int (shard_count sz)))"
proof -
  assume i: "i < shard_count sz"
  obtain j where "j \<le> 4" "shard_count sz = 2 ^ j" using shard_count_spec by blast
  then have "shard_count sz \<le> 2 ^ 4" by (metis one_le_numeral power_increasing)
  with i show ?thesis by (simp add: newSharedCache_def Let_def maxSharedCacheShards_def)
qed

lemma newSharedCache_fields [simp]:
  "sc_shardCount (newSharedCache ops sz) = shard_count sz"
  "sc_shardMask (newSharedCache ops sz) = word_of_nat (shard_count sz - 1)"
  "length (sc_shards (newSharedCache ops sz)) = maxSharedCacheShards"
  by (simp_all add: newSharedCache_def Let_def)

context cache_laws
begin

lemma sc_inv_New: "sc_inv cinv contents (newSharedCache ops sz)"
  using shard_count_spec [of sz] unfolding sc_inv_def
  by (auto simp: newSharedCache_shard inv_New contents_New)

lemma sc_contents_New: "sc_contents contents (newSharedCache ops sz) = Map.empty"
proof
  fix k
  have "shardForKey (newSharedCache ops sz) k < shard_count sz"
    using shardForKey_less(1) [OF sc_inv_New, of sz k] by simp
  then show "sc_contents contents (newSharedCache ops sz) k = None"
    by (simp add: sc_contents_def newSharedCache_shard contents_New)
qed

lemma sc_limit_New: "sc_limit limit (newSharedCache ops sz) = nat sz"
proof (cases "0 < sz")
  case True
  obtain j where "shard_count sz = 2 ^ j" using shard_count_spec by blast
  then have "0 < shard_count sz" by simp
  then have "nat sz = sum (\<lambda>i. nat (if int i < sz mod int (shard_count sz)
      then sz div int (shard_count sz) + 1 else sz div int (shard_count sz))) {..<shard_count sz}"
    using sum_capacity [of "shard_count sz" sz] True by simp
  also have "\<dots> = sc_limit limit (newSharedCache ops sz)"
    unfolding sc_limit_def newSharedCache_fields
    by (intro sum.cong) (simp_all add: newSharedCache_shard limit_New)
  finally show ?thesis by simp
next
  case False
  then have "shard_count sz = 1" by (simp add: shard_count_def while_unfold)
  with False show ?thesis by (simp add: sc_limit_def newSharedCache_shard limit_New)
qed

lemma sharedCache_Add_step:
  assumes "sc_inv cinv contents c"
  obtains s where "sc_shards c ! shardForKey c (cn_key n) = Some s" "cinv s"
    "sharedCache_Add ops (Some n) c =
       Inr (fst (cache_Add ops n s), set_shard c (shardForKey c (cn_key n)) (snd (cache_Add ops n s)))"
  by (rule sc_inv_shard [OF assms, of "cn_key n"]) (simp add: sharedCache_Add_def Let_def split_beta)

lemma sharedCache_Get_step:
  assumes "sc_inv cinv contents c"
  obtains s where "sc_shards c ! shardForKey c k = Some s" "cinv s"
    "sharedCache_Get ops k c =
       (fst (cache_Get ops k s), set_shard c (shardForKey c k) (snd (cache_Get ops k s)))"
  by (rule sc_inv_shard [OF assms, of k]) (simp add: sharedCache_Get_def Let_def split_beta)

lemma sharedCache_Remove_step:
  assumes "sc_inv cinv contents c"
  obtains s where "sc_shards c ! shardForKey c k = Some s" "cinv s"
    "sharedCache_Remove ops k c =
       (fst (cache_Remove ops k s), set_shard c (shardForKey c k) (snd (cache_Remove ops k s)))"
  by (rule sc_inv_shard [OF assms, of k]) (simp add: sharedCache_Remove_def Let_def split_beta)

lemma sharedCache_Add_laws:
  assumes "sc_inv cinv contents c" and "sharedCache_Add ops (Some n) c = Inr (old, c')"
  shows "sc_inv cinv contents c' \<and> sc_limit limit c' = sc_limit limit c \<and>
    sc_contents contents c' \<subseteq>\<^sub>m (sc_contents contents c)(cn_key n \<mapsto> n)"
proof -
  obtain s where s: "sc_shards c ! shardForKey c (cn_key n) = Some s" "cinv s"
    and c': "c' = set_shard c (shardForKey c (cn_key n)) (snd (cache_Add ops n s))"
    by (rule sharedCache_Add_step [OF assms(1), of n]) (use assms(2) in auto)
  note m = contents_Add [OF s(2), of n]
  have d: "dom (contents (snd (cache_Add ops n s))) \<subseteq> insert (cn_key n) (dom (contents s))"
    using map_le_implies_dom_le [OF m] by simp
  have "sc_contents contents c' \<subseteq>\<^sub>m (sc_contents contents c)(cn_key n \<mapsto> n)"
    unfolding map_le_def
  proof
    fix k assume k: "k \<in> dom (sc_contents contents c')"
    show "sc_contents contents c' k = ((sc_contents contents c)(cn_key n \<mapsto> n)) k"
    proof (cases "shardForKey c k = shardForKey c (cn_key n)")
      case True
      then have "sc_contents contents c k = contents s k" using s(1) by (simp add: sc_contents_def)
      then show ?thesis using True k m
        unfolding c' by (auto simp: sc_contents_set_shard [OF assms(1)] map_le_def dom_def)
    next
      case False
      then show ?thesis unfolding c' by (auto simp: sc_contents_set_shard [OF assms(1)])
    qed
  qed
  then show ?thesis
    using sc_inv_set_shard [OF assms(1) s(1) inv_Add [OF s(2)] d]
      sc_limit_set_shard [OF assms(1) s(1), of limit] limit_Add [OF s(2)] c' by simp
qed

lemma sharedCache_Get_laws:
  assumes "sc_inv cinv contents c" and "sharedCache_Get ops k c = (r, c')"
  shows "sc_inv cinv contents c' \<and> r = sc_contents contents c k \<and>
    sc_contents contents c' = sc_contents contents c \<and> sc_limit limit c' = sc_limit limit c"
proof -
  obtain s where s: "sc_shards c ! shardForKey c k = Some s" "cinv s"
    and c': "r = fst (cache_Get ops k s)" "c' = set_shard c (shardForKey c k) (snd (cache_Get ops k s))"
    by (rule sharedCache_Get_step [OF assms(1), of k]) (use assms(2) in auto)
  have "sc_contents contents c' = sc_contents contents c"
    using s shardForKey_less(2) [OF assms(1), of k] unfolding c'
    by (intro ext) (auto simp: contents_Get sc_contents_def nth_list_update)
  then show ?thesis
    using sc_inv_set_shard [OF assms(1) s(1) inv_Get [OF s(2)], of k] contents_Get [OF s(2)]
      sc_limit_set_shard [OF assms(1) s(1), of limit] limit_Get [OF s(2)] c' result_Get [OF s(2)] s(1)
    by (auto simp: sc_contents_def)
qed

lemma sharedCache_Remove_laws:
  assumes "sc_inv cinv contents c" and "sharedCache_Remove ops k c = (r, c')"
  shows "sc_inv cinv contents c' \<and> r = sc_contents contents c k \<and>
    sc_contents contents c' = (sc_contents contents c)(k := None) \<and> sc_limit limit c' = sc_limit limit c"
proof -
  obtain s where s: "sc_shards c ! shardForKey c k = Some s" "cinv s"
    and c': "r = fst (cache_Remove ops k s)" "c' = set_shard c (shardForKey c k) (snd (cache_Remove ops k s))"
    by (rule sharedCache_Remove_step [OF assms(1), of k]) (use assms(2) in auto)
  have "sc_contents contents c' = (sc_contents contents c)(k := None)"
    using s shardForKey_less(2) [OF assms(1), of k] unfolding c'
    by (intro ext) (auto simp: contents_Remove sc_contents_def nth_list_update)
  then show ?thesis
    using sc_inv_set_shard [OF assms(1) s(1) inv_Remove [OF s(2)], of k] contents_Remove [OF s(2)]
      sc_limit_set_shard [OF assms(1) s(1), of limit] limit_Remove [OF s(2)] c' result_Remove [OF s(2)] s(1)
    by (auto simp: sc_contents_def)
qed

lemma sc_card:
  assumes "sc_inv cinv contents c"
  shows "finite (dom (sc_contents contents c))"
    and "card (dom (sc_contents contents c)) = sharedCache_Len ops c"
    and "card (dom (sc_contents contents c)) \<le> sc_limit limit c"
proof -
  let ?s = "\<lambda>i. the (sc_shards c ! i)"
  have s: "sc_shards c ! i = Some (?s i) \<and> cinv (?s i)" if "i < sc_shardCount c" for i
    using assms that unfolding sc_inv_def by fastforce
  then have fin: "finite (dom (contents (?s i)))" if "i < sc_shardCount c" for i
    using that finite_contents by blast
  then show "finite (dom (sc_contents contents c))" by (simp add: sc_dom(1) [OF assms])
  have card: "card (dom (sc_contents contents c)) = sum (\<lambda>i. card (dom (contents (?s i)))) {..<sc_shardCount c}"
    unfolding sc_dom(1) [OF assms] using fin sc_dom(2) [OF assms]
    by (intro card_UN_disjoint) auto
  have "sharedCache_Len ops c = foldl (\<lambda>t i. t + cache_Len ops (?s i)) 0 [0..<sc_shardCount c]"
    unfolding sharedCache_Len_def
  proof (intro foldl_cong refl)
    fix t i assume "i \<in> set [0..<sc_shardCount c]"
    then have "sc_shards c ! i = Some (?s i)" using s by simp
    then show "(case sc_shards c ! i of None \<Rightarrow> t | Some s \<Rightarrow> t + cache_Len ops s) = t + cache_Len ops (?s i)"
      by (metis option.simps(5))
  qed
  also have "\<dots> = sum (\<lambda>i. card (dom (contents (?s i)))) {..<sc_shardCount c}"
    using s result_Len by (auto simp: foldl_add_sum intro!: sum.cong)
  finally show "card (dom (sc_contents contents c)) = sharedCache_Len ops c" using card by simp
  have "sum (\<lambda>i. card (dom (contents (?s i)))) {..<sc_shardCount c} \<le> sc_limit limit c"
    unfolding sc_limit_def
  proof (intro sum_mono)
    fix i assume "i \<in> {..<sc_shardCount c}"
    then have "sc_shards c ! i = Some (?s i)" "cinv (?s i)" using s by auto
    then show "card (dom (contents (?s i))) \<le> (case sc_shards c ! i of None \<Rightarrow> 0 | Some s \<Rightarrow> limit s)"
      by (metis Len_limit option.simps(5))
  qed
  then show "card (dom (sc_contents contents c)) \<le> sc_limit limit c" using card by simp
qed

lemma shared_Add_laws:
  assumes "sc_inv cinv contents c"
  shows "sc_inv cinv contents (snd (cache_Add (sharedCache_ops ops) n c)) \<and>
    sc_limit limit (snd (cache_Add (sharedCache_ops ops) n c)) = sc_limit limit c \<and>
    sc_contents contents (snd (cache_Add (sharedCache_ops ops) n c)) \<subseteq>\<^sub>m
      (sc_contents contents c)(cn_key n \<mapsto> n)"
proof -
  obtain s where "sharedCache_Add ops (Some n) c =
      Inr (fst (cache_Add ops n s), set_shard c (shardForKey c (cn_key n)) (snd (cache_Add ops n s)))"
    by (rule sharedCache_Add_step [OF assms])
  then show ?thesis
    using sharedCache_Add_laws [OF assms] by (simp add: sharedCache_ops_def)
qed

lemma shared_laws:
  "cache_laws (sharedCache_ops ops) (sc_inv cinv contents) (sc_contents contents) (sc_limit limit)"
proof
  fix c k
  assume i: "sc_inv cinv contents c"
  note g = sharedCache_Get_laws [OF i prod.collapse [symmetric], of k]
    and r = sharedCache_Remove_laws [OF i prod.collapse [symmetric], of k]
  show "sc_inv cinv contents (snd (cache_Get (sharedCache_ops ops) k c))"
    "fst (cache_Get (sharedCache_ops ops) k c) = sc_contents contents c k"
    "sc_contents contents (snd (cache_Get (sharedCache_ops ops) k c)) = sc_contents contents c"
    "sc_limit limit (snd (cache_Get (sharedCache_ops ops) k c)) = sc_limit limit c"
    using g by (simp_all add: sharedCache_ops_def)
  show "sc_inv cinv contents (snd (cache_Remove (sharedCache_ops ops) k c))"
    "fst (cache_Remove (sharedCache_ops ops) k c) = sc_contents contents c k"
    "sc_contents contents (snd (cache_Remove (sharedCache_ops ops) k c)) = (sc_contents contents c)(k := None)"
    "sc_limit limit (snd (cache_Remove (sharedCache_ops ops) k c)) = sc_limit limit c"
    using r by (simp_all add: sharedCache_ops_def)
  show "cache_Has (sharedCache_ops ops) k c = (sc_contents contents c k \<noteq> None)"
    using result_Has by (auto intro: sc_inv_shard [OF i, of k]
        simp: sharedCache_ops_def sharedCache_Has_def sc_contents_def split: option.splits)
  show "cache_Len (sharedCache_ops ops) c = card (dom (sc_contents contents c))"
    "finite (dom (sc_contents contents c))" "card (dom (sc_contents contents c)) \<le> sc_limit limit c"
    using sc_card [OF i] by (simp_all add: sharedCache_ops_def)
  fix n
  show "sc_inv cinv contents (snd (cache_Add (sharedCache_ops ops) n c))"
    "sc_limit limit (snd (cache_Add (sharedCache_ops ops) n c)) = sc_limit limit c"
    "sc_contents contents (snd (cache_Add (sharedCache_ops ops) n c)) \<subseteq>\<^sub>m
      (sc_contents contents c)(cn_key n \<mapsto> n)"
    using shared_Add_laws [OF i, of n] by simp_all
qed (simp_all add: sharedCache_ops_def sc_inv_New sc_contents_New sc_limit_New)

end

section \<open>A least-recently-used cache\<close>

text \<open>
  A cache that keeps its nodes in a list, the most recent first, and drops the last one when it
  grows beyond its limit: an instance of the interface on which the laws can be seen to hold.
\<close>

record lru =
  lru_limit :: nat
  lru_nodes :: "cacheNode list"

definition lru_find :: "bytes \<Rightarrow> cacheNode list \<Rightarrow> cacheNode option" where
  "lru_find k ns = find (\<lambda>n. cn_key n = k) ns"

definition lru_drop :: "bytes \<Rightarrow> cacheNode list \<Rightarrow> cacheNode list" where
  "lru_drop k ns = filter (\<lambda>n. cn_key n \<noteq> k) ns"

definition lru_ops :: "lru cache_ops" where
  "lru_ops =
     \<lparr> cache_New = (\<lambda>n. \<lparr>lru_limit = nat n, lru_nodes = []\<rparr>),
       cache_Add = (\<lambda>n c. (lru_find (cn_key n) (lru_nodes c),
         c\<lparr>lru_nodes := take (lru_limit c) (n # lru_drop (cn_key n) (lru_nodes c))\<rparr>)),
       cache_Get = (\<lambda>k c. (lru_find k (lru_nodes c),
         case lru_find k (lru_nodes c) of None \<Rightarrow> c
         | Some n \<Rightarrow> c\<lparr>lru_nodes := n # lru_drop k (lru_nodes c)\<rparr>)),
       cache_Has = (\<lambda>k c. lru_find k (lru_nodes c) \<noteq> None),
       cache_Remove = (\<lambda>k c. (lru_find k (lru_nodes c), c\<lparr>lru_nodes := lru_drop k (lru_nodes c)\<rparr>)),
       cache_Len = (\<lambda>c. length (lru_nodes c)) \<rparr>"

definition lru_inv :: "lru \<Rightarrow> bool" where
  "lru_inv c \<longleftrightarrow> distinct (map cn_key (lru_nodes c)) \<and> length (lru_nodes c) \<le> lru_limit c"

definition lru_contents :: "lru \<Rightarrow> bytes \<rightharpoonup> cacheNode" where
  "lru_contents c k = lru_find k (lru_nodes c)"

lemma lru_find_drop: "lru_find k (lru_drop k' ns) = (if k = k' then None else lru_find k ns)"
  by (induction ns) (auto simp: lru_find_def lru_drop_def)

lemma lru_find_take:
  assumes "lru_find k (take m ns) = Some n"
  shows "lru_find k ns = Some n"
  using assms by (induction ns arbitrary: m) (auto simp: lru_find_def take_Cons' split: if_splits)

lemma lru_find_Some: "lru_find k ns = Some n \<Longrightarrow> n \<in> set ns \<and> cn_key n = k"
  by (auto simp: lru_find_def find_Some_iff)

lemma lru_dom: "dom (lru_contents c) = cn_key ` set (lru_nodes c)"
  by (auto simp: lru_contents_def lru_find_def find_None_iff dom_def find_Some_iff
      intro: ccontr elim!: allE)

lemma length_lru_drop:
  assumes "lru_find k ns = Some n" and "distinct (map cn_key ns)"
  shows "length ns = Suc (length (lru_drop k ns))"
  using assms
proof (induction ns)
  case (Cons m ns)
  show ?case
  proof (cases "cn_key m = k")
    case True
    then have "lru_drop k ns = ns" using Cons.prems(2)
      unfolding lru_drop_def filter_id_conv by (auto simp: image_iff)
    then show ?thesis using True by (simp add: lru_drop_def)
  next
    case False
    then show ?thesis using Cons by (simp add: lru_find_def lru_drop_def)
  qed
qed (simp add: lru_find_def)

lemma distinct_lru_drop: "distinct (map cn_key ns) \<Longrightarrow> distinct (map cn_key (lru_drop k ns))"
  by (simp add: lru_drop_def distinct_map_filter)

lemma lru_Add_inv: "lru_inv c \<Longrightarrow> lru_inv (snd (cache_Add lru_ops nd c))"
proof -
  assume i: "lru_inv c"
  have "distinct (map cn_key (nd # lru_drop (cn_key nd) (lru_nodes c)))"
    using i distinct_lru_drop by (auto simp: lru_inv_def lru_drop_def)
  then have "distinct (take m (map cn_key (nd # lru_drop (cn_key nd) (lru_nodes c))))" for m
    by (rule distinct_take)
  then show ?thesis unfolding take_map by (simp add: lru_ops_def lru_inv_def)
qed

lemma lru_Add_contents:
  "lru_contents (snd (cache_Add lru_ops nd c)) \<subseteq>\<^sub>m (lru_contents c)(cn_key nd \<mapsto> nd)"
  unfolding map_le_def
proof
  fix k assume "k \<in> dom (lru_contents (snd (cache_Add lru_ops nd c)))"
  then obtain n where n: "lru_contents (snd (cache_Add lru_ops nd c)) k = Some n" by auto
  then have "lru_find k (take (lru_limit c) (nd # lru_drop (cn_key nd) (lru_nodes c))) = Some n"
    by (simp add: lru_contents_def lru_ops_def)
  then have "lru_find k (nd # lru_drop (cn_key nd) (lru_nodes c)) = Some n"
    by (rule lru_find_take)
  then have "((lru_contents c)(cn_key nd \<mapsto> nd)) k = Some n"
    using lru_find_drop [of k "cn_key nd" "lru_nodes c"]
    by (cases "k = cn_key nd") (simp_all add: lru_contents_def lru_find_def)
  with n show "lru_contents (snd (cache_Add lru_ops nd c)) k = ((lru_contents c)(cn_key nd \<mapsto> nd)) k"
    by simp
qed

lemma lru_Get_inv: "lru_inv c \<Longrightarrow> lru_inv (snd (cache_Get lru_ops k c))"
proof (cases "lru_find k (lru_nodes c)")
  case (Some n)
  assume i: "lru_inv c"
  have "cn_key n \<notin> cn_key ` set (lru_drop k (lru_nodes c))"
    using lru_find_Some [OF Some] by (auto simp: lru_drop_def)
  then show ?thesis
    using i Some length_lru_drop [OF Some] distinct_lru_drop by (simp add: lru_ops_def lru_inv_def)
qed (simp add: lru_ops_def)

lemma lru_Get_contents: "lru_contents (snd (cache_Get lru_ops k c)) = lru_contents c"
proof (cases "lru_find k (lru_nodes c)")
  case (Some n)
  show ?thesis
  proof
    fix k'
    show "lru_contents (snd (cache_Get lru_ops k c)) k' = lru_contents c k'"
      using Some lru_find_Some [OF Some] lru_find_drop [of k' k "lru_nodes c"]
      by (cases "k' = k") (simp_all add: lru_ops_def lru_contents_def lru_find_def)
  qed
qed (simp add: lru_ops_def)

lemma lru_Remove_inv: "lru_inv c \<Longrightarrow> lru_inv (snd (cache_Remove lru_ops k c))"
proof -
  assume i: "lru_inv c"
  have "length (lru_drop k (lru_nodes c)) \<le> length (lru_nodes c)" by (simp add: lru_drop_def)
  then show ?thesis using i distinct_lru_drop [of "lru_nodes c" k] by (simp add: lru_ops_def lru_inv_def)
qed

lemma lru_card: "lru_inv c \<Longrightarrow> card (dom (lru_contents c)) = length (lru_nodes c)"
  using distinct_card [of "map cn_key (lru_nodes c)"] by (simp add: lru_dom lru_inv_def)

lemmas lru_laws = lru_Add_inv lru_Add_contents lru_Get_inv lru_Get_contents lru_Remove_inv lru_card

interpretation lru: cache_laws lru_ops lru_inv lru_contents lru_limit
proof
  show "lru_contents (snd (cache_Remove lru_ops k c)) = (lru_contents c)(k := None)" for c k
    by (intro ext) (simp add: lru_ops_def lru_contents_def lru_find_drop)
  show "lru_inv c \<Longrightarrow> finite (dom (lru_contents c))" for c by (simp add: lru_dom)
  show "lru_limit (snd (cache_Get lru_ops k c)) = lru_limit c" for c k
    by (simp add: lru_ops_def split: option.splits)
  show "lru_inv c \<Longrightarrow> card (dom (lru_contents c)) \<le> lru_limit c" for c
    using lru_card [of c] by (simp add: lru_inv_def)
  show "lru_contents (cache_New lru_ops n) = Map.empty" for n
    by (intro ext) (simp add: lru_ops_def lru_contents_def lru_find_def)
qed (use lru_laws in \<open>simp_all add: lru_ops_def lru_inv_def lru_contents_def\<close>)

text \<open>The shared cache over it, by the laws above.\<close>

interpretation shared_lru: cache_laws "sharedCache_ops lru_ops" "sc_inv lru_inv lru_contents"
  "sc_contents lru_contents" "sc_limit lru_limit"
  by (rule lru.shared_laws)

section \<open>Property\<close>

text \<open>
  C16: the sharded cache is itself a lawful cache. Over any cache package that keeps the documented laws,
  \<^verbatim>\<open>sharedCache\<close> looks up exactly what was added and not evicted or removed, reports the number of its
  nodes, and its shards together hold at most the size it was created with.
\<close>

theorem sharedCache_lawful:
  assumes "cache_laws ops cinv contents limit"
  shows "cache_laws (sharedCache_ops ops) (sc_inv cinv contents) (sc_contents contents) (sc_limit limit)"
  using assms by (rule cache_laws.shared_laws)

theorem sharedCache_lawful_witness:
  "cache_laws (sharedCache_ops lru_ops) (sc_inv lru_inv lru_contents) (sc_contents lru_contents)
     (sc_limit lru_limit)"
  by (rule sharedCache_lawful [OF lru.cache_laws_axioms])

end
