(* ===== verification/Snapshot.thy ===== *)
theory Snapshot
  imports Node
begin

text \<open>
  Snapshots on disk: \<^verbatim>\<open>memiavl/snapshot.go\<close>, \<^verbatim>\<open>persisted_node.go\<close> and \<^verbatim>\<open>layout_little_endian.go\<close>.
  A snapshot is four files: \<^verbatim>\<open>metadata\<close> (magic, format, version), \<^verbatim>\<open>leaves\<close> and \<^verbatim>\<open>nodes\<close> (fixed-size
  records in depth-first post-order) and \<^verbatim>\<open>kvs\<close> (length-prefixed keys and values). The files are byte
  lists; an access outside them is a panic, as in Go. A \<^verbatim>\<open>PersistedNode\<close> is an index into the leaf or
  the node records of a snapshot.

  Writing to a file does not fail in the model; a cancelled context does stop the writer.
\<close>

section \<open>Record layout\<close>

definition SizeHash :: nat where "SizeHash = 32"
definition OffsetVersion :: nat where "OffsetVersion = 4"
definition OffsetSize :: nat where "OffsetSize = OffsetVersion + 4"
definition OffsetKeyLeaf :: nat where "OffsetKeyLeaf = OffsetSize + 4"
definition OffsetHash :: nat where "OffsetHash = OffsetKeyLeaf + 4"
definition SizeNode :: nat where "SizeNode = OffsetHash + SizeHash"
definition OffsetLeafKeyLen :: nat where "OffsetLeafKeyLen = 4"
definition OffsetLeafKeyOffset :: nat where "OffsetLeafKeyOffset = OffsetLeafKeyLen + 4"
definition OffsetLeafHash :: nat where "OffsetLeafHash = OffsetLeafKeyOffset + 8"
definition SizeLeaf :: nat where "SizeLeaf = OffsetLeafHash + SizeHash"

lemmas layout_defs = SizeHash_def OffsetVersion_def OffsetSize_def OffsetKeyLeaf_def OffsetHash_def
  SizeNode_def OffsetLeafKeyLen_def OffsetLeafKeyOffset_def OffsetLeafHash_def SizeLeaf_def

text \<open>Fields inside a record, whose length is fixed.\<close>

definition field32 :: "bytes \<Rightarrow> nat \<Rightarrow> u32" where
  "field32 bs off = word_of_nat (le_val (take 4 (drop off bs)))"

definition field64 :: "bytes \<Rightarrow> nat \<Rightarrow> u64" where
  "field64 bs off = word_of_nat (le_val (take 8 (drop off bs)))"

definition Nodes_Node :: "bytes \<Rightarrow> u32 \<Rightarrow> bytes result" where
  "Nodes_Node data i = slice_bytes data (unat i * SizeNode) (unat i * SizeNode + SizeNode)"

definition Leaves_Leaf :: "bytes \<Rightarrow> u32 \<Rightarrow> bytes result" where
  "Leaves_Leaf data i = slice_bytes data (unat i * SizeLeaf) (unat i * SizeLeaf + SizeLeaf)"

definition NodeLayout_Height :: "bytes \<Rightarrow> u8" where "NodeLayout_Height nd = nd ! 0"
definition NodeLayout_PreTrees :: "bytes \<Rightarrow> u8" where "NodeLayout_PreTrees nd = nd ! 1"
definition NodeLayout_Version :: "bytes \<Rightarrow> u32" where "NodeLayout_Version nd = field32 nd OffsetVersion"
definition NodeLayout_Size :: "bytes \<Rightarrow> u32" where "NodeLayout_Size nd = field32 nd OffsetSize"
definition NodeLayout_KeyLeaf :: "bytes \<Rightarrow> u32" where "NodeLayout_KeyLeaf nd = field32 nd OffsetKeyLeaf"
definition NodeLayout_Hash :: "bytes \<Rightarrow> bytes" where "NodeLayout_Hash nd = take SizeHash (drop OffsetHash nd)"
definition LeafLayout_Version :: "bytes \<Rightarrow> u32" where "LeafLayout_Version lf = field32 lf 0"
definition LeafLayout_KeyLength :: "bytes \<Rightarrow> u32" where
  "LeafLayout_KeyLength lf = field32 lf OffsetLeafKeyLen"
definition LeafLayout_KeyOffset :: "bytes \<Rightarrow> u64" where
  "LeafLayout_KeyOffset lf = field64 lf OffsetLeafKeyOffset"
definition LeafLayout_Hash :: "bytes \<Rightarrow> bytes" where
  "LeafLayout_Hash lf = take SizeHash (drop OffsetLeafHash lf)"

lemmas layout_field_defs = NodeLayout_Height_def NodeLayout_PreTrees_def NodeLayout_Version_def
  NodeLayout_Size_def NodeLayout_KeyLeaf_def NodeLayout_Hash_def LeafLayout_Version_def
  LeafLayout_KeyLength_def LeafLayout_KeyOffset_def LeafLayout_Hash_def

section \<open>Snapshots\<close>

record pnode =
  pn_isLeaf :: bool
  pn_index :: u32

record snapshot =
  sn_nodes :: bytes
  sn_leaves :: bytes
  sn_kvs :: bytes
  sn_version :: u32
  sn_root :: "pnode option"

record snapshot_files =
  f_metadata :: bytes
  f_nodes :: bytes
  f_leaves :: bytes
  f_kvs :: bytes

definition SnapshotFileMagic :: u32 where "SnapshotFileMagic = 1280721225"
definition SnapshotFormat :: u32 where "SnapshotFormat = 0"
definition SizeMetadata :: nat where "SizeMetadata = 12"

definition NewEmptySnapshot :: "u32 \<Rightarrow> snapshot" where
  "NewEmptySnapshot version =
     \<lparr>sn_nodes = [], sn_leaves = [], sn_kvs = [], sn_version = version, sn_root = None\<rparr>"

definition OpenSnapshot :: "snapshot_files \<Rightarrow> snapshot result" where
  "OpenSnapshot fs =
     (let bz = f_metadata fs; nodes = f_nodes fs; leaves = f_leaves fs in
      if length bz \<noteq> SizeMetadata then Inl BadMetadataSize
      else if field32 bz 0 \<noteq> SnapshotFileMagic then Inl BadMagic
      else if field32 bz 4 \<noteq> SnapshotFormat then Inl BadFormat
      else if length nodes mod SizeNode \<noteq> 0 then Inl CorruptedSnapshot
      else if length leaves mod SizeLeaf \<noteq> 0 then Inl CorruptedSnapshot
      else
        (let nodesLen = length nodes div SizeNode; leavesLen = length leaves div SizeLeaf in
         if (leavesLen > 0 \<and> nodesLen + 1 \<noteq> leavesLen) \<or> (leavesLen = 0 \<and> nodesLen \<noteq> 0)
         then Inl CorruptedSnapshot
         else Inr
           \<lparr>sn_nodes = nodes, sn_leaves = leaves, sn_kvs = f_kvs fs, sn_version = field32 bz 8,
            sn_root =
              (if nodesLen > 0
               then Some \<lparr>pn_isLeaf = False, pn_index = word_of_nat (nodesLen - 1)\<rparr>
               else if leavesLen > 0 then Some \<lparr>pn_isLeaf = True, pn_index = 0\<rparr>
               else None)\<rparr>))"

definition snapshot_Close :: "snapshot \<Rightarrow> snapshot" where
  "snapshot_Close sn = NewEmptySnapshot (sn_version sn)"

definition snapshot_IsEmpty :: "snapshot \<Rightarrow> bool" where
  "snapshot_IsEmpty sn \<longleftrightarrow> sn_root sn = None"

definition snapshot_RootNode :: "snapshot \<Rightarrow> pnode result" where
  "snapshot_RootNode sn =
     (case sn_root sn of
        None \<Rightarrow> Inl (Panic ''RootNode not supported on an empty snapshot'')
      | Some p \<Rightarrow> Inr p)"

definition nodesLen :: "snapshot \<Rightarrow> nat" where
  "nodesLen sn = length (sn_nodes sn) div SizeNode"

definition leavesLen :: "snapshot \<Rightarrow> nat" where
  "leavesLen sn = length (sn_leaves sn) div SizeLeaf"

text \<open>\<^verbatim>\<open>binary.LittleEndian.Uint32(kvs[offset:])\<close>\<close>

definition kvs_len :: "bytes \<Rightarrow> u64 \<Rightarrow> u32 result" where
  "kvs_len kvs offset = rbind (slice_bytes kvs (unat offset) (length kvs)) Uint32"

definition kvs_slice :: "bytes \<Rightarrow> u64 \<Rightarrow> u64 \<Rightarrow> bytes result" where
  "kvs_slice kvs offset len = slice_bytes kvs (unat offset) (unat (offset + len))"

definition snapshot_Key :: "snapshot \<Rightarrow> u64 \<Rightarrow> bytes result" where
  "snapshot_Key sn offset =
     rbind (kvs_len (sn_kvs sn) offset) (\<lambda>keyLen. kvs_slice (sn_kvs sn) (offset + 4) (ucast keyLen))"

definition snapshot_KeyValue :: "snapshot \<Rightarrow> u64 \<Rightarrow> (bytes \<times> bytes) result" where
  "snapshot_KeyValue sn offset =
     rbind (kvs_len (sn_kvs sn) offset) (\<lambda>klen.
     rbind (kvs_slice (sn_kvs sn) (offset + 4) (ucast klen)) (\<lambda>key.
     rbind (kvs_len (sn_kvs sn) (offset + 4 + ucast klen)) (\<lambda>vlen.
     rbind (kvs_slice (sn_kvs sn) (offset + 4 + ucast klen + 4) (ucast vlen)) (\<lambda>value.
     Inr (key, value)))))"

definition LeafKey :: "snapshot \<Rightarrow> u32 \<Rightarrow> bytes result" where
  "LeafKey sn index =
     rbind (Leaves_Leaf (sn_leaves sn) index) (\<lambda>leaf.
     kvs_slice (sn_kvs sn) (LeafLayout_KeyOffset leaf + 4) (ucast (LeafLayout_KeyLength leaf)))"

definition LeafKeyValue :: "snapshot \<Rightarrow> u32 \<Rightarrow> (bytes \<times> bytes) result" where
  "LeafKeyValue sn index =
     rbind (Leaves_Leaf (sn_leaves sn) index) (\<lambda>leaf.
     (let offset = LeafLayout_KeyOffset leaf + 4; len = ucast (LeafLayout_KeyLength leaf) in
      rbind (kvs_slice (sn_kvs sn) offset len) (\<lambda>key.
      rbind (kvs_len (sn_kvs sn) (offset + len)) (\<lambda>vlen.
      rbind (kvs_slice (sn_kvs sn) (offset + len + 4) (ucast vlen)) (\<lambda>value.
      Inr (key, value))))))"

section \<open>Persisted nodes\<close>

definition branchNode :: "snapshot \<Rightarrow> pnode \<Rightarrow> bytes result" where
  "branchNode sn p = Nodes_Node (sn_nodes sn) (pn_index p)"

definition leafNode :: "snapshot \<Rightarrow> pnode \<Rightarrow> bytes result" where
  "leafNode sn p = Leaves_Leaf (sn_leaves sn) (pn_index p)"

definition getStartLeaf :: "u32 \<Rightarrow> u32 \<Rightarrow> u32 \<Rightarrow> u32" where
  "getStartLeaf index sz preTrees = index + 2 - sz + preTrees"

definition getEndLeaf :: "u32 \<Rightarrow> u32 \<Rightarrow> u32" where
  "getEndLeaf index preTrees = index + preTrees + 1"

definition getLeftBranch :: "u32 \<Rightarrow> u32 \<Rightarrow> u32" where
  "getLeftBranch keyLeaf preTrees = keyLeaf - preTrees - 2"

text \<open>\<open>rmap\<close> applies a pure field access to a record that may not be there.\<close>

definition rmap :: "('a \<Rightarrow> 'b) \<Rightarrow> 'a result \<Rightarrow> 'b result" where
  "rmap f r = rbind r (\<lambda>x. Inr (f x))"

definition pn_Height :: "snapshot \<Rightarrow> pnode \<Rightarrow> u8 result" where
  "pn_Height sn p = (if pn_isLeaf p then Inr 0 else rmap NodeLayout_Height (branchNode sn p))"

definition pn_Version :: "snapshot \<Rightarrow> pnode \<Rightarrow> u32 result" where
  "pn_Version sn p =
     (if pn_isLeaf p then rmap LeafLayout_Version (leafNode sn p)
      else rmap NodeLayout_Version (branchNode sn p))"

definition pn_Size :: "snapshot \<Rightarrow> pnode \<Rightarrow> i64 result" where
  "pn_Size sn p = (if pn_isLeaf p then Inr 1 else rmap (\<lambda>d. ucast (NodeLayout_Size d)) (branchNode sn p))"

definition pn_Key :: "snapshot \<Rightarrow> pnode \<Rightarrow> bytes result" where
  "pn_Key sn p =
     (if pn_isLeaf p then LeafKey sn (pn_index p)
      else rbind (branchNode sn p) (\<lambda>d. LeafKey sn (NodeLayout_KeyLeaf d)))"

definition pn_Value :: "snapshot \<Rightarrow> pnode \<Rightarrow> bytes option result" where
  "pn_Value sn p =
     (if \<not> pn_isLeaf p then Inr None
      else rmap (\<lambda>kv. Some (snd kv)) (LeafKeyValue sn (pn_index p)))"

definition pn_Left :: "snapshot \<Rightarrow> pnode \<Rightarrow> pnode result" where
  "pn_Left sn p =
     (if pn_isLeaf p then Inl (Panic ''can't call Left on leaf node'')
      else rmap (\<lambda>data.
        let preTrees = ucast (NodeLayout_PreTrees data);
            startLeaf = getStartLeaf (pn_index p) (NodeLayout_Size data) preTrees;
            keyLeaf = NodeLayout_KeyLeaf data
        in if startLeaf + 1 = keyLeaf then \<lparr>pn_isLeaf = True, pn_index = startLeaf\<rparr>
           else \<lparr>pn_isLeaf = False, pn_index = getLeftBranch keyLeaf preTrees\<rparr>) (branchNode sn p))"

definition pn_Right :: "snapshot \<Rightarrow> pnode \<Rightarrow> pnode result" where
  "pn_Right sn p =
     (if pn_isLeaf p then Inl (Panic ''can't call Right on leaf node'')
      else rmap (\<lambda>data.
        let keyLeaf = NodeLayout_KeyLeaf data; preTrees = ucast (NodeLayout_PreTrees data)
        in if keyLeaf = getEndLeaf (pn_index p) preTrees then \<lparr>pn_isLeaf = True, pn_index = keyLeaf\<rparr>
           else \<lparr>pn_isLeaf = False, pn_index = pn_index p - 1\<rparr>) (branchNode sn p))"

definition pn_Hash :: "snapshot \<Rightarrow> pnode \<Rightarrow> bytes result" where
  "pn_Hash sn p =
     (if pn_isLeaf p then rmap LeafLayout_Hash (leafNode sn p)
      else rmap NodeLayout_Hash (branchNode sn p))"

text \<open>\<^verbatim>\<open>Get\<close> searches the leaves below the node.\<close>

definition pn_Get :: "snapshot \<Rightarrow> pnode \<Rightarrow> bytes \<Rightarrow> (bytes option \<times> u32) result" where
  "pn_Get sn p key =
     rbind
       (if pn_isLeaf p then Inr (pn_index p, 1)
        else rmap (\<lambda>data. (getStartLeaf (pn_index p) (NodeLayout_Size data)
               (ucast (NodeLayout_PreTrees data)), NodeLayout_Size data)) (branchNode sn p))
       (\<lambda>(start, count).
     rbind
       (sort_Search_result (unat count) (\<lambda>i.
          rmap (\<lambda>leafKey. bytes_Compare leafKey key \<ge> 0) (LeafKey sn (start + word_of_nat i))))
       (\<lambda>found.
          let i = word_of_nat found; leaf = i + start
          in if leaf \<ge> start + count then Inr (None, i)
             else rmap (\<lambda>(nodeKey, value). if nodeKey \<noteq> key then (None, i) else (Some value, i))
               (LeafKeyValue sn leaf)))"

definition pn_GetByIndex :: "snapshot \<Rightarrow> pnode \<Rightarrow> u32 \<Rightarrow> (bytes \<times> bytes) option result" where
  "pn_GetByIndex sn p leafIndex =
     (if pn_isLeaf p then
        (if leafIndex \<noteq> 0 then Inr None else rmap Some (LeafKeyValue sn (pn_index p)))
      else rbind (branchNode sn p) (\<lambda>data.
        let preTrees = ucast (NodeLayout_PreTrees data);
            startLeaf = getStartLeaf (pn_index p) (NodeLayout_Size data) preTrees;
            endLeaf = getEndLeaf (pn_index p) preTrees;
            i = startLeaf + leafIndex
        in if i > endLeaf then Inr None else rmap Some (LeafKeyValue sn i)))"

section \<open>Writing a snapshot\<close>

record snapshotWriter =
  w_nodes :: bytes
  w_leaves :: bytes
  w_kvs :: bytes
  w_branchCounter :: u32
  w_leafCounter :: u32
  w_kvsOffset :: u64

definition newSnapshotWriter :: snapshotWriter where
  "newSnapshotWriter = \<lparr>w_nodes = [], w_leaves = [], w_kvs = [], w_branchCounter = 0,
     w_leafCounter = 0, w_kvsOffset = 0\<rparr>"

definition CancelCheckInterval :: u32 where "CancelCheckInterval = 1000"

definition writeKeyValue :: "bytes \<Rightarrow> bytes \<Rightarrow> snapshotWriter \<Rightarrow> snapshotWriter" where
  "writeKeyValue key val w =
     w\<lparr>w_kvs := w_kvs w @ PutUint32 (word_of_nat (length key)) @ key
          @ PutUint32 (word_of_nat (length val)) @ val,
       w_kvsOffset := w_kvsOffset w + (4 + 4 + word_of_nat (length key) + word_of_nat (length val))\<rparr>"

text \<open>\<open>done n\<close> tells whether the context is cancelled when the writer looks at it before leaf \<open>n\<close>.\<close>

definition writeLeaf ::
  "(u32 \<Rightarrow> bool) \<Rightarrow> u32 \<Rightarrow> bytes \<Rightarrow> bytes \<Rightarrow> bytes \<Rightarrow> snapshotWriter \<Rightarrow> snapshotWriter result" where
  "writeLeaf done version key val hsh w =
     (if w_leafCounter w mod CancelCheckInterval = 0 \<and> done (w_leafCounter w) then Inl Canceled
      else
        (let buf = PutUint32 version @ PutUint32 (word_of_nat (length key)) @ PutUint64 (w_kvsOffset w);
             w1 = writeKeyValue key val w
         in Inr (w1\<lparr>w_leaves := w_leaves w1 @ buf @ hsh, w_leafCounter := w_leafCounter w1 + 1\<rparr>)))"

definition writeBranch ::
  "u32 \<Rightarrow> u32 \<Rightarrow> u8 \<Rightarrow> u8 \<Rightarrow> u32 \<Rightarrow> bytes \<Rightarrow> snapshotWriter \<Rightarrow> snapshotWriter" where
  "writeBranch version sz height preTrees keyLeaf hsh w =
     w\<lparr>w_nodes := w_nodes w @ (height # preTrees # 0 # 0 # PutUint32 version @ PutUint32 sz
          @ PutUint32 keyLeaf) @ hsh,
       w_branchCounter := w_branchCounter w + 1\<rparr>"

fun writeRecursive :: "(u32 \<Rightarrow> bool) \<Rightarrow> node \<Rightarrow> snapshotWriter \<Rightarrow> snapshotWriter result" where
  "writeRecursive done (Leaf rp ver k v) w =
     writeLeaf done ver k v (fst (node_Hash (Leaf rp ver k v))) w"
| "writeRecursive done (Branch rp h s ver k l r) w =
     (let preTrees = ucast (w_leafCounter w - w_branchCounter w) in
      rbind (writeRecursive done l w) (\<lambda>w1.
      (let keyLeaf = w_leafCounter w1 in
       rbind (writeRecursive done r w1) (\<lambda>w2.
       Inr (writeBranch ver (ucast s) h preTrees keyLeaf (fst (node_Hash (Branch rp h s ver k l r))) w2)))))"

definition writeSnapshot ::
  "u32 \<Rightarrow> (snapshotWriter \<Rightarrow> (u32 \<times> snapshotWriter) result) \<Rightarrow> snapshot_files result" where
  "writeSnapshot version doWrite =
     rbind (doWrite newSnapshotWriter) (\<lambda>(leaves, w).
       Inr \<lparr>f_metadata = PutUint32 SnapshotFileMagic @ PutUint32 SnapshotFormat @ PutUint32 version,
            f_nodes = (if leaves > 0 then w_nodes w else []),
            f_leaves = (if leaves > 0 then w_leaves w else []),
            f_kvs = (if leaves > 0 then w_kvs w else [])\<rparr>)"

definition WriteSnapshot :: "(u32 \<Rightarrow> bool) \<Rightarrow> node option \<Rightarrow> u32 \<Rightarrow> snapshot_files result" where
  "WriteSnapshot done root version =
     writeSnapshot version (\<lambda>w.
       case root of
         None \<Rightarrow> Inr (0, w)
       | Some n \<Rightarrow> rmap (\<lambda>w'. (w_leafCounter w', w')) (writeRecursive done n w))"

section \<open>What a persisted node stands for\<close>

text \<open>
  The tree below a persisted node, built from the accessors alone: the value the rest of the library
  works with. The recursion is bounded by the height.
\<close>

fun pn_tree :: "nat \<Rightarrow> snapshot \<Rightarrow> pnode \<Rightarrow> node result" where
  "pn_tree 0 sn p = Inl (Panic ''node cycle'')"
| "pn_tree (Suc fuel) sn p =
     rbind (pn_Version sn p) (\<lambda>ver.
     rbind (pn_Key sn p) (\<lambda>k.
     rbind (pn_Hash sn p) (\<lambda>hsh.
     if pn_isLeaf p then
       rbind (pn_Value sn p) (\<lambda>v. Inr (Leaf (Persisted hsh) ver k (the v)))
     else
       rbind (pn_Height sn p) (\<lambda>h.
       rbind (pn_Size sn p) (\<lambda>s.
       rbind (pn_Left sn p) (\<lambda>pl.
       rbind (pn_Right sn p) (\<lambda>pr.
       rbind (pn_tree fuel sn pl) (\<lambda>l.
       rbind (pn_tree fuel sn pr) (\<lambda>r.
       Inr (Branch (Persisted hsh) h s ver k l r))))))))))"

text \<open>A tree with every node persisted, which is what a snapshot of it stores.\<close>

fun persisted :: "node \<Rightarrow> node" where
  "persisted (Leaf rp ver k v) = Leaf (Persisted (merkle (Leaf rp ver k v))) ver k v"
| "persisted (Branch rp h s ver k l r) =
     Branch (Persisted (merkle (Branch rp h s ver k l r))) h s ver k (persisted l) (persisted r)"

text \<open>The bytes of a leaf record, of a branch record and of a key/value pair.\<close>

definition leaf_rec :: "u32 \<Rightarrow> bytes \<Rightarrow> u64 \<Rightarrow> bytes \<Rightarrow> bytes" where
  "leaf_rec ver k off hsh = (PutUint32 ver @ PutUint32 (word_of_nat (length k)) @ PutUint64 off) @ hsh"

definition branch_rec :: "u8 \<Rightarrow> u8 \<Rightarrow> u32 \<Rightarrow> u32 \<Rightarrow> u32 \<Rightarrow> bytes \<Rightarrow> bytes" where
  "branch_rec h pre ver sz keyLeaf hsh =
     (h # pre # 0 # 0 # PutUint32 ver @ PutUint32 sz @ PutUint32 keyLeaf) @ hsh"

definition kv_rec :: "bytes \<Rightarrow> bytes \<Rightarrow> bytes" where
  "kv_rec k v = PutUint32 (word_of_nat (length k)) @ k @ PutUint32 (word_of_nat (length v)) @ v"

definition kv_at :: "bytes \<Rightarrow> nat \<Rightarrow> bytes \<Rightarrow> bytes \<Rightarrow> bool" where
  "kv_at kvs off k v \<longleftrightarrow> length kvs < 2 ^ 64 \<and> length k < 2 ^ 32 \<and> length v < 2 ^ 32 \<and>
     (\<exists>pre post. kvs = pre @ kv_rec k v @ post \<and> length pre = off)"

text \<open>
  \<open>stored sn L B n\<close>: the snapshot holds the tree \<open>n\<close> with \<open>L\<close> leaves and \<open>B\<close> branches written before it.
  Its leaves are the leaf records from \<open>L\<close> on, its branches the node records from \<open>B\<close> on, the last of
  them its root. \<open>L - B\<close> subtrees were pending when it was begun.
\<close>

fun stored :: "snapshot \<Rightarrow> nat \<Rightarrow> nat \<Rightarrow> node \<Rightarrow> bool" where
  "stored sn L B (Leaf rp ver k v) =
     (\<exists>off. Leaves_Leaf (sn_leaves sn) (word_of_nat L) =
          Inr (leaf_rec ver k (word_of_nat off) (merkle (Leaf rp ver k v))) \<and> kv_at (sn_kvs sn) off k v)"
| "stored sn L B (Branch rp h s ver k l r) =
     (stored sn L B l \<and> stored sn (L + length (leaves l)) (B + length (leaves l) - 1) r \<and>
      Nodes_Node (sn_nodes sn) (word_of_nat (B + length (leaves l) + length (leaves r) - 2)) =
        Inr (branch_rec h (word_of_nat (L - B)) ver (word_of_nat (length (leaves l) + length (leaves r)))
          (word_of_nat (L + length (leaves l))) (merkle (Branch rp h s ver k l r))))"

text \<open>Room for the tree: 32-bit indices and an 8-bit number of pending subtrees.\<close>

definition room :: "nat \<Rightarrow> nat \<Rightarrow> node \<Rightarrow> bool" where
  "room L B n \<longleftrightarrow> B \<le> L \<and> L + length (leaves n) < 2 ^ 32 \<and> L - B + ht n < 256"

text \<open>Sizes that the length fields can hold.\<close>

definition fits :: "node \<Rightarrow> bool" where
  "fits n \<longleftrightarrow> (\<forall>p \<in> set (leaves n). length (fst p) < 2 ^ 32 \<and> length (snd p) < 2 ^ 32)"

definition kv_size :: "node \<Rightarrow> nat" where
  "kv_size n = sum_list (map (\<lambda>p. 8 + length (fst p) + length (snd p)) (leaves n))"

text \<open>The writer after \<open>L\<close> leaves and \<open>B\<close> branches, and the files that continue what it has written.\<close>

definition wr_ok :: "snapshotWriter \<Rightarrow> nat \<Rightarrow> nat \<Rightarrow> bool" where
  "wr_ok w L B \<longleftrightarrow> w_leafCounter w = word_of_nat L \<and> w_branchCounter w = word_of_nat B \<and>
     length (w_leaves w) = L * SizeLeaf \<and> length (w_nodes w) = B * SizeNode \<and>
     w_kvsOffset w = word_of_nat (length (w_kvs w))"

definition continues :: "snapshot \<Rightarrow> snapshotWriter \<Rightarrow> bool" where
  "continues sn w \<longleftrightarrow> length (sn_kvs sn) < 2 ^ 64 \<and>
     (\<exists>a. sn_leaves sn = w_leaves w @ a) \<and> (\<exists>b. sn_nodes sn = w_nodes w @ b) \<and>
     (\<exists>c. sn_kvs sn = w_kvs w @ c)"

definition pn_of :: "nat \<Rightarrow> nat \<Rightarrow> node \<Rightarrow> pnode" where
  "pn_of L B n =
     (case n of
        Leaf rp ver k v \<Rightarrow> \<lparr>pn_isLeaf = True, pn_index = word_of_nat L\<rparr>
      | Branch rp h s ver k l r \<Rightarrow>
          \<lparr>pn_isLeaf = False, pn_index = word_of_nat (B + length (leaves n) - 2)\<rparr>)"

text \<open>The node that a sequence of descents reaches, in a tree and in a snapshot.\<close>

datatype turn = GoLeft | GoRight

fun node_at :: "node \<Rightarrow> turn list \<Rightarrow> node option" where
  "node_at n [] = Some n"
| "node_at (Branch rp h s ver k l r) (d # ds) = node_at (case d of GoLeft \<Rightarrow> l | GoRight \<Rightarrow> r) ds"
| "node_at (Leaf rp ver k v) (d # ds) = None"

fun pn_at :: "snapshot \<Rightarrow> pnode \<Rightarrow> turn list \<Rightarrow> pnode result" where
  "pn_at sn p [] = Inr p"
| "pn_at sn p (d # ds) = rbind (case d of GoLeft \<Rightarrow> pn_Left sn p | GoRight \<Rightarrow> pn_Right sn p) (\<lambda>q. pn_at sn q ds)"

section \<open>Lemmas: records\<close>

lemma rmap_simps [simp]: "rmap f (Inl e) = Inl e" "rmap f (Inr x) = Inr (f x)"
  by (simp_all add: rmap_def)

lemma length_Put [simp]: "length (PutUint32 w) = 4" "length (PutUint64 x) = 8"
  by (simp_all add: PutUint32_def PutUint64_def)

lemma le_val_Put [simp]:
  "word_of_nat (le_val (PutUint32 w)) = w" "word_of_nat (le_val (PutUint64 x)) = x"
  using Uint32_PutUint32 [of w "[]"] Uint64_PutUint64 [of x "[]"]
  by (simp_all add: Uint32_def Uint64_def)

lemma leaf_rec_fields [simp]:
  "LeafLayout_Version (leaf_rec ver k off hsh) = ver"
  "LeafLayout_KeyLength (leaf_rec ver k off hsh) = word_of_nat (length k)"
  "LeafLayout_KeyOffset (leaf_rec ver k off hsh) = off"
  "length hsh = 32 \<Longrightarrow> LeafLayout_Hash (leaf_rec ver k off hsh) = hsh"
  "length hsh = 32 \<Longrightarrow> length (leaf_rec ver k off hsh) = SizeLeaf"
  by (simp_all add: leaf_rec_def layout_field_defs field32_def field64_def layout_defs)

lemma branch_rec_fields [simp]:
  "NodeLayout_Height (branch_rec h pre ver sz kl hsh) = h"
  "NodeLayout_PreTrees (branch_rec h pre ver sz kl hsh) = pre"
  "NodeLayout_Version (branch_rec h pre ver sz kl hsh) = ver"
  "NodeLayout_Size (branch_rec h pre ver sz kl hsh) = sz"
  "NodeLayout_KeyLeaf (branch_rec h pre ver sz kl hsh) = kl"
  "length hsh = 32 \<Longrightarrow> NodeLayout_Hash (branch_rec h pre ver sz kl hsh) = hsh"
  "length hsh = 32 \<Longrightarrow> length (branch_rec h pre ver sz kl hsh) = SizeNode"
  by (simp_all add: branch_rec_def layout_field_defs field32_def layout_defs numeral_eq_Suc)

lemma length_kv_rec [simp]: "length (kv_rec k v) = 8 + length k + length v"
  by (simp add: kv_rec_def)

lemma length_merkle [simp]: "length (merkle n) = 32"
  by (simp add: merkle_hash_input)

lemma slice_bytes_append:
  "length xs = a \<Longrightarrow> b = a + length ys \<Longrightarrow> slice_bytes (xs @ ys @ zs) a b = Inr ys"
  by (simp add: slice_bytes_def)

lemma kv_at_reads:
  assumes "kv_at kvs off k v"
  shows "kvs_len kvs (word_of_nat off) = Inr (word_of_nat (length k))"
    and "kvs_slice kvs (word_of_nat off + 4) (word_of_nat (length k)) = Inr k"
    and "kvs_len kvs (word_of_nat off + 4 + word_of_nat (length k)) = Inr (word_of_nat (length v))"
    and "kvs_slice kvs (word_of_nat off + 4 + word_of_nat (length k) + 4) (word_of_nat (length v)) = Inr v"
proof -
  obtain pre post where kvs: "kvs = pre @ kv_rec k v @ post" "length pre = off" "length kvs < 2 ^ 64"
    using assms by (auto simp: kv_at_def)
  let ?lk = "length k" and ?lv = "length v"
  have "off + 8 + ?lk + ?lv < 2 ^ 64" using kvs by simp
  then have un: "unat (word_of_nat off :: u64) = off" "unat (word_of_nat off + 4 :: u64) = off + 4"
    "unat (word_of_nat off + 4 + word_of_nat ?lk :: u64) = off + 4 + ?lk"
    "unat (word_of_nat off + 4 + word_of_nat ?lk + 4 :: u64) = off + 8 + ?lk"
    "unat (word_of_nat off + 4 + word_of_nat ?lk + 4 + word_of_nat ?lv :: u64) = off + 8 + ?lk + ?lv"
    by (simp_all add: unat_of_nat unat_word_ariths)
  have suffix: "slice_bytes (xs @ ys) (length xs) (length (xs @ ys)) = Inr ys" for xs ys :: bytes
    using slice_bytes_append [of xs "length xs" "length (xs @ ys)" ys "[]"] by simp
  show "kvs_len kvs (word_of_nat off) = Inr (word_of_nat ?lk)"
    using suffix [of pre "kv_rec k v @ post"] kvs un by (simp add: kvs_len_def kv_rec_def)
  show "kvs_slice kvs (word_of_nat off + 4) (word_of_nat ?lk) = Inr k"
    using slice_bytes_append [of "pre @ PutUint32 (word_of_nat ?lk)" "off + 4" _ k] kvs un
    by (simp add: kvs_slice_def kv_rec_def)
  show "kvs_len kvs (word_of_nat off + 4 + word_of_nat ?lk) = Inr (word_of_nat ?lv)"
    using suffix [of "pre @ PutUint32 (word_of_nat ?lk) @ k" "PutUint32 (word_of_nat ?lv) @ v @ post"] kvs un
    by (simp add: kvs_len_def kv_rec_def add.assoc)
  show "kvs_slice kvs (word_of_nat off + 4 + word_of_nat ?lk + 4) (word_of_nat ?lv) = Inr v"
    using slice_bytes_append [of "pre @ PutUint32 (word_of_nat ?lk) @ k @ PutUint32 (word_of_nat ?lv)"
        "off + 8 + ?lk" _ v post] kvs un
    by (simp add: kvs_slice_def kv_rec_def)
qed

lemma ucast_up_of_nat: "n < 2 ^ 32 \<Longrightarrow> (ucast (word_of_nat n :: u32) :: u64) = word_of_nat n"
  by (simp add: word_unat_eq_iff unat_of_nat)

lemma ucast_down_of_nat: "(ucast (word_of_nat n :: u32) :: u8) = word_of_nat n"
  by (simp add: unsigned_of_nat word_of_nat_eq_iff take_bit_take_bit)

lemma ucast_pre_of_nat: "n < 256 \<Longrightarrow> (ucast (word_of_nat n :: u8) :: u32) = word_of_nat n"
  by (simp add: unsigned_of_nat take_bit_nat_eq_self)

lemma word_of_nat_u32_inj: "m < 2 ^ 32 \<Longrightarrow> n < 2 ^ 32 \<Longrightarrow> (word_of_nat m :: u32) = word_of_nat n \<longleftrightarrow> m = n"
  by (simp add: word_of_nat_eq_iff take_bit_nat_eq_self)

lemma unat_sum_u32:
  "a + b < 2 ^ 32 \<Longrightarrow> unat (word_of_nat a + word_of_nat b :: u32) = a + b"
  by (simp add: unat_of_nat flip: of_nat_add)

section \<open>Lemmas: reading a stored tree\<close>

text \<open>The leaf records below a node, in order.\<close>

definition leaf_at :: "snapshot \<Rightarrow> nat \<Rightarrow> bytes \<Rightarrow> bytes \<Rightarrow> bool" where
  "leaf_at sn i k v \<longleftrightarrow>
     (\<exists>ver off hsh. Leaves_Leaf (sn_leaves sn) (word_of_nat i) = Inr (leaf_rec ver k (word_of_nat off) hsh) \<and>
        kv_at (sn_kvs sn) off k v)"

lemma leaf_at_reads:
  assumes "leaf_at sn i k v"
  shows "LeafKey sn (word_of_nat i) = Inr k" and "LeafKeyValue sn (word_of_nat i) = Inr (k, v)"
proof -
  obtain ver off hsh where
    lf: "Leaves_Leaf (sn_leaves sn) (word_of_nat i) = Inr (leaf_rec ver k (word_of_nat off) hsh)"
    and kv: "kv_at (sn_kvs sn) off k v"
    using assms by (auto simp: leaf_at_def)
  have len: "length k < 2 ^ 32" "length v < 2 ^ 32" using kv by (auto simp: kv_at_def)
  note reads = kv_at_reads [OF kv] ucast_up_of_nat [OF len(1)] ucast_up_of_nat [OF len(2)]
  show "LeafKey sn (word_of_nat i) = Inr k" using lf reads by (simp add: LeafKey_def)
  show "LeafKeyValue sn (word_of_nat i) = Inr (k, v)" using lf reads by (simp add: LeafKeyValue_def Let_def)
qed

lemma stored_leaf_at:
  assumes "stored sn L B n" and "i < length (leaves n)"
  shows "leaf_at sn (L + i) (fst (leaves n ! i)) (snd (leaves n ! i))"
  using assms
proof (induction n arbitrary: L B i)
  case (Leaf rp ver k v)
  then show ?case by (auto simp: leaf_at_def)
next
  case (Branch rp h s ver k l r)
  show ?case
  proof (cases "i < length (leaves l)")
    case True
    then show ?thesis using Branch.IH(1) [of L B i] Branch.prems by (simp add: nth_append)
  next
    case False
    then show ?thesis
      using Branch.IH(2) [of "L + length (leaves l)" "B + length (leaves l) - 1" "i - length (leaves l)"]
        Branch.prems by (simp add: nth_append)
  qed
qed

lemma two_leaves: "2 \<le> length (leaves l) + length (leaves r)"
  using length_leaves_pos [of l] length_leaves_pos [of r] by linarith

lemma leaf_iff_one: "length (leaves n) = 1 \<longleftrightarrow> (\<exists>rp ver k v. n = Leaf rp ver k v)"
proof (cases n)
  case (Branch rp h s ver k l r)
  then show ?thesis using two_leaves [of l r] by auto
qed simp

lemma pn_of_simps [simp]:
  "pn_of L B (Leaf rp ver k v) = \<lparr>pn_isLeaf = True, pn_index = word_of_nat L\<rparr>"
  "pn_of L B (Branch rp h s ver k l r) =
     \<lparr>pn_isLeaf = False, pn_index = word_of_nat (B + length (leaves l) + length (leaves r) - 2)\<rparr>"
  by (simp_all add: pn_of_def add.assoc)

lemma room_children:
  assumes "room L B (Branch rp h s ver k l r)"
  shows "room L B l" and "room (L + length (leaves l)) (B + length (leaves l) - 1) r"
  using assms length_leaves_pos [of l] by (auto simp: room_def)

text \<open>The index arithmetic of \<^verbatim>\<open>getStartLeaf\<close>, \<^verbatim>\<open>getEndLeaf\<close> and \<^verbatim>\<open>getLeftBranch\<close>.\<close>

lemma start_leaf:
  assumes "B \<le> L" and "2 \<le> n"
  shows "getStartLeaf (word_of_nat (B + n - 2)) (word_of_nat n) (word_of_nat (L - B)) = word_of_nat L"
    and "getEndLeaf (word_of_nat (B + n - 2)) (word_of_nat (L - B)) = word_of_nat (L + n - 1)"
    and "2 \<le> m \<Longrightarrow> getLeftBranch (word_of_nat (L + m)) (word_of_nat (L - B)) = word_of_nat (B + m - 2)"
  using assms by (simp_all add: getStartLeaf_def getEndLeaf_def getLeftBranch_def of_nat_diff)

lemma pn_Left_calc:
  assumes "branchNode sn p = Inr d" and "\<not> pn_isLeaf p"
    and "getStartLeaf (pn_index p) (NodeLayout_Size d) (ucast (NodeLayout_PreTrees d)) = st"
  shows "pn_Left sn p = Inr (if st + 1 = NodeLayout_KeyLeaf d then \<lparr>pn_isLeaf = True, pn_index = st\<rparr>
    else \<lparr>pn_isLeaf = False, pn_index = getLeftBranch (NodeLayout_KeyLeaf d) (ucast (NodeLayout_PreTrees d))\<rparr>)"
  using assms by (simp add: pn_Left_def Let_def)

lemma pn_Right_calc:
  assumes "branchNode sn p = Inr d" and "\<not> pn_isLeaf p"
    and "getEndLeaf (pn_index p) (ucast (NodeLayout_PreTrees d)) = en"
  shows "pn_Right sn p = Inr (if NodeLayout_KeyLeaf d = en
    then \<lparr>pn_isLeaf = True, pn_index = NodeLayout_KeyLeaf d\<rparr>
    else \<lparr>pn_isLeaf = False, pn_index = pn_index p - 1\<rparr>)"
  using assms by (simp add: pn_Right_def Let_def)

lemma pn_children:
  assumes "stored sn L B (Branch rp h s ver k l r)" and "room L B (Branch rp h s ver k l r)"
  shows "pn_Left sn (pn_of L B (Branch rp h s ver k l r)) = Inr (pn_of L B l)"
    and "pn_Right sn (pn_of L B (Branch rp h s ver k l r)) =
      Inr (pn_of (L + length (leaves l)) (B + length (leaves l) - 1) r)"
proof -
  let ?nl = "length (leaves l)" and ?nr = "length (leaves r)"
  have B: "B \<le> L" and lt: "L + ?nl + ?nr < 2 ^ 32" and pre: "L - B < 256"
    using assms(2) by (auto simp: room_def)
  have pos: "0 < ?nl" "0 < ?nr" by (simp_all add: length_leaves_pos)
  note sl = start_leaf [OF B two_leaves [of l r]] ucast_pre_of_nat [OF pre]
  have rd: "branchNode sn (pn_of L B (Branch rp h s ver k l r)) =
    Inr (branch_rec h (word_of_nat (L - B)) ver (word_of_nat (?nl + ?nr)) (word_of_nat (L + ?nl))
      (merkle (Branch rp h s ver k l r)))"
    using assms(1) by (simp add: branchNode_def)
  have lcase: "(word_of_nat L + 1 :: u32) = word_of_nat (L + ?nl) \<longleftrightarrow> ?nl = 1"
  proof -
    have "L + 1 < 2 ^ 32" "L + ?nl < 2 ^ 32" using lt pos by linarith+
    from word_of_nat_u32_inj [OF this] show ?thesis by auto
  qed
  have rcase: "(word_of_nat (L + ?nl) :: u32) = word_of_nat (L + (?nl + ?nr) - 1) \<longleftrightarrow> ?nr = 1"
  proof -
    have "L + ?nl < 2 ^ 32" "L + (?nl + ?nr) - 1 < 2 ^ 32" using lt by auto
    from word_of_nat_u32_inj [OF this] show ?thesis using pos by linarith
  qed
  have left: "pn_Left sn (pn_of L B (Branch rp h s ver k l r)) =
    Inr (if ?nl = 1 then \<lparr>pn_isLeaf = True, pn_index = word_of_nat L\<rparr>
      else \<lparr>pn_isLeaf = False, pn_index = getLeftBranch (word_of_nat (L + ?nl)) (word_of_nat (L - B))\<rparr>)"
    using pn_Left_calc [OF rd, of "word_of_nat L"] sl(1,4)
    by (simp only: pn_of_simps pnode.select_convs branch_rec_fields lcase add.assoc not_False_eq_True)
  have right: "pn_Right sn (pn_of L B (Branch rp h s ver k l r)) =
    Inr (if ?nr = 1 then \<lparr>pn_isLeaf = True, pn_index = word_of_nat (L + ?nl)\<rparr>
      else \<lparr>pn_isLeaf = False, pn_index = word_of_nat (B + (?nl + ?nr) - 2) - 1\<rparr>)"
    using pn_Right_calc [OF rd, of "word_of_nat (L + (?nl + ?nr) - 1)"] sl(2,4)
    by (simp only: pn_of_simps pnode.select_convs branch_rec_fields rcase add.assoc not_False_eq_True)
  show "pn_Left sn (pn_of L B (Branch rp h s ver k l r)) = Inr (pn_of L B l)"
  proof (cases l)
    case (Branch lrp lh ls lver lk ll lr)
    then have "2 \<le> ?nl" using two_leaves [of ll lr] by simp
    then have "getLeftBranch (word_of_nat (L + ?nl)) (word_of_nat (L - B)) = word_of_nat (B + ?nl - 2)"
      by (rule start_leaf(3) [OF B two_leaves [of l r]])
    moreover have "?nl \<noteq> 1" using \<open>2 \<le> ?nl\<close> by simp
    moreover have "pn_of L B l = \<lparr>pn_isLeaf = False, pn_index = word_of_nat (B + ?nl - 2)\<rparr>"
      using Branch by (simp add: add.assoc)
    ultimately show ?thesis unfolding left by (simp only: if_False)
  qed (use left in simp)
  show "pn_Right sn (pn_of L B (Branch rp h s ver k l r)) = Inr (pn_of (L + ?nl) (B + ?nl - 1) r)"
  proof (cases r)
    case (Branch rrp rh rs rver rk rl rr)
    then have nr: "2 \<le> ?nr" using two_leaves [of rl rr] by simp
    then have "B + ?nl - 1 + ?nr - 2 = (B + (?nl + ?nr) - 2) - 1" "1 \<le> B + (?nl + ?nr) - 2"
      using pos by linarith+
    then have "(word_of_nat (B + (?nl + ?nr) - 2) - 1 :: u32) = word_of_nat (B + ?nl - 1 + ?nr - 2)"
      by (metis of_nat_1 of_nat_diff)
    moreover have "pn_of (L + ?nl) (B + ?nl - 1) r =
      \<lparr>pn_isLeaf = False, pn_index = word_of_nat (B + ?nl - 1 + ?nr - 2)\<rparr>"
      using Branch by (simp add: add.assoc)
    moreover have "?nr \<noteq> 1" using nr by simp
    ultimately show ?thesis unfolding right by (simp only: if_False)
  qed (use right in simp)
qed

lemma ordered_key_of_leaf:
  assumes "stored sn L B (Branch rp h s ver k l r)" and "ordered (Branch rp h s ver k l r)"
  shows "LeafKey sn (word_of_nat (L + length (leaves l))) = Inr k"
proof -
  have "leaf_at sn (L + length (leaves l)) (fst (leaves r ! 0)) (snd (leaves r ! 0))"
    using assms(1) stored_leaf_at [of sn "L + length (leaves l)" "B + length (leaves l) - 1" r 0] by simp
  from leaf_at_reads(1) [OF this] show ?thesis
    using assms(2) by (simp add: minkey_hd hd_conv_nth)
qed

lemma pn_tree_stored:
  assumes "stored sn L B n" and "room L B n" and "ordered n" and "sized n" and "ht n < fuel"
  shows "pn_tree fuel sn (pn_of L B n) = Inr (persisted n)"
  using assms
proof (induction n arbitrary: L B fuel)
  case (Leaf rp ver k v)
  obtain f where f: "fuel = Suc f" using Leaf.prems(5) by (cases fuel) auto
  have "leaf_at sn L k v" using stored_leaf_at [OF Leaf.prems(1), of 0] by simp
  then have "LeafKey sn (word_of_nat L) = Inr k" "LeafKeyValue sn (word_of_nat L) = Inr (k, v)"
    by (rule leaf_at_reads)+
  then show ?case
    using Leaf.prems(1) f
    by (auto simp: pn_Version_def pn_Key_def pn_Hash_def pn_Value_def leafNode_def simp del: merkle.simps)
next
  case (Branch rp h s ver k l r)
  let ?n = "Branch rp h s ver k l r" and ?nl = "length (leaves l)" and ?nr = "length (leaves r)"
  obtain f where f: "fuel = Suc f" using Branch.prems(5) by (cases fuel) auto
  have rd: "branchNode sn (pn_of L B ?n) =
    Inr (branch_rec h (word_of_nat (L - B)) ver (word_of_nat (?nl + ?nr)) (word_of_nat (L + ?nl)) (merkle ?n))"
    using Branch.prems(1) by (simp add: branchNode_def)
  have s: "s = word_of_nat (?nl + ?nr)" using Branch.prems(4) by simp
  have "?nl + ?nr < 2 ^ 32" using Branch.prems(2) by (simp add: room_def)
  then have sz: "pn_Size sn (pn_of L B ?n) = Inr s"
    using rd s ucast_up_of_nat [of "?nl + ?nr"] by (simp add: pn_Size_def del: of_nat_add)
  have key: "pn_Key sn (pn_of L B ?n) = Inr k"
    using ordered_key_of_leaf [OF Branch.prems(1,3)] rd by (simp add: pn_Key_def del: of_nat_add)
  have hd: "pn_Version sn (pn_of L B ?n) = Inr ver" "pn_Hash sn (pn_of L B ?n) = Inr (merkle ?n)"
    "pn_Height sn (pn_of L B ?n) = Inr h" "\<not> pn_isLeaf (pn_of L B ?n)"
    using rd by (simp_all add: pn_Version_def pn_Hash_def pn_Height_def del: merkle.simps)
  note ch = pn_children [OF Branch.prems(1,2)] and rm = room_children [OF Branch.prems(2)]
  have "pn_tree f sn (pn_of L B l) = Inr (persisted l)"
    using Branch.prems f by (intro Branch.IH(1) rm(1)) auto
  moreover have "pn_tree f sn (pn_of (L + ?nl) (B + ?nl - 1) r) = Inr (persisted r)"
    using Branch.prems f by (intro Branch.IH(2) rm(2)) auto
  ultimately show ?case
    using f sz key hd ch by (simp del: pn_of_simps merkle.simps)
qed

text \<open>Where \<^verbatim>\<open>Get\<close> and \<^verbatim>\<open>GetByIndex\<close> look: the leaf records of the node.\<close>

definition leaf_range :: "snapshot \<Rightarrow> pnode \<Rightarrow> (u32 \<times> u32) result" where
  "leaf_range sn p =
     (if pn_isLeaf p then Inr (pn_index p, 1)
      else rmap (\<lambda>data. (getStartLeaf (pn_index p) (NodeLayout_Size data)
             (ucast (NodeLayout_PreTrees data)), NodeLayout_Size data)) (branchNode sn p))"

lemma leaf_range_stored:
  assumes "stored sn L B n" and "room L B n"
  shows "leaf_range sn (pn_of L B n) = Inr (word_of_nat L, word_of_nat (length (leaves n)))"
proof (cases n)
  case (Branch rp h s ver k l r)
  have B: "B \<le> L" and pre: "L - B < 256" using assms(2) by (auto simp: room_def)
  show ?thesis
    using assms(1) Branch start_leaf(1) [OF B two_leaves [of l r]] ucast_pre_of_nat [OF pre]
    by (simp add: leaf_range_def branchNode_def add.assoc del: of_nat_add)
qed (simp add: leaf_range_def)

lemma stored_LeafKey:
  assumes "stored sn L B n" and "i < length (leaves n)"
  shows "LeafKey sn (word_of_nat L + word_of_nat i) = Inr (fst (leaves n ! i))"
    and "LeafKeyValue sn (word_of_nat L + word_of_nat i) = Inr (leaves n ! i)"
  using leaf_at_reads [OF stored_leaf_at [OF assms]] by simp_all

lemma pn_Get_stored:
  assumes "stored sn L B n" and "room L B n" and "ordered n"
  shows "pn_Get sn (pn_of L B n) key =
    Inr (map_of (leaves n) key, word_of_nat (length (filter (\<lambda>p. fst p < key) (leaves n))))"
proof -
  let ?xs = "leaves n" and ?m = "length (filter (\<lambda>p. fst p < key) (leaves n))"
  have lt: "L + length ?xs < 2 ^ 32" using assms(2) by (simp add: room_def)
  have un: "unat (word_of_nat (length ?xs) :: u32) = length ?xs" using lt by (simp add: unat_of_nat)
  have srt: "keys_sorted ?xs" by (rule ordered_sorted [OF assms(3)])
  have "sort_Search_result (length ?xs) (\<lambda>i.
      rmap (\<lambda>leafKey. bytes_Compare leafKey key \<ge> 0) (LeafKey sn (word_of_nat L + word_of_nat i))) =
    Inr (sort_Search (length ?xs) (\<lambda>i. key \<le> fst (?xs ! i)))"
    by (rule sort_Search_result_Inr) (simp add: stored_LeafKey [OF assms(1)])
  then have srch: "sort_Search_result (unat (word_of_nat (length ?xs) :: u32)) (\<lambda>i.
      rmap (\<lambda>leafKey. bytes_Compare leafKey key \<ge> 0) (LeafKey sn (word_of_nat L + word_of_nat i))) = Inr ?m"
    unfolding un sort_Search_rank [OF srt] .
  have m: "?m \<le> length ?xs" by simp
  have ge: "(word_of_nat ?m + word_of_nat L :: u32) \<ge> word_of_nat L + word_of_nat (length ?xs) \<longleftrightarrow>
    ?m = length ?xs"
  proof -
    have "unat (word_of_nat ?m + word_of_nat L :: u32) = ?m + L"
      "unat (word_of_nat L + word_of_nat (length ?xs) :: u32) = L + length ?xs"
      using lt m by (intro unat_sum_u32; linarith)+
    then show ?thesis using m unfolding word_le_nat_alt by linarith
  qed
  have absent: "map_of ?xs key = None" if "?m < length ?xs" "fst (?xs ! ?m) \<noteq> key"
    using map_of_nth_index [OF _ srt, of key] that by (cases "map_of ?xs key") auto
  have none: "map_of ?xs key = None" if "?m = length ?xs"
    using map_of_nth_index [OF _ srt, of key] that by (cases "map_of ?xs key") auto
  have hit: "map_of ?xs key = Some (snd (?xs ! ?m))" if "?m < length ?xs" "fst (?xs ! ?m) = key"
    using that keys_sorted_distinct [OF srt] by (metis map_of_is_SomeI nth_mem prod.collapse)
  have leaf: "LeafKeyValue sn (word_of_nat ?m + word_of_nat L) = Inr (?xs ! ?m)" if "?m < length ?xs"
    using stored_LeafKey(2) [OF assms(1) that] by (simp add: add.commute)
  note unfold = pn_Get_def leaf_range_def [symmetric] leaf_range_stored [OF assms(1,2)] rbind_simps
    prod.case srch Let_def ge
  show ?thesis
  proof (cases "?m = length ?xs")
    case True
    then show ?thesis unfolding unfold using none by simp
  next
    case False
    then have lt: "?m < length ?xs" using m by linarith
    then show ?thesis
      unfolding unfold leaf [OF lt] rmap_simps using False absent hit by (auto simp: split_beta)
  qed
qed

lemma pn_GetByIndex_stored:
  assumes "stored sn L B n" and "room L B n" and "L + unat i < 2 ^ 32"
  shows "pn_GetByIndex sn (pn_of L B n) i =
    Inr (if unat i < length (leaves n) then Some (leaves n ! unat i) else None)"
proof (cases n)
  case (Leaf rp ver k v)
  then show ?thesis
    using stored_LeafKey(2) [OF assms(1), of 0] by (auto simp: pn_GetByIndex_def unat_eq_0)
next
  case (Branch rp h s ver k l r)
  let ?N = "length (leaves l) + length (leaves r)"
  have B: "B \<le> L" and pre: "L - B < 256" and lt: "L + ?N < 2 ^ 32"
    using assms(2) Branch by (auto simp: room_def)
  note sl = start_leaf [OF B two_leaves [of l r]] ucast_pre_of_nat [OF pre]
  have i: "i = word_of_nat (unat i)" by simp
  have un: "unat (word_of_nat L + i :: u32) = L + unat i" "unat (word_of_nat (L + ?N - 1) :: u32) = L + ?N - 1"
    using unat_sum_u32 [OF assms(3)] lt by (simp_all add: unat_of_nat del: of_nat_diff)
  have gt: "word_of_nat L + i > (word_of_nat (L + ?N - 1) :: u32) \<longleftrightarrow> \<not> unat i < ?N"
    unfolding word_less_nat_alt un using two_leaves [of l r] by linarith
  have "pn_GetByIndex sn (pn_of L B n) i = (if word_of_nat L + i > (word_of_nat (L + ?N - 1) :: u32)
      then Inr None else rmap Some (LeafKeyValue sn (word_of_nat L + i)))"
    using assms(1) Branch sl
    by (simp add: pn_GetByIndex_def branchNode_def Let_def add.assoc del: of_nat_add of_nat_diff)
  then show ?thesis
    unfolding gt using stored_LeafKey(2) [OF assms(1), of "unat i"] Branch by simp
qed

section \<open>Lemmas: writing a tree\<close>

lemma writeLeaf_stored:
  assumes "wr_ok w L B" and "L < 2 ^ 32" and "length k < 2 ^ 32" and "length v < 2 ^ 32"
    and "hsh = merkle (Leaf rp ver k v)"
  shows "\<exists>w'. writeLeaf (\<lambda>_. False) ver k v hsh w = Inr w' \<and> wr_ok w' (Suc L) B \<and>
    length (w_kvs w') = length (w_kvs w) + (8 + length k + length v) \<and>
    (\<forall>sn. continues sn w' \<longrightarrow> continues sn w \<and> stored sn L B (Leaf rp ver k v))"
proof -
  let ?off = "length (w_kvs w)"
  define w' where "w' = w\<lparr>w_kvs := w_kvs w @ kv_rec k v,
    w_kvsOffset := w_kvsOffset w + (4 + 4 + word_of_nat (length k) + word_of_nat (length v)),
    w_leaves := w_leaves w @ leaf_rec ver k (word_of_nat ?off) hsh, w_leafCounter := w_leafCounter w + 1\<rparr>"
  have wr: "writeLeaf (\<lambda>_. False) ver k v hsh w = Inr w'"
    using assms(1) by (simp add: writeLeaf_def writeKeyValue_def Let_def w'_def leaf_rec_def kv_rec_def wr_ok_def)
  have len: "length hsh = 32" using assms(5) by (simp del: merkle.simps)
  have ok: "wr_ok w' (Suc L) B"
    using assms(1) len by (simp add: wr_ok_def w'_def algebra_simps)
  have "continues sn w \<and> stored sn L B (Leaf rp ver k v)" if sn: "continues sn w'" for sn
  proof -
    obtain a b c where abc: "sn_leaves sn = w_leaves w' @ a" "sn_nodes sn = w_nodes w' @ b"
      "sn_kvs sn = w_kvs w' @ c" and lt: "length (sn_kvs sn) < 2 ^ 64"
      using sn by (auto simp: continues_def)
    have "kv_at (sn_kvs sn) ?off k v"
      using abc(3) lt assms(3,4) unfolding kv_at_def by (auto simp: w'_def)
    moreover have "Leaves_Leaf (sn_leaves sn) (word_of_nat L) = Inr (leaf_rec ver k (word_of_nat ?off) hsh)"
      using slice_bytes_append [of "w_leaves w" "L * SizeLeaf" "L * SizeLeaf + SizeLeaf"
          "leaf_rec ver k (word_of_nat ?off) hsh" a] abc(1) assms(1,2) len
      by (simp add: Leaves_Leaf_def w'_def wr_ok_def unat_of_nat)
    ultimately show ?thesis
      using abc lt assms(5) by (auto simp: continues_def w'_def simp del: merkle.simps)
  qed
  then show ?thesis using wr ok by (auto simp: w'_def)
qed

lemma writeBranch_stored:
  assumes "wr_ok w L B" and "B < 2 ^ 32" and "length hsh = 32"
  shows "wr_ok (writeBranch ver sz h pre kl hsh w) L (Suc B) \<and>
    w_kvs (writeBranch ver sz h pre kl hsh w) = w_kvs w \<and>
    (\<forall>sn. continues sn (writeBranch ver sz h pre kl hsh w) \<longrightarrow> continues sn w \<and>
       Nodes_Node (sn_nodes sn) (word_of_nat B) = Inr (branch_rec h pre ver sz kl hsh))"
proof -
  let ?w = "writeBranch ver sz h pre kl hsh w"
  have nd: "w_nodes ?w = w_nodes w @ branch_rec h pre ver sz kl hsh"
    by (simp add: writeBranch_def branch_rec_def)
  have "continues sn w \<and> Nodes_Node (sn_nodes sn) (word_of_nat B) = Inr (branch_rec h pre ver sz kl hsh)"
    if sn: "continues sn ?w" for sn
  proof -
    obtain b where "sn_nodes sn = w_nodes w @ branch_rec h pre ver sz kl hsh @ b"
      using sn nd by (auto simp: continues_def)
    then show ?thesis
      using sn slice_bytes_append [of "w_nodes w" "B * SizeNode" "B * SizeNode + SizeNode"
          "branch_rec h pre ver sz kl hsh" b] assms
      by (auto simp: continues_def Nodes_Node_def wr_ok_def unat_of_nat writeBranch_def)
  qed
  moreover have "wr_ok ?w L (Suc B)"
    using assms nd by (auto simp: wr_ok_def writeBranch_def algebra_simps)
  ultimately show ?thesis by (simp add: writeBranch_def)
qed

lemma writeRecursive_stored:
  assumes "wr_ok w L B" and "room L B n" and "hashed n" and "sized n" and "fits n"
  shows "\<exists>w'. writeRecursive (\<lambda>_. False) n w = Inr w' \<and>
    wr_ok w' (L + length (leaves n)) (B + length (leaves n) - 1) \<and>
    length (w_kvs w') = length (w_kvs w) + kv_size n \<and>
    (\<forall>sn. continues sn w' \<longrightarrow> continues sn w \<and> stored sn L B n)"
  using assms
proof (induction n arbitrary: w L B)
  case (Leaf rp ver k v)
  have "fst (node_Hash (Leaf rp ver k v)) = merkle (Leaf rp ver k v)"
    using Leaf.prems(3) by (rule node_Hash_merkle)
  moreover have "L < 2 ^ 32" "length k < 2 ^ 32" "length v < 2 ^ 32"
    using Leaf.prems(2,5) by (auto simp: room_def fits_def)
  ultimately show ?case
    using writeLeaf_stored [OF Leaf.prems(1), of k v "merkle (Leaf rp ver k v)" rp ver]
    by (simp add: kv_size_def del: merkle.simps stored.simps)
next
  case (Branch rp h s ver k l r)
  let ?n = "Branch rp h s ver k l r" and ?nl = "length (leaves l)" and ?nr = "length (leaves r)"
  note rm = room_children [OF Branch.prems(2)]
  have pos: "0 < ?nl" "0 < ?nr" by (simp_all add: length_leaves_pos)
  have ok: "hashed l" "hashed r" "sized l" "sized r" "fits l" "fits r"
    using Branch.prems(3-5) by (auto simp: fits_def)
  obtain w1 where w1: "writeRecursive (\<lambda>_. False) l w = Inr w1" "wr_ok w1 (L + ?nl) (B + ?nl - 1)"
    "length (w_kvs w1) = length (w_kvs w) + kv_size l"
    "\<And>sn. continues sn w1 \<Longrightarrow> continues sn w \<and> stored sn L B l"
    using Branch.IH(1) [OF Branch.prems(1) rm(1) ok(1,3,5)] by blast
  obtain w2 where w2: "writeRecursive (\<lambda>_. False) r w1 = Inr w2"
    "wr_ok w2 (L + ?nl + ?nr) (B + ?nl - 1 + ?nr - 1)"
    "length (w_kvs w2) = length (w_kvs w1) + kv_size r"
    "\<And>sn. continues sn w2 \<Longrightarrow> continues sn w1 \<and> stored sn (L + ?nl) (B + ?nl - 1) r"
    using Branch.IH(2) [OF w1(2) rm(2) ok(2,4,6)] by blast
  have idx: "B + ?nl - 1 + ?nr - 1 = B + ?nl + ?nr - 2" "Suc (B + ?nl + ?nr - 2) = B + (?nl + ?nr) - 1"
    using pos by linarith+
  have lt: "B + ?nl + ?nr - 2 < 2 ^ 32" "B \<le> L" using Branch.prems(2) by (auto simp: room_def)
  have hs: "fst (node_Hash ?n) = merkle ?n" using Branch.prems(3) by (rule node_Hash_merkle)
  have pre: "ucast (w_leafCounter w - w_branchCounter w) = (word_of_nat (L - B) :: u8)"
    using Branch.prems(1) lt(2) ucast_down_of_nat [of "L - B"] by (simp add: wr_ok_def of_nat_diff)
  have sz: "ucast s = (word_of_nat (?nl + ?nr) :: u32)"
    using Branch.prems(4) by (simp add: ucast_word_of_nat del: of_nat_add)
  have kl: "w_leafCounter w1 = word_of_nat (L + ?nl)" using w1(2) by (simp add: wr_ok_def)
  define w3 where "w3 = writeBranch ver (word_of_nat (?nl + ?nr)) h (word_of_nat (L - B))
    (word_of_nat (L + ?nl)) (merkle ?n) w2"
  have wr: "writeRecursive (\<lambda>_. False) ?n w = Inr w3"
    using w1(1) w2(1) by (simp only: writeRecursive.simps Let_def rbind_simps pre sz kl hs w3_def)
  have w3: "wr_ok w3 (L + ?nl + ?nr) (B + (?nl + ?nr) - 1)" "w_kvs w3 = w_kvs w2"
    "\<And>sn. continues sn w3 \<Longrightarrow> continues sn w2 \<and> Nodes_Node (sn_nodes sn) (word_of_nat (B + ?nl + ?nr - 2)) =
       Inr (branch_rec h (word_of_nat (L - B)) ver (word_of_nat (?nl + ?nr)) (word_of_nat (L + ?nl)) (merkle ?n))"
    using writeBranch_stored [OF w2(2) [unfolded idx(1)] lt(1) length_merkle [of ?n]]
    unfolding w3_def idx(2) by blast+
  have "continues sn w \<and> stored sn L B ?n" if "continues sn w3" for sn
    using w3(3) [OF that] w2(4) [of sn] w1(4) [of sn] by (simp del: merkle.simps of_nat_add of_nat_diff)
  moreover have "length (w_kvs w3) = length (w_kvs w) + kv_size ?n"
    using w1(3) w2(3) w3(2) by (simp add: kv_size_def)
  ultimately show ?case using wr w3(1) by (simp add: add.assoc del: merkle.simps stored.simps)
qed

lemma writeRecursive_cancel:
  "writeRecursive done n w = Inr w' \<Longrightarrow> writeRecursive (\<lambda>_. False) n w = Inr w'"
proof (induction n arbitrary: w w')
  case (Leaf rp ver k v)
  then show ?case by (simp add: writeLeaf_def split: if_splits)
next
  case (Branch rp h s ver k l r)
  obtain w1 where w1: "writeRecursive done l w = Inr w1"
    using Branch.prems by (cases "writeRecursive done l w") (auto simp: Let_def)
  then obtain w2 where w2: "writeRecursive done r w1 = Inr w2"
    using Branch.prems by (cases "writeRecursive done r w1") (auto simp: Let_def)
  show ?case using Branch.prems w1 w2 Branch.IH(1) [OF w1] Branch.IH(2) [OF w2] by (simp add: Let_def)
qed

section \<open>Properties\<close>

lemma persisted_simps [simp]:
  "leaves (persisted n) = leaves n" "minkey (persisted n) = minkey n" "ht (persisted n) = ht n"
  "merkle (persisted n) = merkle n" "strip (persisted n) = strip n"
proof -
  show "leaves (persisted n) = leaves n" by (induction n) auto
  show "minkey (persisted n) = minkey n" by (induction n) auto
  show "ht (persisted n) = ht n" by (induction n) auto
  show "merkle (persisted n) = merkle n" by (induction n) auto
  show "strip (persisted n) = strip n" by (induction n) auto
qed

lemma persisted_wf: "wf_node n \<Longrightarrow> wf_node (persisted n)"
proof -
  assume wf: "wf_node n"
  have "hashed (persisted n)" by (induction n) auto
  then show ?thesis
    using wf strip_simps(4-6) [of n] strip_simps(4-6) [of "persisted n"] by (simp add: wf_node_def)
qed

lemma room_root: "wf_node n \<Longrightarrow> length (leaves n) < 2 ^ 32 \<Longrightarrow> room 0 0 n"
  using balanced_ht_bound [of n 32] by (simp add: room_def wf_node_def)

lemma OpenSnapshot_ok:
  assumes "length (f_metadata fs) = SizeMetadata" "field32 (f_metadata fs) 0 = SnapshotFileMagic"
    "field32 (f_metadata fs) 4 = SnapshotFormat"
    and "length (f_nodes fs) = a * SizeNode" "length (f_leaves fs) = Suc a * SizeLeaf"
  shows "OpenSnapshot fs = Inr
    \<lparr>sn_nodes = f_nodes fs, sn_leaves = f_leaves fs, sn_kvs = f_kvs fs, sn_version = field32 (f_metadata fs) 8,
     sn_root = Some (if a > 0 then \<lparr>pn_isLeaf = False, pn_index = word_of_nat (a - 1)\<rparr>
       else \<lparr>pn_isLeaf = True, pn_index = 0\<rparr>)\<rparr>"
proof -
  have "0 < SizeNode" "0 < SizeLeaf" by (simp_all add: layout_defs)
  then have "length (f_nodes fs) div SizeNode = a" "length (f_leaves fs) div SizeLeaf = Suc a"
    "length (f_nodes fs) mod SizeNode = 0" "length (f_leaves fs) mod SizeLeaf = 0"
    using assms(4,5) by (simp_all del: mult_Suc)
  with assms(1-3) show ?thesis by (simp add: OpenSnapshot_def Let_def)
qed

text \<open>The files of a written tree open as a snapshot that holds the tree.\<close>

lemma WriteSnapshot_opens:
  assumes "wf_node n" and "length (leaves n) < 2 ^ 32" and "fits n" and "kv_size n < 2 ^ 64"
  obtains fs sn where "WriteSnapshot (\<lambda>_. False) (Some n) version = Inr fs" "OpenSnapshot fs = Inr sn"
    "sn_version sn = version" "sn_root sn = Some (pn_of 0 0 n)" "stored sn 0 0 n"
    "leavesLen sn = length (leaves n)" "nodesLen sn = length (leaves n) - 1"
proof -
  let ?N = "length (leaves n)"
  have init: "wr_ok newSnapshotWriter 0 0" by (simp add: wr_ok_def newSnapshotWriter_def)
  obtain w where w: "writeRecursive (\<lambda>_. False) n newSnapshotWriter = Inr w" "wr_ok w ?N (?N - 1)"
    "length (w_kvs w) = kv_size n" "\<And>sn. continues sn w \<Longrightarrow> stored sn 0 0 n"
    using writeRecursive_stored [OF init room_root [OF assms(1,2)]] assms
    by (auto simp: wf_node_def newSnapshotWriter_def)
  have pos: "0 < ?N" by (simp add: length_leaves_pos)
  then have cnt: "w_leafCounter w > 0" "unat (w_leafCounter w) = ?N"
    using w(2) assms(2) by (auto simp: wr_ok_def word_less_nat_alt unat_of_nat)
  define fs where "fs = \<lparr>f_metadata = PutUint32 SnapshotFileMagic @ PutUint32 SnapshotFormat @ PutUint32 version,
    f_nodes = w_nodes w, f_leaves = w_leaves w, f_kvs = w_kvs w\<rparr>"
  define sn where "sn = \<lparr>sn_nodes = w_nodes w, sn_leaves = w_leaves w, sn_kvs = w_kvs w,
    sn_version = version, sn_root = Some (pn_of 0 0 n)\<rparr>"
  have wr: "WriteSnapshot (\<lambda>_. False) (Some n) version = Inr fs"
    using w(1) cnt by (simp add: WriteSnapshot_def writeSnapshot_def fs_def)
  have len: "length (w_nodes w) = (?N - 1) * SizeNode" "length (w_leaves w) = ?N * SizeLeaf"
    using w(2) by (auto simp: wr_ok_def)
  have sz: "0 < SizeNode" "0 < SizeLeaf" by (simp_all add: layout_defs)
  obtain a where a: "?N = Suc a" using pos gr0_conv_Suc by blast
  have root: "(if a > 0 then \<lparr>pn_isLeaf = False, pn_index = word_of_nat (a - 1)\<rparr>
      else \<lparr>pn_isLeaf = True, pn_index = 0\<rparr>) = pn_of 0 0 n"
  proof (cases n)
    case (Branch rp h s ver k l r)
    then have "a > 0" "length (leaves l) + length (leaves r) - 2 = a - 1"
      using two_leaves [of l r] a by simp_all
    then show ?thesis using Branch by simp
  qed (use a in simp)
  have meta: "length (f_metadata fs) = SizeMetadata" "field32 (f_metadata fs) 0 = SnapshotFileMagic"
    "field32 (f_metadata fs) 4 = SnapshotFormat" "field32 (f_metadata fs) 8 = version"
    by (simp_all add: fs_def SizeMetadata_def field32_def)
  have "OpenSnapshot fs = Inr sn"
    using OpenSnapshot_ok [OF meta(1-3), of a] meta(4) len a unfolding root by (simp add: fs_def sn_def)
  moreover have "continues sn w" using assms(4) w(3) by (simp add: continues_def sn_def)
  ultimately show thesis
    using that [OF wr] w(4) [of sn] len sz by (simp add: sn_def leavesLen_def nodesLen_def)
qed

text \<open>
  C12: writing a well-formed tree as a snapshot and opening the four files succeeds, and the persisted root
  stands for the same tree. Every node is reached by \<^verbatim>\<open>Left\<close> and \<^verbatim>\<open>Right\<close> through the index arithmetic
  of \<^verbatim>\<open>preTrees\<close>, with its height, size, version, key and value, and its Merkle hash as the stored one.
\<close>

theorem snapshot_roundtrip:
  assumes "wf_node n" and "length (leaves n) < 2 ^ 32" and "fits n" and "kv_size n < 2 ^ 64"
  shows "\<exists>fs sn p. WriteSnapshot (\<lambda>_. False) (Some n) version = Inr fs \<and> OpenSnapshot fs = Inr sn \<and>
    sn_version sn = version \<and> sn_root sn = Some p \<and> pn_tree 64 sn p = Inr (persisted n) \<and>
    wf_node (persisted n) \<and> strip (persisted n) = strip n"
proof -
  obtain fs sn where "WriteSnapshot (\<lambda>_. False) (Some n) version = Inr fs" "OpenSnapshot fs = Inr sn"
    "sn_version sn = version" "sn_root sn = Some (pn_of 0 0 n)" "stored sn 0 0 n"
    by (rule WriteSnapshot_opens [OF assms])
  moreover have "ht n < 64" using balanced_ht_bound [of n 32] assms(1,2) by (simp add: wf_node_def)
  then have "pn_tree 64 sn (pn_of 0 0 n) = Inr (persisted n)"
    using calculation(5) room_root [OF assms(1,2)] assms(1)
    by (intro pn_tree_stored) (auto simp: wf_node_def)
  ultimately show ?thesis using persisted_wf [OF assms(1)] by auto
qed

theorem snapshot_roundtrip_witness:
  "\<exists>fs sn p. WriteSnapshot (\<lambda>_. False) (Some two_keys) 5 = Inr fs \<and> OpenSnapshot fs = Inr sn \<and>
    sn_version sn = 5 \<and> sn_root sn = Some p \<and> pn_tree 64 sn p = Inr (persisted two_keys)"
  using snapshot_roundtrip [OF two_keys_wf(1), of 5]
  by (auto simp: two_keys_def fits_def kv_size_def)

lemma pn_at_stored:
  "stored sn L B n \<Longrightarrow> room L B n \<Longrightarrow> wf_node n \<Longrightarrow> node_at n ds = Some m \<Longrightarrow>
     \<exists>L' B'. pn_at sn (pn_of L B n) ds = Inr (pn_of L' B' m) \<and> stored sn L' B' m \<and> room L' B' m \<and> wf_node m"
proof (induction n ds arbitrary: L B rule: node_at.induct)
  case (2 rp h s ver k l r d ds)
  note ch = pn_children [OF 2(2,3)] and rm = room_children [OF 2(3)]
  have sub: "wf_node l" "wf_node r" using 2(4) by (simp_all add: wf_node_def)
  have st: "stored sn L B l" "stored sn (L + length (leaves l)) (B + length (leaves l) - 1) r" using 2(2) by simp_all
  show ?case
    using 2(1) [of L B] 2(1) [of "L + length (leaves l)" "B + length (leaves l) - 1"] 2(5) ch rm sub st
    by (cases d) (simp_all del: pn_of_simps stored.simps)
qed auto

lemma pn_Hash_stored: "stored sn L B n \<Longrightarrow> pn_Hash sn (pn_of L B n) = Inr (merkle n)"
  by (cases n) (auto simp: pn_Hash_def leafNode_def branchNode_def simp del: merkle.simps)

text \<open>
  C17: every node of a written tree answers from the files what it answers in memory. Wherever a sequence
  of descents leads in the tree, it leads in the snapshot to a persisted node whose \<^verbatim>\<open>Hash\<close> is the hash of the
  node, whose binary search \<^verbatim>\<open>Get\<close> gives what the descent in memory gives, present or absent, and whose
  direct access \<^verbatim>\<open>GetByIndex\<close> gives the leaf with the index; at the root this holds for indices out of
  range too.
\<close>

theorem persisted_queries:
  assumes "wf_node n" and "length (leaves n) < 2 ^ 32" and "fits n" and "kv_size n < 2 ^ 64"
  shows "\<exists>fs sn root. WriteSnapshot (\<lambda>_. False) (Some n) version = Inr fs \<and> OpenSnapshot fs = Inr sn \<and>
    sn_root sn = Some root \<and>
    (\<forall>ds m. node_at n ds = Some m \<longrightarrow> (\<exists>p. pn_at sn root ds = Inr p \<and>
      pn_Hash sn p = Inr (fst (node_Hash m)) \<and>
      (\<forall>key. pn_Get sn p key = Inr (node_Get m key)) \<and>
      (\<forall>i. ds = [] \<or> unat i < length (leaves m) \<longrightarrow> pn_GetByIndex sn p i = Inr (node_GetByIndex m i))))"
proof -
  obtain fs sn where f: "WriteSnapshot (\<lambda>_. False) (Some n) version = Inr fs" "OpenSnapshot fs = Inr sn"
    "sn_root sn = Some (pn_of 0 0 n)" and st: "stored sn 0 0 n"
    by (rule WriteSnapshot_opens [OF assms])
  note rm = room_root [OF assms(1,2)]
  have "\<exists>p. pn_at sn (pn_of 0 0 n) ds = Inr p \<and> pn_Hash sn p = Inr (fst (node_Hash m)) \<and>
      (\<forall>key. pn_Get sn p key = Inr (node_Get m key)) \<and>
      (\<forall>i. ds = [] \<or> unat i < length (leaves m) \<longrightarrow> pn_GetByIndex sn p i = Inr (node_GetByIndex m i))"
    if at: "node_at n ds = Some m" for ds m
  proof -
    from pn_at_stored [OF st rm assms(1) at] obtain L B where
      m: "pn_at sn (pn_of 0 0 n) ds = Inr (pn_of L B m)" "stored sn L B m" "room L B m" and wf: "wf_node m" by blast
    have o: "ordered m" "sized m" "hashed m" using wf by (auto simp: wf_node_def)
    have lt: "L + length (leaves m) < 2 ^ 32" using m(3) by (simp add: room_def)
    have "L + unat i < 2 ^ 32" if "unat i < length (leaves m)" for i :: u32 using that lt by simp
    then have "pn_GetByIndex sn (pn_of L B m) i = Inr (node_GetByIndex m i)" if "unat i < length (leaves m)" for i
      using pn_GetByIndex_stored [OF m(2,3), of i] node_GetByIndex_spec [OF o(2), of i] lt that by simp
    moreover have "pn_GetByIndex sn (pn_of L B m) i = Inr (node_GetByIndex m i)" if "ds = []" for i
      using pn_GetByIndex_stored [OF st rm, of i] node_GetByIndex_spec [OF _ assms(2), of i] at m(1) o(2) that
        unat_u32_less [of i] by simp
    ultimately show ?thesis
      using m(1) pn_Hash_stored [OF m(2)] node_Hash_merkle [OF o(3)] pn_Get_stored [OF m(2,3) o(1)] node_Get_spec [OF o(1,2)]
      by auto
  qed
  then show ?thesis using f by blast
qed

theorem persisted_queries_witness:
  "\<exists>fs sn root p. WriteSnapshot (\<lambda>_. False) (Some two_keys) 5 = Inr fs \<and> OpenSnapshot fs = Inr sn \<and>
    sn_root sn = Some root \<and> pn_at sn root [GoRight] = Inr p \<and>
    pn_Get sn p [2] = Inr (Some [20], 0) \<and> pn_Get sn p [1] = Inr (None, 0) \<and> pn_GetByIndex sn p 0 = Inr (Some ([2], [20]))"
proof -
  have at: "node_at two_keys [GoRight] = Some (Leaf (Mem None) 1 [2] [20])" by (simp add: two_keys_def)
  obtain fs sn root where w: "WriteSnapshot (\<lambda>_. False) (Some two_keys) 5 = Inr fs" "OpenSnapshot fs = Inr sn"
    "sn_root sn = Some root"
    "\<exists>p. pn_at sn root [GoRight] = Inr p \<and> pn_Hash sn p = Inr (fst (node_Hash (Leaf (Mem None) 1 [2] [20]))) \<and>
      (\<forall>key. pn_Get sn p key = Inr (node_Get (Leaf (Mem None) 1 [2] [20]) key)) \<and>
      (\<forall>i. [GoRight] = [] \<or> unat i < length (leaves (Leaf (Mem None) 1 [2] [20])) \<longrightarrow>
        pn_GetByIndex sn p i = Inr (node_GetByIndex (Leaf (Mem None) 1 [2] [20]) i))"
    using persisted_queries [OF two_keys_wf(1), of 5] at by (fastforce simp: two_keys_def fits_def kv_size_def)
  then obtain p where p: "pn_at sn root [GoRight] = Inr p"
    "\<forall>key. pn_Get sn p key = Inr (node_Get (Leaf (Mem None) 1 [2] [20]) key)"
    "pn_GetByIndex sn p 0 = Inr (node_GetByIndex (Leaf (Mem None) 1 [2] [20]) 0)" by auto
  show ?thesis
    by (rule exI [of _ fs], rule exI [of _ sn], rule exI [of _ root], rule exI [of _ p])
      (use w(1-3) p in \<open>auto\<close>)
qed

text \<open>
  Out of range, \<^verbatim>\<open>PersistedNode.GetByIndex\<close> adds the index to the first leaf of the node before it
  compares, and the sum can wrap around: an index far beyond the size then reads a leaf that lies
  before the node. A tree that has only persisted nodes is queried at its root, whose first leaf is 0;
  a persisted subtree of a tree in memory is not.
\<close>

theorem GetByIndex_wraps:
  assumes "stored sn L B (Branch rp h s ver k l r)" and "room L B (Branch rp h s ver k l r)"
    and "2 ^ 32 \<le> L + unat i"
  shows "length (leaves (Branch rp h s ver k l r)) \<le> unat i \<and>
    pn_GetByIndex sn (pn_of L B (Branch rp h s ver k l r)) i =
      rmap Some (LeafKeyValue sn (word_of_nat (L + unat i - 2 ^ 32)))"
proof -
  let ?N = "length (leaves l) + length (leaves r)"
  have B: "B \<le> L" and pre: "L - B < 256" and lt: "L + ?N < 2 ^ 32"
    using assms(2) by (auto simp: room_def)
  note sl = start_leaf [OF B two_leaves [of l r]] ucast_pre_of_nat [OF pre]
  have sum: "word_of_nat L + i = (word_of_nat (L + unat i - 2 ^ 32) :: u32)"
  proof -
    have "(word_of_nat (L + unat i - 2 ^ 32) :: u32) = word_of_nat (L + unat i) - word_of_nat (2 ^ 32)"
      using assms(3) by (simp only: of_nat_diff)
    also have "(word_of_nat (2 ^ 32) :: u32) = 0" by simp
    finally show ?thesis by simp
  qed
  have "L + unat i - 2 ^ 32 < L" using assms(3) unat_u32_less [of i] by simp
  then have "\<not> word_of_nat L + i > (word_of_nat (L + ?N - 1) :: u32)"
    unfolding word_less_nat_alt sum using lt by (simp add: unat_of_nat del: of_nat_diff)
  moreover have "pn_GetByIndex sn (pn_of L B (Branch rp h s ver k l r)) i =
    (if word_of_nat L + i > (word_of_nat (L + ?N - 1) :: u32)
     then Inr None else rmap Some (LeafKeyValue sn (word_of_nat L + i)))"
    using assms(1) sl
    by (simp add: pn_GetByIndex_def branchNode_def Let_def add.assoc del: of_nat_add of_nat_diff)
  moreover have "?N \<le> unat i" using assms(3) lt by simp
  ultimately show ?thesis using sum by simp
qed

end
