(* ===== verification/Tree.thy ===== *)
theory Tree
  imports Snapshot Cache
begin

text \<open>
  \<^verbatim>\<open>memiavl/tree.go\<close>: the tree of one store, with its version, its root, the snapshot it was loaded
  from and its cache. The operations of the cache package are the argument \<open>ops\<close>.

  The nodes of a tree are values here: a root loaded from a snapshot is the tree that its persisted
  nodes stand for. \<^verbatim>\<open>cowVersion\<close> is kept as a field; theory Cow shows what it protects. Cloning a byte
  slice does not change the bytes, so \<^verbatim>\<open>zeroCopy\<close> has no effect on results.
\<close>

section \<open>Trees\<close>

record kvpair =
  kv_delete :: bool
  kv_key :: bytes
  kv_value :: "bytes option"

type_synonym changeset = "kvpair list"

record 'c tree =
  t_version :: u32
  t_cowVersion :: u32
  t_root :: "node option"
  t_snapshot :: "snapshot option"
  t_cache :: "'c sharedCache option"
  t_zeroCopy :: bool
  t_traverse :: "string option"

abbreviation MaxUint32 :: nat where
  "MaxUint32 \<equiv> 4294967295"

definition emptyHash :: bytes where
  "emptyHash = sha256 []"

definition NewEmptyTree :: "'c cache_ops \<Rightarrow> u64 \<Rightarrow> int \<Rightarrow> 'c tree result" where
  "NewEmptyTree ops version cacheSize =
     (if unat version \<ge> MaxUint32 then Inl (Panic ''version overflows uint32'')
      else Inr \<lparr>t_version = ucast version, t_cowVersion = 0, t_root = None, t_snapshot = None,
        t_cache = NewCache ops cacheSize, t_zeroCopy = True, t_traverse = None\<rparr>)"

definition New :: "'c cache_ops \<Rightarrow> int \<Rightarrow> 'c tree result" where
  "New ops cacheSize = NewEmptyTree ops 0 cacheSize"

definition NewWithInitialVersion :: "'c cache_ops \<Rightarrow> u32 \<Rightarrow> int \<Rightarrow> 'c tree result" where
  "NewWithInitialVersion ops initialVersion cacheSize =
     (if initialVersion \<le> 1 then New ops cacheSize
      else NewEmptyTree ops (ucast (initialVersion - 1)) cacheSize)"

text \<open>The nodes of the snapshot are read when they are visited; the model reads them all at once. The
  height byte bounds the depth.\<close>

definition NewFromSnapshot :: "'c cache_ops \<Rightarrow> snapshot \<Rightarrow> bool \<Rightarrow> int \<Rightarrow> 'c tree result" where
  "NewFromSnapshot ops sn zeroCopy cacheSize =
     rmap (\<lambda>root. \<lparr>t_version = sn_version sn, t_cowVersion = 0, t_root = root, t_snapshot = Some sn,
        t_cache = NewCache ops cacheSize, t_zeroCopy = zeroCopy, t_traverse = None\<rparr>)
       (if \<not> snapshot_IsEmpty sn then rbind (snapshot_RootNode sn) (\<lambda>p. rmap Some (pn_tree 256 sn p))
        else Inr None)"

definition SetZeroCopy :: "bool \<Rightarrow> 'c tree \<Rightarrow> 'c tree" where
  "SetZeroCopy zeroCopy t = t\<lparr>t_zeroCopy := zeroCopy\<rparr>"

definition tree_IsEmpty :: "'c tree \<Rightarrow> bool" where
  "tree_IsEmpty t \<longleftrightarrow> t_root t = None"

definition setInitialVersion :: "u32 \<Rightarrow> 'c tree \<Rightarrow> 'c tree" where
  "setInitialVersion initialVersion t =
     (if t_version t > 0 then t
      else if initialVersion < 1 then t\<lparr>t_version := 0\<rparr>
      else t\<lparr>t_version := initialVersion - 1\<rparr>)"

definition tree_SetInitialVersion :: "int \<Rightarrow> 'c tree \<Rightarrow> 'c tree result" where
  "tree_SetInitialVersion initialVersion t =
     (if initialVersion \<ge> int MaxUint32 then Inl VersionOverflow
      else Inr (setInitialVersion (word_of_int initialVersion) t))"

text \<open>\<^verbatim>\<open>Copy\<close> returns the source, whose \<^verbatim>\<open>cowVersion\<close> may change, and the copy.\<close>

fun is_MemNode :: "node option \<Rightarrow> bool" where
  "is_MemNode (Some (Leaf (Mem c) ver k v)) = True"
| "is_MemNode (Some (Branch (Mem c) h s ver k l r)) = True"
| "is_MemNode _ = False"

definition tree_Copy :: "'c cache_ops \<Rightarrow> int \<Rightarrow> 'c tree \<Rightarrow> 'c tree \<times> 'c tree" where
  "tree_Copy ops cacheSize t =
     (let t' = (if is_MemNode (t_root t) then t\<lparr>t_cowVersion := t_version t\<rparr> else t)
      in (t', t'\<lparr>t_cache := NewCache ops cacheSize\<rparr>))"

section \<open>Updates\<close>

definition cache_add :: "'c cache_ops \<Rightarrow> bytes \<Rightarrow> bytes \<Rightarrow> 'c sharedCache option \<Rightarrow> 'c sharedCache option" where
  "cache_add ops key val = map_option (\<lambda>c. snd (cache_Add (sharedCache_ops ops)
     \<lparr>cn_key = key, cn_value = val\<rparr> c))"

definition tree_set :: "'c cache_ops \<Rightarrow> 'c tree \<Rightarrow> bytes \<Rightarrow> bytes option \<Rightarrow> 'c tree" where
  "tree_set ops t key val =
     (let v = (case val of None \<Rightarrow> [] | Some x \<Rightarrow> x);
          (root, _) = setRecursive (t_root t) key v (t_version t + 1)
      in t\<lparr>t_root := Some root, t_cache := cache_add ops key v (t_cache t)\<rparr>)"

definition tree_remove :: "'c cache_ops \<Rightarrow> 'c tree \<Rightarrow> bytes \<Rightarrow> 'c tree" where
  "tree_remove ops t key =
     (let (_, root, _) = removeRecursive (t_root t) key (t_version t + 1)
      in t\<lparr>t_root := root,
           t_cache := map_option (\<lambda>c. snd (cache_Remove (sharedCache_ops ops) key c)) (t_cache t)\<rparr>)"

definition apply_pair :: "'c cache_ops \<Rightarrow> 'c tree \<Rightarrow> kvpair \<Rightarrow> 'c tree" where
  "apply_pair ops t p =
     (if kv_delete p then tree_remove ops t (kv_key p) else tree_set ops t (kv_key p) (kv_value p))"

definition ApplyChangeSet :: "'c cache_ops \<Rightarrow> 'c tree \<Rightarrow> changeset \<Rightarrow> 'c tree" where
  "ApplyChangeSet ops t cs = foldl (apply_pair ops) t cs"

definition checkVersionOverflow :: "'c tree \<Rightarrow> unit result" where
  "checkVersionOverflow t =
     (if t_version t = word_of_nat MaxUint32 then Inl VersionOverflow else Inr ())"

text \<open>\<^verbatim>\<open>RootHash\<close> fills the hash caches of the nodes.\<close>

definition tree_RootHash :: "'c tree \<Rightarrow> bytes \<times> 'c tree" where
  "tree_RootHash t =
     (case t_root t of
        None \<Rightarrow> (emptyHash, t)
      | Some n \<Rightarrow> (let (hsh, n') = node_Hash n in (hsh, t\<lparr>t_root := Some n'\<rparr>)))"

definition tree_SaveVersion :: "bool \<Rightarrow> 'c tree \<Rightarrow> (bytes option \<times> int \<times> 'c tree) result" where
  "tree_SaveVersion updateHash t =
     rbind (checkVersionOverflow t) (\<lambda>_.
       let (hsh, t1) = (if updateHash then (let (x, t') = tree_RootHash t in (Some x, t')) else (None, t));
           t2 = t1\<lparr>t_version := t_version t1 + 1\<rparr>
       in Inr (hsh, int (unat (t_version t2)), t2))"

definition tree_Version :: "'c tree \<Rightarrow> int" where
  "tree_Version t = int (unat (t_version t))"

section \<open>Queries\<close>

definition GetWithIndex :: "'c tree \<Rightarrow> bytes \<Rightarrow> int \<times> bytes option" where
  "GetWithIndex t key =
     (case t_root t of
        None \<Rightarrow> (0, None)
      | Some n \<Rightarrow> (let (val, index) = node_Get n key in (int (unat index), val)))"

definition tree_GetByIndex :: "'c tree \<Rightarrow> int \<Rightarrow> (bytes \<times> bytes) option" where
  "tree_GetByIndex t index =
     (if index > int MaxUint32 then None
      else case t_root t of None \<Rightarrow> None | Some n \<Rightarrow> node_GetByIndex n (word_of_int index))"

definition tree_Get :: "'c cache_ops \<Rightarrow> 'c tree \<Rightarrow> bytes \<Rightarrow> bytes option \<times> 'c tree" where
  "tree_Get ops t key =
     (let (hit, t1) =
        (case t_cache t of
           None \<Rightarrow> (None, t)
         | Some c \<Rightarrow> (let (r, c') = cache_Get (sharedCache_ops ops) key c in (r, t\<lparr>t_cache := Some c'\<rparr>)))
      in case hit of
           Some n \<Rightarrow> (Some (cn_value n), t1)
         | None \<Rightarrow>
             (case snd (GetWithIndex t1 key) of
                None \<Rightarrow> (None, t1)
              | Some val \<Rightarrow> (Some val, t1\<lparr>t_cache := cache_add ops key val (t_cache t1)\<rparr>)))"

definition tree_Has :: "'c cache_ops \<Rightarrow> 'c tree \<Rightarrow> bytes \<Rightarrow> bool \<times> 'c tree" where
  "tree_Has ops t key = (let (val, t') = tree_Get ops t key in (val \<noteq> None, t'))"

definition tree_Close :: "'c tree \<Rightarrow> 'c tree" where
  "tree_Close t = t\<lparr>t_snapshot := None, t_root := None, t_traverse := None\<rparr>"

definition tree_WriteSnapshot :: "(u32 \<Rightarrow> bool) \<Rightarrow> 'c tree \<Rightarrow> snapshot_files result" where
  "tree_WriteSnapshot done t = WriteSnapshot done (t_root t) (t_version t)"

section \<open>Post-order scan\<close>

text \<open>
  \<^verbatim>\<open>ScanPostOrder\<close> keeps a stack of nodes, each marked when its children have been pushed; the top is
  the head of the list. \<open>cb\<close> is the callback with its own state; it returns whether to stop.
\<close>

definition stack_weight :: "(node \<times> bool) list \<Rightarrow> nat" where
  "stack_weight st = sum_list (map (\<lambda>(n, expanded). if expanded then 1 else 3 * size n + 1) st)"

function scan_loop :: "(node \<Rightarrow> 's \<Rightarrow> bool \<times> 's) \<Rightarrow> (node \<times> bool) list \<Rightarrow> 's \<Rightarrow> 's" where
  "scan_loop cb [] s = s"
| "scan_loop cb ((Leaf rp ver k v, expanded) # st) s =
     (let (stop, s') = cb (Leaf rp ver k v) s in if stop then s' else scan_loop cb st s')"
| "scan_loop cb ((Branch rp h sz ver k l r, True) # st) s =
     (let (stop, s') = cb (Branch rp h sz ver k l r) s in if stop then s' else scan_loop cb st s')"
| "scan_loop cb ((Branch rp h sz ver k l r, False) # st) s =
     scan_loop cb ((l, False) # (r, False) # (Branch rp h sz ver k l r, True) # st) s"
  by pat_completeness auto
termination
  by (relation "measure (\<lambda>(cb, st, s). stack_weight st)") (auto simp: stack_weight_def)

definition ScanPostOrder :: "'c tree \<Rightarrow> (node \<Rightarrow> 's \<Rightarrow> bool \<times> 's) \<Rightarrow> 's \<Rightarrow> 's" where
  "ScanPostOrder t cb s = (case t_root t of None \<Rightarrow> s | Some n \<Rightarrow> scan_loop cb [(n, False)] s)"

fun post_order :: "node \<Rightarrow> node list" where
  "post_order (Leaf rp ver k v) = [Leaf rp ver k v]"
| "post_order (Branch rp h s ver k l r) = post_order l @ post_order r @ [Branch rp h s ver k l r]"

section \<open>Abstract view\<close>

definition tree_view :: "'c tree \<Rightarrow> (bytes \<times> bytes) list" where
  "tree_view t = (case t_root t of None \<Rightarrow> [] | Some n \<Rightarrow> leaves n)"

definition nonnil :: "bytes option \<Rightarrow> bytes" where
  "nonnil v = (case v of None \<Rightarrow> [] | Some x \<Rightarrow> x)"

definition view_pair :: "(bytes \<times> bytes) list \<Rightarrow> kvpair \<Rightarrow> (bytes \<times> bytes) list" where
  "view_pair xs p =
     (if kv_delete p then del_pair (kv_key p) xs else put_pair (kv_key p) (nonnil (kv_value p)) xs)"

definition view_changes :: "(bytes \<times> bytes) list \<Rightarrow> changeset \<Rightarrow> (bytes \<times> bytes) list" where
  "view_changes xs cs = foldl view_pair xs cs"

text \<open>The cache of a tree holds only pairs of the tree.\<close>

definition coherent :: "('c \<Rightarrow> bytes \<rightharpoonup> cacheNode) \<Rightarrow> (bytes \<times> bytes) list \<Rightarrow> 'c \<Rightarrow> bool" where
  "coherent contents xs c \<longleftrightarrow> (\<forall>k n. contents c k = Some n \<longrightarrow> map_of xs k = Some (cn_value n))"

definition tree_ok ::
  "('c \<Rightarrow> bool) \<Rightarrow> ('c \<Rightarrow> bytes \<rightharpoonup> cacheNode) \<Rightarrow> 'c tree \<Rightarrow> bool" where
  "tree_ok cinv contents t \<longleftrightarrow>
     pred_option wf_node (t_root t) \<and>
     pred_option (\<lambda>c. sc_inv cinv contents c \<and> coherent (sc_contents contents) (tree_view t) c) (t_cache t)"

section \<open>The interface of a tree\<close>

text \<open>
  What the clients of a tree use: a state \<open>t\<close> with updates and a lookup, which stands for a sorted
  list of pairs. A tree must not be given more keys than \<open>2 ^ 63\<close>, the range of the size field.
\<close>

locale kv_tree =
  fixes put :: "'t \<Rightarrow> bytes \<Rightarrow> bytes option \<Rightarrow> 't"
    and del :: "'t \<Rightarrow> bytes \<Rightarrow> 't"
    and look :: "'t \<Rightarrow> bytes \<Rightarrow> bytes option \<times> 't"
    and good :: "'t \<Rightarrow> bool"
    and view :: "'t \<Rightarrow> (bytes \<times> bytes) list"
  assumes sorted_view: "good t \<Longrightarrow> keys_sorted (view t)"
    and put_good: "good t \<Longrightarrow> length (view t) < 2 ^ 63 \<Longrightarrow> good (put t k v)"
    and put_view: "good t \<Longrightarrow> length (view t) < 2 ^ 63 \<Longrightarrow> view (put t k v) = put_pair k (nonnil v) (view t)"
    and del_good: "good t \<Longrightarrow> length (view t) < 2 ^ 63 \<Longrightarrow> good (del t k)"
    and del_view: "good t \<Longrightarrow> length (view t) < 2 ^ 63 \<Longrightarrow> view (del t k) = del_pair k (view t)"
    and look_good: "good t \<Longrightarrow> good (snd (look t k))"
    and look_view: "good t \<Longrightarrow> view (snd (look t k)) = view t"
    and look_result: "good t \<Longrightarrow> fst (look t k) = map_of (view t) k"
begin

definition step :: "'t \<Rightarrow> kvpair \<Rightarrow> 't" where
  "step t p = (if kv_delete p then del t (kv_key p) else put t (kv_key p) (kv_value p))"

lemma length_view_pair: "good t \<Longrightarrow> length (view_pair (view t) p) \<le> Suc (length (view t))"
  using sorted_view length_put_pair [of "view t"]
  by (auto simp: view_pair_def del_pair_def intro: le_SucI)

lemma step_view:
  "good t \<Longrightarrow> length (view t) < 2 ^ 63 \<Longrightarrow> good (step t p) \<and> view (step t p) = view_pair (view t) p"
  by (simp add: step_def view_pair_def put_good put_view del_good del_view)

lemma steps_view:
  "good t \<Longrightarrow> length (view t) + length cs < 2 ^ 63 \<Longrightarrow>
     good (foldl step t cs) \<and> view (foldl step t cs) = view_changes (view t) cs"
proof (induction cs arbitrary: t)
  case (Cons p cs)
  have s: "good (step t p)" "view (step t p) = view_pair (view t) p"
    using step_view [of t p] Cons.prems by auto
  then have "length (view (step t p)) + length cs < 2 ^ 63"
    using length_view_pair [OF Cons.prems(1), of p] Cons.prems(2) by simp
  from Cons.IH [OF s(1) this] s(2) show ?case by (simp add: view_changes_def)
qed (simp add: view_changes_def)

lemma steps_look:
  "good t \<Longrightarrow> length (view t) + length cs < 2 ^ 63 \<Longrightarrow>
     fst (look (foldl step t cs) k) = map_of (view_changes (view t) cs) k"
  using steps_view look_result by metis

end

section \<open>Lemmas: the tree is such a tree\<close>

lemma tree_view_sorted: "pred_option wf_node (t_root t) \<Longrightarrow> keys_sorted (tree_view t)"
  by (cases "t_root t") (auto simp: tree_view_def wf_node_def intro: ordered_sorted)

lemma wf_newLeafNode: "wf_node (newLeafNode k v w)"
  by (simp add: newLeafNode_def wf_node_def)

lemma set_root:
  assumes "pred_option wf_node (t_root t)" and "length (tree_view t) < 2 ^ 63"
  shows "pred_option wf_node (t_root (tree_set ops t k v))"
    and "tree_view (tree_set ops t k v) = put_pair k (nonnil v) (tree_view t)"
proof -
  have "pred_option wf_node (t_root (tree_set ops t k v)) \<and>
    tree_view (tree_set ops t k v) = put_pair k (nonnil v) (tree_view t)"
  proof (cases "t_root t")
    case None
    then show ?thesis
      by (simp add: tree_set_def tree_view_def newLeafNode_def wf_node_def put_pair_def nonnil_def Let_def)
  next
    case (Some n)
    obtain c u where c: "setRecursive (Some n) k (nonnil v) (t_version t + 1) = (c, u)" by force
    have n: "wf_node n" "length (leaves n) < 2 ^ 63" "ordered n"
      using assms Some by (auto simp: tree_view_def wf_node_def)
    show ?thesis
      using setRecursive_wf [OF n(1,2) c] setRecursive_contents [OF n(3) c] c Some
      by (simp add: tree_set_def tree_view_def nonnil_def)
  qed
  then show "pred_option wf_node (t_root (tree_set ops t k v))"
    and "tree_view (tree_set ops t k v) = put_pair k (nonnil v) (tree_view t)" by auto
qed

lemma remove_root:
  assumes "pred_option wf_node (t_root t)" and "length (tree_view t) < 2 ^ 63"
  shows "pred_option wf_node (t_root (tree_remove ops t k))"
    and "tree_view (tree_remove ops t k) = del_pair k (tree_view t)"
proof -
  have "pred_option wf_node (t_root (tree_remove ops t k)) \<and>
    tree_view (tree_remove ops t k) = del_pair k (tree_view t)"
  proof (cases "t_root t")
    case None
    then show ?thesis by (simp add: tree_remove_def tree_view_def del_pair_def)
  next
    case (Some n)
    obtain val n' nk where r: "removeRecursive (Some n) k (t_version t + 1) = (val, n', nk)"
      by (metis surj_pair)
    have n: "wf_node n" "length (leaves n) < 2 ^ 63" "ordered n"
      using assms Some by (auto simp: tree_view_def wf_node_def)
    show ?thesis
    proof (cases val)
      case None
      then have "n' = Some n" "k \<notin> fst ` set (leaves n)"
        using removeRecursive_NoneD [of n k "t_version t + 1"] removeRecursive_absent [OF n(3), of k "t_version t + 1"]
          r by auto
      then show ?thesis using r Some n by (simp add: tree_remove_def tree_view_def del_pair_absent)
    next
      case (Some x)
      have "pred_option wf_node n'"
        using removeRecursive_wf [OF n(1,2), of k "t_version t + 1" x _ nk] r Some by (cases n') auto
      then show ?thesis
        using removeRecursive_contents [OF n(3), of k "t_version t + 1" x n' nk] r Some \<open>t_root t = Some n\<close>
        by (simp add: tree_remove_def tree_view_def)
    qed
  qed
  then show "pred_option wf_node (t_root (tree_remove ops t k))"
    and "tree_view (tree_remove ops t k) = del_pair k (tree_view t)" by auto
qed

lemma GetWithIndex_value:
  assumes "pred_option wf_node (t_root t)"
  shows "snd (GetWithIndex t key) = map_of (tree_view t) key"
  using assms node_Get_spec
  by (cases "t_root t") (auto simp: GetWithIndex_def tree_view_def wf_node_def)

context cache_laws
begin

lemmas shared_facts =
  cache_laws.inv_Add [OF shared_laws] cache_laws.contents_Add [OF shared_laws]
  cache_laws.inv_Remove [OF shared_laws] cache_laws.contents_Remove [OF shared_laws]
  cache_laws.inv_Get [OF shared_laws] cache_laws.contents_Get [OF shared_laws]
  cache_laws.result_Get [OF shared_laws]

abbreviation cached :: "(bytes \<times> bytes) list \<Rightarrow> 'c sharedCache option \<Rightarrow> bool" where
  "cached xs c \<equiv> pred_option (\<lambda>c. sc_inv cinv contents c \<and> coherent (sc_contents contents) xs c) c"

lemma cached_add:
  assumes "cached xs c" and "\<And>k'. k' \<noteq> k \<Longrightarrow> map_of ys k' = map_of xs k'" and "map_of ys k = Some v"
  shows "cached ys (cache_add ops k v c)"
proof (cases c)
  case (Some s)
  let ?s = "snd (cache_Add (sharedCache_ops ops) \<lparr>cn_key = k, cn_value = v\<rparr> s)"
  have i: "sc_inv cinv contents s" and co: "coherent (sc_contents contents) xs s"
    using assms(1) Some by auto
  have le: "sc_contents contents ?s \<subseteq>\<^sub>m (sc_contents contents s)(k \<mapsto> \<lparr>cn_key = k, cn_value = v\<rparr>)"
    using shared_facts(2) [OF i, of "\<lparr>cn_key = k, cn_value = v\<rparr>"] by simp
  have "map_of ys k' = Some (cn_value n)" if "sc_contents contents ?s k' = Some n" for k' n
  proof -
    have "((sc_contents contents s)(k \<mapsto> \<lparr>cn_key = k, cn_value = v\<rparr>)) k' = Some n"
      using le that by (metis domI map_le_def)
    then show ?thesis using co assms(2,3) by (auto simp: coherent_def split: if_splits)
  qed
  then show ?thesis using shared_facts(1) [OF i] Some by (simp add: cache_add_def coherent_def)
qed (simp add: cache_add_def)

lemma tree_set_ok:
  assumes "tree_ok cinv contents t" and "length (tree_view t) < 2 ^ 63"
  shows "tree_ok cinv contents (tree_set ops t k v)"
proof -
  have wf: "pred_option wf_node (t_root t)" and ca: "cached (tree_view t) (t_cache t)"
    using assms(1) by (auto simp: tree_ok_def)
  have c: "t_cache (tree_set ops t k v) = cache_add ops k (nonnil v) (t_cache t)"
    by (simp add: tree_set_def nonnil_def Let_def split_beta)
  have "cached (put_pair k (nonnil v) (tree_view t)) (cache_add ops k (nonnil v) (t_cache t))"
    by (rule cached_add [OF ca]) (simp_all add: map_of_put_pair)
  then show ?thesis using set_root [OF wf assms(2), of ops k v] c by (simp add: tree_ok_def)
qed

lemma tree_remove_ok:
  assumes "tree_ok cinv contents t" and "length (tree_view t) < 2 ^ 63"
  shows "tree_ok cinv contents (tree_remove ops t k)"
proof -
  have wf: "pred_option wf_node (t_root t)" and ca: "cached (tree_view t) (t_cache t)"
    using assms(1) by (auto simp: tree_ok_def)
  have c: "t_cache (tree_remove ops t k) =
    map_option (\<lambda>c. snd (cache_Remove (sharedCache_ops ops) k c)) (t_cache t)"
    by (simp add: tree_remove_def split_beta)
  have "cached (del_pair k (tree_view t)) (t_cache (tree_remove ops t k))"
    using ca shared_facts(3,4) unfolding c
    by (cases "t_cache t") (auto simp: coherent_def map_of_del_pair split: if_splits)
  then show ?thesis using remove_root [OF wf assms(2), of ops k] by (simp add: tree_ok_def)
qed

lemma tree_Get_spec:
  assumes "tree_ok cinv contents t"
  shows "fst (tree_Get ops t k) = map_of (tree_view t) k \<and> t_root (snd (tree_Get ops t k)) = t_root t \<and>
    tree_ok cinv contents (snd (tree_Get ops t k))"
proof (cases "t_cache t")
  case None
  have "pred_option wf_node (t_root t)" using assms by (simp add: tree_ok_def)
  then show ?thesis
    using None assms GetWithIndex_value [of t k]
    by (auto simp: tree_Get_def Let_def cache_add_def tree_ok_def split: option.splits)
next
  case (Some c)
  have wf: "pred_option wf_node (t_root t)" and i: "sc_inv cinv contents c"
    and co: "coherent (sc_contents contents) (tree_view t) c"
    using assms Some by (auto simp: tree_ok_def)
  obtain r c' where g: "cache_Get (sharedCache_ops ops) k c = (r, c')" by force
  have r: "r = sc_contents contents c k" and i': "sc_inv cinv contents c'"
    and co': "coherent (sc_contents contents) (tree_view t) c'"
    using shared_facts(5-7) [OF i, of k] g co by (auto simp: coherent_def)
  let ?t = "t\<lparr>t_cache := Some c'\<rparr>"
  have vw: "tree_view ?t = tree_view t" by (simp add: tree_view_def)
  show ?thesis
  proof (cases r)
    case (Some n)
    then show ?thesis
      using g r co i' co' wf vw \<open>t_cache t = Some c\<close>
      by (simp add: tree_Get_def Let_def coherent_def tree_ok_def)
  next
    case None
    have v: "snd (GetWithIndex ?t k) = map_of (tree_view t) k"
      using GetWithIndex_value [of ?t k] wf vw by simp
    show ?thesis
    proof (cases "map_of (tree_view t) k")
      case None
      then show ?thesis
        using g \<open>r = None\<close> v i' co' wf vw \<open>t_cache t = Some c\<close>
        by (simp add: tree_Get_def Let_def tree_ok_def)
    next
      case (Some x)
      have "cached (tree_view t) (cache_add ops k x (Some c'))"
        by (rule cached_add [OF _ _ Some]) (simp_all add: i' co')
      then show ?thesis
        using g \<open>r = None\<close> v Some wf \<open>t_cache t = Some c\<close>
        by (simp add: tree_Get_def Let_def tree_ok_def tree_view_def)
    qed
  qed
qed

end

sublocale cache_laws < tree: kv_tree "tree_set ops" "tree_remove ops" "tree_Get ops"
  "tree_ok cinv contents" tree_view
proof
  fix t :: "'c tree" and k v
  assume t: "tree_ok cinv contents t"
  then have wf: "pred_option wf_node (t_root t)" by (simp add: tree_ok_def)
  show "keys_sorted (tree_view t)" by (rule tree_view_sorted [OF wf])
  show "tree_ok cinv contents (snd (tree_Get ops t k))" "fst (tree_Get ops t k) = map_of (tree_view t) k"
    "tree_view (snd (tree_Get ops t k)) = tree_view t"
    using tree_Get_spec [OF t, of k] by (auto simp: tree_view_def)
  assume l: "length (tree_view t) < 2 ^ 63"
  show "tree_ok cinv contents (tree_set ops t k v)" by (rule tree_set_ok [OF t l])
  show "tree_view (tree_set ops t k v) = put_pair k (nonnil v) (tree_view t)" by (rule set_root(2) [OF wf l])
  show "tree_ok cinv contents (tree_remove ops t k)" by (rule tree_remove_ok [OF t l])
  show "tree_view (tree_remove ops t k) = del_pair k (tree_view t)" by (rule remove_root(2) [OF wf l])
qed

text \<open>The tree over the least-recently-used cache.\<close>

interpretation lru_tree: kv_tree "tree_set lru_ops" "tree_remove lru_ops" "tree_Get lru_ops"
  "tree_ok lru_inv lru_contents" tree_view
  by (rule lru.tree.kv_tree_axioms)

section \<open>Lemmas: versions, hashes and scans\<close>

context cache_laws
begin

lemma apply_pair_step: "apply_pair ops = tree.step"
  by (simp add: fun_eq_iff apply_pair_def tree.step_def)

lemma ApplyChangeSet_spec:
  assumes "tree_ok cinv contents t" and "length (tree_view t) + length cs < 2 ^ 63"
  shows "tree_ok cinv contents (ApplyChangeSet ops t cs) \<and>
    tree_view (ApplyChangeSet ops t cs) = view_changes (tree_view t) cs"
  unfolding ApplyChangeSet_def apply_pair_step by (rule tree.steps_view [OF assms])

end

lemma apply_pair_fields [simp]:
  "t_version (apply_pair ops t p) = t_version t" "t_snapshot (apply_pair ops t p) = t_snapshot t"
  "t_cowVersion (apply_pair ops t p) = t_cowVersion t" "t_zeroCopy (apply_pair ops t p) = t_zeroCopy t"
  by (simp_all add: apply_pair_def tree_set_def tree_remove_def Let_def split_beta)

lemma ApplyChangeSet_fields [simp]:
  "t_version (ApplyChangeSet ops t cs) = t_version t" "t_snapshot (ApplyChangeSet ops t cs) = t_snapshot t"
proof -
  have "t_version (foldl (apply_pair ops) t cs) = t_version t \<and>
    t_snapshot (foldl (apply_pair ops) t cs) = t_snapshot t"
    by (induction cs arbitrary: t) simp_all
  then show "t_version (ApplyChangeSet ops t cs) = t_version t"
    "t_snapshot (ApplyChangeSet ops t cs) = t_snapshot t" by (simp_all add: ApplyChangeSet_def)
qed

text \<open>The hash of a tree by its contents.\<close>

definition root_merkle :: "node option \<Rightarrow> bytes" where
  "root_merkle r = (case r of None \<Rightarrow> emptyHash | Some n \<Rightarrow> merkle n)"

lemma tree_RootHash_spec:
  assumes "pred_option wf_node (t_root t)"
  shows "fst (tree_RootHash t) = root_merkle (t_root t) \<and>
    pred_option wf_node (t_root (snd (tree_RootHash t))) \<and>
    map_option strip (t_root (snd (tree_RootHash t))) = map_option strip (t_root t) \<and>
    t_version (snd (tree_RootHash t)) = t_version t \<and> t_cache (snd (tree_RootHash t)) = t_cache t"
proof (cases "t_root t")
  case None
  then show ?thesis by (simp add: tree_RootHash_def root_merkle_def)
next
  case (Some n)
  then have wf: "wf_node n" using assms by simp
  obtain hsh n' where h: "node_Hash n = (hsh, n')" by force
  have "hsh = merkle n" "strip n' = strip n" "hashed n'"
    using node_Hash_merkle [of n] node_Hash_strip [of n] node_Hash_hashed [of n] wf h
    by (auto simp: wf_node_def)
  moreover from this have "wf_node n'"
    using wf strip_simps(4-6) [of n] strip_simps(4-6) [of n'] by (simp add: wf_node_def)
  ultimately show ?thesis using Some h by (simp add: tree_RootHash_def root_merkle_def)
qed

lemma leaves_strip_eq: "strip a = strip b \<Longrightarrow> leaves a = leaves b"
  using strip_simps(1) by metis

lemma tree_view_strip: "map_option strip r = map_option strip (t_root t) \<Longrightarrow>
    tree_view (t\<lparr>t_root := r\<rparr>) = tree_view t"
  by (cases r; cases "t_root t") (auto simp: tree_view_def dest: leaves_strip_eq)

text \<open>Calling back on a list of nodes until the callback stops.\<close>

fun run_until :: "('a \<Rightarrow> 's \<Rightarrow> bool \<times> 's) \<Rightarrow> 'a list \<Rightarrow> 's \<Rightarrow> 's" where
  "run_until cb [] s = s"
| "run_until cb (x # xs) s = (let (stop, s') = cb x s in if stop then s' else run_until cb xs s')"

lemma scan_loop_run:
  "scan_loop cb st s = run_until cb (concat (map (\<lambda>(n, e). if e then [n] else post_order n) st)) s"
  by (induction cb st s rule: scan_loop.induct) (auto simp: Let_def split: prod.splits)

lemma run_until_all: "run_until (\<lambda>x s. (False, f x s)) xs s = fold f xs s"
  by (induction xs arbitrary: s) simp_all

section \<open>Properties\<close>

text \<open>
  C18: for every cache package that keeps its laws, \<^verbatim>\<open>ApplyChangeSet\<close> leaves a well-formed tree that holds
  the pairs of the change set applied in order (a \<^verbatim>\<open>nil\<close> value stored as the empty one), and \<^verbatim>\<open>Get\<close>
  and \<^verbatim>\<open>Has\<close> answer from the cache or from the tree with the same result.
\<close>

theorem ApplyChangeSet_Get:
  assumes "cache_laws ops cinv contents limit" and "tree_ok cinv contents t"
    and "length (tree_view t) + length cs < 2 ^ 63"
  shows "tree_ok cinv contents (ApplyChangeSet ops t cs) \<and>
    tree_view (ApplyChangeSet ops t cs) = view_changes (tree_view t) cs \<and>
    fst (tree_Get ops (ApplyChangeSet ops t cs) k) = map_of (view_changes (tree_view t) cs) k \<and>
    fst (tree_Has ops (ApplyChangeSet ops t cs) k) = (map_of (view_changes (tree_view t) cs) k \<noteq> None) \<and>
    tree_ok cinv contents (snd (tree_Get ops (ApplyChangeSet ops t cs) k))"
proof -
  note a = cache_laws.ApplyChangeSet_spec [OF assms]
  from cache_laws.tree_Get_spec [OF assms(1), of "ApplyChangeSet ops t cs" k] a
  show ?thesis by (simp add: tree_Has_def split_beta)
qed

definition one_change :: changeset where
  "one_change = [\<lparr>kv_delete = False, kv_key = [1], kv_value = Some [10]\<rparr>,
     \<lparr>kv_delete = False, kv_key = [2], kv_value = None\<rparr>, \<lparr>kv_delete = True, kv_key = [1], kv_value = None\<rparr>]"

definition lru_tree1 :: "lru tree" where
  "lru_tree1 = \<lparr>t_version = 0, t_cowVersion = 0, t_root = None, t_snapshot = None,
     t_cache = NewCache lru_ops 4, t_zeroCopy = True, t_traverse = None\<rparr>"

lemma lru_tree1_ok: "tree_ok lru_inv lru_contents lru_tree1"
  using lru.sc_inv_New lru.sc_contents_New
  by (simp add: tree_ok_def lru_tree1_def NewCache_def coherent_def)

theorem ApplyChangeSet_Get_witness:
  "New lru_ops 4 = Inr lru_tree1 \<and>
   fst (tree_Get lru_ops (ApplyChangeSet lru_ops lru_tree1 one_change) [2]) = Some [] \<and>
   fst (tree_Has lru_ops (ApplyChangeSet lru_ops lru_tree1 one_change) [1]) = False"
  using ApplyChangeSet_Get [OF lru.cache_laws_axioms lru_tree1_ok, of one_change "[2]"]
    ApplyChangeSet_Get [OF lru.cache_laws_axioms lru_tree1_ok, of one_change "[1]"]
  by (simp add: one_change_def tree_view_def lru_tree1_def view_changes_def view_pair_def put_pair_def
      del_pair_def nonnil_def New_def NewEmptyTree_def)

lemma unat_Suc_u32: "v \<noteq> word_of_nat MaxUint32 \<Longrightarrow> unat ((v :: u32) + 1) = unat v + 1"
proof -
  assume "v \<noteq> word_of_nat MaxUint32"
  then have "unat v \<noteq> MaxUint32" by (auto simp: word_unat_eq_iff)
  then show ?thesis using unat_u32_less [of v] by (simp add: unat_word_ariths)
qed

lemma SaveVersion_version:
  assumes "t_version t \<noteq> word_of_nat MaxUint32"
  shows "\<exists>hsh t'. tree_SaveVersion updateHash t = Inr (hsh, tree_Version t + 1, t') \<and> tree_Version t' = tree_Version t + 1"
proof -
  have "t_version (snd (tree_RootHash t)) = t_version t"
    by (simp add: tree_RootHash_def split_beta Let_def split: option.splits)
  then show ?thesis
    using arg_cong [OF unat_Suc_u32 [OF assms], of int] assms
    by (simp add: tree_SaveVersion_def checkVersionOverflow_def tree_Version_def Let_def split_beta)
qed

lemma initial_version: "(iv :: u32) - 1 \<noteq> word_of_nat MaxUint32 \<and> int (unat (iv - 1)) = int (unat iv) - 1" if "1 \<le> iv"
proof -
  have "unat (iv - 1) = unat iv - 1" "1 \<le> unat iv" using that by (simp_all add: unat_sub word_le_nat_alt)
  then show ?thesis using unat_u32_less [of iv] by (auto simp: word_unat_eq_iff of_nat_diff simp del: of_nat_unat)
qed

lemma setInitialVersion_version:
  "t_version t = 0 \<Longrightarrow> t_version (setInitialVersion iv t) \<noteq> word_of_nat MaxUint32 \<and>
     tree_Version (setInitialVersion iv t) + 1 = max 1 (int (unat iv))"
  using initial_version [of iv]
  by (cases "iv = 0") (auto simp: setInitialVersion_def tree_Version_def word_le_nat_alt word_less_nat_alt word_unat_eq_iff simp del: of_nat_unat)

lemma NewWithInitialVersion_version:
  "\<exists>t. NewWithInitialVersion ops iv cacheSize = Inr t \<and> t_root t = None \<and>
     t_version t \<noteq> word_of_nat MaxUint32 \<and> tree_Version t + 1 = max 1 (int (unat iv))"
proof (cases "iv \<le> 1")
  case True
  then have "unat iv \<le> 1" by (simp add: word_le_nat_alt)
  then show ?thesis using True
    by (simp add: NewWithInitialVersion_def New_def NewEmptyTree_def tree_Version_def word_unat_eq_iff del: of_nat_unat)
next
  case False
  then have iv: "iv - 1 \<noteq> word_of_nat MaxUint32" "int (unat (iv - 1)) = int (unat iv) - 1" "1 < unat iv"
    using initial_version [of iv] by (auto simp: word_le_nat_alt)
  have "unat (iv - 1) \<noteq> MaxUint32" using iv(1) by (auto simp: word_unat_eq_iff)
  then have "unat (iv - 1) < MaxUint32" using unat_u32_less [of "iv - 1"] by simp
  then show ?thesis using iv False
    by (simp add: NewWithInitialVersion_def NewEmptyTree_def tree_Version_def del: of_nat_unat)
qed

text \<open>
  C19: \<^verbatim>\<open>SaveVersion\<close> fails exactly at the last 32-bit version and then changes nothing; otherwise the
  version grows by one without wrapping, the contents stay, and the hash it returns when asked is the
  Merkle hash of the contents (the hash of no bytes for an empty tree). The first version saved is the
  initial version, or 1 if that is 0, both for a tree created with an initial version and for a tree at
  version 0 on which it is set; on a tree that has a version it has no effect.
\<close>

theorem tree_SaveVersion_correct:
  assumes "pred_option wf_node (t_root t)"
  shows "(t_version t = word_of_nat MaxUint32 \<longrightarrow> tree_SaveVersion updateHash t = Inl VersionOverflow) \<and>
    (t_version t \<noteq> word_of_nat MaxUint32 \<longrightarrow>
      (\<exists>t'. tree_SaveVersion updateHash t =
          Inr (if updateHash then Some (root_merkle (t_root t)) else None, tree_Version t + 1, t') \<and>
        tree_Version t' = tree_Version t + 1 \<and> tree_view t' = tree_view t \<and>
        pred_option wf_node (t_root t'))) \<and>
    (t_version t \<noteq> 0 \<longrightarrow> setInitialVersion initialVersion t = t) \<and>
    (t_version t = 0 \<longrightarrow> (\<exists>hsh t'. tree_SaveVersion updateHash (setInitialVersion initialVersion t) =
        Inr (hsh, max 1 (int (unat initialVersion)), t') \<and> tree_Version t' = max 1 (int (unat initialVersion)))) \<and>
    (\<exists>t0 hsh t'. NewWithInitialVersion ops initialVersion cacheSize = Inr t0 \<and> tree_IsEmpty t0 \<and>
      tree_SaveVersion updateHash t0 = Inr (hsh, max 1 (int (unat initialVersion)), t') \<and>
      tree_Version t' = max 1 (int (unat initialVersion)))"
proof (intro conjI impI)
  assume "t_version t = 0"
  from setInitialVersion_version [OF this, of initialVersion]
  show "\<exists>hsh t'. tree_SaveVersion updateHash (setInitialVersion initialVersion t) =
      Inr (hsh, max 1 (int (unat initialVersion)), t') \<and> tree_Version t' = max 1 (int (unat initialVersion))"
    using SaveVersion_version [of "setInitialVersion initialVersion t" updateHash] by simp
next
  obtain t0 where "NewWithInitialVersion ops initialVersion cacheSize = Inr t0" "t_root t0 = None"
    "t_version t0 \<noteq> word_of_nat MaxUint32" "tree_Version t0 + 1 = max 1 (int (unat initialVersion))"
    using NewWithInitialVersion_version by blast
  then show "\<exists>t0 hsh t'. NewWithInitialVersion ops initialVersion cacheSize = Inr t0 \<and> tree_IsEmpty t0 \<and>
      tree_SaveVersion updateHash t0 = Inr (hsh, max 1 (int (unat initialVersion)), t') \<and>
      tree_Version t' = max 1 (int (unat initialVersion))"
    using SaveVersion_version [of t0 updateHash] by (auto simp: tree_IsEmpty_def)
next
  assume False: "t_version t \<noteq> word_of_nat MaxUint32"
  define t1 where "t1 = (if updateHash then snd (tree_RootHash t) else t)"
  have t1: "pred_option wf_node (t_root t1)" "map_option strip (t_root t1) = map_option strip (t_root t)"
    "t_version t1 = t_version t"
    using tree_RootHash_spec [OF assms] assms by (auto simp: t1_def)
  have vi: "uint (t_version t + 1) = uint (t_version t) + 1" using arg_cong [OF unat_Suc_u32 [OF False], of int] by simp
  have "tree_SaveVersion updateHash t = Inr (if updateHash then Some (root_merkle (t_root t)) else None,
      tree_Version t + 1, t1\<lparr>t_version := t_version t1 + 1\<rparr>)"
    using False vi t1(3) tree_RootHash_spec [OF assms]
    by (auto simp: tree_SaveVersion_def checkVersionOverflow_def t1_def tree_Version_def Let_def split_beta)
  moreover have "tree_view (t1\<lparr>t_version := t_version t1 + 1\<rparr>) = tree_view t"
    using tree_view_strip [OF t1(2)] by (simp add: tree_view_def)
  ultimately show "\<exists>t'. tree_SaveVersion updateHash t =
      Inr (if updateHash then Some (root_merkle (t_root t)) else None, tree_Version t + 1, t') \<and>
      tree_Version t' = tree_Version t + 1 \<and> tree_view t' = tree_view t \<and> pred_option wf_node (t_root t')"
    using False t1 vi by (auto simp: tree_Version_def)
qed (auto simp: tree_SaveVersion_def checkVersionOverflow_def setInitialVersion_def word_gt_0)

theorem tree_SaveVersion_correct_witness:
  "(\<exists>t'. tree_SaveVersion True lru_tree1 = Inr (Some emptyHash, 1, t') \<and> tree_Version t' = 1) \<and>
   (\<exists>hsh t'. tree_SaveVersion True (setInitialVersion 10 lru_tree1) = Inr (hsh, 10, t'))"
  using tree_SaveVersion_correct [of lru_tree1 True 10 lru_ops 0]
  by (auto simp: lru_tree1_def tree_Version_def root_merkle_def word_unat_eq_iff)

text \<open>
  C20: the explicit stack of \<^verbatim>\<open>ScanPostOrder\<close> visits the nodes in post-order, children before parents and
  left before right, and stops after the first node on which the callback asks it to.
\<close>

theorem ScanPostOrder_correct:
  "ScanPostOrder t cb s = run_until cb (case t_root t of None \<Rightarrow> [] | Some n \<Rightarrow> post_order n) s"
  by (cases "t_root t") (simp_all add: ScanPostOrder_def scan_loop_run)

end
