(* ===== verification/Iterator.thy ===== *)
theory Iterator
  imports Tree
begin

text \<open>
  \<^verbatim>\<open>memiavl/iterator.go\<close>: iteration over a range of keys with an explicit stack of nodes. The stack is a
  list with its top first. \<^verbatim>\<open>nil\<close> bounds are \<open>None\<close>; \<^verbatim>\<open>bytes.Compare\<close> treats them as empty.
\<close>

section \<open>Definitions\<close>

record iterator =
  it_start :: "bytes option"
  it_end :: "bytes option"
  it_ascending :: bool
  it_zeroCopy :: bool
  it_key :: "bytes option"
  it_value :: "bytes option"
  it_keyCopy :: "bytes option"
  it_valueCopy :: "bytes option"
  it_valid :: bool
  it_stack :: "node list"

definition startCmp :: "iterator \<Rightarrow> bytes \<Rightarrow> int" where
  "startCmp it key = bytes_Compare (nonnil (it_start it)) key"

definition afterStart :: "iterator \<Rightarrow> bytes \<Rightarrow> bool" where
  "afterStart it key \<longleftrightarrow> it_start it = None \<or> startCmp it key < 0"

definition beforeEnd :: "iterator \<Rightarrow> bytes \<Rightarrow> bool" where
  "beforeEnd it key \<longleftrightarrow> it_end it = None \<or> bytes_Compare key (nonnil (it_end it)) < 0"

function next_loop :: "iterator \<Rightarrow> node list \<Rightarrow> iterator" where
  "next_loop it [] = it\<lparr>it_stack := [], it_valid := False\<rparr>"
| "next_loop it (Leaf rp ver k v # st) =
     (if (afterStart it k \<or> startCmp it k = 0) \<and> beforeEnd it k
      then it\<lparr>it_stack := st, it_key := Some k, it_value := Some v\<rparr>
      else next_loop it st)"
| "next_loop it (Branch rp h s ver k l r # st) =
     (if it_ascending it then
        (let st1 = (if beforeEnd it k then r # st else st)
         in next_loop it (if afterStart it k then l # st1 else st1))
      else
        (let st1 = (if afterStart it k then l # st else st)
         in next_loop it (if beforeEnd it k then r # st1 else st1)))"
  by pat_completeness auto
termination
  by (relation "measure (\<lambda>(it, st). sum_list (map (\<lambda>n. Suc (2 * size n)) st))") (auto simp: Let_def)

definition iterator_Next :: "iterator \<Rightarrow> iterator" where
  "iterator_Next it = next_loop (it\<lparr>it_keyCopy := None, it_valueCopy := None\<rparr>) (it_stack it)"

definition NewIterator ::
  "bytes option \<Rightarrow> bytes option \<Rightarrow> bool \<Rightarrow> node option \<Rightarrow> bool \<Rightarrow> iterator" where
  "NewIterator start end' ascending root zeroCopy =
     iterator_Next
       \<lparr>it_start = start, it_end = end', it_ascending = ascending, it_zeroCopy = zeroCopy, it_key = None,
        it_value = None, it_keyCopy = None, it_valueCopy = None, it_valid = True,
        it_stack = (case root of None \<Rightarrow> [] | Some n \<Rightarrow> [n])\<rparr>"

definition iterator_Domain :: "iterator \<Rightarrow> bytes option \<times> bytes option" where
  "iterator_Domain it = (it_start it, it_end it)"

definition iterator_Key :: "iterator \<Rightarrow> bytes option \<times> iterator" where
  "iterator_Key it =
     (if \<not> it_zeroCopy it then
        (let it' = (if it_keyCopy it = None then it\<lparr>it_keyCopy := it_key it\<rparr> else it)
         in (it_keyCopy it', it'))
      else (it_key it, it))"

definition iterator_Value :: "iterator \<Rightarrow> bytes option \<times> iterator" where
  "iterator_Value it =
     (if \<not> it_zeroCopy it then
        (let it' = (if it_valueCopy it = None then it\<lparr>it_valueCopy := it_value it\<rparr> else it)
         in (it_valueCopy it', it'))
      else (it_value it, it))"

definition iterator_Close :: "iterator \<Rightarrow> iterator" where
  "iterator_Close it = it\<lparr>it_valid := False, it_stack := []\<rparr>"

definition tree_Iterator :: "'c tree \<Rightarrow> bytes option \<Rightarrow> bytes option \<Rightarrow> bool \<Rightarrow> iterator" where
  "tree_Iterator t start end' ascending = NewIterator start end' ascending (t_root t) (t_zeroCopy t)"

section \<open>What an iterator yields\<close>

text \<open>A client loop: while the iterator is valid, take key and value and move on, at most \<open>n\<close> times.\<close>

fun drain :: "nat \<Rightarrow> iterator \<Rightarrow> (bytes option \<times> bytes option) list \<times> iterator" where
  "drain 0 it = ([], it)"
| "drain (Suc n) it =
     (if it_valid it then
        (let (k, it1) = iterator_Key it; (v, it2) = iterator_Value it1;
             (rest, it3) = drain n (iterator_Next it2)
         in ((k, v) # rest, it3))
      else ([], it))"

definition in_domain :: "bytes option \<Rightarrow> bytes option \<Rightarrow> bytes \<Rightarrow> bool" where
  "in_domain start end' k \<longleftrightarrow>
     (case start of None \<Rightarrow> True | Some s \<Rightarrow> s \<le> k) \<and> (case end' of None \<Rightarrow> True | Some e \<Rightarrow> k < e)"

definition range_pairs ::
  "bytes option \<Rightarrow> bytes option \<Rightarrow> bool \<Rightarrow> (bytes \<times> bytes) list \<Rightarrow> (bytes \<times> bytes) list" where
  "range_pairs start end' ascending xs =
     (let ys = filter (\<lambda>p. in_domain start end' (fst p)) xs in if ascending then ys else rev ys)"

definition pending :: "iterator \<Rightarrow> node list \<Rightarrow> (bytes \<times> bytes) list" where
  "pending it st =
     concat (map (\<lambda>n. range_pairs (it_start it) (it_end it) (it_ascending it) (leaves n)) st)"

section \<open>Lemmas\<close>

lemma afterStart_iff: "afterStart it k \<longleftrightarrow> (case it_start it of None \<Rightarrow> True | Some s \<Rightarrow> s < k)"
  by (simp add: afterStart_def startCmp_def nonnil_def split: option.split)

lemma startOrAfter_iff:
  "afterStart it k \<or> startCmp it k = 0 \<longleftrightarrow> (case it_start it of None \<Rightarrow> True | Some s \<Rightarrow> s \<le> k)"
  by (auto simp: afterStart_def startCmp_def nonnil_def split: option.split)

lemma beforeEnd_iff: "beforeEnd it k \<longleftrightarrow> (case it_end it of None \<Rightarrow> True | Some e \<Rightarrow> k < e)"
  by (simp add: beforeEnd_def nonnil_def split: option.split)

lemma pending_simps [simp]:
  "pending it [] = []"
  "pending it (n # st) = range_pairs (it_start it) (it_end it) (it_ascending it) (leaves n) @ pending it st"
  by (simp_all add: pending_def)

lemma range_pairs_append:
  "range_pairs s e a (xs @ ys) =
     (if a then range_pairs s e a xs @ range_pairs s e a ys else range_pairs s e a ys @ range_pairs s e a xs)"
  by (simp add: range_pairs_def Let_def)

lemma range_pairs_empty:
  "(\<And>p. p \<in> set xs \<Longrightarrow> \<not> in_domain s e (fst p)) \<Longrightarrow> range_pairs s e a xs = []"
  by (simp add: range_pairs_def Let_def filter_none)

lemma left_out:
  assumes "ordered (Branch rp h s ver k l r)" and "\<not> afterStart it k"
  shows "range_pairs (it_start it) (it_end it) a (leaves l) = []"
proof (rule range_pairs_empty)
  fix p assume p: "p \<in> set (leaves l)"
  then have "fst p < k" using assms(1) by auto
  then show "\<not> in_domain (it_start it) (it_end it) (fst p)"
    using assms(2) by (auto simp: afterStart_iff in_domain_def split: option.splits)
qed

lemma right_out:
  assumes "ordered (Branch rp h s ver k l r)" and "\<not> beforeEnd it k"
  shows "range_pairs (it_start it) (it_end it) a (leaves r) = []"
proof (rule range_pairs_empty)
  fix p assume p: "p \<in> set (leaves r)"
  then have "k \<le> fst p" using ordered_right_ge [OF assms(1)] by simp
  then show "\<not> in_domain (it_start it) (it_end it) (fst p)"
    using assms(2) by (auto simp: beforeEnd_iff in_domain_def split: option.splits)
qed

text \<open>One step of the iteration: it ends, or hands out the first pending pair.\<close>

definition yields :: "iterator \<Rightarrow> (bytes \<times> bytes) list \<Rightarrow> iterator \<Rightarrow> bool" where
  "yields it ps it' \<longleftrightarrow>
     (ps = [] \<and> it' = it\<lparr>it_stack := [], it_valid := False\<rparr>) \<or>
     (\<exists>p qs st. ps = p # qs \<and> it' = it\<lparr>it_stack := st, it_key := Some (fst p), it_value := Some (snd p)\<rparr> \<and>
        pending it st = qs \<and> (\<forall>n \<in> set st. ordered n))"

lemma next_loop_spec:
  assumes "\<forall>n \<in> set st. ordered n"
  shows "yields it (pending it st) (next_loop it st)"
  using assms
proof (induction it st rule: next_loop.induct)
  case (1 it)
  then show ?case by (simp add: yields_def)
next
  case (2 it rp ver k v st)
  have dom: "in_domain (it_start it) (it_end it) k \<longleftrightarrow>
    (afterStart it k \<or> startCmp it k = 0) \<and> beforeEnd it k"
    unfolding startOrAfter_iff beforeEnd_iff in_domain_def by (simp split: option.split)
  show ?case
  proof (cases "in_domain (it_start it) (it_end it) k")
    case True
    then have "pending it (Leaf rp ver k v # st) = (k, v) # pending it st"
      by (simp add: range_pairs_def Let_def)
    moreover have "next_loop it (Leaf rp ver k v # st) = it\<lparr>it_stack := st, it_key := Some k, it_value := Some v\<rparr>"
      using dom True by simp
    ultimately show ?thesis using 2(2) unfolding yields_def by (metis fst_conv snd_conv list.set_intros(2))
  next
    case False
    then have "next_loop it (Leaf rp ver k v # st) = next_loop it st" using dom by auto
    moreover have "pending it (Leaf rp ver k v # st) = pending it st"
      using False by (simp add: range_pairs_def Let_def)
    ultimately show ?thesis using 2 False dom by auto
  qed
next
  case (3 it rp h s ver k l r st)
  have o: "ordered (Branch rp h s ver k l r)" using 3(3) by (metis list.set_intros(1))
  let ?st = "if it_ascending it then
      (if afterStart it k then [l] else []) @ (if beforeEnd it k then [r] else []) @ st
    else (if beforeEnd it k then [r] else []) @ (if afterStart it k then [l] else []) @ st"
  have nl: "next_loop it (Branch rp h s ver k l r # st) = next_loop it ?st"
    by (simp add: Let_def)
  have pe: "pending it (Branch rp h s ver k l r # st) = pending it ?st"
    using left_out [OF o, of it] right_out [OF o, of it] by (simp add: range_pairs_append)
  have "\<forall>n \<in> set ?st. ordered n" using 3(3) by auto
  then show ?case unfolding nl pe
    using 3(1,2) by (cases "it_ascending it"; cases "afterStart it k"; cases "beforeEnd it k") simp_all
qed

text \<open>An iterator between two steps: the current pair and the pairs still to come.\<close>

definition at_pairs :: "iterator \<Rightarrow> (bytes \<times> bytes) list \<Rightarrow> bool" where
  "at_pairs it ps \<longleftrightarrow>
     (ps = [] \<and> \<not> it_valid it) \<or>
     (\<exists>p qs. ps = p # qs \<and> it_valid it \<and> it_key it = Some (fst p) \<and> it_value it = Some (snd p) \<and>
        it_keyCopy it \<in> {None, it_key it} \<and> it_valueCopy it \<in> {None, it_value it} \<and>
        pending it (it_stack it) = qs \<and> (\<forall>n \<in> set (it_stack it). ordered n))"

lemma Next_at_pairs:
  assumes "it_valid it" and "\<forall>n \<in> set (it_stack it). ordered n"
  shows "at_pairs (iterator_Next it) (pending it (it_stack it))"
proof -
  let ?it = "it\<lparr>it_keyCopy := None, it_valueCopy := None\<rparr>"
  have "pending ?it st = pending it st" for st by (simp add: pending_def)
  then show ?thesis
    using next_loop_spec [OF assms(2), of ?it] assms(1)
    by (auto simp: yields_def at_pairs_def iterator_Next_def pending_def)
qed

lemma at_pairs_Key_Value:
  assumes "at_pairs it (p # qs)"
  shows "fst (iterator_Key it) = Some (fst p)" "at_pairs (snd (iterator_Key it)) (p # qs)"
    "fst (iterator_Value it) = Some (snd p)" "at_pairs (snd (iterator_Value it)) (p # qs)"
  using assms
  by (auto simp: at_pairs_def iterator_Key_def iterator_Value_def Let_def pending_def)

lemma at_pairs_Next:
  assumes "at_pairs it (p # qs)"
  shows "at_pairs (iterator_Next it) qs"
  using assms Next_at_pairs [of it] by (auto simp: at_pairs_def [of it])

lemma drain_at_pairs:
  assumes "at_pairs it ps" and "length ps \<le> n"
  shows "fst (drain n it) = map (\<lambda>p. (Some (fst p), Some (snd p))) ps \<and> \<not> it_valid (snd (drain n it))"
  using assms
proof (induction n arbitrary: it ps)
  case 0
  then show ?case by (simp add: at_pairs_def)
next
  case (Suc n)
  show ?case
  proof (cases ps)
    case Nil
    then show ?thesis using Suc.prems(1) by (simp add: at_pairs_def)
  next
    case (Cons p qs)
    note k = at_pairs_Key_Value(1,2) [OF Suc.prems(1) [unfolded Cons]]
    note v = at_pairs_Key_Value(3,4) [OF k(2)]
    have "it_valid it" using Suc.prems(1) Cons by (simp add: at_pairs_def)
    then show ?thesis
      using Suc.IH [OF at_pairs_Next [OF v(2)]] Suc.prems(2) Cons k(1) v(1)
      by (simp add: split_beta)
  qed
qed

section \<open>Property\<close>

text \<open>
  C21: an iterator over a well-formed tree hands out exactly the pairs whose keys lie in the half-open
  domain, in ascending or descending order, each once, and then becomes invalid.
\<close>

theorem Iterator_correct:
  assumes "pred_option wf_node (t_root t)" and "length (tree_view t) \<le> n"
  shows "fst (drain n (tree_Iterator t start end' ascending)) =
      map (\<lambda>p. (Some (fst p), Some (snd p))) (range_pairs start end' ascending (tree_view t)) \<and>
    \<not> it_valid (snd (drain n (tree_Iterator t start end' ascending)))"
proof -
  let ?it = "\<lparr>it_start = start, it_end = end', it_ascending = ascending, it_zeroCopy = t_zeroCopy t,
    it_key = None, it_value = None, it_keyCopy = None, it_valueCopy = None, it_valid = True,
    it_stack = (case t_root t of None \<Rightarrow> [] | Some n \<Rightarrow> [n])\<rparr>"
  have "\<forall>n \<in> set (it_stack ?it). ordered n"
    using assms(1) by (cases "t_root t") (auto simp: wf_node_def)
  then have "at_pairs (tree_Iterator t start end' ascending) (pending ?it (it_stack ?it))"
    unfolding tree_Iterator_def NewIterator_def by (intro Next_at_pairs) simp_all
  moreover have "pending ?it (it_stack ?it) = range_pairs start end' ascending (tree_view t)"
    by (cases "t_root t") (simp_all add: tree_view_def range_pairs_def Let_def)
  moreover have "length (range_pairs start end' ascending (tree_view t)) \<le> n"
    using assms(2) by (auto simp: range_pairs_def Let_def intro: le_trans [OF length_filter_le])
  ultimately show ?thesis using drain_at_pairs by simp
qed

theorem Iterator_correct_witness:
  "fst (drain 2 (tree_Iterator (lru_tree1\<lparr>t_root := Some two_keys\<rparr>) (Some [2]) None False)) =
     [(Some [2], Some [20])]"
proof -
  have "pred_option wf_node (t_root (lru_tree1\<lparr>t_root := Some two_keys\<rparr>))" using two_keys_wf by simp
  moreover have "length (tree_view (lru_tree1\<lparr>t_root := Some two_keys\<rparr>)) \<le> 2"
    by (simp add: tree_view_def two_keys_def)
  ultimately show ?thesis
    using Iterator_correct [of "lru_tree1\<lparr>t_root := Some two_keys\<rparr>" 2 "Some [2]" None False]
    by (simp add: tree_view_def two_keys_def range_pairs_def in_domain_def)
qed

end
