(* ===== verification/MerkleProof.thy ===== *)
theory MerkleProof
  imports Tree
begin

text \<open>
  Membership proofs: \<^verbatim>\<open>memiavl/proof.go\<close>. The proof format is the one of the package \<^verbatim>\<open>ics23\<close>, which
  also checks proofs; it is not part of the repository. Its two documented operations, that turn a
  leaf and then each step of the path into a hash, are the record \<open>ics23_ops\<close>; the locale \<open>ics23\<close> says
  what they compute for the operations this code builds.

  The path also asks the siblings for their hashes. The caches this fills do not change later answers
  and are left out.
\<close>

section \<open>Proofs\<close>

datatype hash_op = HashOp_NO_HASH | HashOp_SHA256

datatype length_op = LengthOp_NO_PREFIX | LengthOp_VAR_PROTO

record leaf_op =
  lo_Hash :: hash_op
  lo_PrehashValue :: hash_op
  lo_Length :: length_op
  lo_Prefix :: bytes

record inner_op =
  io_Hash :: hash_op
  io_Prefix :: bytes
  io_Suffix :: bytes

record existence_proof =
  ep_Key :: bytes
  ep_Value :: bytes
  ep_Leaf :: leaf_op
  ep_Path :: "inner_op list"

record nonexistence_proof =
  np_Key :: bytes
  np_Left :: "existence_proof option"
  np_Right :: "existence_proof option"

datatype commitment_proof = Exist existence_proof | Nonexist nonexistence_proof

record proof_inner_node =
  pi_Height :: u8
  pi_Size :: i64
  pi_Version :: i64
  pi_Left :: "bytes option"
  pi_Right :: "bytes option"

record ics23_ops =
  leaf_Apply :: "leaf_op \<Rightarrow> bytes \<Rightarrow> bytes \<Rightarrow> bytes result"
  inner_Apply :: "inner_op \<Rightarrow> bytes \<Rightarrow> bytes result"

section \<open>Building a proof\<close>

definition convertVarIntToBytes :: "i64 \<Rightarrow> bytes" where
  "convertVarIntToBytes orig = PutVarint orig"

text \<open>\<^verbatim>\<open>Height\<close> is an \<^verbatim>\<open>int8\<close>: the byte is kept, and read as a signed number when it is encoded.\<close>

fun pathToLeaf :: "node \<Rightarrow> bytes \<Rightarrow> proof_inner_node list \<times> node \<times> bool" where
  "pathToLeaf (Leaf rp ver k v) key = ([], Leaf rp ver k v, k = key)"
| "pathToLeaf (Branch rp h s ver k l r) key =
     (if bytes_Compare key k < 0 then
        (let (path, leaf, found) = pathToLeaf l key
         in (\<lparr>pi_Height = h, pi_Size = s, pi_Version = ucast ver, pi_Left = None,
              pi_Right = Some (fst (node_Hash r))\<rparr> # path, leaf, found))
      else
        (let (path, leaf, found) = pathToLeaf r key
         in (\<lparr>pi_Height = h, pi_Size = s, pi_Version = ucast ver, pi_Left = Some (fst (node_Hash l)),
              pi_Right = None\<rparr> # path, leaf, found)))"

definition convertLeafOp :: "i64 \<Rightarrow> leaf_op" where
  "convertLeafOp version =
     \<lparr>lo_Hash = HashOp_SHA256, lo_PrehashValue = HashOp_SHA256, lo_Length = LengthOp_VAR_PROTO,
      lo_Prefix = convertVarIntToBytes 0 @ convertVarIntToBytes 1 @ convertVarIntToBytes version\<rparr>"

definition convertInnerOp :: "proof_inner_node \<Rightarrow> inner_op" where
  "convertInnerOp pi =
     (let lengthByte = (0x20 :: u8);
          prefix = convertVarIntToBytes (scast (pi_Height pi)) @ convertVarIntToBytes (pi_Size pi)
            @ convertVarIntToBytes (pi_Version pi)
      in if length (nonnil (pi_Left pi)) > 0
         then \<lparr>io_Hash = HashOp_SHA256,
               io_Prefix = prefix @ [lengthByte] @ nonnil (pi_Left pi) @ [lengthByte], io_Suffix = []\<rparr>
         else \<lparr>io_Hash = HashOp_SHA256, io_Prefix = prefix @ [lengthByte],
               io_Suffix = lengthByte # nonnil (pi_Right pi)\<rparr>)"

definition convertInnerOps :: "proof_inner_node list \<Rightarrow> inner_op list" where
  "convertInnerOps path = map convertInnerOp (rev path)"

definition createExistenceProof :: "'c tree \<Rightarrow> bytes \<Rightarrow> existence_proof result" where
  "createExistenceProof t key =
     (case t_root t of
        None \<Rightarrow> Inl KeyNotExist
      | Some n \<Rightarrow>
          (let (path, leaf, found) = pathToLeaf n key
           in if \<not> found then Inl KeyNotExist
              else Inr \<lparr>ep_Key = node_Key leaf, ep_Value = nonnil (node_Value leaf),
                ep_Leaf = convertLeafOp (ucast (node_Version leaf)), ep_Path = convertInnerOps path\<rparr>))"

definition GetMembershipProof :: "'c tree \<Rightarrow> bytes \<Rightarrow> commitment_proof result" where
  "GetMembershipProof t key = rmap Exist (createExistenceProof t key)"

definition GetNonMembershipProof :: "'c tree \<Rightarrow> bytes \<Rightarrow> commitment_proof result" where
  "GetNonMembershipProof t key =
     (if t_root t = None then Inl EmptyTreeProof
      else
        (let (idx, val) = GetWithIndex t key in
         if val \<noteq> None then Inl KeyInState
         else
           rbind
             (if idx \<ge> 1 then
                (case tree_GetByIndex t (idx - 1) of
                   None \<Rightarrow> rmap Some (createExistenceProof t [])
                 | Some (leftkey, _) \<Rightarrow> rmap Some (createExistenceProof t leftkey))
              else Inr None) (\<lambda>left.
           rbind
             (case tree_GetByIndex t idx of
                None \<Rightarrow> Inr None
              | Some (rightkey, _) \<Rightarrow> rmap Some (createExistenceProof t rightkey)) (\<lambda>right.
           Inr (Nonexist \<lparr>np_Key = key, np_Left = left, np_Right = right\<rparr>)))))"

text \<open>The verifiers pass the current root hash and value to the checks of the package.\<close>

definition tree_VerifyMembership ::
  "'c cache_ops \<Rightarrow> (bytes \<Rightarrow> commitment_proof \<Rightarrow> bytes \<Rightarrow> bytes option \<Rightarrow> bool) \<Rightarrow>
     'c tree \<Rightarrow> commitment_proof \<Rightarrow> bytes \<Rightarrow> bool" where
  "tree_VerifyMembership ops verify t proof key =
     (let (val, t1) = tree_Get ops t key; (root, _) = tree_RootHash t1 in verify root proof key val)"

definition tree_VerifyNonMembership ::
  "(bytes \<Rightarrow> commitment_proof \<Rightarrow> bytes \<Rightarrow> bool) \<Rightarrow> 'c tree \<Rightarrow> commitment_proof \<Rightarrow> bytes \<Rightarrow> bool" where
  "tree_VerifyNonMembership verify t proof key = (let (root, _) = tree_RootHash t in verify root proof key)"

section \<open>What a proof proves\<close>

definition inner_step :: "ics23_ops \<Rightarrow> bytes result \<Rightarrow> inner_op \<Rightarrow> bytes result" where
  "inner_step ics r op = rbind r (inner_Apply ics op)"

definition proof_root :: "ics23_ops \<Rightarrow> existence_proof \<Rightarrow> bytes result" where
  "proof_root ics ep =
     foldl (inner_step ics) (leaf_Apply ics (ep_Leaf ep) (ep_Key ep) (ep_Value ep)) (ep_Path ep)"

locale ics23 =
  fixes ics :: ics23_ops
  assumes leaf_Apply: "k \<noteq> [] \<Longrightarrow> v \<noteq> [] \<Longrightarrow> lo_Hash op = HashOp_SHA256 \<Longrightarrow>
      lo_PrehashValue op = HashOp_SHA256 \<Longrightarrow> lo_Length op = LengthOp_VAR_PROTO \<Longrightarrow>
      leaf_Apply ics op k v = Inr (sha256 (lo_Prefix op @ EncodeBytes k @ EncodeBytes (sha256 v)))"
    and inner_Apply: "child \<noteq> [] \<Longrightarrow> io_Hash iop = HashOp_SHA256 \<Longrightarrow>
      inner_Apply ics iop child = Inr (sha256 (io_Prefix iop @ child @ io_Suffix iop))"

lemma inner_step_Inr [simp]: "inner_step ics (Inr x) op = inner_Apply ics op x"
  by (simp add: inner_step_def)

lemma EncodeBytes_hash: "length x = 32 \<Longrightarrow> EncodeBytes x = 0x20 # x"
proof -
  assume "length x = 32"
  moreover have "PutUvarint 32 = [0x20]" 
    unfolding PutUvarint_def by (subst put_uvarint.simps) simp
  ultimately show ?thesis by (simp add: EncodeBytes_def)
qed

lemma scast_height:
  assumes "unat (h :: u8) < 128"
  shows "(scast h :: i64) = ucast h"
proof -
  have "int (unat h) < 128" using assms by linarith
  then have "uint h < 2 ^ 7" by simp
  moreover have "- (2 ^ 7) \<le> uint h" 
    by (rule order_trans [OF _ uint_ge_0]) simp
  ultimately have "signed_take_bit 7 (uint h) = uint h" by (intro signed_take_bit_int_eq_self)
  then have "sint h = uint h" unfolding sint_uint by simp
  then show ?thesis by (simp only: scast_eq ucast_eq)
qed

text \<open>A proof for the given pair, or none when there is no pair.\<close>

definition proves :: "ics23_ops \<Rightarrow> bytes \<Rightarrow> (bytes \<times> bytes) option \<Rightarrow> existence_proof option \<Rightarrow> bool" where
  "proves ics root p e = rel_option
     (\<lambda>(k, v) ep. ep_Key ep = k \<and> ep_Value ep = v \<and> proof_root ics ep = Inr root) p e"

definition last_pair :: "(bytes \<times> bytes) list \<Rightarrow> (bytes \<times> bytes) option" where
  "last_pair xs = (if xs = [] then None else Some (last xs))"

definition first_pair :: "(bytes \<times> bytes) list \<Rightarrow> (bytes \<times> bytes) option" where
  "first_pair xs = (if xs = [] then None else Some (hd xs))"

section \<open>Lemmas\<close>

lemma pathToLeaf_found:
  assumes "ordered n" and "map_of (leaves n) key = Some v"
  obtains path rp ver where "pathToLeaf n key = (path, Leaf rp ver key v, True)"
proof -
  have "\<exists>path rp ver. pathToLeaf n key = (path, Leaf rp ver key v, True)"
    using assms
  proof (induction n)
    case (Leaf rp ver k x)
    then show ?case by (simp split: if_splits)
  next
    case (Branch rp h s ver k l r)
    have o: "ordered l" "ordered r" using Branch.prems(1) by auto
    show ?case
    proof (cases "key < k")
      case True
      then have "map_of (leaves r) key = None"
        using ordered_not_in(1) [OF Branch.prems(1)] by (simp add: map_of_eq_None_keys)
      then have "map_of (leaves l) key = Some v"
        using Branch.prems(2) by (simp add: map_add_def split: option.splits)
      then obtain path rp' ver' where "pathToLeaf l key = (path, Leaf rp' ver' key v, True)"
        using Branch.IH(1) [OF o(1)] by blast
      then show ?thesis using True by simp
    next
      case False
      then have "map_of (leaves l) key = None"
        using ordered_not_in(2) [OF Branch.prems(1)] by (simp add: map_of_eq_None_keys)
      then have "map_of (leaves r) key = Some v"
        using Branch.prems(2) by (simp add: map_add_def)
      then obtain path rp' ver' where "pathToLeaf r key = (path, Leaf rp' ver' key v, True)"
        using Branch.IH(2) [OF o(2)] by blast
      then show ?thesis using False by simp
    qed
  qed
  then show thesis using that by blast
qed

context ics23
begin

lemma convertInnerOp_left:
  assumes "unat h < 128" and "length lh = 32" and "length rh = 32"
  shows "inner_Apply ics (convertInnerOp \<lparr>pi_Height = h, pi_Size = s, pi_Version = ucast ver,
      pi_Left = None, pi_Right = Some rh\<rparr>) lh = Inr (sha256 (hash_header h s ver @ EncodeBytes lh @ EncodeBytes rh))"
    and "inner_Apply ics (convertInnerOp \<lparr>pi_Height = h, pi_Size = s, pi_Version = ucast ver,
      pi_Left = Some lh, pi_Right = None\<rparr>) rh = Inr (sha256 (hash_header h s ver @ EncodeBytes lh @ EncodeBytes rh))"
proof -
  have ne: "lh \<noteq> []" "rh \<noteq> []" using assms(2,3) by auto
  show "inner_Apply ics (convertInnerOp \<lparr>pi_Height = h, pi_Size = s, pi_Version = ucast ver,
      pi_Left = None, pi_Right = Some rh\<rparr>) lh = Inr (sha256 (hash_header h s ver @ EncodeBytes lh @ EncodeBytes rh))"
    by (subst inner_Apply [OF ne(1)])
      (simp_all add: convertInnerOp_def nonnil_def convertVarIntToBytes_def hash_header_def scast_height
        assms EncodeBytes_hash)
  show "inner_Apply ics (convertInnerOp \<lparr>pi_Height = h, pi_Size = s, pi_Version = ucast ver,
      pi_Left = Some lh, pi_Right = None\<rparr>) rh = Inr (sha256 (hash_header h s ver @ EncodeBytes lh @ EncodeBytes rh))"
    by (subst inner_Apply [OF ne(2)])
      (use ne in \<open>simp_all add: convertInnerOp_def nonnil_def convertVarIntToBytes_def hash_header_def
        scast_height assms EncodeBytes_hash\<close>)
qed

lemma path_root:
  assumes "pathToLeaf n key = (path, leaf, found)" and "hashed n" and "balanced n" and "ht n < 128"
  shows "foldl (inner_step ics) (Inr (merkle leaf)) (convertInnerOps path) = Inr (merkle n)"
  using assms
proof (induction n arbitrary: path leaf found)
  case (Leaf rp ver k v)
  then show ?case by (simp add: convertInnerOps_def)
next
  case (Branch rp h s ver k l r)
  have h: "unat h < 128" using Branch.prems(3,4) by simp
  have hl: "fst (node_Hash l) = merkle l" "fst (node_Hash r) = merkle r"
    using Branch.prems(2) node_Hash_merkle by auto
  note op = convertInnerOp_left [OF h length_merkle [of l] length_merkle [of r], of s ver]
  show ?case
  proof (cases "key < k")
    case True
    obtain p' where p: "pathToLeaf l key = (p', leaf, found)"
      and path: "path = \<lparr>pi_Height = h, pi_Size = s, pi_Version = ucast ver, pi_Left = None,
        pi_Right = Some (merkle r)\<rparr> # p'"
      using Branch.prems(1) True hl by (auto simp: Let_def split: prod.splits)
    have "foldl (inner_step ics) (Inr (merkle leaf)) (convertInnerOps p') = Inr (merkle l)"
      using Branch.prems by (intro Branch.IH(1) [OF p]) auto
    then show ?thesis using op(1) by (simp add: path convertInnerOps_def)
  next
    case False
    obtain p' where p: "pathToLeaf r key = (p', leaf, found)"
      and path: "path = \<lparr>pi_Height = h, pi_Size = s, pi_Version = ucast ver, pi_Left = Some (merkle l),
        pi_Right = None\<rparr> # p'"
      using Branch.prems(1) False hl by (auto simp: Let_def split: prod.splits)
    have "foldl (inner_step ics) (Inr (merkle leaf)) (convertInnerOps p') = Inr (merkle r)"
      using Branch.prems by (intro Branch.IH(2) [OF p]) auto
    then show ?thesis using op(2) by (simp add: path convertInnerOps_def)
  qed
qed

lemma createExistenceProof_root:
  assumes "t_root t = Some n" and "wf_node n" and "length (leaves n) < 2 ^ 63"
    and "map_of (leaves n) key = Some v" and "key \<noteq> []" and "v \<noteq> []"
  shows "\<exists>ep. createExistenceProof t key = Inr ep \<and> ep_Key ep = key \<and> ep_Value ep = v \<and>
    proof_root ics ep = Inr (merkle n)"
proof -
  have n: "ordered n" "hashed n" "balanced n" and ht: "ht n < 128"
    using assms(2) wf_ht_bound [OF assms(2,3)] by (auto simp: wf_node_def)
  obtain path rp ver where p: "pathToLeaf n key = (path, Leaf rp ver key v, True)"
    by (rule pathToLeaf_found [OF n(1) assms(4)])
  define ep where "ep = \<lparr>ep_Key = key, ep_Value = v, ep_Leaf = convertLeafOp (ucast ver),
    ep_Path = convertInnerOps path\<rparr>"
  have "createExistenceProof t key = Inr ep"
    using assms(1) p by (simp add: createExistenceProof_def ep_def nonnil_def)
  moreover have "leaf_Apply ics (ep_Leaf ep) (ep_Key ep) (ep_Value ep) = Inr (merkle (Leaf rp ver key v))"
    using assms(5,6)
    by (subst leaf_Apply)
      (simp_all add: ep_def convertLeafOp_def convertVarIntToBytes_def hash_header_def)
  then have "proof_root ics ep = Inr (merkle n)"
    unfolding proof_root_def using path_root [OF p n(2,3) ht] by (simp add: ep_def)
  ultimately show ?thesis by (auto simp: ep_def)
qed

lemma createExistenceProof_member:
  assumes "t_root t = Some n" and "wf_node n" and "length (leaves n) < 2 ^ 63" and "p \<in> set (leaves n)"
    and "fst p \<noteq> []" and "snd p \<noteq> []"
  shows "\<exists>ep. createExistenceProof t (fst p) = Inr ep \<and> ep_Key ep = fst p \<and> ep_Value ep = snd p \<and>
    proof_root ics ep = Inr (merkle n)"
proof -
  have "keys_sorted (leaves n)" using assms(2) ordered_sorted by (auto simp: wf_node_def)
  then have "map_of (leaves n) (fst p) = Some (snd p)"
    using assms(4) keys_sorted_distinct by (metis map_of_is_SomeI prod.collapse)
  then show ?thesis by (rule createExistenceProof_root [OF assms(1-3) _ assms(5,6)])
qed

lemma createExistenceProof_absent:
  assumes "t_root t = Some n" and "ordered n" and "map_of (leaves n) key = None"
  shows "createExistenceProof t key = Inl KeyNotExist"
proof -
  have "key \<in> fst ` set (leaves n)" if "snd (snd (pathToLeaf n key))"
    using that
  proof (induction n)
    case (Branch rp h s ver k l r)
    then show ?case by (cases "key < k") (auto simp: split_beta)
  qed auto
  then have "\<not> snd (snd (pathToLeaf n key))" using assms(3) by (auto simp: map_of_eq_None_iff)
  then show ?thesis using assms(1) by (simp add: createExistenceProof_def split_beta)
qed

end

text \<open>An instance of the package, by its documentation.\<close>

definition doc_ics23 :: ics23_ops where
  "doc_ics23 =
     \<lparr>leaf_Apply = (\<lambda>op k v. if k = [] \<or> v = [] then Inl KeyNotExist
        else Inr (sha256 (lo_Prefix op @ EncodeBytes k @ EncodeBytes (sha256 v)))),
      inner_Apply = (\<lambda>op child. if child = [] then Inl KeyNotExist
        else Inr (sha256 (io_Prefix op @ child @ io_Suffix op)))\<rparr>"

interpretation doc: ics23 doc_ics23
proof
  fix k v :: bytes and op
  assume "k \<noteq> []" "v \<noteq> []"
  then show "leaf_Apply doc_ics23 op k v = Inr (sha256 (lo_Prefix op @ EncodeBytes k @ EncodeBytes (sha256 v)))"
    by (simp only: doc_ics23_def ics23_ops.simps simp_thms if_False)
next
  fix child :: bytes and iop
  assume "child \<noteq> []"
  then show "inner_Apply doc_ics23 iop child = Inr (sha256 (io_Prefix iop @ child @ io_Suffix iop))"
    by (simp only: doc_ics23_def ics23_ops.simps simp_thms if_False)
qed

text \<open>In a sorted list, the last smaller and the first greater pair by position.\<close>

lemma sorted_partition:
  assumes "keys_sorted xs" and "key \<notin> fst ` set xs"
  shows "filter (\<lambda>p. fst p < key) xs @ filter (\<lambda>p. key < fst p) xs = xs"
  using assms
proof (induction xs)
  case (Cons x xs)
  have ih: "filter (\<lambda>p. fst p < key) xs @ filter (\<lambda>p. key < fst p) xs = xs"
    by (rule Cons.IH) (use Cons.prems in simp_all)
  show ?case
  proof (cases "fst x < key")
    case True
    then show ?thesis using ih by (simp add: less_not_sym)
  next
    case False
    have gt: "key < fst p" if "p \<in> set (x # xs)" for p
    proof -
      have "key < fst x" using False Cons.prems(2) by (metis image_insert insertI1 linorder_neqE list.simps(15))
      moreover have "fst x \<le> fst p" using Cons.prems(1) that by (auto intro: less_imp_le)
      ultimately show ?thesis by (rule less_le_trans)
    qed
    then have "filter (\<lambda>p. fst p < key) (x # xs) = []"
      by (meson filter_False less_not_sym)
    moreover have "filter (\<lambda>p. key < fst p) (x # xs) = x # xs"
      using gt by (meson filter_True)
    ultimately show ?thesis by (simp only: append_Nil)
  qed
qed simp

lemma sorted_split:
  assumes "keys_sorted xs" and "key \<notin> fst ` set xs"
  shows "take (length (filter (\<lambda>p. fst p < key) xs)) xs = filter (\<lambda>p. fst p < key) xs"
    and "drop (length (filter (\<lambda>p. fst p < key) xs)) xs = filter (\<lambda>p. key < fst p) xs"
proof -
  let ?f = "filter (\<lambda>p. fst p < key) xs" and ?g = "filter (\<lambda>p. key < fst p) xs"
  have "take (length ?f) (?f @ ?g) = ?f" "drop (length ?f) (?f @ ?g) = ?g" by simp_all
  note split = this [unfolded sorted_partition [OF assms]]
  show "take (length ?f) xs = ?f" by (rule split(1))
  show "drop (length ?f) xs = ?g" by (rule split(2))
qed

lemma GetWithIndex_rank:
  assumes "t_root t = Some n" and "wf_node n" and "length (leaves n) < 2 ^ 32"
  shows "GetWithIndex t key =
    (int (length (filter (\<lambda>p. fst p < key) (leaves n))), map_of (leaves n) key)"
proof -
  have "length (filter (\<lambda>p. fst p < key) (leaves n)) < 2 ^ 32"
    using le_less_trans [OF length_filter_le assms(3)] .
  then have "unat (word_of_nat (length (filter (\<lambda>p. fst p < key) (leaves n))) :: u32) =
      length (filter (\<lambda>p. fst p < key) (leaves n))" by (simp add: unat_of_nat)
  moreover have "ordered n" "sized n" using assms(2) by (simp_all add: wf_node_def)
  ultimately show ?thesis using assms(1) by (simp only: GetWithIndex_def node_Get_spec option.case prod.case Let_def)
qed

lemma tree_GetByIndex_nth:
  assumes "t_root t = Some n" and "wf_node n" and "length (leaves n) < 2 ^ 32" and "i \<le> length (leaves n)"
  shows "tree_GetByIndex t (int i) = (if i < length (leaves n) then Some (leaves n ! i) else None)"
proof -
  have i: "i < 2 ^ 32" using assms(3,4) by linarith
  then have "unat (word_of_int (int i) :: u32) = i" by (simp add: unat_of_nat)
  moreover have "\<not> int i > int MaxUint32" using i by simp
  moreover have "sized n" using assms(2) by (simp add: wf_node_def)
  ultimately show ?thesis
    using assms(1) node_GetByIndex_spec [OF _ assms(3)] by (simp only: tree_GetByIndex_def option.case if_False)
qed

text \<open>The two neighbours by position, for any list split at the key.\<close>

lemma left_neighbour:
  assumes "f @ g = xs" and "\<And>i. i \<le> length xs \<Longrightarrow> tree_GetByIndex t (int i) = (if i < length xs then Some (xs ! i) else None)"
    and "\<And>p. p \<in> set xs \<Longrightarrow> \<exists>ep. createExistenceProof t (fst p) = Inr ep \<and> proves ics root (Some p) (Some ep)"
  shows "\<exists>l. (if int (length f) \<ge> 1 then (case tree_GetByIndex t (int (length f) - 1) of
        None \<Rightarrow> rmap Some (createExistenceProof t [])
      | Some (leftkey, _) \<Rightarrow> rmap Some (createExistenceProof t leftkey)) else Inr None) = Inr l \<and>
    proves ics root (last_pair f) l"
proof (cases "f = []")
  case True
  then show ?thesis by (simp add: last_pair_def proves_def)
next
  case False
  have mem: "last f \<in> set xs" unfolding assms(1) [symmetric] using False by simp
  have "int (length f) - 1 = int (length f - 1)" using False by (cases f) simp_all
  moreover have "xs ! (length f - 1) = last f" "length f - 1 < length xs"
    using False assms(1) by (cases f rule: rev_cases; auto simp: nth_append)+
  ultimately have g: "tree_GetByIndex t (int (length f) - 1) = Some (last f)"
    using assms(2) [of "length f - 1"] by (simp only: if_True less_imp_le)
  obtain ep where ep: "createExistenceProof t (fst (last f)) = Inr ep" "proves ics root (Some (last f)) (Some ep)"
    using assms(3) [OF mem] by blast
  have "int (length f) \<ge> 1" using False by (cases f) simp_all
  then show ?thesis
    unfolding if_P g last_pair_def if_not_P [OF False] using ep by (simp only: option.case split_beta ep(1) if_True rmap_def rbind_simps sum.inject) blast
qed

lemma right_neighbour:
  assumes "f @ g = xs" and "\<And>i. i \<le> length xs \<Longrightarrow> tree_GetByIndex t (int i) = (if i < length xs then Some (xs ! i) else None)"
    and "\<And>p. p \<in> set xs \<Longrightarrow> \<exists>ep. createExistenceProof t (fst p) = Inr ep \<and> proves ics root (Some p) (Some ep)"
  shows "\<exists>r. (case tree_GetByIndex t (int (length f)) of None \<Rightarrow> Inr None
      | Some (rightkey, _) \<Rightarrow> rmap Some (createExistenceProof t rightkey)) = Inr r \<and>
    proves ics root (first_pair g) r"
proof (cases g)
  case Nil
  then show ?thesis using assms(1) assms(2) [of "length f"] by (auto simp: first_pair_def proves_def)
next
  case (Cons p g')
  then have "tree_GetByIndex t (int (length f)) = Some p" using assms(1) assms(2) [of "length f"] by (auto simp: nth_append)
  moreover obtain ep where "createExistenceProof t (fst p) = Inr ep" "proves ics root (Some p) (Some ep)"
    using assms(3) [of p] assms(1) Cons by auto
  ultimately show ?thesis using Cons by (simp add: first_pair_def split_beta)
qed

section \<open>Properties\<close>

text \<open>
  C22: for a key that is stored (with a value, both not empty, as the proof format demands), the proof that
  \<^verbatim>\<open>GetMembershipProof\<close> builds names the key and its value and leads to the root hash of the tree; for a
  key that is not stored it reports an error.
\<close>

theorem GetMembershipProof_correct:
  assumes "ics23 ics" and "t_root t = Some n" and "wf_node n" and "length (leaves n) < 2 ^ 63"
  shows "(map_of (leaves n) key = Some v \<longrightarrow> key \<noteq> [] \<longrightarrow> v \<noteq> [] \<longrightarrow>
      (\<exists>ep. GetMembershipProof t key = Inr (Exist ep) \<and> ep_Key ep = key \<and> ep_Value ep = v \<and>
        proof_root ics ep = Inr (fst (tree_RootHash t)))) \<and>
    (map_of (leaves n) key = None \<longrightarrow> GetMembershipProof t key = Inl KeyNotExist)"
proof -
  have "fst (tree_RootHash t) = merkle n"
    using tree_RootHash_spec [of t] assms(2,3) by (simp add: root_merkle_def)
  note root = this
  have present: "\<exists>ep. GetMembershipProof t key = Inr (Exist ep) \<and> ep_Key ep = key \<and> ep_Value ep = v \<and>
      proof_root ics ep = Inr (fst (tree_RootHash t))"
    if "map_of (leaves n) key = Some v" and "key \<noteq> []" and "v \<noteq> []"
    using ics23.createExistenceProof_root [OF assms that] unfolding root
    by (elim exE) (simp add: GetMembershipProof_def)
  have absent: "GetMembershipProof t key = Inl KeyNotExist" if "map_of (leaves n) key = None"
    using ics23.createExistenceProof_absent [OF assms(1,2) _ that] assms(3)
    by (simp add: GetMembershipProof_def wf_node_def)
  show ?thesis using present absent by blast
qed

theorem GetMembershipProof_correct_witness:
  "\<exists>ep. GetMembershipProof (lru_tree1\<lparr>t_root := Some two_keys\<rparr>) [2] = Inr (Exist ep) \<and>
     ep_Key ep = [2] \<and> ep_Value ep = [20] \<and>
     proof_root doc_ics23 ep = Inr (fst (tree_RootHash (lru_tree1\<lparr>t_root := Some two_keys\<rparr>)))"
proof -
  let ?t = "lru_tree1\<lparr>t_root := Some two_keys\<rparr>"
  have t: "t_root ?t = Some two_keys" by simp
  have len: "length (leaves two_keys) < 2 ^ 63" by (simp add: two_keys_leaves)
  have val: "map_of (leaves two_keys) [2] = Some [20]" by (simp add: two_keys_leaves)
  show ?thesis
    by (rule GetMembershipProof_correct [OF doc.ics23_axioms t two_keys_wf(1) len, THEN conjunct1,
          THEN mp, OF val, THEN mp, THEN mp]) simp_all
qed

text \<open>
  C23: for a key that is not stored, \<^verbatim>\<open>GetNonMembershipProof\<close> proves the last smaller and the first greater pair of
  the tree, each of them leading to the root hash, and leaves a side out only when no pair is there; a
  key that is stored is refused.
\<close>

theorem GetNonMembershipProof_correct:
  assumes "ics23 ics" and "t_root t = Some n" and "wf_node n" and "length (leaves n) < 2 ^ 32"
    and "\<forall>p \<in> set (leaves n). fst p \<noteq> [] \<and> snd p \<noteq> []"
  shows "(map_of (leaves n) key \<noteq> None \<longrightarrow> GetNonMembershipProof t key = Inl KeyInState) \<and>
    (map_of (leaves n) key = None \<longrightarrow>
      (\<exists>np. GetNonMembershipProof t key = Inr (Nonexist np) \<and> np_Key np = key \<and>
        proves ics (fst (tree_RootHash t)) (last_pair (filter (\<lambda>p. fst p < key) (leaves n))) (np_Left np) \<and>
        proves ics (fst (tree_RootHash t)) (first_pair (filter (\<lambda>p. key < fst p) (leaves n))) (np_Right np)))"
proof (intro conjI impI)
  assume "map_of (leaves n) key \<noteq> None"
  then show "GetNonMembershipProof t key = Inl KeyInState"
    using GetWithIndex_rank [OF assms(2-4), of key] assms(2) by (auto simp: GetNonMembershipProof_def)
next
  assume absent: "map_of (leaves n) key = None"
  let ?xs = "leaves n" let ?f = "filter (\<lambda>p. fst p < key) ?xs" and ?g = "filter (\<lambda>p. key < fst p) ?xs"
  have xs: "?f @ ?g = ?xs"
    using assms(3) absent ordered_sorted by (intro sorted_partition) (auto simp: wf_node_def map_of_eq_None_iff)
  have root: "fst (tree_RootHash t) = merkle n"
    using tree_RootHash_spec [of t] assms(2,3) by (simp add: root_merkle_def)
  have ex: "\<exists>ep. createExistenceProof t (fst p) = Inr ep \<and> proves ics (merkle n) (Some p) (Some ep)"
    if "p \<in> set ?xs" for p
    using ics23.createExistenceProof_member [OF assms(1-3) _ that] assms(4,5) that by (auto simp: proves_def)
  note idx = tree_GetByIndex_nth [OF assms(2-4)]
  have left: "\<exists>l. (if int (length ?f) \<ge> 1 then (case tree_GetByIndex t (int (length ?f) - 1) of
        None \<Rightarrow> rmap Some (createExistenceProof t [])
      | Some (leftkey, _) \<Rightarrow> rmap Some (createExistenceProof t leftkey)) else Inr None) = Inr l \<and>
    proves ics (merkle n) (last_pair ?f) l"
    by (rule left_neighbour [OF xs idx ex])
  have right: "\<exists>r. (case tree_GetByIndex t (int (length ?f)) of None \<Rightarrow> Inr None
      | Some (rightkey, _) \<Rightarrow> rmap Some (createExistenceProof t rightkey)) = Inr r \<and>
    proves ics (merkle n) (first_pair ?g) r"
    by (rule right_neighbour [OF xs idx ex])
  show "\<exists>np. GetNonMembershipProof t key = Inr (Nonexist np) \<and> np_Key np = key \<and>
        proves ics (fst (tree_RootHash t)) (last_pair ?f) (np_Left np) \<and>
        proves ics (fst (tree_RootHash t)) (first_pair ?g) (np_Right np)"
    using left right unfolding GetNonMembershipProof_def GetWithIndex_rank [OF assms(2-4)] absent assms(2) root
    by (elim exE conjE) (simp only: Let_def prod.case option.distinct if_False simp_thms rbind_simps sum.inject
        commitment_proof.inject ex_simps nonexistence_proof.simps; blast)
qed

theorem GetNonMembershipProof_correct_witness:
  "\<exists>np. GetNonMembershipProof (lru_tree1\<lparr>t_root := Some two_keys\<rparr>) [1, 5] = Inr (Nonexist np) \<and>
     proves doc_ics23 (fst (tree_RootHash (lru_tree1\<lparr>t_root := Some two_keys\<rparr>))) (Some ([1], [10])) (np_Left np) \<and>
     proves doc_ics23 (fst (tree_RootHash (lru_tree1\<lparr>t_root := Some two_keys\<rparr>))) (Some ([2], [20])) (np_Right np)"
proof -
  let ?t = "lru_tree1\<lparr>t_root := Some two_keys\<rparr>"
  have t: "t_root ?t = Some two_keys" by simp
  have len: "length (leaves two_keys) < 2 ^ 32"
    and full: "\<forall>p \<in> set (leaves two_keys). fst p \<noteq> [] \<and> snd p \<noteq> []"
    and absent: "map_of (leaves two_keys) [1, 5] = None"
    by (simp_all add: two_keys_leaves)
  have nb: "last_pair (filter (\<lambda>p. fst p < [1, 5]) (leaves two_keys)) = Some ([1], [10])"
    "first_pair (filter (\<lambda>p. [1, 5] < fst p) (leaves two_keys)) = Some ([2], [20])"
    by (simp_all add: two_keys_leaves last_pair_def first_pair_def)
  show ?thesis
    using GetNonMembershipProof_correct [OF doc.ics23_axioms t two_keys_wf(1) len full, of "[1, 5]",
        THEN conjunct2, THEN mp, OF absent]
    unfolding nb by blast
qed

end
