(* ===== verification/ExportImport.thy ===== *)
theory ExportImport
  imports Tree
begin

text \<open>
  Exporting a tree as a stream of nodes and importing such a stream into a snapshot:
  \<^verbatim>\<open>memiavl/export.go\<close>, the \<^verbatim>\<open>Export\<close> of \<^verbatim>\<open>tree.go\<close> and \<^verbatim>\<open>snapshot.go\<close>, and the tree part of
  \<^verbatim>\<open>memiavl/import.go\<close>. The streams run through channels between two goroutines; the channels, their
  closing and the cancellation are modelled by step relations, whose runs are every interleaving of the two
  sides.
\<close>

section \<open>Export\<close>

record exportNode =
  en_Key :: bytes
  en_Value :: "bytes option"
  en_Version :: i64
  en_Height :: u8

definition export_leaf :: "snapshot \<Rightarrow> u32 \<Rightarrow> exportNode result" where
  "export_leaf sn j =
     rbind (Leaves_Leaf (sn_leaves sn) j) (\<lambda>leaf.
     rbind (snapshot_KeyValue sn (LeafLayout_KeyOffset leaf)) (\<lambda>(key, val).
     Inr \<lparr>en_Key = key, en_Value = Some val, en_Version = ucast (LeafLayout_Version leaf), en_Height = 0\<rparr>))"

text \<open>
  The two loops of \<^verbatim>\<open>Snapshot.export\<close>. Leaves are sent until the next branch record has all the
  subtrees it closes; \<open>cb\<close> returns whether to stop, and the first component tells that it did.
\<close>

function export_leaves ::
  "(exportNode \<Rightarrow> 's \<Rightarrow> bool \<times> 's) \<Rightarrow> snapshot \<Rightarrow> nat \<Rightarrow> nat \<Rightarrow> u32 \<Rightarrow> 's \<Rightarrow> (bool \<times> nat \<times> u32 \<times> 's) result" where
  "export_leaves cb sn need pendingTrees j s =
     (if pendingTrees < need then
        rbind (export_leaf sn j) (\<lambda>enode.
        (let (stop, s') = cb enode s in
         if stop then Inr (True, pendingTrees + 1, j + 1, s')
         else export_leaves cb sn need (pendingTrees + 1) (j + 1) s'))
      else Inr (False, pendingTrees, j, s))"
  by pat_completeness auto
termination
  by (relation "measure (\<lambda>(cb, sn, need, pendingTrees, j, s). need - pendingTrees)") auto

declare export_leaves.simps [simp del]

definition export_branch :: "snapshot \<Rightarrow> bytes \<Rightarrow> exportNode result" where
  "export_branch sn nd =
     rbind (LeafKey sn (NodeLayout_KeyLeaf nd)) (\<lambda>key.
     Inr \<lparr>en_Key = key, en_Value = None, en_Version = ucast (NodeLayout_Version nd),
          en_Height = NodeLayout_Height nd\<rparr>)"

function export_loop ::
  "(exportNode \<Rightarrow> 's \<Rightarrow> bool \<times> 's) \<Rightarrow> snapshot \<Rightarrow> u32 \<Rightarrow> nat \<Rightarrow> u32 \<Rightarrow> 's \<Rightarrow> 's result" where
  "export_loop cb sn i pendingTrees j s =
     (if i < word_of_nat (nodesLen sn) then
        rbind (Nodes_Node (sn_nodes sn) i) (\<lambda>nd.
        rbind (export_leaves cb sn (unat (NodeLayout_PreTrees nd) + 2) pendingTrees j s)
          (\<lambda>(stopped, pendingTrees', j', s').
        if stopped then Inr s'
        else rbind (export_branch sn nd) (\<lambda>enode.
          (let (stop, s'') = cb enode s' in
           if stop then Inr s'' else export_loop cb sn (i + 1) (pendingTrees' - 1) j' s''))))
      else Inr s)"
  by pat_completeness auto
termination
proof (relation "measure (\<lambda>(cb, sn, i, pendingTrees, j, s). nodesLen sn - unat i)")
  fix sn :: snapshot and i :: u32
  assume "i < word_of_nat (nodesLen sn)"
  then have below: "unat i < unat (word_of_nat (nodesLen sn) :: u32)" by (simp add: word_less_nat_alt)
  have "unat (word_of_nat (nodesLen sn) :: u32) \<le> nodesLen sn" by (simp add: unat_of_nat)
  with below have "unat i < nodesLen sn" by linarith
  moreover have "unat (i + 1) = Suc (unat i)"
    using below unat_u32_less [of "word_of_nat (nodesLen sn)"]
    by (simp add: unat_word_ariths)
  ultimately have lt: "nodesLen sn - unat (i + 1) < nodesLen sn - unat i" by linarith
  fix cb :: "exportNode \<Rightarrow> 's \<Rightarrow> bool \<times> 's" and p p' :: nat and j j' :: u32 and s s' :: 's
  show "((cb, sn, i + 1, p', j', s'), cb, sn, i, p, j, s)
      \<in> measure (\<lambda>(cb, sn, i, pendingTrees, j, s). nodesLen sn - unat i)"
    using lt by simp
qed simp

declare export_loop.simps [simp del]

definition snapshot_export :: "snapshot \<Rightarrow> (exportNode \<Rightarrow> 's \<Rightarrow> bool \<times> 's) \<Rightarrow> 's \<Rightarrow> 's result" where
  "snapshot_export sn cb s =
     (if leavesLen sn = 0 then Inr s
      else if leavesLen sn = 1 then
        (let leaf = \<lparr>pn_isLeaf = True, pn_index = 0\<rparr> in
         rbind (pn_Version sn leaf) (\<lambda>ver.
         rbind (pn_Key sn leaf) (\<lambda>key.
         rbind (pn_Value sn leaf) (\<lambda>val.
         Inr (snd (cb \<lparr>en_Key = key, en_Value = val, en_Version = ucast ver, en_Height = 0\<rparr> s))))))
      else export_loop cb sn 0 0 0 s)"

definition export_node :: "node \<Rightarrow> exportNode" where
  "export_node n = \<lparr>en_Key = node_Key n, en_Value = node_Value n, en_Version = ucast (node_Version n),
     en_Height = node_Height n\<rparr>"

text \<open>The worker that \<^verbatim>\<open>Tree.Export\<close> hands to the exporter.\<close>

definition tree_export :: "'c tree \<Rightarrow> (exportNode \<Rightarrow> 's \<Rightarrow> bool \<times> 's) \<Rightarrow> 's \<Rightarrow> 's result" where
  "tree_export t cb s =
     (case t_snapshot t of
        Some sn \<Rightarrow>
          if t_version t = sn_version sn then snapshot_export sn cb s
          else Inr (ScanPostOrder t (\<lambda>n. cb (export_node n)) s)
      | None \<Rightarrow> Inr (ScanPostOrder t (\<lambda>n. cb (export_node n)) s))"

section \<open>The exporter's channel\<close>

text \<open>
  The goroutine runs the worker with a callback that selects between sending the node into a buffered
  channel, which answers false, and the cancelled context, which answers true; when the worker returns it closes
  the channel. The worker is deterministic, so where it stands is told by the answers it got so far: \<open>worker_next\<close>
  runs it on those answers and gives the node with which it calls back next, or none if it has returned.
\<close>

type_synonym export_worker =
  "(exportNode \<Rightarrow> bool list \<times> exportNode list \<Rightarrow> bool \<times> bool list \<times> exportNode list) \<Rightarrow>
    bool list \<times> exportNode list \<Rightarrow> (bool list \<times> exportNode list) result"

fun record_call :: "exportNode \<Rightarrow> bool list \<times> exportNode list \<Rightarrow> bool \<times> bool list \<times> exportNode list" where
  "record_call enode (answer # answers, calls) = (answer, answers, calls @ [enode])"
| "record_call enode ([], calls) = (True, [], calls @ [enode])"

definition worker_next :: "export_worker \<Rightarrow> bool list \<Rightarrow> exportNode option result" where
  "worker_next worker answers =
     rmap (\<lambda>(_, calls). if length answers < length calls then Some (calls ! length answers) else None)
       (worker record_call (answers, []))"

definition exportBufferSize :: nat where "exportBufferSize = 32"

definition ErrorExportDone :: gerror where "ErrorExportDone = AnyError ''export is complete''"

text \<open>\<open>ex_answers\<close> is what the callback has answered, \<open>ex_got\<close> what \<^verbatim>\<open>Next\<close> has returned.\<close>

record exporter =
  ex_worker :: export_worker
  ex_answers :: "bool list"
  ex_ch :: "exportNode list"
  ex_closed :: bool
  ex_cancelled :: bool
  ex_got :: "exportNode list"

definition newExporter :: "export_worker \<Rightarrow> exporter" where
  "newExporter worker =
     \<lparr>ex_worker = worker, ex_answers = [], ex_ch = [], ex_closed = False, ex_cancelled = False, ex_got = []\<rparr>"

text \<open>\<^verbatim>\<open>Next\<close>: it receives a node, or finds the channel closed and empty; otherwise it waits.\<close>

definition exporter_Next :: "exporter \<Rightarrow> (exportNode result \<times> exporter) option" where
  "exporter_Next e =
     (case ex_ch e of
        x # xs \<Rightarrow> Some (Inr x, e\<lparr>ex_ch := xs, ex_got := ex_got e @ [x]\<rparr>)
      | [] \<Rightarrow> if ex_closed e then Some (Inl ErrorExportDone, e) else None)"

text \<open>
  \<^verbatim>\<open>Close\<close> cancels the context, and then takes nodes out of the channel until it is closed. The steps are the
  moves of the goroutine (\<open>send\<close>, \<open>stop\<close>, \<open>finish\<close>), a \<^verbatim>\<open>Next\<close> that returns a node, and the draining of \<^verbatim>\<open>Close\<close>.
\<close>

definition exporter_Close :: "exporter \<Rightarrow> exporter" where
  "exporter_Close e = e\<lparr>ex_cancelled := True\<rparr>"

inductive exporter_step :: "exporter \<Rightarrow> exporter \<Rightarrow> bool" where
  send: "worker_next (ex_worker e) (ex_answers e) = Inr (Some x) \<Longrightarrow> length (ex_ch e) < exportBufferSize \<Longrightarrow>
    exporter_step e (e\<lparr>ex_answers := ex_answers e @ [False], ex_ch := ex_ch e @ [x]\<rparr>)"
| stop: "worker_next (ex_worker e) (ex_answers e) = Inr (Some x) \<Longrightarrow> ex_cancelled e \<Longrightarrow>
    exporter_step e (e\<lparr>ex_answers := ex_answers e @ [True]\<rparr>)"
| finish: "worker_next (ex_worker e) (ex_answers e) = Inr None \<Longrightarrow> \<not> ex_closed e \<Longrightarrow>
    exporter_step e (e\<lparr>ex_closed := True\<rparr>)"
| receive: "exporter_Next e = Some (Inr x, e') \<Longrightarrow> \<not> ex_cancelled e \<Longrightarrow> exporter_step e e'"
| drain: "ex_ch e = x # xs \<Longrightarrow> ex_cancelled e \<Longrightarrow> exporter_step e (e\<lparr>ex_ch := xs\<rparr>)"

definition exporter_done :: "exporter \<Rightarrow> bool" where
  "exporter_done e \<longleftrightarrow> ex_closed e \<and> ex_ch e = []"

section \<open>Import\<close>

text \<open>
  The nodes that wait for their parent. A \<^verbatim>\<open>MemNode\<close> drops its children once its own hash is cached; what
  is left is this record. Both stacks have their top first.
\<close>

record pendingNode =
  pd_height :: u8
  pd_size :: i64
  pd_version :: u32
  pd_key :: bytes
  pd_value :: "bytes option"
  pd_hash :: bytes

record importer =
  im_writer :: snapshotWriter
  im_leavesStack :: "u32 list"
  im_nodeStack :: "pendingNode list"

definition importer_Add :: "exportNode \<Rightarrow> importer \<Rightarrow> importer result" where
  "importer_Add n i =
     (if sint (en_Version n) > int MaxUint32 then Inl VersionOverflow
      else if en_Height n = 0 then
        (let ver = ucast (en_Version n); nodeHash = fst (node_Hash (Leaf (Mem None) ver (en_Key n) (nonnil (en_Value n)))) in
         rbind (writeLeaf (\<lambda>_. False) ver (en_Key n) (nonnil (en_Value n)) nodeHash (im_writer i)) (\<lambda>w.
         Inr (i\<lparr>im_writer := w, im_leavesStack := w_leafCounter w # im_leavesStack i,
           im_nodeStack := \<lparr>pd_height = 0, pd_size = 1, pd_version = ver, pd_key = en_Key n,
             pd_value = Some (nonnil (en_Value n)), pd_hash = nodeHash\<rparr> # im_nodeStack i\<rparr>)))
      else
        (case (im_leavesStack i, im_nodeStack i) of
           (_ # keyLeaf # leavesStack, rightNode # leftNode # nodeStack) \<Rightarrow>
             (let ver = ucast (en_Version n); sz = pd_size leftNode + pd_size rightNode;
                  nodeHash = sha256 (hash_header (en_Height n) sz ver @
                    EncodeBytes (pd_hash leftNode) @ EncodeBytes (pd_hash rightNode));
                  preTrees = word_of_nat (length nodeStack);
                  w = writeBranch ver (ucast sz) (en_Height n) preTrees keyLeaf nodeHash (im_writer i)
              in Inr (i\<lparr>im_writer := w, im_leavesStack := w_leafCounter w # leavesStack,
                   im_nodeStack := \<lparr>pd_height = en_Height n, pd_size = sz, pd_version = ver, pd_key = en_Key n,
                     pd_value = None, pd_hash = nodeHash\<rparr> # nodeStack\<rparr>))
         | _ \<Rightarrow> Inl InvalidNodeStructure))"

fun importer_run :: "exportNode list \<Rightarrow> importer \<Rightarrow> importer result" where
  "importer_run [] i = Inr i"
| "importer_run (n # ns) i = rbind (importer_Add n i) (importer_run ns)"

definition new_importer :: "snapshotWriter \<Rightarrow> importer" where
  "new_importer w = \<lparr>im_writer = w, im_leavesStack = [], im_nodeStack = []\<rparr>"

definition importer_finish :: "importer \<Rightarrow> (u32 \<times> snapshotWriter) result" where
  "importer_finish i =
     (case im_leavesStack i of
        [] \<Rightarrow> Inr (0, im_writer i)
      | [_] \<Rightarrow> Inr (w_leafCounter (im_writer i), im_writer i)
      | _ \<Rightarrow> Inl InvalidNodeStructure)"

definition doImport :: "int \<Rightarrow> exportNode list \<Rightarrow> snapshot_files result" where
  "doImport version nodes =
     (if version > int MaxUint32 then Inl VersionOverflow
      else writeSnapshot (word_of_int version) (\<lambda>w.
        rbind (importer_run nodes (new_importer w)) importer_finish))"

section \<open>The importer's channels\<close>




datatype import_event = EvAdd exportNode "gerror option" | EvClose | EvClosed "gerror option" | EvWork



section \<open>Lemmas: the snapshot's order of export\<close>

text \<open>
  The order in which \<^verbatim>\<open>export\<close> merges the branch records (each with its number of pending subtrees) and
  the leaf records, as a function on lists, and that it never runs out of leaves.
\<close>

fun interleave :: "nat \<Rightarrow> (nat \<times> 'a) list \<Rightarrow> 'a list \<Rightarrow> 'a list" where
  "interleave c [] ls = []"
| "interleave c ((p, b) # bs) ls =
     (let m = p + 2 - c in take m ls @ b # interleave (c + m - 1) bs (drop m ls))"

fun enough :: "nat \<Rightarrow> (nat \<times> 'a) list \<Rightarrow> 'a list \<Rightarrow> bool" where
  "enough c [] ls = True"
| "enough c ((p, b) # bs) ls =
     (let m = p + 2 - c in m \<le> length ls \<and> enough (c + m - 1) bs (drop m ls))"

text \<open>The branches and leaves of a tree that is begun with \<open>q\<close> pending subtrees, in the order of their records.\<close>

fun branches_of :: "nat \<Rightarrow> node \<Rightarrow> (nat \<times> node) list" where
  "branches_of q (Leaf rp ver k v) = []"
| "branches_of q (Branch rp h s ver k l r) =
     branches_of q l @ branches_of (Suc q) r @ [(q, Branch rp h s ver k l r)]"

fun leaf_nodes :: "node \<Rightarrow> node list" where
  "leaf_nodes (Leaf rp ver k v) = [Leaf rp ver k v]"
| "leaf_nodes (Branch rp h s ver k l r) = leaf_nodes l @ leaf_nodes r"

lemma length_leaf_nodes [simp]: "length (leaf_nodes n) = length (leaves n)"
  by (induction n) auto

lemma length_branches_of [simp]: "length (branches_of q n) = length (leaves n) - 1"
proof (induction n arbitrary: q)
  case (Branch rp h s ver k l r)
  then show ?case using length_leaves_pos [of l] length_leaves_pos [of r] by (simp; linarith)
qed simp

text \<open>
  While a tree is exported, the leaves that have not been sent yet lag behind the post-order: what has
  been sent and what lags behind make up the post-order.
\<close>

lemma interleave_tree:
  assumes "c + length lag = q"
  shows "\<exists>c' out lag'. out @ lag' = lag @ post_order n \<and> c' + length lag' = Suc q \<and>
    (lag' = [] \<or> (\<exists>rp ver k v. n = Leaf rp ver k v)) \<and>
    (\<forall>bs ls. interleave c (branches_of q n @ bs) (lag @ leaf_nodes n @ ls) =
        out @ interleave c' bs (lag' @ ls) \<and>
      enough c (branches_of q n @ bs) (lag @ leaf_nodes n @ ls) = enough c' bs (lag' @ ls))"
  using assms
proof (induction n arbitrary: c lag q)
  case (Leaf rp ver k v)
  then show ?case
    by (intro exI [of _ c] exI [of _ "[]"] exI [of _ "lag @ [Leaf rp ver k v]"]) auto
next
  case (Branch rp h s ver k l r)
  obtain c1 o1 g1 where 1: "o1 @ g1 = lag @ post_order l" "c1 + length g1 = Suc q"
    "\<And>bs ls. interleave c (branches_of q l @ bs) (lag @ leaf_nodes l @ ls) = o1 @ interleave c1 bs (g1 @ ls) \<and>
      enough c (branches_of q l @ bs) (lag @ leaf_nodes l @ ls) = enough c1 bs (g1 @ ls)"
    using Branch.IH(1) [OF Branch.prems] by blast
  obtain c2 o2 g2 where 2: "o2 @ g2 = g1 @ post_order r" "c2 + length g2 = Suc (Suc q)"
    "\<And>bs ls. interleave c1 (branches_of (Suc q) r @ bs) (g1 @ leaf_nodes r @ ls) = o2 @ interleave c2 bs (g2 @ ls) \<and>
      enough c1 (branches_of (Suc q) r @ bs) (g1 @ leaf_nodes r @ ls) = enough c2 bs (g2 @ ls)"
    using Branch.IH(2) [OF 1(2)] by blast
  have m: "q + 2 - c2 = length g2" "c2 + length g2 - 1 = Suc q" using 2(2) by auto
  show ?case
    using 1 2 m
    by (intro exI [of _ "Suc q"] exI [of _ "o1 @ o2 @ g2 @ [Branch rp h s ver k l r]"] exI [of _ "[]"])
      (auto simp: Let_def)
qed

lemma interleave_map: "interleave c (map (apsnd f) bs) (map f ls) = map f (interleave c bs ls)"
  by (induction c bs ls rule: interleave.induct) (auto simp: Let_def take_map drop_map)

lemma enough_map: "enough c (map (apsnd f) bs) (map f ls) = enough c bs ls"
  by (induction c bs ls rule: enough.induct) (auto simp: Let_def drop_map)

lemma interleave_root:
  assumes "n = Branch rp h s ver k l r"
  shows "interleave 0 (branches_of 0 n) (leaf_nodes n) = post_order n"
    and "enough 0 (branches_of 0 n) (leaf_nodes n)"
proof -
  obtain c' out lag' where *: "out @ lag' = [] @ post_order n" "lag' = []"
    "\<And>bs ls. interleave 0 (branches_of 0 n @ bs) ([] @ leaf_nodes n @ ls) = out @ interleave c' bs (lag' @ ls) \<and>
      enough 0 (branches_of 0 n @ bs) ([] @ leaf_nodes n @ ls) = enough c' bs (lag' @ ls)"
    using interleave_tree [of 0 "[]" 0 n] assms by auto
  from *(1,2) *(3) [of "[]" "[]"]
  show "interleave 0 (branches_of 0 n) (leaf_nodes n) = post_order n"
    and "enough 0 (branches_of 0 n) (leaf_nodes n)" by simp_all
qed

section \<open>Lemmas: the snapshot's loops\<close>

fun run_stop :: "('a \<Rightarrow> 's \<Rightarrow> bool \<times> 's) \<Rightarrow> 'a list \<Rightarrow> 's \<Rightarrow> bool \<times> 's" where
  "run_stop cb [] s = (False, s)"
| "run_stop cb (x # xs) s = (let (stop, s') = cb x s in if stop then (True, s') else run_stop cb xs s')"

lemma run_stop_until: "snd (run_stop cb xs s) = run_until cb xs s"
  by (induction xs arbitrary: s) (auto simp: Let_def split: prod.splits)

lemma run_stop_append:
  "run_stop cb (xs @ ys) s =
     (let (stop, s') = run_stop cb xs s in if stop then (True, s') else run_stop cb ys s')"
  by (induction xs arbitrary: s) (auto simp: Let_def split: prod.splits)

lemma run_until_map: "run_until cb (map f xs) s = run_until (\<lambda>x. cb (f x)) xs s"
  by (induction xs arbitrary: s) (auto simp: Let_def split: prod.splits)

fun leaves_read :: "snapshot \<Rightarrow> nat \<Rightarrow> exportNode list \<Rightarrow> bool" where
  "leaves_read sn j [] = True"
| "leaves_read sn j (x # ls) = (export_leaf sn (word_of_nat j) = Inr x \<and> leaves_read sn (Suc j) ls)"

fun branches_read :: "snapshot \<Rightarrow> nat \<Rightarrow> (nat \<times> exportNode) list \<Rightarrow> bool" where
  "branches_read sn i [] = True"
| "branches_read sn i (x # bs) = ((\<exists>nd. Nodes_Node (sn_nodes sn) (word_of_nat i) = Inr nd \<and>
     unat (NodeLayout_PreTrees nd) = fst x \<and> export_branch sn nd = Inr (snd x)) \<and> branches_read sn (Suc i) bs)"

lemma leaves_read_append:
  "leaves_read sn j (xs @ ys) \<longleftrightarrow> leaves_read sn j xs \<and> leaves_read sn (j + length xs) ys"
  by (induction xs arbitrary: j) auto

lemma branches_read_append:
  "branches_read sn j (xs @ ys) \<longleftrightarrow> branches_read sn j xs \<and> branches_read sn (j + length xs) ys"
  by (induction xs arbitrary: j) auto

lemma leaves_read_drop: "leaves_read sn j ls \<Longrightarrow> m \<le> length ls \<Longrightarrow> leaves_read sn (j + m) (drop m ls)"
  using leaves_read_append [of sn j "take m ls" "drop m ls"] by simp

lemma export_leaves_run:
  assumes "leaves_read sn j ls" and "need - c \<le> length ls"
  shows "\<exists>p j'. export_leaves cb sn need c (word_of_nat j) s =
      (let (stop, s') = run_stop cb (take (need - c) ls) s in Inr (stop, p, j', s')) \<and>
    (\<not> fst (run_stop cb (take (need - c) ls) s) \<longrightarrow> p = c + (need - c) \<and> j' = word_of_nat (j + (need - c)))"
  using assms
proof (induction "need - c" arbitrary: c j ls s)
  case 0
  then show ?case by (subst export_leaves.simps) simp
next
  case (Suc m)
  obtain x xs where ls: "ls = x # xs" using Suc.hyps(2) Suc.prems(2) by (cases ls) auto
  have c: "c < need" "m = need - (c + 1)" "need - c = Suc (need - (c + 1))" using Suc.hyps(2) by auto
  have x: "export_leaf sn (word_of_nat j) = Inr x" and xs: "leaves_read sn (Suc j) xs"
    using Suc.prems(1) ls by auto
  have "need - (c + 1) \<le> length xs" using Suc.prems(2) ls c by simp
  note ih = Suc.hyps(1) [OF c(2) xs this]
  show ?case
  proof (cases "fst (cb x s)")
    case True
    then show ?thesis using x c ls by (subst export_leaves.simps) (auto simp: Let_def split_beta)
  next
    case False
    from ih [of "snd (cb x s)"] obtain p j' where
      *: "export_leaves cb sn need (c + 1) (word_of_nat (Suc j)) (snd (cb x s)) =
        (let (stop, s') = run_stop cb (take (need - (c + 1)) xs) (snd (cb x s)) in Inr (stop, p, j', s'))"
      "\<not> fst (run_stop cb (take (need - (c + 1)) xs) (snd (cb x s))) \<Longrightarrow>
        p = c + 1 + (need - (c + 1)) \<and> j' = word_of_nat (Suc j + (need - (c + 1)))" by blast
    have "export_leaves cb sn need c (word_of_nat j) s =
        export_leaves cb sn need (c + 1) (word_of_nat (Suc j)) (snd (cb x s))"
      using x c(1) False by (subst export_leaves.simps) (simp add: split_beta add.commute)
    moreover have "run_stop cb (take (need - c) ls) s = run_stop cb (take (need - (c + 1)) xs) (snd (cb x s))"
      using c(3) ls False by (simp add: split_beta)
    moreover have "c + 1 + (need - (c + 1)) = c + (need - c)" "Suc j + (need - (c + 1)) = j + (need - c)"
      using c by simp_all
    ultimately show ?thesis using * by metis
  qed
qed

lemma export_loop_run:
  assumes "nodesLen sn = i + length bs" and "nodesLen sn < 2 ^ 32" and "branches_read sn i bs"
    and "leaves_read sn j ls" and "enough c bs ls"
  shows "export_loop cb sn (word_of_nat i) c (word_of_nat j) s = Inr (run_until cb (interleave c bs ls) s)"
  using assms
proof (induction bs arbitrary: i j c ls s)
  case Nil
  then show ?case by (subst export_loop.simps) simp
next
  case (Cons x bs)
  obtain q b where x: "x = (q, b)" by (cases x)
  let ?m = "q + 2 - c"
  have lt: "(word_of_nat i :: u32) < word_of_nat (nodesLen sn)"
  proof -
    have "i < nodesLen sn" using Cons.prems(1) by simp
    then show ?thesis using Cons.prems(2) by (simp add: word_less_nat_alt unat_of_nat)
  qed
  obtain nd where nd: "Nodes_Node (sn_nodes sn) (word_of_nat i) = Inr nd"
    "unat (NodeLayout_PreTrees nd) = q" "export_branch sn nd = Inr b"
    using Cons.prems(3) x by auto
  have m: "?m \<le> length ls" "enough (c + ?m - 1) bs (drop ?m ls)" using Cons.prems(5) x by (auto simp: Let_def)
  obtain p j' where el: "export_leaves cb sn (q + 2) c (word_of_nat j) s =
      (let (stop, s') = run_stop cb (take ?m ls) s in Inr (stop, p, j', s'))"
    "\<not> fst (run_stop cb (take ?m ls) s) \<Longrightarrow> p = c + ?m \<and> j' = word_of_nat (j + ?m)"
    using export_leaves_run [OF Cons.prems(4) m(1), of cb s] by (elim exE conjE) (rule that, assumption, erule (1) mp)
  have step: "export_loop cb sn (word_of_nat i) c (word_of_nat j) s =
    (let (stop, s1) = run_stop cb (take ?m ls) s in if stop then Inr s1
     else (let (stop', s2) = cb b s1 in if stop' then Inr s2
       else export_loop cb sn (word_of_nat i + 1) (p - 1) j' s2))"
    using lt nd el(1) by (subst export_loop.simps) (simp add: split_beta Let_def)
  have ih: "export_loop cb sn (word_of_nat (Suc i)) (c + ?m - 1) (word_of_nat (j + ?m)) s2 =
    Inr (run_until cb (interleave (c + ?m - 1) bs (drop ?m ls)) s2)" for s2
  proof (rule Cons.IH)
    show "leaves_read sn (j + ?m) (drop ?m ls)" by (rule leaves_read_drop [OF Cons.prems(4) m(1)])
  qed (use Cons.prems(1-3) m(2) in simp_all)
  have "word_of_nat i + 1 = (word_of_nat (Suc i) :: u32)" by (simp add: add.commute)
  note suc = this
  have il: "interleave c (x # bs) ls = take ?m ls @ b # interleave (c + ?m - 1) bs (drop ?m ls)"
    by (simp add: x Let_def)
  obtain stop s1 where rs: "run_stop cb (take ?m ls) s = (stop, s1)" by (cases "run_stop cb (take ?m ls) s")
  obtain stop' s2 where b: "cb b s1 = (stop', s2)" by (cases "cb b s1")
  show ?case
  proof (cases "stop \<or> stop'")
    case True
    then show ?thesis unfolding step il run_stop_until [symmetric] run_stop_append rs by (auto simp: b)
  next
    case False
    then have "p = c + ?m" "j' = word_of_nat (j + ?m)" using el(2) rs by simp_all
    then show ?thesis
      using False ih [of s2] unfolding step il run_stop_until [symmetric] run_stop_append rs by (simp add: b suc)
  qed
qed

lemma leaf_nodes_stored:
  "stored sn L B n \<Longrightarrow> leaves_read sn L (map export_node (leaf_nodes n))"
proof (induction n arbitrary: L B)
  case (Leaf rp ver k v)
  then obtain off where off: "Leaves_Leaf (sn_leaves sn) (word_of_nat L) =
      Inr (leaf_rec ver k (word_of_nat off) (merkle (Leaf rp ver k v)))" "kv_at (sn_kvs sn) off k v"
    by (auto simp del: merkle.simps)
  have len: "length k < 2 ^ 32" "length v < 2 ^ 32" using off(2) by (auto simp: kv_at_def)
  have "snapshot_KeyValue sn (word_of_nat off) = Inr (k, v)"
    using kv_at_reads [OF off(2)] ucast_up_of_nat [OF len(1)] ucast_up_of_nat [OF len(2)]
    by (simp add: snapshot_KeyValue_def)
  then show ?case using off(1) by (simp add: export_leaf_def export_node_def)
qed (auto simp: leaves_read_append)

lemma branches_of_stored:
  assumes "stored sn L B n" and "room L B n" and "ordered n"
  shows "branches_read sn B (map (apsnd export_node) (branches_of (L - B) n))"
  using assms
proof (induction n arbitrary: L B)
  case (Branch rp h s ver k l r)
  let ?n = "Branch rp h s ver k l r" and ?nl = "length (leaves l)" and ?nr = "length (leaves r)"
  note rm = room_children [OF Branch.prems(2)]
  have pos: "0 < ?nl" "0 < ?nr" by (simp_all add: length_leaves_pos)
  have q: "B \<le> L" "L - B < 256" using Branch.prems(2) by (auto simp: room_def)
  then have sq: "L + ?nl - (B + ?nl - 1) = Suc (L - B)" using pos by linarith
  have l: "branches_read sn B (map (apsnd export_node) (branches_of (L - B) l))"
    using Branch.prems by (intro Branch.IH(1) rm(1)) auto
  have r: "branches_read sn (B + ?nl - 1) (map (apsnd export_node) (branches_of (Suc (L - B)) r))"
    using Branch.prems(1,3) Branch.IH(2) [OF _ rm(2)] unfolding sq by simp
  have "export_branch sn (branch_rec h (word_of_nat (L - B)) ver (word_of_nat (?nl + ?nr)) (word_of_nat (L + ?nl))
      (merkle ?n)) = Inr (export_node ?n)"
    using ordered_key_of_leaf [OF Branch.prems(1,3)] by (simp add: export_branch_def export_node_def del: of_nat_add)
  moreover have "unat (word_of_nat (L - B) :: u8) = L - B" using q(2) by (simp add: unat_of_nat)
  moreover have "B + (?nl - 1) = B + ?nl - 1" "B + (?nl - 1) + (?nr - 1) = B + ?nl + ?nr - 2" using pos by linarith+
  ultimately show ?case
    using Branch.prems(1) l r by (simp add: branches_read_append del: of_nat_add of_nat_diff)
qed simp

lemma snapshot_export_stored:
  assumes "stored sn 0 0 n" and "room 0 0 n" and "ordered n"
    and "leavesLen sn = length (leaves n)" and "nodesLen sn = length (leaves n) - 1"
  shows "snapshot_export sn cb s = Inr (run_until cb (map export_node (post_order n)) s)"
proof (cases n)
  case (Leaf rp ver k v)
  have "leaf_at sn 0 k v" using stored_leaf_at [OF assms(1), of 0] Leaf by simp
  from leaf_at_reads [OF this] have "LeafKey sn 0 = Inr k" "LeafKeyValue sn 0 = Inr (k, v)" by simp_all
  moreover obtain lf where "Leaves_Leaf (sn_leaves sn) 0 = Inr lf" "LeafLayout_Version lf = ver"
    using assms(1) Leaf by (auto simp del: merkle.simps)
  moreover have "leavesLen sn = 1" using assms(4) Leaf by simp
  ultimately show ?thesis
    by (simp add: Leaf snapshot_export_def pn_Version_def pn_Key_def pn_Value_def leafNode_def export_node_def
        split: prod.split)
next
  case (Branch rp h sz ver k l r)
  have "2 \<le> leavesLen sn" using assms(4) two_leaves [of l r] Branch by simp
  then have "snapshot_export sn cb s = export_loop cb sn 0 0 0 s" by (simp add: snapshot_export_def)
  also have "\<dots> = Inr (run_until cb (interleave 0 (map (apsnd export_node) (branches_of 0 n))
      (map export_node (leaf_nodes n))) s)"
  proof (rule export_loop_run [of sn 0 _ 0, simplified])
    show "branches_read sn 0 (map (apsnd export_node) (branches_of 0 n))"
      using branches_of_stored [OF assms(1-3)] by simp
    show "leaves_read sn 0 (map export_node (leaf_nodes n))" by (rule leaf_nodes_stored [OF assms(1)])
    show "enough 0 (map (apsnd export_node) (branches_of 0 n)) (map export_node (leaf_nodes n))"
      unfolding enough_map by (rule interleave_root(2) [OF Branch])
  qed (use assms(2,5) in \<open>simp_all add: room_def less_imp_diff_less\<close>)
  also have "\<dots> = Inr (run_until cb (map export_node (post_order n)) s)"
    unfolding interleave_map interleave_root(1) [OF Branch] ..
  finally show ?thesis .
qed

section \<open>Lemmas: importing a tree\<close>

fun branch_heights :: "node \<Rightarrow> bool" where
  "branch_heights (Leaf rp ver k v) = True"
| "branch_heights (Branch rp h s ver k l r) = (h \<noteq> 0 \<and> branch_heights l \<and> branch_heights r)"

lemma balanced_branch_heights: "balanced n \<Longrightarrow> branch_heights n"
proof (induction n)
  case (Branch rp h s ver k l r)
  then have "unat h \<noteq> 0" by simp
  then have "h \<noteq> 0" by auto
  then show ?case using Branch by simp
qed simp

text \<open>The pending form of a node, and the state after a whole subtree.\<close>

definition pending_of :: "node \<Rightarrow> pendingNode" where
  "pending_of n = \<lparr>pd_height = node_Height n, pd_size = node_Size n, pd_version = node_Version n,
     pd_key = node_Key n, pd_value = node_Value n, pd_hash = merkle n\<rparr>"

definition after_node :: "node \<Rightarrow> snapshotWriter \<Rightarrow> importer \<Rightarrow> importer" where
  "after_node n w i = i\<lparr>im_writer := w, im_leavesStack := w_leafCounter w # im_leavesStack i,
     im_nodeStack := pending_of n # im_nodeStack i\<rparr>"

definition counts :: "importer \<Rightarrow> bool" where
  "counts i \<longleftrightarrow> w_leafCounter (im_writer i) - w_branchCounter (im_writer i) = word_of_nat (length (im_nodeStack i)) \<and>
     length (im_leavesStack i) = length (im_nodeStack i)"

lemma importer_run_append:
  "importer_run (xs @ ys) i = rbind (importer_run xs i) (importer_run ys)"
proof (induction xs arbitrary: i)
  case (Cons x xs)
  then show ?case by (cases "importer_Add x i") simp_all
qed simp

lemma export_version: "\<not> sint (ucast (ver :: u32) :: i64) > int MaxUint32"
  unfolding sint_ucast_u32 using unat_u32_less [of ver] by linarith

lemma writeLeaf_counts:
  "writeLeaf (\<lambda>_. False) ver k v hs w = Inr w' \<Longrightarrow>
    w_leafCounter w' = w_leafCounter w + 1 \<and> w_branchCounter w' = w_branchCounter w"
  by (auto simp: writeLeaf_def writeKeyValue_def Let_def split: if_splits)

lemma writeLeaf_never: "\<exists>w'. writeLeaf (\<lambda>_. False) ver k v hs w = Inr w'"
  by (simp add: writeLeaf_def Let_def)

lemma writeBranch_counts:
  "w_leafCounter (writeBranch ver sz h pre kl hs w) = w_leafCounter w"
  "w_branchCounter (writeBranch ver sz h pre kl hs w) = w_branchCounter w + 1"
  by (simp_all add: writeBranch_def)

lemma importer_Add_leaf:
  assumes "writeLeaf (\<lambda>_. False) ver k v (merkle (Leaf rp ver k v)) (im_writer i) = Inr w"
  shows "importer_Add (export_node (Leaf rp ver k v)) i = Inr (after_node (Leaf rp ver k v) w i)"
  using assms export_version [of ver]
  by (simp add: importer_Add_def export_node_def after_node_def pending_of_def nonnil_def Let_def)

lemma importer_Add_branch:
  assumes "h \<noteq> 0" and "s = node_Size l + node_Size r"
    and "i = after_node r w2 (after_node l w1 i0)"
  shows "importer_Add (export_node (Branch rp h s ver k l r)) i =
    Inr (after_node (Branch rp h s ver k l r)
      (writeBranch ver (ucast s) h (word_of_nat (length (im_nodeStack i0))) (w_leafCounter w1)
        (merkle (Branch rp h s ver k l r)) w2) i0)"
  using assms export_version [of ver]
  by (simp add: importer_Add_def export_node_def after_node_def pending_of_def Let_def)

lemma counts_after:
  assumes "counts i" and "w_leafCounter w - w_branchCounter w = w_leafCounter (im_writer i) - w_branchCounter (im_writer i) + 1"
  shows "counts (after_node n w i)"
  using assms by (simp add: counts_def after_node_def add.commute)

lemma importer_run_tree:
  assumes "hashed n" and "sized n" and "branch_heights n" and "counts i"
  shows "\<exists>w. writeRecursive (\<lambda>_. False) n (im_writer i) = Inr w \<and>
    w_leafCounter w - w_branchCounter w = w_leafCounter (im_writer i) - w_branchCounter (im_writer i) + 1 \<and>
    importer_run (map export_node (post_order n)) i = Inr (after_node n w i)"
  using assms
proof (induction n arbitrary: i)
  case (Leaf rp ver k v)
  have hs: "fst (node_Hash (Leaf rp ver k v)) = merkle (Leaf rp ver k v)"
    using Leaf.prems(1) by (rule node_Hash_merkle)
  obtain w where w: "writeLeaf (\<lambda>_. False) ver k v (merkle (Leaf rp ver k v)) (im_writer i) = Inr w"
    using writeLeaf_never by blast
  then show ?case
    using importer_Add_leaf [OF w] writeLeaf_counts [OF w] hs by (simp del: merkle.simps)
next
  case (Branch rp h s ver k l r)
  let ?n = "Branch rp h s ver k l r"
  have ok: "hashed l" "hashed r" "sized l" "sized r" "branch_heights l" "branch_heights r" "h \<noteq> 0"
    using Branch.prems(1-3) by auto
  have s: "s = node_Size l + node_Size r"
    using Branch.prems(2) sized_Size [OF ok(3)] sized_Size [OF ok(4)] by simp
  have hs: "fst (node_Hash ?n) = merkle ?n" using Branch.prems(1) by (rule node_Hash_merkle)
  obtain w1 where w1: "writeRecursive (\<lambda>_. False) l (im_writer i) = Inr w1"
    "w_leafCounter w1 - w_branchCounter w1 = w_leafCounter (im_writer i) - w_branchCounter (im_writer i) + 1"
    "importer_run (map export_node (post_order l)) i = Inr (after_node l w1 i)"
    using Branch.IH(1) [OF ok(1,3,5) Branch.prems(4)] by blast
  have "counts (after_node l w1 i)" using counts_after [OF Branch.prems(4) w1(2)] .
  then obtain w2 where w2: "writeRecursive (\<lambda>_. False) r w1 = Inr w2"
    "w_leafCounter w2 - w_branchCounter w2 = w_leafCounter w1 - w_branchCounter w1 + 1"
    "importer_run (map export_node (post_order r)) (after_node l w1 i) = Inr (after_node r w2 (after_node l w1 i))"
    using Branch.IH(2) [OF ok(2,4,6), of "after_node l w1 i"] by (auto simp: after_node_def)
  have pre: "ucast (w_leafCounter (im_writer i) - w_branchCounter (im_writer i)) =
      (word_of_nat (length (im_nodeStack i)) :: u8)"
    using Branch.prems(4) by (simp add: counts_def ucast_down_of_nat)
  let ?w = "writeBranch ver (ucast s) h (word_of_nat (length (im_nodeStack i))) (w_leafCounter w1) (merkle ?n) w2"
  have "writeRecursive (\<lambda>_. False) ?n (im_writer i) = Inr ?w"
    by (simp only: writeRecursive.simps Let_def w1(1) w2(1) rbind_simps pre hs)
  moreover have "w_leafCounter ?w - w_branchCounter ?w =
      w_leafCounter (im_writer i) - w_branchCounter (im_writer i) + 1"
    unfolding writeBranch_counts diff_diff_eq [symmetric] w2(2) w1(2) by simp
  moreover have "importer_run (map export_node (post_order ?n)) i = Inr (after_node ?n ?w i)"
    using w1(3) w2(3) importer_Add_branch [OF ok(7) s refl, where ver = ver and k = k]
    by (simp only: post_order.simps map_append list.map importer_run_append rbind_simps importer_run.simps)
  ultimately show ?case by blast
qed

section \<open>Lemmas: every accepted stream is a tree\<close>

text \<open>What the importer takes from a node: a leaf has a value, a branch has none, a version has 32 bits.\<close>

definition norm_node :: "exportNode \<Rightarrow> exportNode" where
  "norm_node n = n\<lparr>en_Value := (if en_Height n = 0 then Some (nonnil (en_Value n)) else None),
     en_Version := ucast (ucast (en_Version n) :: u32)\<rparr>"

lemma importer_Add_norm:
  assumes "importer_Add n i = Inr i'"
  shows "importer_Add (norm_node n) i = Inr i'"
proof -
  have "\<not> sint (ucast (ucast (en_Version n) :: u32) :: i64) > int MaxUint32" by (rule export_version)
  moreover have "\<not> sint (en_Version n) > int MaxUint32" using assms by (auto simp: importer_Add_def split: if_splits)
  ultimately have "importer_Add (norm_node n) i = importer_Add n i"
    by (simp add: importer_Add_def norm_node_def nonnil_def Let_def split: list.split)
  then show ?thesis using assms by simp
qed

definition forest_ok :: "node list \<Rightarrow> bool" where
  "forest_ok ns \<longleftrightarrow> (\<forall>n \<in> set ns. hashed n \<and> sized n \<and> branch_heights n)"

text \<open>Adding a node to a forest, its trees in the order of the stack.\<close>

lemma importer_Add_forest:
  assumes "importer_Add n i = Inr i'" and "im_nodeStack i = map pending_of ts" and "forest_ok ts"
    and "length (im_leavesStack i) = length ts"
  shows "\<exists>ts'. im_nodeStack i' = map pending_of ts' \<and> forest_ok ts' \<and> length (im_leavesStack i') = length ts' \<and>
    map export_node (concat (map post_order (rev ts'))) =
      map export_node (concat (map post_order (rev ts))) @ [norm_node n]"
proof (cases "en_Height n = 0")
  case True
  let ?t = "Leaf (Mem None) (ucast (en_Version n)) (en_Key n) (nonnil (en_Value n))"
  have "im_nodeStack i' = pending_of ?t # im_nodeStack i" "length (im_leavesStack i') = Suc (length ts)"
    using assms(1,4) True by (auto simp: importer_Add_def Let_def writeLeaf_def pending_of_def split: if_splits)
  moreover have "export_node ?t = norm_node n" using True by (simp add: export_node_def norm_node_def)
  ultimately show ?thesis using assms(2,3) by (intro exI [of _ "?t # ts"]) (simp add: forest_ok_def)
next
  case False
  obtain r l rest where ts: "ts = r # l # rest"
    using assms(1,2,4) False
    by (cases ts rule: remdups_adj.cases) (auto simp: importer_Add_def length_Suc_conv split: if_splits)
  let ?s = "node_Size l + node_Size r"
  let ?t = "Branch (Mem None) (en_Height n) ?s (ucast (en_Version n)) (en_Key n) l r"
  have "im_nodeStack i' = pending_of ?t # map pending_of rest" "length (im_leavesStack i') = Suc (length rest)"
    using assms(1,2,4) False ts
    by (auto simp: importer_Add_def Let_def pending_of_def length_Suc_conv split: if_splits)
  moreover have "hashed l" "hashed r" "sized l" "sized r" "branch_heights l" "branch_heights r"
    using assms(3) ts by (auto simp: forest_ok_def)
  moreover have "export_node ?t = norm_node n" using False by (simp add: export_node_def norm_node_def)
  ultimately show ?thesis
    using assms(3) ts False sized_Size [of l] sized_Size [of r]
    by (intro exI [of _ "?t # rest"]) (auto simp: forest_ok_def)
qed

lemma importer_run_forest:
  assumes "importer_run ns (new_importer w) = Inr i"
  shows "\<exists>ts. im_nodeStack i = map pending_of ts \<and> forest_ok ts \<and> length (im_leavesStack i) = length ts \<and>
    map norm_node ns = map export_node (concat (map post_order (rev ts)))"
  using assms
proof (induction ns arbitrary: i rule: rev_induct)
  case Nil
  then show ?case by (intro exI [of _ "[]"]) (auto simp: new_importer_def forest_ok_def)
next
  case (snoc n ns)
  obtain i0 where i0: "importer_run ns (new_importer w) = Inr i0" "importer_Add n i0 = Inr i"
    using snoc.prems by (auto simp: importer_run_append rbind_def split: sum.splits)
  obtain ts where ts: "im_nodeStack i0 = map pending_of ts" "forest_ok ts" "length (im_leavesStack i0) = length ts"
    "map norm_node ns = map export_node (concat (map post_order (rev ts)))"
    using snoc.IH [OF i0(1)] by blast
  from importer_Add_forest [OF i0(2) ts(1-3)] obtain ts' where
    "im_nodeStack i = map pending_of ts'" "forest_ok ts'" "length (im_leavesStack i) = length ts'"
    "map export_node (concat (map post_order (rev ts'))) =
      map export_node (concat (map post_order (rev ts))) @ [norm_node n]" by blast
  then show ?case using ts(4) by (intro exI [of _ ts']) simp
qed

lemma importer_run_norm:
  "importer_run ns i = Inr i' \<Longrightarrow> importer_run (map norm_node ns) i = Inr i'"
  by (induction ns arbitrary: i) (auto simp: rbind_def importer_Add_norm split: sum.splits)

lemma doImport_tree:
  assumes "hashed n" and "sized n" and "branch_heights n" and "version \<le> int MaxUint32"
  shows "doImport version (map export_node (post_order n)) = WriteSnapshot (\<lambda>_. False) (Some n) (word_of_int version)"
proof -
  have "counts (new_importer newSnapshotWriter)"
    by (simp add: counts_def new_importer_def newSnapshotWriter_def)
  from importer_run_tree [OF assms(1-3) this] obtain w where
    "writeRecursive (\<lambda>_. False) n newSnapshotWriter = Inr w"
    "importer_run (map export_node (post_order n)) (new_importer newSnapshotWriter) =
      Inr (after_node n w (new_importer newSnapshotWriter))"
    by (auto simp: new_importer_def)
  then show ?thesis
    using assms(4)
    by (simp add: doImport_def WriteSnapshot_def writeSnapshot_def importer_finish_def after_node_def new_importer_def)
qed

lemma ScanPostOrder_run:
  "t_root t = Some n \<Longrightarrow> ScanPostOrder t (\<lambda>n. cb (export_node n)) s = run_until cb (map export_node (post_order n)) s"
  by (simp add: ScanPostOrder_def scan_loop_run run_until_map)

section \<open>Lemmas: the channels\<close>

inductive_simps exporter_step_simps: "exporter_step e e'"

text \<open>
  What a tree exports. A tree that is at the version of its snapshot exports the snapshot, so what is
  exported is the tree only if the snapshot was written from the same contents.
\<close>

definition exported :: "'c tree \<Rightarrow> exportNode list" where
  "exported t = (case t_root t of None \<Rightarrow> [] | Some n \<Rightarrow> map export_node (post_order n))"

definition written_as :: "node option \<Rightarrow> snapshot \<Rightarrow> bool" where
  "written_as root sn \<longleftrightarrow> (\<exists>root' version fs. pred_option wf_node root' \<and> map_option strip root' = map_option strip root \<and>
     WriteSnapshot (\<lambda>_. False) root' version = Inr fs \<and> OpenSnapshot fs = Inr sn)"

definition exportable :: "'c tree \<Rightarrow> bool" where
  "exportable t \<longleftrightarrow>
     pred_option (\<lambda>n. wf_node n \<and> length (leaves n) < 2 ^ 32 \<and> fits n \<and> kv_size n < 2 ^ 64) (t_root t) \<and>
     (\<forall>sn. t_snapshot t = Some sn \<and> t_version t = sn_version sn \<longrightarrow> written_as (t_root t) sn)"

lemma export_strip: "map export_node (post_order (strip n)) = map export_node (post_order n)"
  by (induction n) (simp_all add: export_node_def)

lemma snapshot_export_written:
  assumes "written_as root sn"
    and "pred_option (\<lambda>n. wf_node n \<and> length (leaves n) < 2 ^ 32 \<and> fits n \<and> kv_size n < 2 ^ 64) root"
  shows "snapshot_export sn cb s =
    Inr (run_until cb (case root of None \<Rightarrow> [] | Some n \<Rightarrow> map export_node (post_order n)) s)"
proof -
  obtain root' version fs where r: "pred_option wf_node root'" "map_option strip root' = map_option strip root"
    "WriteSnapshot (\<lambda>_. False) root' version = Inr fs" "OpenSnapshot fs = Inr sn"
    using assms(1) by (auto simp: written_as_def)
  show ?thesis
  proof (cases root)
    case None
    then have "sn_leaves sn = []"
      using r(2-4) by (auto simp: WriteSnapshot_def writeSnapshot_def OpenSnapshot_def Let_def split: if_splits)
    then show ?thesis using None by (simp add: snapshot_export_def leavesLen_def)
  next
    case (Some n)
    then obtain m where m: "root' = Some m" "strip m = strip n" "wf_node m" using r(1,2) by auto
    have lv: "leaves m = leaves n" using strip_simps(1) m(2) by metis
    then have m': "length (leaves m) < 2 ^ 32" "fits m" "kv_size m < 2 ^ 64"
      using assms(2) Some by (simp_all add: fits_def kv_size_def)
    obtain fs' sn' where "WriteSnapshot (\<lambda>_. False) (Some m) version = Inr fs'" "OpenSnapshot fs' = Inr sn'"
      "stored sn' 0 0 m" "leavesLen sn' = length (leaves m)" "nodesLen sn' = length (leaves m) - 1"
      by (rule WriteSnapshot_opens [OF m(3) m', of version])
    moreover from this have "sn' = sn" using r(3,4) m(1) by simp
    ultimately have "snapshot_export sn cb s = Inr (run_until cb (map export_node (post_order m)) s)"
      using snapshot_export_stored [of sn m cb s] room_root [OF m(3) m'(1)] m(3) by (simp add: wf_node_def)
    moreover have "map export_node (post_order m) = map export_node (post_order n)" using export_strip m(2) by metis
    ultimately show ?thesis using Some by simp
  qed
qed

lemma tree_export_run:
  assumes "exportable t"
  shows "tree_export t cb s = Inr (run_until cb (exported t) s)"
proof -
  have "ScanPostOrder t (\<lambda>n. cb (export_node n)) s = run_until cb (exported t) s"
    by (cases "t_root t") (simp_all add: ScanPostOrder_run exported_def, simp add: ScanPostOrder_def)
  then show ?thesis
    using snapshot_export_written [of "t_root t" _ cb s] assms
    by (auto simp: tree_export_def exportable_def exported_def split: option.splits)
qed

lemma record_calls:
  "snd (run_until record_call xs (answers, calls)) = calls @ take (Suc (length (takeWhile Not answers))) xs"
  by (induction xs arbitrary: answers calls) (case_tac answers; auto split: if_splits)+

lemma worker_next_export:
  assumes "exportable t"
  shows "worker_next (tree_export t) answers =
    Inr (if True \<notin> set answers \<and> length answers < length (exported t) then Some (exported t ! length answers) else None)"
proof -
  let ?k = "length (takeWhile Not answers)"
  have run: "worker_next (tree_export t) answers =
      Inr (if length answers < length (take (Suc ?k) (exported t)) then Some (take (Suc ?k) (exported t) ! length answers) else None)"
    using record_calls [of "exported t" answers "[]"]
    by (simp only: worker_next_def tree_export_run [OF assms] rmap_simps split_beta append_Nil)
  show ?thesis
  proof (cases "True \<in> set answers")
    case True
    then have "?k < length answers" by (induction answers) auto
    then show ?thesis using True by (simp add: run)
  next
    case False
    then have "?k = length answers" by (induction answers) auto
    then show ?thesis using False by (simp add: run del: takeWhile_eq_all_conv)
  qed
qed

text \<open>Where an exporter of the tree \<open>t\<close> stands as long as it is not closed by the caller.\<close>

definition exporter_inv :: "'c tree \<Rightarrow> exporter \<Rightarrow> bool" where
  "exporter_inv t e \<longleftrightarrow> ex_worker e = tree_export t \<and> \<not> ex_cancelled e \<and> True \<notin> set (ex_answers e) \<and>
     length (ex_answers e) \<le> length (exported t) \<and> ex_got e @ ex_ch e = take (length (ex_answers e)) (exported t) \<and>
     length (ex_ch e) \<le> exportBufferSize \<and> (ex_closed e \<longrightarrow> length (ex_answers e) = length (exported t))"

lemma exporter_inv_new: "exporter_inv t (newExporter (tree_export t))"
  by (simp add: exporter_inv_def newExporter_def)

lemma exporter_inv_step:
  "exporter_step e e' \<Longrightarrow> exportable t \<Longrightarrow> exporter_inv t e \<Longrightarrow> exporter_inv t e'"
  by (induction rule: exporter_step.induct)
    (auto simp: exporter_inv_def exporter_Next_def worker_next_export take_Suc_conv_app_nth split: list.splits if_splits)

lemma exporter_inv_reach:
  "exporter_step\<^sup>*\<^sup>* (newExporter (tree_export t)) e \<Longrightarrow> exportable t \<Longrightarrow> exporter_inv t e"
  by (induction rule: rtranclp_induct) (auto intro: exporter_inv_new exporter_inv_step)

lemma exporter_step_worker: "exporter_step e e' \<Longrightarrow> ex_worker e' = ex_worker e"
  by (induction rule: exporter_step.induct) (auto simp: exporter_Next_def split: list.splits if_splits)

lemma exporter_step_wf:
  assumes "exportable t"
  shows "wf {(e', e). exporter_step e e' \<and> ex_worker e = tree_export t}"
proof -
  let ?m = "\<lambda>e. 2 * (length (exported t) - length (ex_answers e)) + length (ex_ch e) + (if ex_closed e then 0 else 1)"
  have "?m e' < ?m e" if "exporter_step e e'" "ex_worker e = tree_export t" for e e'
    using that by (induction rule: exporter_step.induct)
      (auto simp: exporter_Next_def worker_next_export [OF assms] split: list.splits if_splits)
  then show ?thesis by (intro wf_subset [OF wf_measure [of ?m]]) auto
qed

lemma exporter_progress:
  assumes "exportable t" and "ex_worker e = tree_export t" and "\<not> exporter_done e"
  shows "\<exists>e'. exporter_step e e'"
proof (cases "ex_ch e")
  case Nil
  then have "\<not> ex_closed e" "length (ex_ch e) < exportBufferSize"
    using assms(3) by (auto simp: exporter_done_def exportBufferSize_def)
  then show ?thesis
    using worker_next_export [OF assms(1), of "ex_answers e"] assms(2) exporter_step.send [of e] exporter_step.finish [of e]
    by (metis option.exhaust)
next
  case (Cons x xs)
  then have "exporter_Next e = Some (Inr x, e\<lparr>ex_ch := xs, ex_got := ex_got e @ [x]\<rparr>)" by (simp add: exporter_Next_def)
  then show ?thesis using Cons by (cases "ex_cancelled e") (blast intro: exporter_step.intros)+
qed

lemma exporter_closed_step:
  "exporter_step e e' \<Longrightarrow> ex_cancelled e \<Longrightarrow> ex_cancelled e' \<and> ex_got e' = ex_got e"
  by (induction rule: exporter_step.induct) auto

lemma exporter_ends:
  assumes "exportable t" and "ex_worker e = tree_export t"
  shows "\<exists>e'. exporter_step\<^sup>*\<^sup>* e e' \<and> exporter_done e'"
  using assms(2)
proof (induction e rule: wf_induct_rule [OF exporter_step_wf [OF assms(1)]])
  case (1 e)
  show ?case
  proof (cases "exporter_done e")
    case False
    then obtain e1 where e1: "exporter_step e e1" using exporter_progress [OF assms(1) 1(2)] by blast
    then obtain e' where "exporter_step\<^sup>*\<^sup>* e1 e'" "exporter_done e'"
      using 1 exporter_step_worker [OF e1] by auto
    then show ?thesis using e1 by (meson converse_rtranclp_into_rtranclp)
  qed blast
qed

lemma exporter_inv_done: "exporter_inv t e \<Longrightarrow> exporter_done e \<Longrightarrow> ex_got e = exported t"
  by (simp add: exporter_inv_def exporter_done_def)

lemma exporter_inv_Next:
  assumes "exporter_inv t e" and "exporter_Next e = Some (r, e')"
  shows "r = (if length (ex_got e) < length (exported t) then Inr (exported t ! length (ex_got e)) else Inl ErrorExportDone)"
proof (cases "ex_ch e")
  case Nil
  then show ?thesis using assms by (auto simp: exporter_inv_def exporter_Next_def split: if_splits)
next
  case (Cons x xs)
  have tk: "take (length (ex_answers e)) (exported t) = ex_got e @ x # xs"
    using assms(1) Cons by (simp add: exporter_inv_def)
  then have "length (ex_got e) < length (exported t)" by (metis append_take_drop_id add_gr_0 length_append length_Cons less_add_same_cancel1 trans_less_add1 zero_less_Suc)
  moreover have "exported t ! length (ex_got e) = x"
    using arg_cong [OF tk, of "\<lambda>l. l ! length (ex_got e)"] arg_cong [OF tk, of length] by simp
  ultimately show ?thesis using assms(2) Cons by (simp add: exporter_Next_def)
qed


fun added :: "import_event list \<Rightarrow> exportNode list" where
  "added [] = []"
| "added (EvAdd n None # evs) = n # added evs"
| "added (_ # evs) = added evs"

fun reports :: "import_event list \<Rightarrow> gerror list" where
  "reports [] = []"
| "reports (EvAdd n (Some e) # evs) = e # reports evs"
| "reports (EvClosed (Some e) # evs) = e # reports evs"
| "reports (_ # evs) = reports evs"

lemma added_append [simp]: "added (xs @ ys) = added xs @ added ys"
  by (induction xs rule: added.induct) auto

lemma reports_append [simp]: "reports (xs @ ys) = reports xs @ reports ys"
  by (induction xs rule: reports.induct) auto












section \<open>Properties\<close>

text \<open>
  C24: exporting a tree and importing the stream reproduces it. Whatever the interleaving of the exporting
  goroutine with its reader, the nodes that \<^verbatim>\<open>Next\<close> has returned when the export is complete are the post-order
  of the tree, and the importer writes from them, with only a stack of pending nodes, the same files byte
  for byte that \<^verbatim>\<open>WriteSnapshot\<close> writes from the tree; they open as a snapshot whose root is the tree. The
  tree may be one in memory, which is traversed, or one loaded from a snapshot, which streams the files; only
  the contents must not have been changed since that snapshot while the version is still the same.
\<close>

theorem export_import_roundtrip:
  assumes "exportable t" and "t_root t = Some n" and "version \<le> int MaxUint32"
  shows "(\<exists>e. exporter_step\<^sup>*\<^sup>* (newExporter (tree_export t)) e \<and> exporter_done e) \<and>
    (\<exists>fs sn. WriteSnapshot (\<lambda>_. False) (Some n) (word_of_int version) = Inr fs \<and>
      (\<forall>e. exporter_step\<^sup>*\<^sup>* (newExporter (tree_export t)) e \<and> exporter_done e \<longrightarrow>
        ex_got e = map export_node (post_order n) \<and> doImport version (ex_got e) = Inr fs) \<and>
      OpenSnapshot fs = Inr sn \<and> rbind (snapshot_RootNode sn) (pn_tree 64 sn) = Inr (persisted n))"
proof -
  have wf: "wf_node n" "length (leaves n) < 2 ^ 32" "fits n" "kv_size n < 2 ^ 64"
    using assms(1,2) by (auto simp: exportable_def)
  then have n: "ordered n" "sized n" "hashed n" "balanced n" by (auto simp: wf_node_def)
  obtain fs sn where w: "WriteSnapshot (\<lambda>_. False) (Some n) (word_of_int version) = Inr fs" "OpenSnapshot fs = Inr sn"
    "sn_root sn = Some (pn_of 0 0 n)" "stored sn 0 0 n"
    using WriteSnapshot_opens [OF wf, of "word_of_int version"] by metis
  have "ex_got e = map export_node (post_order n)"
    if "exporter_step\<^sup>*\<^sup>* (newExporter (tree_export t)) e" "exporter_done e" for e
    using exporter_inv_done [OF exporter_inv_reach [OF that(1) assms(1)] that(2)] assms(2) by (simp add: exported_def)
  moreover have "doImport version (map export_node (post_order n)) = Inr fs"
    using doImport_tree [OF n(3,2) balanced_branch_heights [OF n(4)] assms(3)] w(1) by simp
  moreover have "rbind (snapshot_RootNode sn) (pn_tree 64 sn) = Inr (persisted n)"
    using pn_tree_stored [OF w(4) room_root [OF wf(1,2)] n(1,2), of 64] balanced_ht_bound [of n 32] wf(2) n(4) w(3)
    by (simp add: snapshot_RootNode_def)
  moreover have "\<exists>e. exporter_step\<^sup>*\<^sup>* (newExporter (tree_export t)) e \<and> exporter_done e"
    using exporter_ends [OF assms(1), of "newExporter (tree_export t)"] by (simp add: newExporter_def)
  ultimately show ?thesis using w(1,2) by auto
qed

lemma two_keys_small: "length (leaves two_keys) < 2 ^ 32" "fits two_keys" "kv_size two_keys < 2 ^ 64"
  by (simp_all add: two_keys_leaves fits_def kv_size_def)

lemma two_keys_loaded:
  obtains fs sn t where "WriteSnapshot (\<lambda>_. False) (Some two_keys) 5 = Inr fs" "OpenSnapshot fs = Inr sn"
    "NewFromSnapshot lru_ops sn True 0 = Inr t" "t_root t = Some (persisted two_keys)" "t_snapshot t = Some sn"
    "t_version t = sn_version sn" "exportable t"
proof -
  obtain fs sn where w: "WriteSnapshot (\<lambda>_. False) (Some two_keys) 5 = Inr fs" "OpenSnapshot fs = Inr sn"
    "sn_root sn = Some (pn_of 0 0 two_keys)" "stored sn 0 0 two_keys"
    using WriteSnapshot_opens [OF two_keys_wf(1) two_keys_small, of 5] by metis
  have n: "ordered two_keys" "sized two_keys" using two_keys_wf(1) by (auto simp: wf_node_def)
  have "pn_tree 256 sn (pn_of 0 0 two_keys) = Inr (persisted two_keys)"
    using pn_tree_stored [OF w(4) room_root [OF two_keys_wf(1) two_keys_small(1)] n, of 256] by (simp add: two_keys_def)
  then obtain t where t: "NewFromSnapshot lru_ops sn True 0 = Inr t" "t_root t = Some (persisted two_keys)"
    "t_snapshot t = Some sn" "t_version t = sn_version sn"
    using w(3) by (simp add: NewFromSnapshot_def snapshot_IsEmpty_def snapshot_RootNode_def)
  note p = persisted_wf [OF two_keys_wf(1)]
  have "written_as (Some (persisted two_keys)) sn"
    unfolding written_as_def using w(1,2) p two_keys_wf(1) by (intro exI [of _ "Some two_keys"] exI [of _ 5] exI [of _ fs]) simp
  then have "exportable t"
    using t p two_keys_small by (simp add: exportable_def fits_def kv_size_def)
  then show thesis using that w(1,2) t by blast
qed

theorem export_import_roundtrip_witness:
  "\<exists>fs sn t e fs' sn'. WriteSnapshot (\<lambda>_. False) (Some two_keys) 5 = Inr fs \<and> OpenSnapshot fs = Inr sn \<and>
    NewFromSnapshot lru_ops sn True 0 = Inr t \<and> t_version t = sn_version sn \<and>
    exporter_step\<^sup>*\<^sup>* (newExporter (tree_export t)) e \<and> exporter_done e \<and>
    doImport 6 (ex_got e) = Inr fs' \<and> OpenSnapshot fs' = Inr sn' \<and>
    rbind (snapshot_RootNode sn') (pn_tree 64 sn') = Inr (persisted (persisted two_keys))"
proof (rule two_keys_loaded)
  fix fs sn and t :: "lru tree"
  assume w: "WriteSnapshot (\<lambda>_. False) (Some two_keys) 5 = Inr fs" "OpenSnapshot fs = Inr sn"
    "NewFromSnapshot lru_ops sn True 0 = Inr t" "t_version t = sn_version sn"
  assume t: "t_root t = Some (persisted two_keys)" "exportable t"
  note r = export_import_roundtrip [OF t(2,1), of 6, simplified]
  obtain e where "exporter_step\<^sup>*\<^sup>* (newExporter (tree_export t)) e" "exporter_done e" using r by blast
  then show ?thesis using r w by blast
qed

text \<open>
  C25: a snapshot exports itself by a single pass over its files, which sends leaves until the next branch
  has its subtrees. The nodes, and where a callback stops them, are those of the post-order traversal
  of the tree.
\<close>

theorem snapshot_export_post_order:
  assumes "wf_node n" and "length (leaves n) < 2 ^ 32" and "fits n" and "kv_size n < 2 ^ 64"
    and "t_root t = Some (persisted n)"
  shows "\<exists>fs sn. WriteSnapshot (\<lambda>_. False) (Some n) version = Inr fs \<and> OpenSnapshot fs = Inr sn \<and>
    snapshot_export sn cb s = Inr (ScanPostOrder t (\<lambda>m. cb (export_node m)) s)"
proof -
  obtain fs sn where w: "WriteSnapshot (\<lambda>_. False) (Some n) version = Inr fs" "OpenSnapshot fs = Inr sn"
    "stored sn 0 0 n" "leavesLen sn = length (leaves n)" "nodesLen sn = length (leaves n) - 1"
    using WriteSnapshot_opens [OF assms(1-4), of version] by metis
  have "map export_node (post_order (persisted n)) = map export_node (post_order n)"
    by (induction n) (simp_all add: export_node_def)
  then have "ScanPostOrder t (\<lambda>m. cb (export_node m)) s = run_until cb (map export_node (post_order n)) s"
    using ScanPostOrder_run [OF assms(5), of cb s] by simp
  moreover have "ordered n" using assms(1) by (simp add: wf_node_def)
  ultimately show ?thesis
    using snapshot_export_stored [OF w(3) room_root [OF assms(1,2)] _ w(4,5)] w(1,2) by simp
qed

theorem snapshot_export_post_order_witness:
  "\<exists>fs sn. WriteSnapshot (\<lambda>_. False) (Some two_keys) 5 = Inr fs \<and> OpenSnapshot fs = Inr sn \<and>
    snapshot_export sn (\<lambda>x acc. (False, acc @ [en_Height x])) [] = Inr [0, 0, 1]"
proof -
  have "ScanPostOrder (lru_tree1\<lparr>t_root := Some (persisted two_keys)\<rparr>)
      (\<lambda>m acc. (False, acc @ [en_Height (export_node m)])) [] = [0, 0, 1]"
    by (simp add: ScanPostOrder_def two_keys_def export_node_def)
  then show ?thesis
    using snapshot_export_post_order [OF two_keys_wf(1) two_keys_small,
        of "lru_tree1\<lparr>t_root := Some (persisted two_keys)\<rparr>" 5 "\<lambda>x acc. (False, acc @ [en_Height x])" "[]"]
    by simp
qed

text \<open>
  C26: the importer accepts nothing but trees. When a stream is imported without an error, it is empty or
  the post-order of a tree with the given keys, values, versions and heights, and the files are those of
  that tree; a branch without two subtrees and left-over subtrees are refused.
\<close>

theorem doImport_only_trees:
  assumes "doImport version nodes = Inr fs"
  shows "version \<le> int MaxUint32 \<and> (nodes = [] \<or>
    (\<exists>n. hashed n \<and> sized n \<and> map norm_node nodes = map export_node (post_order n) \<and>
      WriteSnapshot (\<lambda>_. False) (Some n) (word_of_int version) = Inr fs))"
proof -
  have v: "version \<le> int MaxUint32" using assms by (auto simp: doImport_def split: if_splits)
  obtain i r where i: "importer_run nodes (new_importer newSnapshotWriter) = Inr i" "importer_finish i = Inr r"
    using assms by (auto simp: doImport_def writeSnapshot_def rbind_def split: if_splits sum.splits)
  obtain ts where ts: "forest_ok ts" "length (im_leavesStack i) = length ts"
    "map norm_node nodes = map export_node (concat (map post_order (rev ts)))"
    using importer_run_forest [OF i(1)] by blast
  have "length ts \<le> 1" using i(2) ts(2) by (auto simp: importer_finish_def split: list.splits)
  then consider "ts = []" | n where "ts = [n]" by (cases ts) auto
  then show ?thesis
  proof cases
    case 1
    then show ?thesis using ts(3) v by simp
  next
    case (2 n)
    have "doImport version (map norm_node nodes) = doImport version nodes"
      using importer_run_norm [OF i(1)] i(1) by (simp add: doImport_def writeSnapshot_def)
    with assms have "doImport version (map norm_node nodes) = Inr fs" by simp
    then show ?thesis
      using 2 ts(1,3) v doImport_tree [of n version] by (auto simp: forest_ok_def)
  qed
qed

theorem doImport_only_trees_witness:
  "(\<exists>fs. doImport 5 (map export_node (post_order two_keys)) = Inr fs) \<and>
   (\<exists>n. map norm_node (map export_node (post_order two_keys)) = map export_node (post_order n)) \<and>
   doImport 5 [\<lparr>en_Key = [1], en_Value = None, en_Version = 1, en_Height = 1\<rparr>] = Inl InvalidNodeStructure"
proof -
  have b: "hashed two_keys" "sized two_keys" "branch_heights two_keys"
    using two_keys_wf(1) balanced_branch_heights by (auto simp: wf_node_def)
  obtain fs where fs: "doImport 5 (map export_node (post_order two_keys)) = Inr fs"
    using doImport_tree [OF b, of 5] WriteSnapshot_opens [OF two_keys_wf(1) two_keys_small, of "word_of_int 5"] by auto
  have "map export_node (post_order two_keys) \<noteq> []" by (simp add: two_keys_def)
  then have "\<exists>n. map norm_node (map export_node (post_order two_keys)) = map export_node (post_order n)"
    using doImport_only_trees [OF fs] by blast
  moreover have "doImport 5 [\<lparr>en_Key = [1], en_Value = None, en_Version = 1, en_Height = 1\<rparr>] = Inl InvalidNodeStructure"
    by (simp add: doImport_def writeSnapshot_def importer_Add_def new_importer_def)
  ultimately show ?thesis using fs by blast
qed

text \<open>
  C27: whatever the interleaving of the exporting goroutine with \<^verbatim>\<open>Next\<close>, the caller sees the nodes of the tree
  in post-order, none lost and none twice. What \<^verbatim>\<open>Next\<close> has returned and what is buffered (at most 32 nodes) are
  always a prefix of the post-order; \<^verbatim>\<open>Next\<close>, when it returns, returns the node that follows those it returned
  before, and \<^verbatim>\<open>ErrorExportDone\<close> only after the last one. Until the channel is closed and empty a
  step is possible, and no run is infinite. After \<^verbatim>\<open>Close\<close> every run ends with the channel closed and empty, and
  nothing more is returned.
\<close>

theorem exporter_delivers:
  assumes "exportable t" and "exporter_step\<^sup>*\<^sup>* (newExporter (tree_export t)) e"
  shows "(\<exists>rest. ex_got e @ ex_ch e @ rest = exported t) \<and> length (ex_ch e) \<le> exportBufferSize \<and>
    (\<forall>r e'. exporter_Next e = Some (r, e') \<longrightarrow> r =
      (if length (ex_got e) < length (exported t) then Inr (exported t ! length (ex_got e)) else Inl ErrorExportDone)) \<and>
    (exporter_done e \<longrightarrow> ex_got e = exported t) \<and>
    (\<not> exporter_done e \<longrightarrow> (\<exists>e'. exporter_step e e')) \<and>
    wf {(e', e). exporter_step e e' \<and> ex_worker e = tree_export t} \<and>
    (\<forall>e'. exporter_step\<^sup>*\<^sup>* (exporter_Close e) e' \<longrightarrow>
      ex_worker e' = tree_export t \<and> ex_got e' = ex_got e \<and> (exporter_done e' \<or> (\<exists>e''. exporter_step e' e'')))"
proof -
  have e: "exporter_inv t e" using exporter_inv_reach [OF assms(2,1)] .
  have closed: "ex_cancelled e' \<and> ex_got e' = ex_got e \<and> ex_worker e' = tree_export t"
    if "exporter_step\<^sup>*\<^sup>* (exporter_Close e) e'" for e'
    using that
  proof (induction rule: rtranclp_induct)
    case base
    then show ?case using e by (simp add: exporter_Close_def exporter_inv_def)
  qed (use exporter_closed_step exporter_step_worker in fastforce)
  have "\<exists>rest. ex_got e @ ex_ch e @ rest = exported t"
    using e append_take_drop_id [of "length (ex_answers e)" "exported t"]
    unfolding exporter_inv_def by (metis append.assoc)
  then show ?thesis
    using e closed exporter_inv_Next [OF e] exporter_inv_done [OF e] exporter_progress [OF assms(1)] exporter_step_wf [OF assms(1)]
    unfolding exporter_inv_def by blast
qed

theorem exporter_delivers_witness:
  "\<exists>fs sn t e. WriteSnapshot (\<lambda>_. False) (Some two_keys) 5 = Inr fs \<and> OpenSnapshot fs = Inr sn \<and>
     NewFromSnapshot lru_ops sn True 0 = Inr t \<and>
     exporter_step\<^sup>*\<^sup>* (newExporter (tree_export t)) e \<and> exporter_done e \<and> map en_Height (ex_got e) = [0, 0, 1]"
proof (rule two_keys_loaded)
  fix fs sn and t :: "lru tree"
  assume w: "WriteSnapshot (\<lambda>_. False) (Some two_keys) 5 = Inr fs" "OpenSnapshot fs = Inr sn"
    "NewFromSnapshot lru_ops sn True 0 = Inr t"
  assume t: "t_root t = Some (persisted two_keys)" "exportable t"
  obtain e where e: "exporter_step\<^sup>*\<^sup>* (newExporter (tree_export t)) e" "exporter_done e"
    using exporter_ends [OF t(2), of "newExporter (tree_export t)"] by (auto simp: newExporter_def)
  then have "ex_got e = exported t" using exporter_delivers [OF t(2) e(1)] by blast
  then have "map en_Height (ex_got e) = [0, 0, 1]"
    using t(1) by (simp add: exported_def two_keys_def export_node_def)
  then show ?thesis using w e by (intro exI conjI)
qed





end
