(* ===== verification/TreeState.thy ===== *)
theory TreeState
  imports ExportImport
begin

text \<open>
  What of a tree its users can see: the version and the nodes, without the places where nodes live and
  the hashes they have cached. Every operation of a tree is a function of this state, so two trees that
  agree on it (one in memory, one reopened from files) stay in agreement and have the same root hash.
\<close>

section \<open>Nodes up to their representation\<close>

lemma strip_node_simps [simp]:
  "node_Height (strip n) = node_Height n" "node_Size (strip n) = node_Size n" "node_Key (strip n) = node_Key n"
  "node_Value (strip n) = node_Value n" "node_Version (strip n) = node_Version n"
  "strip (node_Left n) = node_Left (strip n)" "strip (node_Right n) = node_Right (strip n)"
  "strip (with_left n l) = with_left (strip n) (strip l)" "strip (with_right n l) = with_right (strip n) (strip l)"
  "strip (with_key n k) = with_key (strip n) k" "strip (with_value n v) = with_value (strip n) v"
  "strip (Mutate n ver) = Mutate (strip n) ver" "strip (updateHeightSize n) = updateHeightSize (strip n)"
  "strip (newLeafNode k v ver) = newLeafNode k v ver" "strip (strip n) = strip n"
proof -
  show "node_Height (strip n) = node_Height n" for n by (cases n) simp_all
  show "node_Size (strip n) = node_Size n" for n by (cases n) simp_all
  then show "strip (updateHeightSize n) = updateHeightSize (strip n)"
    using \<open>\<And>n. node_Height (strip n) = node_Height n\<close> by (cases n) simp_all
  show "node_Key (strip n) = node_Key n" "node_Value (strip n) = node_Value n" "node_Version (strip n) = node_Version n"
    "strip (node_Left n) = node_Left (strip n)" "strip (node_Right n) = node_Right (strip n)"
    "strip (with_left n l) = with_left (strip n) (strip l)" "strip (with_right n l) = with_right (strip n) (strip l)"
    "strip (with_key n k) = with_key (strip n) k" "strip (with_value n v) = with_value (strip n) v"
    "strip (Mutate n ver) = Mutate (strip n) ver" by (cases n; simp)+
  show "strip (newLeafNode k v ver) = newLeafNode k v ver" by (simp add: newLeafNode_def)
  show "strip (strip n) = strip n" by (induction n) simp_all
qed

lemma strip_calcBalance: "calcBalance (strip n) = calcBalance n"
  by (simp add: calcBalance_def flip: strip_node_simps(6,7))

lemma strip_rotate:
  "strip (rotateRight n ver) = rotateRight (strip n) ver" "strip (rotateLeft n ver) = rotateLeft (strip n) ver"
  by (simp_all add: rotateRight_def rotateLeft_def Let_def)

lemma strip_reBalance: "strip (reBalance n ver) = reBalance (strip n) ver"
proof -
  have "calcBalance (node_Left (strip n)) = calcBalance (node_Left n)"
    "calcBalance (node_Right (strip n)) = calcBalance (node_Right n)"
    using strip_calcBalance by (metis strip_node_simps(6,7))+
  then show ?thesis by (simp add: reBalance_def Let_def strip_calcBalance strip_rotate)
qed

lemma strip_setRecursive:
  "setRecursive (map_option strip t) k v ver = map_prod strip id (setRecursive t k v ver)"
proof (induction t k v ver rule: setRecursive.induct)
  case (3 rp h s ver nodeKey l r key val version)
  then show ?case
    by (cases "bytes_Compare key nodeKey = -1") (auto simp: setRecursive.simps(3) Let_def split_beta strip_reBalance)
qed (auto simp: setRecursive.simps Let_def newLeafNode_def)

lemma strip_removeRecursive:
  "removeRecursive (map_option strip t) k ver =
     (let (x, t', nk) = removeRecursive t k ver in (x, map_option strip t', nk))"
proof (induction t k ver rule: removeRecursive.induct)
  case (3 rp h s ver k l r key version)
  then show ?case
    by (cases "bytes_Compare key k = -1")
      (auto simp: removeRecursive.simps(3) Let_def strip_reBalance split: prod.splits option.splits)
qed auto

section \<open>Trees up to their representation\<close>

definition tree_state :: "'c tree \<Rightarrow> u32 \<times> node option" where
  "tree_state t = (t_version t, map_option strip (t_root t))"

text \<open>The change of a state by a pair, by a change set and by a saved version.\<close>

definition state_pair :: "u32 \<times> node option \<Rightarrow> kvpair \<Rightarrow> u32 \<times> node option" where
  "state_pair s p =
     (if kv_delete p then (fst s, fst (snd (removeRecursive (snd s) (kv_key p) (fst s + 1))))
      else (fst s, Some (fst (setRecursive (snd s) (kv_key p) (nonnil (kv_value p)) (fst s + 1)))))"

definition state_changes :: "u32 \<times> node option \<Rightarrow> changeset \<Rightarrow> u32 \<times> node option" where
  "state_changes = foldl state_pair"

lemma tree_state_apply_pair: "tree_state (apply_pair ops t p) = state_pair (tree_state t) p"
proof -
  note st = strip_setRecursive [of "t_root t" "kv_key p" "nonnil (kv_value p)" "t_version t + 1"]
  note rm = strip_removeRecursive [of "t_root t" "kv_key p" "t_version t + 1"]
  show ?thesis
    using st rm
    by (auto simp: tree_state_def apply_pair_def state_pair_def tree_set_def tree_remove_def nonnil_def Let_def
        split: prod.splits)
qed

lemma tree_state_ApplyChangeSet: "tree_state (ApplyChangeSet ops t cs) = state_changes (tree_state t) cs"
  unfolding ApplyChangeSet_def state_changes_def
  by (induction cs arbitrary: t) (simp_all add: tree_state_apply_pair)

lemma tree_state_RootHash: "tree_state (snd (tree_RootHash t)) = tree_state t"
  using node_Hash_strip by (cases "t_root t") (auto simp: tree_RootHash_def tree_state_def split_beta)

lemma tree_state_SaveVersion:
  assumes "tree_SaveVersion u t = Inr (hs, v, t')"
  shows "tree_state t' = (t_version t + 1, snd (tree_state t)) \<and> v = int (unat (t_version t + 1)) \<and>
    t_version t \<noteq> word_of_nat MaxUint32"
proof -
  have "t_version t \<noteq> word_of_nat MaxUint32"
    using assms by (auto simp: tree_SaveVersion_def checkVersionOverflow_def split: if_splits)
  moreover have "t' = (if u then snd (tree_RootHash t) else t)\<lparr>t_version := t_version t + 1\<rparr>
      \<and> v = int (unat (t_version t + 1))"
    using assms calculation
    by (auto simp: tree_SaveVersion_def checkVersionOverflow_def tree_RootHash_def Let_def split_beta
        split: if_splits option.splits)
  ultimately show ?thesis
    using tree_state_RootHash [of t] by (auto simp: tree_state_def)
qed

lemma root_merkle_strip: "root_merkle (map_option strip r) = root_merkle r"
  by (cases r) (simp_all add: root_merkle_def)

lemma tree_state_hash:
  assumes "pred_option wf_node (t_root t)"
  shows "fst (tree_RootHash t) = root_merkle (snd (tree_state t))"
  using tree_RootHash_spec [OF assms] by (simp add: tree_state_def root_merkle_strip)

lemma tree_state_Copy:
  "tree_state (fst (tree_Copy ops n t)) = tree_state t" "tree_state (snd (tree_Copy ops n t)) = tree_state t"
  by (simp_all add: tree_Copy_def tree_state_def Let_def)

lemma tree_state_setInitialVersion:
  "tree_state (setInitialVersion v t) =
     (if fst (tree_state t) > 0 then tree_state t else (if v < 1 then 0 else v - 1, snd (tree_state t)))"
  by (simp add: tree_state_def setInitialVersion_def)

text \<open>Writing a tree to a snapshot and loading it again keeps its state.\<close>

definition storable :: "node option \<Rightarrow> bool" where
  "storable r \<longleftrightarrow> pred_option (\<lambda>n. wf_node n \<and> length (leaves n) < 2 ^ 32 \<and> fits n \<and> kv_size n < 2 ^ 64) r"

lemma snapshot_reload:
  assumes "storable (t_root t)"
  shows "\<exists>fs sn t'. tree_WriteSnapshot (\<lambda>_. False) t = Inr fs \<and> OpenSnapshot fs = Inr sn \<and>
    sn_version sn = t_version t \<and>
    NewFromSnapshot ops sn zc n = Inr t' \<and> tree_state t' = tree_state t \<and> t_snapshot t' = Some sn \<and>
    t_cache t' = NewCache ops n \<and> pred_option wf_node (t_root t')"
proof (cases "t_root t")
  case None
  define fs where "fs = \<lparr>f_metadata = PutUint32 SnapshotFileMagic @ PutUint32 SnapshotFormat @ PutUint32 (t_version t),
    f_nodes = [], f_leaves = [], f_kvs = []\<rparr>"
  have "tree_WriteSnapshot (\<lambda>_. False) t = Inr fs"
    using None by (simp add: tree_WriteSnapshot_def WriteSnapshot_def writeSnapshot_def fs_def)
  moreover have "OpenSnapshot fs = Inr \<lparr>sn_nodes = [], sn_leaves = [], sn_kvs = [], sn_version = t_version t,
      sn_root = None\<rparr>"
    by (simp add: OpenSnapshot_def fs_def Let_def SizeMetadata_def field32_def)
  ultimately show ?thesis
    using None by (simp add: NewFromSnapshot_def snapshot_IsEmpty_def tree_state_def)
next
  case (Some m)
  then have m: "wf_node m" "length (leaves m) < 2 ^ 32" "fits m" "kv_size m < 2 ^ 64"
    using assms by (auto simp: storable_def)
  obtain fs sn where w: "WriteSnapshot (\<lambda>_. False) (Some m) (t_version t) = Inr fs" "OpenSnapshot fs = Inr sn"
    "sn_version sn = t_version t" "sn_root sn = Some (pn_of 0 0 m)" "stored sn 0 0 m"
    by (rule WriteSnapshot_opens [OF m])
  have "ordered m" "sized m" "ht m < 256"
    using m balanced_ht_bound [of m 32] by (auto simp: wf_node_def)
  then have "pn_tree 256 sn (pn_of 0 0 m) = Inr (persisted m)"
    using w(5) room_root [OF m(1,2)] by (intro pn_tree_stored)
  then show ?thesis
    using Some w persisted_wf [OF m(1)]
    by (simp add: tree_WriteSnapshot_def NewFromSnapshot_def snapshot_IsEmpty_def snapshot_RootNode_def tree_state_def)
qed

end
