(* ===== verification/Cow.thy ===== *)
theory Cow
  imports TreeState "HOL-Library.Monad_Syntax"
begin

text \<open>
  Trees that share nodes. In the other theories a node is a value; in the code a \<^verbatim>\<open>MemNode\<close> is an object that
  \<^verbatim>\<open>Mutate\<close> changes in place, unless its version is protected by \<^verbatim>\<open>cowVersion\<close>, and \<^verbatim>\<open>Tree.Copy\<close> makes two trees
  share their nodes. Here the objects are cells of a heap, and \<^verbatim>\<open>setRecursive\<close>, \<^verbatim>\<open>removeRecursive\<close>, the rotations
  and \<^verbatim>\<open>Hash\<close> are the code of \<^verbatim>\<open>memiavl/node.go\<close>, \<^verbatim>\<open>mem_node.go\<close> and \<^verbatim>\<open>tree.go\<close> on references. A heap that
  represents values is changed as the functions on values say, and a tree is never changed by work on another one,
  if copies are taken of saved versions. A copy of a tree with unsaved changes is not protected.
\<close>

section \<open>The heap\<close>

text \<open>
  A value of the interface \<^verbatim>\<open>Node\<close>: a pointer to a \<^verbatim>\<open>MemNode\<close>, or a \<^verbatim>\<open>PersistedNode\<close>, which never changes. The fields
  of a cell are those of a \<^verbatim>\<open>MemNode\<close>, in the order of theory Node; the first one is the cached hash.
\<close>

datatype nref = MemRef nat | PersistedRef node

datatype cell =
    LeafCell "bytes option" u32 bytes bytes
  | BranchCell "bytes option" u8 i64 u32 bytes nref nref

record heap =
  h_cells :: "nat \<rightharpoonup> cell"
  h_next :: nat

fun load :: "heap \<Rightarrow> nref \<Rightarrow> cell option" where
  "load h (MemRef a) = h_cells h a"
| "load h (PersistedRef (Leaf rp ver k v)) = Some (LeafCell None ver k v)"
| "load h (PersistedRef (Branch rp hgt s ver k l r)) = Some (BranchCell None hgt s ver k (PersistedRef l) (PersistedRef r))"

fun cell_Height :: "cell \<Rightarrow> u8" where
  "cell_Height (LeafCell hs ver k v) = 0"
| "cell_Height (BranchCell hs hgt s ver k l r) = hgt"

fun cell_Size :: "cell \<Rightarrow> i64" where
  "cell_Size (LeafCell hs ver k v) = 1"
| "cell_Size (BranchCell hs hgt s ver k l r) = s"

fun cell_Version :: "cell \<Rightarrow> u32" where
  "cell_Version (LeafCell hs ver k v) = ver"
| "cell_Version (BranchCell hs hgt s ver k l r) = ver"

fun cell_Key :: "cell \<Rightarrow> bytes" where
  "cell_Key (LeafCell hs ver k v) = k"
| "cell_Key (BranchCell hs hgt s ver k l r) = k"

text \<open>The children; those of a leaf are \<^verbatim>\<open>nil\<close>, and using them is a failure.\<close>

fun cell_left :: "cell \<Rightarrow> nref option" where
  "cell_left (LeafCell hs ver k v) = None"
| "cell_left (BranchCell hs hgt s ver k l r) = Some l"

fun cell_right :: "cell \<Rightarrow> nref option" where
  "cell_right (LeafCell hs ver k v) = None"
| "cell_right (BranchCell hs hgt s ver k l r) = Some r"

fun set_left :: "nref \<Rightarrow> cell \<Rightarrow> cell option" where
  "set_left x (BranchCell hs hgt s ver k l r) = Some (BranchCell hs hgt s ver k x r)"
| "set_left x (LeafCell hs ver k v) = None"

fun set_right :: "nref \<Rightarrow> cell \<Rightarrow> cell option" where
  "set_right x (BranchCell hs hgt s ver k l r) = Some (BranchCell hs hgt s ver k l x)"
| "set_right x (LeafCell hs ver k v) = None"

fun set_key :: "bytes \<Rightarrow> cell \<Rightarrow> cell option" where
  "set_key x (BranchCell hs hgt s ver k l r) = Some (BranchCell hs hgt s ver x l r)"
| "set_key x (LeafCell hs ver k v) = Some (LeafCell hs ver x v)"

fun set_value :: "bytes \<Rightarrow> cell \<Rightarrow> cell option" where
  "set_value x (LeafCell hs ver k v) = Some (LeafCell hs ver k x)"
| "set_value x (BranchCell hs hgt s ver k l r) = None"

fun set_hash :: "bytes \<Rightarrow> cell \<Rightarrow> cell" where
  "set_hash x (LeafCell hs ver k v) = LeafCell (Some x) ver k v"
| "set_hash x (BranchCell hs hgt s ver k l r) = BranchCell (Some x) hgt s ver k l r"

definition put_cell :: "nat \<Rightarrow> cell \<Rightarrow> heap \<Rightarrow> heap" where
  "put_cell a c h = h\<lparr>h_cells := (h_cells h)(a \<mapsto> c)\<rparr>"

definition alloc :: "cell \<Rightarrow> heap \<Rightarrow> nat \<times> heap" where
  "alloc c h = (h_next h, (put_cell (h_next h) c h)\<lparr>h_next := Suc (h_next h)\<rparr>)"

definition modify :: "nat \<Rightarrow> (cell \<Rightarrow> cell option) \<Rightarrow> heap \<Rightarrow> heap option" where
  "modify a f h = do { c \<leftarrow> h_cells h a; c' \<leftarrow> f c; Some (put_cell a c' h) }"

section \<open>Nodes\<close>

text \<open>The version is set and the cached hash dropped, in place or in a clone; a persisted node is always cloned.\<close>

fun refresh :: "u32 \<Rightarrow> cell \<Rightarrow> cell" where
  "refresh version (LeafCell hs ver k v) = LeafCell None version k v"
| "refresh version (BranchCell hs hgt s ver k l r) = BranchCell None hgt s version k l r"

definition h_Mutate :: "nref \<Rightarrow> u32 \<Rightarrow> u32 \<Rightarrow> heap \<Rightarrow> (nat \<times> heap) option" where
  "h_Mutate r version cowVersion h =
     do { c \<leftarrow> load h r;
          Some (case r of
            PersistedRef n \<Rightarrow> alloc (refresh version c) h
          | MemRef a \<Rightarrow> if cell_Version c \<le> cowVersion then alloc (refresh version c) h else (a, put_cell a (refresh version c) h)) }"

definition h_updateHeightSize :: "nat \<Rightarrow> heap \<Rightarrow> heap option" where
  "h_updateHeightSize a h =
     do { c \<leftarrow> h_cells h a;
          case c of
            LeafCell hs ver k v \<Rightarrow> None
          | BranchCell hs hgt s ver k l r \<Rightarrow>
              do { cl \<leftarrow> load h l; cr \<leftarrow> load h r;
                   Some (put_cell a (BranchCell hs (max (cell_Height cl) (cell_Height cr) + 1) (cell_Size cl + cell_Size cr) ver k l r) h) } }"

definition h_calcBalance :: "heap \<Rightarrow> nref \<Rightarrow> int option" where
  "h_calcBalance h n =
     do { c \<leftarrow> load h n; l \<leftarrow> cell_left c; r \<leftarrow> cell_right c; cl \<leftarrow> load h l; cr \<leftarrow> load h r;
          Some (int (unat (cell_Height cl)) - int (unat (cell_Height cr))) }"

definition h_rotateRight :: "nat \<Rightarrow> u32 \<Rightarrow> u32 \<Rightarrow> heap \<Rightarrow> (nat \<times> heap) option" where
  "h_rotateRight a version cowVersion h =
     do { c \<leftarrow> h_cells h a; l \<leftarrow> cell_left c;
          (newSelf, h) \<leftarrow> h_Mutate l version cowVersion h;
          cl \<leftarrow> load h l; lr \<leftarrow> cell_right cl;
          h \<leftarrow> modify a (set_left lr) h;
          h \<leftarrow> modify newSelf (set_right (MemRef a)) h;
          h \<leftarrow> h_updateHeightSize a h;
          h \<leftarrow> h_updateHeightSize newSelf h;
          Some (newSelf, h) }"

definition h_rotateLeft :: "nat \<Rightarrow> u32 \<Rightarrow> u32 \<Rightarrow> heap \<Rightarrow> (nat \<times> heap) option" where
  "h_rotateLeft a version cowVersion h =
     do { c \<leftarrow> h_cells h a; r \<leftarrow> cell_right c;
          (newSelf, h) \<leftarrow> h_Mutate r version cowVersion h;
          cr \<leftarrow> load h r; rl \<leftarrow> cell_left cr;
          h \<leftarrow> modify a (set_right rl) h;
          h \<leftarrow> modify newSelf (set_left (MemRef a)) h;
          h \<leftarrow> h_updateHeightSize a h;
          h \<leftarrow> h_updateHeightSize newSelf h;
          Some (newSelf, h) }"

definition h_reBalance :: "nat \<Rightarrow> u32 \<Rightarrow> u32 \<Rightarrow> heap \<Rightarrow> (nat \<times> heap) option" where
  "h_reBalance a version cowVersion h =
     do { balance \<leftarrow> h_calcBalance h (MemRef a);
          c \<leftarrow> h_cells h a; l \<leftarrow> cell_left c; r \<leftarrow> cell_right c;
          if balance > 1 then
            do { leftBalance \<leftarrow> h_calcBalance h l;
                 if leftBalance \<ge> 0 then h_rotateRight a version cowVersion h
                 else do { (x, h) \<leftarrow> h_Mutate l version cowVersion h;
                           (x, h) \<leftarrow> h_rotateLeft x version cowVersion h;
                           h \<leftarrow> modify a (set_left (MemRef x)) h;
                           h_rotateRight a version cowVersion h } }
          else if balance < -1 then
            do { rightBalance \<leftarrow> h_calcBalance h r;
                 if rightBalance \<le> 0 then h_rotateLeft a version cowVersion h
                 else do { (x, h) \<leftarrow> h_Mutate r version cowVersion h;
                           (x, h) \<leftarrow> h_rotateRight x version cowVersion h;
                           h \<leftarrow> modify a (set_right (MemRef x)) h;
                           h_rotateLeft a version cowVersion h } }
          else Some (a, h) }"

text \<open>The recursions follow references; they have no result on a heap where following them does not end.\<close>

partial_function (option) h_setRecursive ::
  "nref option \<Rightarrow> bytes \<Rightarrow> bytes \<Rightarrow> u32 \<Rightarrow> u32 \<Rightarrow> heap \<Rightarrow> ((nat \<times> bool) \<times> heap) option" where
  "h_setRecursive node key val version cowVersion h =
     (case node of
        None \<Rightarrow> Some (let (a, h) = alloc (LeafCell None version key val) h in ((a, True), h))
      | Some n \<Rightarrow>
          do { c \<leftarrow> load h n;
               case c of
                 LeafCell hs ver nodeKey v \<Rightarrow>
                   (let cmp = bytes_Compare key nodeKey in
                    if cmp = -1 then
                      (let (lf, h) = alloc (LeafCell None version key val) h;
                           (a, h) = alloc (BranchCell None 1 2 version nodeKey (MemRef lf) n) h
                       in Some ((a, False), h))
                    else if cmp = 1 then
                      (let (lf, h) = alloc (LeafCell None version key val) h;
                           (a, h) = alloc (BranchCell None 1 2 version key n (MemRef lf)) h
                       in Some ((a, False), h))
                    else
                      do { (a, h) \<leftarrow> h_Mutate n version cowVersion h;
                           h \<leftarrow> modify a (set_value val) h;
                           Some ((a, True), h) })
               | BranchCell hs hgt s ver nodeKey l r \<Rightarrow>
                   do { ((a, updated), h) \<leftarrow>
                          (if bytes_Compare key nodeKey = -1 then
                             do { ((child, updated), h) \<leftarrow> h_setRecursive (Some l) key val version cowVersion h;
                                  (a, h) \<leftarrow> h_Mutate n version cowVersion h;
                                  h \<leftarrow> modify a (set_left (MemRef child)) h;
                                  Some ((a, updated), h) }
                           else
                             do { ((child, updated), h) \<leftarrow> h_setRecursive (Some r) key val version cowVersion h;
                                  (a, h) \<leftarrow> h_Mutate n version cowVersion h;
                                  h \<leftarrow> modify a (set_right (MemRef child)) h;
                                  Some ((a, updated), h) });
                        if \<not> updated then
                          do { h \<leftarrow> h_updateHeightSize a h;
                               (a, h) \<leftarrow> h_reBalance a version cowVersion h;
                               Some ((a, updated), h) }
                        else Some ((a, updated), h) } })"

partial_function (option) h_removeRecursive ::
  "nref option \<Rightarrow> bytes \<Rightarrow> u32 \<Rightarrow> u32 \<Rightarrow> heap \<Rightarrow> ((bytes option \<times> nref option \<times> bytes option) \<times> heap) option" where
  "h_removeRecursive node key version cowVersion h =
     (case node of
        None \<Rightarrow> Some ((None, None, None), h)
      | Some n \<Rightarrow>
          do { c \<leftarrow> load h n;
               case c of
                 LeafCell hs ver nodeKey v \<Rightarrow>
                   Some (if nodeKey = key then ((Some v, None, None), h) else ((None, Some n, None), h))
               | BranchCell hs hgt s ver nodeKey l r \<Rightarrow>
                   if bytes_Compare key nodeKey = -1 then
                     do { ((val, newLeft, newKey), h) \<leftarrow> h_removeRecursive (Some l) key version cowVersion h;
                          if val = None then Some ((None, Some n, None), h)
                          else case newLeft of
                            None \<Rightarrow> Some ((val, Some r, Some nodeKey), h)
                          | Some newLeft \<Rightarrow>
                              do { (a, h) \<leftarrow> h_Mutate n version cowVersion h;
                                   h \<leftarrow> modify a (set_left newLeft) h;
                                   h \<leftarrow> h_updateHeightSize a h;
                                   (a, h) \<leftarrow> h_reBalance a version cowVersion h;
                                   Some ((val, Some (MemRef a), newKey), h) } }
                   else
                     do { ((val, newRight, newKey), h) \<leftarrow> h_removeRecursive (Some r) key version cowVersion h;
                          if val = None then Some ((None, Some n, None), h)
                          else case newRight of
                            None \<Rightarrow> Some ((val, Some l, None), h)
                          | Some newRight \<Rightarrow>
                              do { (a, h) \<leftarrow> h_Mutate n version cowVersion h;
                                   h \<leftarrow> modify a (set_right newRight) h;
                                   h \<leftarrow> (case newKey of None \<Rightarrow> Some h | Some k \<Rightarrow> modify a (set_key k) h);
                                   h \<leftarrow> h_updateHeightSize a h;
                                   (a, h) \<leftarrow> h_reBalance a version cowVersion h;
                                   Some ((val, Some (MemRef a), None), h) } } })"

fun stored_hash :: "node \<Rightarrow> bytes option" where
  "stored_hash (Leaf (Persisted hs) ver k v) = Some hs"
| "stored_hash (Branch (Persisted hs) hgt s ver k l r) = Some hs"
| "stored_hash n = None"

partial_function (option) h_Hash :: "nref \<Rightarrow> heap \<Rightarrow> (bytes \<times> heap) option" where
  "h_Hash node h =
     (case node of
        PersistedRef n \<Rightarrow> do { hs \<leftarrow> stored_hash n; Some (hs, h) }
      | MemRef a \<Rightarrow>
          do { c \<leftarrow> h_cells h a;
               case c of
                 LeafCell (Some hs) ver k v \<Rightarrow> Some (hs, h)
               | BranchCell (Some hs) hgt s ver k l r \<Rightarrow> Some (hs, h)
               | LeafCell None ver k v \<Rightarrow>
                   (let hs = sha256 (hash_header 0 1 ver @ EncodeBytes k @ EncodeBytes (sha256 v))
                    in do { h \<leftarrow> modify a (\<lambda>c. Some (set_hash hs c)) h; Some (hs, h) })
               | BranchCell None hgt s ver k l r \<Rightarrow>
                   do { (lh, h) \<leftarrow> h_Hash l h;
                        (rh, h) \<leftarrow> h_Hash r h;
                        (let hs = sha256 (hash_header hgt s ver @ EncodeBytes lh @ EncodeBytes rh)
                         in do { h \<leftarrow> modify a (\<lambda>c. Some (set_hash hs c)) h; Some (hs, h) }) } })"

section \<open>Heaps that represent values\<close>

text \<open>
  A reference represents a node when the cells it leads to form a tree with the fields of the node; \<open>A\<close> is the set of
  their addresses. A cached hash is the Merkle hash or not there; the caches of the value are not compared.
\<close>

fun rep :: "heap \<Rightarrow> nref \<Rightarrow> node \<Rightarrow> nat set \<Rightarrow> bool" where
  "rep h (PersistedRef m) n A \<longleftrightarrow> m = n \<and> persisted n = n \<and> A = {}"
| "rep h (MemRef a) (Leaf rp ver k v) A \<longleftrightarrow>
     (\<exists>c hs. rp = Mem c \<and> h_cells h a = Some (LeafCell hs ver k v) \<and> hs \<in> {None, Some (merkle (Leaf rp ver k v))}) \<and> A = {a}"
| "rep h (MemRef a) (Branch rp hgt s ver k l r) A \<longleftrightarrow>
     (\<exists>c hs xl xr Al Ar. rp = Mem c \<and> h_cells h a = Some (BranchCell hs hgt s ver k xl xr) \<and>
        hs \<in> {None, Some (merkle (Branch rp hgt s ver k l r))} \<and>
        rep h xl l Al \<and> rep h xr r Ar \<and> Al \<inter> Ar = {} \<and> a \<notin> Al \<union> Ar \<and> A = insert a (Al \<union> Ar))"

fun addr :: "nref \<Rightarrow> nat set" where
  "addr (MemRef a) = {a}"
| "addr (PersistedRef n) = {}"

definition closed :: "heap \<Rightarrow> bool" where
  "closed h \<longleftrightarrow> (\<forall>a c. h_cells h a = Some c \<longrightarrow> a < h_next h)"

text \<open>The cells of a tree that may be changed in place.\<close>

definition writable :: "u32 \<Rightarrow> heap \<Rightarrow> nat set \<Rightarrow> nat set" where
  "writable cow h A = {a \<in> A. \<exists>c. h_cells h a = Some c \<and> cow < cell_Version c}"

text \<open>A change of a tree with the addresses \<open>A\<close>, which has the addresses \<open>A'\<close> afterwards.\<close>

definition update :: "u32 \<Rightarrow> heap \<Rightarrow> nat set \<Rightarrow> heap \<Rightarrow> nat set \<Rightarrow> bool" where
  "update cow h A h' A' \<longleftrightarrow> closed h' \<and> h_next h \<le> h_next h' \<and> A' \<subseteq> A \<union> {h_next h..<h_next h'} \<and>
     (\<forall>a < h_next h. h_cells h' a = h_cells h a \<or> a \<in> writable cow h A)"

lemma persisted_parts:
  "persisted (Branch rp hgt s ver k l r) = Branch rp hgt s ver k l r \<Longrightarrow> persisted l = l \<and> persisted r = r"
  by simp

lemma rep_leaf:
  assumes "rep h r (Leaf rp ver k v) A"
  obtains hs where "load h r = Some (LeafCell hs ver k v)" "A = addr r"
  using assms by (cases r) auto

lemma rep_branch:
  assumes "rep h r (Branch rp hgt s ver k l n) A"
  obtains hs xl xr Al Ar where "load h r = Some (BranchCell hs hgt s ver k xl xr)" "rep h xl l Al" "rep h xr n Ar" "Al \<inter> Ar = {}"
    "addr r \<inter> (Al \<union> Ar) = {}" "A = addr r \<union> Al \<union> Ar"
proof (cases r)
  case (MemRef a)
  then obtain hs xl xr Al Ar where "h_cells h a = Some (BranchCell hs hgt s ver k xl xr)" "rep h xl l Al" "rep h xr n Ar" "Al \<inter> Ar = {}"
    "a \<notin> Al \<union> Ar" "A = insert a (Al \<union> Ar)" using assms by auto
  then show thesis using that [of hs xl xr Al Ar] MemRef by simp
next
  case (PersistedRef m)
  have m: "m = Branch rp hgt s ver k l n" "persisted (Branch rp hgt s ver k l n) = Branch rp hgt s ver k l n" "A = {}"
    using assms unfolding PersistedRef rep.simps by blast+
  have "rep h (PersistedRef l) l {}" "rep h (PersistedRef n) n {}" using persisted_parts [OF m(2)] by simp_all
  then show thesis using that [of None "PersistedRef l" "PersistedRef n" "{}" "{}"] by (simp add: PersistedRef m(1,3))
qed

lemma rep_load:
  assumes "rep h r n A"
  obtains c where "load h r = Some c" "cell_Height c = node_Height n" "cell_Size c = node_Size n" "cell_Version c = node_Version n"
    "cell_Key c = node_Key n"
proof (cases n)
  case (Leaf rp ver k v)
  with assms obtain hs where "load h r = Some (LeafCell hs ver k v)" by (blast elim: rep_leaf)
  then show thesis using that Leaf by simp
next
  case (Branch rp hgt s ver k l x)
  with assms obtain hs xl xr where "load h r = Some (BranchCell hs hgt s ver k xl xr)" by (blast elim: rep_branch)
  then show thesis using that Branch by simp
qed

lemma rep_cong:
  assumes "rep h r n A" and "\<And>a. a \<in> A \<Longrightarrow> h_cells h' a = h_cells h a"
  shows "rep h' r n A"
  using assms
proof (induction n arbitrary: r A)
  case (Leaf rp ver k v)
  then show ?case by (cases r) auto
next
  case (Branch rp hgt s ver k l n)
  show ?case
  proof (cases r)
    case (MemRef a)
    obtain hs xl xr Al Ar where x: "h_cells h a = Some (BranchCell hs hgt s ver k xl xr)" "hs \<in> {None, Some (merkle (Branch rp hgt s ver k l n))}"
      "\<exists>c. rp = Mem c" "rep h xl l Al" "rep h xr n Ar" "Al \<inter> Ar = {}" "a \<notin> Al \<union> Ar" "A = insert a (Al \<union> Ar)"
      using Branch.prems(1) MemRef by auto
    have "rep h' xl l Al" "rep h' xr n Ar" using Branch.IH x(4,5,8) Branch.prems(2) by auto
    moreover have "h_cells h' a = h_cells h a" using Branch.prems(2) x(8) by simp
    ultimately show ?thesis using x MemRef by auto
  qed (use Branch.prems in simp)
qed

lemma rep_cells: "rep h r n A \<Longrightarrow> a \<in> A \<Longrightarrow> h_cells h a \<noteq> None"
proof (induction n arbitrary: r A)
  case (Leaf rp ver k v)
  then show ?case by (cases r) auto
next
  case (Branch rp hgt s ver k l n)
  then show ?case by (cases r) auto
qed

lemma rep_less: "closed h \<Longrightarrow> rep h r n A \<Longrightarrow> a \<in> A \<Longrightarrow> a < h_next h"
  using rep_cells [of h r n A a] by (auto simp: closed_def)

lemma rep_root: "rep h (MemRef a) n A \<Longrightarrow> a \<in> A"
  by (cases n) auto

lemma update_refl: "closed h \<Longrightarrow> update cow h A h A"
  by (auto simp: update_def)

lemma update_trans:
  assumes "update cow h A h1 A1" and "update cow h1 A1 h2 A2"
  shows "update cow h A h2 A2"
proof -
  have "h_cells h2 a = h_cells h a \<or> a \<in> writable cow h A" if a: "a < h_next h" for a
  proof (cases "a \<in> writable cow h1 A1")
    case True
    then show ?thesis using assms(1) a by (auto simp: update_def writable_def)
  next
    case False
    have "a < h_next h1" using assms(1) a by (simp add: update_def)
    then have "h_cells h2 a = h_cells h1 a" using False assms(2) by (auto simp: update_def)
    then show ?thesis using assms(1) a by (auto simp: update_def)
  qed
  moreover have "closed h2" "h_next h \<le> h_next h2" "A2 \<subseteq> A \<union> {h_next h..<h_next h2}"
    using assms by (auto simp: update_def subset_iff)
  ultimately show ?thesis unfolding update_def by blast
qed

lemma update_extend: "update cow h A h' A' \<Longrightarrow> update cow h (B \<union> A) h' (B \<union> A')"
  by (auto simp: update_def writable_def)

lemma update_frame:
  assumes "closed h" and "update cow h A h' A'" and "rep h r n B" and "writable cow h A \<inter> B = {}"
  shows "rep h' r n B"
proof (rule rep_cong [OF assms(3)])
  fix a assume a: "a \<in> B"
  then show "h_cells h' a = h_cells h a" using rep_less [OF assms(1,3)] assms(2,4) by (auto simp: update_def)
qed

lemma update_apart:
  assumes "closed h" and "update cow h A h' A'" and "rep h r n B" and "A \<inter> B = {}"
  shows "A' \<inter> B = {}"
proof -
  have "False" if x: "x \<in> A'" "x \<in> B" for x
  proof -
    have "x < h_next h" by (rule rep_less [OF assms(1,3) x(2)])
    then have "x \<in> A" using assms(2) x(1) by (auto simp: update_def)
    then show False using x(2) assms(4) by blast
  qed
  then show ?thesis by blast
qed

lemma writable_subset: "writable cow h A \<subseteq> A"
  by (auto simp: writable_def)

section \<open>Operations on nodes\<close>

lemma put_cell_simps [simp]:
  "h_cells (put_cell a c h) = (h_cells h)(a \<mapsto> c)" "h_next (put_cell a c h) = h_next h"
  by (simp_all add: put_cell_def)

lemma put_cell_closed: "closed h \<Longrightarrow> a < h_next h \<Longrightarrow> closed (put_cell a c h)"
  by (auto simp: closed_def)

lemma modify_cell: "h_cells h a = Some c \<Longrightarrow> f c = Some c' \<Longrightarrow> modify a f h = Some (put_cell a c' h)"
  by (simp add: modify_def)

lemma refresh_simps [simp]:
  "cell_left (refresh ver c) = cell_left c" "cell_right (refresh ver c) = cell_right c" "cell_Version (refresh ver c) = ver"
  by (cases c; simp)+

lemma h_Mutate_spec:
  assumes "closed h" and "load h r = Some c"
  obtains a h' c' where "h_Mutate r version cow h = Some (a, h')" "h_cells h' = (h_cells h)(a \<mapsto> refresh version c)" "closed h'"
    "h_next h \<le> h_next h'" "a < h_next h'" "h_next h \<le> a \<or> r = MemRef a \<and> cow < cell_Version c"
    "load h' r = Some c'" "cell_left c' = cell_left c" "cell_right c' = cell_right c"
proof (cases r)
  case (PersistedRef n)
  let ?h = "snd (alloc (refresh version c) h)"
  have "load ?h r = Some c" using assms(2) PersistedRef by (cases n) auto
  then show thesis
    using that [of "h_next h" ?h c] assms PersistedRef by (auto simp: h_Mutate_def alloc_def closed_def less_Suc_eq)
next
  case (MemRef a)
  have c: "h_cells h a = Some c" using assms(2) MemRef by simp
  then have a: "a < h_next h" using assms(1) by (simp add: closed_def)
  show thesis
  proof (cases "cell_Version c \<le> cow")
    case True
    let ?h = "snd (alloc (refresh version c) h)"
    show thesis using that [of "h_next h" ?h c] assms MemRef True c a by (auto simp: h_Mutate_def alloc_def closed_def less_Suc_eq)
  next
    case False
    then show thesis
      using that [of a "put_cell a (refresh version c) h" "refresh version c"] assms MemRef c a
      by (auto simp: h_Mutate_def closed_def)
  qed
qed

lemma h_updateHeightSize_rep:
  assumes "h_cells h a = Some (BranchCell hs hgt s ver k xl xr)" and "rep h xl l Al" and "rep h xr r Ar"
  shows "h_updateHeightSize a h =
    Some (put_cell a (BranchCell hs (max (node_Height l) (node_Height r) + 1) (node_Size l + node_Size r) ver k xl xr) h)"
proof -
  obtain cl where "load h xl = Some cl" "cell_Height cl = node_Height l" "cell_Size cl = node_Size l" by (rule rep_load [OF assms(2)])
  moreover obtain cr where "load h xr = Some cr" "cell_Height cr = node_Height r" "cell_Size cr = node_Size r" by (rule rep_load [OF assms(3)])
  ultimately show ?thesis using assms(1) by (simp add: h_updateHeightSize_def)
qed

lemma h_calcBalance_rep:
  assumes "rep h x (Branch rp hgt s ver k l r) A"
  shows "h_calcBalance h x = Some (calcBalance (Branch rp hgt s ver k l r))"
proof -
  obtain hs xl xr Al Ar where x: "load h x = Some (BranchCell hs hgt s ver k xl xr)" "rep h xl l Al" "rep h xr r Ar"
    using assms by (blast elim: rep_branch)
  obtain cl where "load h xl = Some cl" "cell_Height cl = node_Height l" by (rule rep_load [OF x(2)])
  moreover obtain cr where "load h xr = Some cr" "cell_Height cr = node_Height r" by (rule rep_load [OF x(3)])
  ultimately show ?thesis using x(1) by (simp add: h_calcBalance_def calcBalance_def)
qed

text \<open>A new or a writable cell becomes the root of two trees that are apart.\<close>

lemma rep_join:
  assumes "h_cells h a = Some (BranchCell None hgt s ver k xl xr)" and "rep h xl l Al" and "rep h xr r Ar" and "Al \<inter> Ar = {}" and "a \<notin> Al \<union> Ar"
  shows "rep h (MemRef a) (Branch (Mem c) hgt s ver k l r) (insert a (Al \<union> Ar))"
  using assms by auto

declare rep.simps [simp del]

lemma rep_put: "rep h r n A \<Longrightarrow> a \<notin> A \<Longrightarrow> h_cells h' = (h_cells h)(a \<mapsto> c) \<Longrightarrow> rep h' r n A"
  by (rule rep_cong) auto

lemma rep_put2: "rep h r n A \<Longrightarrow> a \<notin> A \<Longrightarrow> b \<notin> A \<Longrightarrow> h_cells h' = (h_cells h)(a \<mapsto> c, b \<mapsto> d) \<Longrightarrow> rep h' r n A"
  by (rule rep_cong) auto

lemma update_put2:
  assumes "closed h" and "h_cells h' = (h_cells h)(a \<mapsto> c, b \<mapsto> d)" and "h_next h \<le> h_next h'" and "a < h_next h'" and "b < h_next h'"
    and "h_next h \<le> a \<or> a \<in> writable cow h A" and "h_next h \<le> b \<or> b \<in> writable cow h A" and "A' \<subseteq> insert a (insert b A)"
  shows "update cow h A h' A'"
proof -
  have "closed h'" using assms(1-5) by (fastforce simp: closed_def split: if_splits)
  moreover have "A' \<subseteq> A \<union> {h_next h..<h_next h'}" using assms(4-8) writable_subset [of cow h A] by auto
  moreover have "\<forall>x < h_next h. h_cells h' x = h_cells h x \<or> x \<in> writable cow h A" using assms(2,6,7) by auto
  ultimately show ?thesis using assms(3) by (simp add: update_def)
qed

text \<open>A node that \<^verbatim>\<open>Mutate\<close> has returned: it belongs to this tree alone and has no cached hash.\<close>

fun cell_hash :: "cell \<Rightarrow> bytes option" where
  "cell_hash (LeafCell hs ver k v) = hs"
| "cell_hash (BranchCell hs hgt s ver k l r) = hs"

definition own :: "u32 \<Rightarrow> heap \<Rightarrow> nat \<Rightarrow> bool" where
  "own cow h a \<longleftrightarrow> (\<exists>c. h_cells h a = Some c \<and> cell_hash c = None \<and> cow < cell_Version c)"

lemma own_branch:
  assumes "rep h (MemRef a) (Branch rp hgt s ver k l r) A" and "own cow h a"
  obtains c xl xr Al Ar where "rp = Mem c" "h_cells h a = Some (BranchCell None hgt s ver k xl xr)" "cow < ver" "rep h xl l Al" "rep h xr r Ar"
    "Al \<inter> Ar = {}" "a \<notin> Al \<union> Ar" "A = insert a (Al \<union> Ar)"
  using assms by (auto simp: own_def rep.simps(3))

lemma h_rotateRight_spec:
  assumes cl: "closed h" and rp: "rep h (MemRef a) (Branch rp hgt s ver k (Branch rp1 hg1 s1 ver1 k1 ll lr) rn) A" and ow: "own cow h a" and v: "cow < version"
  shows "\<exists>b h' A'. h_rotateRight a version cow h = Some (b, h') \<and> own cow h' b \<and> update cow h A h' A' \<and>
    rep h' (MemRef b) (rotateRight (Branch rp hgt s ver k (Branch rp1 hg1 s1 ver1 k1 ll lr) rn) version) A'"
proof -
  obtain c xl xr Al Ar where x: "rp = Mem c" "h_cells h a = Some (BranchCell None hgt s ver k xl xr)" "cow < ver"
    "rep h xl (Branch rp1 hg1 s1 ver1 k1 ll lr) Al" "rep h xr rn Ar" "Al \<inter> Ar = {}" "a \<notin> Al \<union> Ar" "A = insert a (Al \<union> Ar)"
    by (rule own_branch [OF rp ow])
  obtain hs1 xll xlr All Alr where y: "load h xl = Some (BranchCell hs1 hg1 s1 ver1 k1 xll xlr)" "rep h xll ll All" "rep h xlr lr Alr" "All \<inter> Alr = {}"
    "addr xl \<inter> (All \<union> Alr) = {}" "Al = addr xl \<union> All \<union> Alr" by (rule rep_branch [OF x(4)])
  obtain b h1 c1 where m: "h_Mutate xl version cow h = Some (b, h1)" "h_cells h1 = (h_cells h)(b \<mapsto> refresh version (BranchCell hs1 hg1 s1 ver1 k1 xll xlr))"
    "closed h1" "h_next h \<le> h_next h1" "b < h_next h1" "h_next h \<le> b \<or> xl = MemRef b \<and> cow < cell_Version (BranchCell hs1 hg1 s1 ver1 k1 xll xlr)"
    "load h1 xl = Some c1" "cell_left c1 = cell_left (BranchCell hs1 hg1 s1 ver1 k1 xll xlr)"
    "cell_right c1 = cell_right (BranchCell hs1 hg1 s1 ver1 k1 xll xlr)" by (rule h_Mutate_spec [OF cl y(1)])
  have al: "a < h_next h" using x(2) cl by (auto simp: closed_def)
  have less: "z < h_next h" if "z \<in> All \<union> Alr \<union> Ar" for z using that rep_less [OF cl y(2)] rep_less [OF cl y(3)] rep_less [OF cl x(5)] by blast
  have b: "b \<notin> All \<union> Alr \<union> Ar" "b \<noteq> a" using m(6) less [of b] y(5,6) x(6,7) al by auto
  have a: "a \<notin> All \<union> Alr \<union> Ar" using x(7) y(6) by blast
  define H S where "H = max (node_Height lr) (node_Height rn) + 1" and "S = node_Size lr + node_Size rn"
  define h3 where "h3 = put_cell b (BranchCell None hg1 s1 version k1 xll (MemRef a)) (put_cell a (BranchCell None hgt s ver k xlr xr) h1)"
  define h4 where "h4 = put_cell a (BranchCell None H S ver k xlr xr) h3"
  define h5 where "h5 = put_cell b (BranchCell None (max (node_Height ll) H + 1) (node_Size ll + S) version k1 xll (MemRef a)) h4"
  have c3: "h_cells h3 = (h_cells h)(a \<mapsto> BranchCell None hgt s ver k xlr xr, b \<mapsto> BranchCell None hg1 s1 version k1 xll (MemRef a))"
    using b(2) m(2) by (auto simp: h3_def)
  have c4: "h_cells h4 = (h_cells h)(a \<mapsto> BranchCell None H S ver k xlr xr, b \<mapsto> BranchCell None hg1 s1 version k1 xll (MemRef a))"
    using b(2) c3 by (auto simp: h4_def)
  have c5: "h_cells h5 = (h_cells h)(a \<mapsto> BranchCell None H S ver k xlr xr,
      b \<mapsto> BranchCell None (max (node_Height ll) H + 1) (node_Size ll + S) version k1 xll (MemRef a))"
    using b(2) c4 by (auto simp: h5_def)
  have parts: "rep h' xll ll All" "rep h' xlr lr Alr" "rep h' xr rn Ar" if "h_cells h' = (h_cells h)(a \<mapsto> p, b \<mapsto> q)" for h' p q
    using rep_put2 [OF y(2) _ _ that] rep_put2 [OF y(3) _ _ that] rep_put2 [OF x(5) _ _ that] a b(1) by blast+
  have inner: "rep h' (MemRef a) (Branch (Mem c) H S ver k lr rn) (insert a (Alr \<union> Ar))"
    if "h_cells h' = (h_cells h)(a \<mapsto> BranchCell None H S ver k xlr xr, b \<mapsto> q)" for h' q
    by (rule rep_join [OF _ parts(2,3) [OF that]]) (use that b(2) a x(6) y(6) in auto)
  have "h_rotateRight a version cow h = Some (b, h5)"
    using x(2) m(1,2,7,9) b(2) modify_cell [of h1 a "BranchCell None hgt s ver k xl xr" "set_left xlr"]
      h_updateHeightSize_rep [OF _ parts(2,3) [OF c3], of a] h_updateHeightSize_rep [OF _ parts(1) [OF c4] inner [OF c4], of b]
    by (simp add: h_rotateRight_def modify_def h3_def h4_def h5_def H_def S_def)
  moreover have "own cow h5 b" using c5 v by (simp add: own_def)
  moreover have "update cow h A h5 (insert b (All \<union> insert a (Alr \<union> Ar)))"
  proof (rule update_put2 [OF cl c5])
    show "h_next h \<le> h_next h5" "b < h_next h5" "a < h_next h5" using m(4,5) al by (simp_all add: h5_def h4_def h3_def)
    show "h_next h \<le> a \<or> a \<in> writable cow h A" using x(2,3,8) by (simp add: writable_def)
    show "h_next h \<le> b \<or> b \<in> writable cow h A" using m(6) x(8) y(1,6) by (auto simp: writable_def)
    show "insert b (All \<union> insert a (Alr \<union> Ar)) \<subseteq> insert a (insert b A)" using x(8) y(6) by blast
  qed
  moreover have "rep h5 (MemRef b) (Branch (Mem None) (max (node_Height ll) H + 1) (node_Size ll + S) version k1 ll (Branch (Mem c) H S ver k lr rn))
      (insert b (All \<union> insert a (Alr \<union> Ar)))"
    by (rule rep_join [OF _ parts(1) [OF c5] inner [OF c5]]) (use c5 a b x(6) y(4,6) in auto)
  moreover have "rotateRight (Branch rp hgt s ver k (Branch rp1 hg1 s1 ver1 k1 ll lr) rn) version =
      Branch (Mem None) (max (node_Height ll) H + 1) (node_Size ll + S) version k1 ll (Branch (Mem c) H S ver k lr rn)"
    by (simp add: rotateRight_def H_def S_def x(1))
  ultimately show ?thesis by metis
qed

lemma h_rotateLeft_spec:
  assumes cl: "closed h" and rp: "rep h (MemRef a) (Branch rp hgt s ver k ln (Branch rp1 hg1 s1 ver1 k1 rl rr)) A" and ow: "own cow h a" and v: "cow < version"
  shows "\<exists>b h' A'. h_rotateLeft a version cow h = Some (b, h') \<and> own cow h' b \<and> update cow h A h' A' \<and>
    rep h' (MemRef b) (rotateLeft (Branch rp hgt s ver k ln (Branch rp1 hg1 s1 ver1 k1 rl rr)) version) A'"
proof -
  obtain c xl xr Al Ar where x: "rp = Mem c" "h_cells h a = Some (BranchCell None hgt s ver k xl xr)" "cow < ver"
    "rep h xl ln Al" "rep h xr (Branch rp1 hg1 s1 ver1 k1 rl rr) Ar" "Al \<inter> Ar = {}" "a \<notin> Al \<union> Ar" "A = insert a (Al \<union> Ar)"
    by (rule own_branch [OF rp ow])
  obtain hs1 xrl xrr Arl Arr where y: "load h xr = Some (BranchCell hs1 hg1 s1 ver1 k1 xrl xrr)" "rep h xrl rl Arl" "rep h xrr rr Arr" "Arl \<inter> Arr = {}"
    "addr xr \<inter> (Arl \<union> Arr) = {}" "Ar = addr xr \<union> Arl \<union> Arr" by (rule rep_branch [OF x(5)])
  obtain b h1 c1 where m: "h_Mutate xr version cow h = Some (b, h1)" "h_cells h1 = (h_cells h)(b \<mapsto> refresh version (BranchCell hs1 hg1 s1 ver1 k1 xrl xrr))"
    "closed h1" "h_next h \<le> h_next h1" "b < h_next h1" "h_next h \<le> b \<or> xr = MemRef b \<and> cow < cell_Version (BranchCell hs1 hg1 s1 ver1 k1 xrl xrr)"
    "load h1 xr = Some c1" "cell_left c1 = cell_left (BranchCell hs1 hg1 s1 ver1 k1 xrl xrr)"
    "cell_right c1 = cell_right (BranchCell hs1 hg1 s1 ver1 k1 xrl xrr)" by (rule h_Mutate_spec [OF cl y(1)])
  have al: "a < h_next h" using x(2) cl by (auto simp: closed_def)
  have less: "z < h_next h" if "z \<in> Arl \<union> Arr \<union> Al" for z using that rep_less [OF cl y(2)] rep_less [OF cl y(3)] rep_less [OF cl x(4)] by blast
  have b: "b \<notin> Arl \<union> Arr \<union> Al" "b \<noteq> a" using m(6) less [of b] y(5,6) x(6,7) al by auto
  have a: "a \<notin> Arl \<union> Arr \<union> Al" using x(7) y(6) by blast
  define H S where "H = max (node_Height ln) (node_Height rl) + 1" and "S = node_Size ln + node_Size rl"
  define h3 where "h3 = put_cell b (BranchCell None hg1 s1 version k1 (MemRef a) xrr) (put_cell a (BranchCell None hgt s ver k xl xrl) h1)"
  define h4 where "h4 = put_cell a (BranchCell None H S ver k xl xrl) h3"
  define h5 where "h5 = put_cell b (BranchCell None (max H (node_Height rr) + 1) (S + node_Size rr) version k1 (MemRef a) xrr) h4"
  have c3: "h_cells h3 = (h_cells h)(a \<mapsto> BranchCell None hgt s ver k xl xrl, b \<mapsto> BranchCell None hg1 s1 version k1 (MemRef a) xrr)"
    using b(2) m(2) by (auto simp: h3_def)
  have c4: "h_cells h4 = (h_cells h)(a \<mapsto> BranchCell None H S ver k xl xrl, b \<mapsto> BranchCell None hg1 s1 version k1 (MemRef a) xrr)"
    using b(2) c3 by (auto simp: h4_def)
  have c5: "h_cells h5 = (h_cells h)(a \<mapsto> BranchCell None H S ver k xl xrl,
      b \<mapsto> BranchCell None (max H (node_Height rr) + 1) (S + node_Size rr) version k1 (MemRef a) xrr)"
    using b(2) c4 by (auto simp: h5_def)
  have parts: "rep h' xl ln Al" "rep h' xrl rl Arl" "rep h' xrr rr Arr" if "h_cells h' = (h_cells h)(a \<mapsto> p, b \<mapsto> q)" for h' p q
    using rep_put2 [OF x(4) _ _ that] rep_put2 [OF y(2) _ _ that] rep_put2 [OF y(3) _ _ that] a b(1) by blast+
  have inner: "rep h' (MemRef a) (Branch (Mem c) H S ver k ln rl) (insert a (Al \<union> Arl))"
    if "h_cells h' = (h_cells h)(a \<mapsto> BranchCell None H S ver k xl xrl, b \<mapsto> q)" for h' q
    by (rule rep_join [OF _ parts(1,2) [OF that]]) (use that b(2) a x(6) y(6) in auto)
  have "h_rotateLeft a version cow h = Some (b, h5)"
    using x(2) m(1,2,7,8) b(2) modify_cell [of h1 a "BranchCell None hgt s ver k xl xr" "set_right xrl"]
      h_updateHeightSize_rep [OF _ parts(1,2) [OF c3], of a] h_updateHeightSize_rep [OF _ inner [OF c4] parts(3) [OF c4], of b]
    by (simp add: h_rotateLeft_def modify_def h3_def h4_def h5_def H_def S_def)
  moreover have "own cow h5 b" using c5 v by (simp add: own_def)
  moreover have "update cow h A h5 (insert b (insert a (Al \<union> Arl) \<union> Arr))"
  proof (rule update_put2 [OF cl c5])
    show "h_next h \<le> h_next h5" "b < h_next h5" "a < h_next h5" using m(4,5) al by (simp_all add: h5_def h4_def h3_def)
    show "h_next h \<le> a \<or> a \<in> writable cow h A" using x(2,3,8) by (simp add: writable_def)
    show "h_next h \<le> b \<or> b \<in> writable cow h A" using m(6) x(8) y(1,6) by (auto simp: writable_def)
    show "insert b (insert a (Al \<union> Arl) \<union> Arr) \<subseteq> insert a (insert b A)" using x(8) y(6) by blast
  qed
  moreover have "rep h5 (MemRef b) (Branch (Mem None) (max H (node_Height rr) + 1) (S + node_Size rr) version k1 (Branch (Mem c) H S ver k ln rl) rr)
      (insert b (insert a (Al \<union> Arl) \<union> Arr))"
    by (rule rep_join [OF _ inner [OF c5] parts(3) [OF c5]]) (use c5 a b x(6) y(4,6) in auto)
  moreover have "rotateLeft (Branch rp hgt s ver k ln (Branch rp1 hg1 s1 ver1 k1 rl rr)) version =
      Branch (Mem None) (max H (node_Height rr) + 1) (S + node_Size rr) version k1 (Branch (Mem c) H S ver k ln rl) rr"
    by (simp add: rotateLeft_def H_def S_def x(1))
  ultimately show ?thesis by metis
qed

text \<open>Changing the fields of an own node.\<close>

lemma own_put:
  assumes "closed h" and "own cow h a" and "rep h xl l Al" and "rep h xr r Ar" and "Al \<inter> Ar = {}" and "a \<notin> Al \<union> Ar" and "cow < ver"
    and "h' = put_cell a (BranchCell None hgt s ver k xl xr) h"
  shows "rep h' (MemRef a) (Branch (Mem c) hgt s ver k l r) (insert a (Al \<union> Ar))" and "own cow h' a"
    and "update cow h (insert a (Al \<union> Ar)) h' (insert a (Al \<union> Ar))"
proof -
  have c: "h_cells h' = (h_cells h)(a \<mapsto> BranchCell None hgt s ver k xl xr)" using assms(8) by simp
  show "rep h' (MemRef a) (Branch (Mem c) hgt s ver k l r) (insert a (Al \<union> Ar))"
    by (rule rep_join [OF _ rep_put [OF assms(3) _ c] rep_put [OF assms(4) _ c]]) (use assms(5,6) c in auto)
  show "own cow h' a" using c assms(7) by (simp add: own_def)
  have "a < h_next h" using assms(1,2) by (auto simp: own_def closed_def)
  moreover have "a \<in> writable cow h (insert a (Al \<union> Ar))" using assms(2) by (auto simp: own_def writable_def)
  ultimately show "update cow h (insert a (Al \<union> Ar)) h' (insert a (Al \<union> Ar))"
    using put_cell_closed [OF assms(1)] assms(8) by (auto simp: update_def)
qed

text \<open>\<^verbatim>\<open>Mutate\<close> of a branch, with new children.\<close>

lemma mutate_relink:
  assumes cl: "closed h" and ld: "load h r = Some (BranchCell hs hgt s ver k yl yr)" and v: "cow < version"
    and x: "rep h xl l Al" "rep h xr n Ar" "Al \<inter> Ar = {}" "addr r \<inter> (Al \<union> Ar) = {}"
  obtains a h' where "h_Mutate r version cow h = Some (a, h')" "h_cells h' a = Some (BranchCell None hgt s version k yl yr)" "own cow h' a" "closed h'"
    "a \<notin> Al \<union> Ar" "rep h' xl l Al" "rep h' xr n Ar" "update cow h (addr r \<union> Al \<union> Ar) h' (insert a (Al \<union> Ar))"
proof -
  obtain a h' where m: "h_Mutate r version cow h = Some (a, h')" "h_cells h' = (h_cells h)(a \<mapsto> refresh version (BranchCell hs hgt s ver k yl yr))"
    "closed h'" "h_next h \<le> h_next h'" "a < h_next h'" "h_next h \<le> a \<or> r = MemRef a \<and> cow < cell_Version (BranchCell hs hgt s ver k yl yr)"
    by (rule h_Mutate_spec [OF cl ld])
  have "z < h_next h" if "z \<in> Al \<union> Ar" for z using that rep_less [OF cl x(1)] rep_less [OF cl x(2)] by blast
  then have a: "a \<notin> Al \<union> Ar" using m(6) x(4) by fastforce
  have "h_next h \<le> a \<or> a \<in> writable cow h (addr r \<union> Al \<union> Ar)" using m(6) ld by (auto simp: writable_def)
  then have "update cow h (addr r \<union> Al \<union> Ar) h' (insert a (Al \<union> Ar))"
    using m(2-5) writable_subset [of cow h "addr r \<union> Al \<union> Ar"] by (auto simp: update_def)
  moreover have "rep h' xl l Al" "rep h' xr n Ar" using rep_put [OF x(1) _ m(2)] rep_put [OF x(2) _ m(2)] a by blast+
  ultimately show thesis using that m(1-3) a v by (simp add: own_def)
qed

lemma mutate_branch:
  assumes "closed h" and "rep h r (Branch rp hgt s ver k l n) A" and "cow < version"
  shows "\<exists>a h' A'. h_Mutate r version cow h = Some (a, h') \<and> own cow h' a \<and> update cow h A h' A' \<and>
    rep h' (MemRef a) (Mutate (Branch rp hgt s ver k l n) version) A'"
proof -
  obtain hs xl xr Al Ar where x: "load h r = Some (BranchCell hs hgt s ver k xl xr)" "rep h xl l Al" "rep h xr n Ar" "Al \<inter> Ar = {}"
    "addr r \<inter> (Al \<union> Ar) = {}" "A = addr r \<union> Al \<union> Ar" by (rule rep_branch [OF assms(2)])
  obtain a h' where m: "h_Mutate r version cow h = Some (a, h')" "h_cells h' a = Some (BranchCell None hgt s version k xl xr)" "own cow h' a" "closed h'"
    "a \<notin> Al \<union> Ar" "rep h' xl l Al" "rep h' xr n Ar" "update cow h (addr r \<union> Al \<union> Ar) h' (insert a (Al \<union> Ar))"
    by (rule mutate_relink [OF assms(1) x(1) assms(3) x(2-5)])
  have "rep h' (MemRef a) (Branch (Mem None) hgt s version k l n) (insert a (Al \<union> Ar))" by (rule rep_join [OF m(2,6,7) x(4) m(5)])
  then show ?thesis using m(1,3,8) x(6) by auto
qed

lemma h_rebalance_left:
  assumes cl: "closed h" and rp: "rep h (MemRef a) (Branch rp hgt s ver k l r) A" and ow: "own cow h a" and v: "cow < version"
    and b: "calcBalance (Branch rp hgt s ver k l r) > 1" and l: "l = Branch rp1 hg1 s1 ver1 k1 ll (Branch rp2 hg2 s2 ver2 k2 lrl lrr)"
    and lb: "calcBalance l < 0"
  shows "\<exists>b h' A'. h_reBalance a version cow h = Some (b, h') \<and> own cow h' b \<and> update cow h A h' A' \<and>
    rep h' (MemRef b) (reBalance (Branch rp hgt s ver k l r) version) A'"
proof -
  obtain c xl xr Al Ar where x: "rp = Mem c" "h_cells h a = Some (BranchCell None hgt s ver k xl xr)" "cow < ver" "rep h xl l Al" "rep h xr r Ar"
    "Al \<inter> Ar = {}" "a \<notin> Al \<union> Ar" "A = insert a (Al \<union> Ar)" by (rule own_branch [OF rp ow])
  obtain d h1 A1 where m: "h_Mutate xl version cow h = Some (d, h1)" "own cow h1 d" "update cow h Al h1 A1" "rep h1 (MemRef d) (Mutate l version) A1"
    using mutate_branch [OF cl x(4) [unfolded l] v] unfolding l by blast
  have cl1: "closed h1" using m(3) by (simp add: update_def)
  have m4: "rep h1 (MemRef d) (Branch (Mem None) hg1 s1 version k1 ll (Branch rp2 hg2 s2 ver2 k2 lrl lrr)) A1" using m(4) l by simp
  obtain e h2 A2 where r: "h_rotateLeft d version cow h1 = Some (e, h2)" "own cow h2 e" "update cow h1 A1 h2 A2"
    "rep h2 (MemRef e) (rotateLeft (Mutate l version) version) A2"
    using h_rotateLeft_spec [OF cl1 m4 m(2) v] l by auto
  have u: "update cow h Al h2 A2" by (rule update_trans [OF m(3) r(3)])
  have cl2: "closed h2" using u by (simp add: update_def)
  have a: "a < h_next h" using x(2) cl by (auto simp: closed_def)
  then have ca: "h_cells h2 a = Some (BranchCell None hgt s ver k xl xr)" using u x(2,7) writable_subset [of cow h Al] by (auto simp: update_def)
  have xr2: "rep h2 xr r Ar" "A2 \<inter> Ar = {}" using update_frame [OF cl u x(5)] update_apart [OF cl u x(5)] x(6) writable_subset [of cow h Al] by auto
  have a2: "a \<notin> A2 \<union> Ar" using u x(7) a by (auto simp: update_def)
  have ow2: "own cow h2 a" using ca x(3) by (simp add: own_def)
  define h3 where "h3 = put_cell a (BranchCell None hgt s ver k (MemRef e) xr) h2"
  note p = own_put [OF cl2 ow2 r(4) xr2(1) xr2(2) a2 x(3) h3_def]
  have u3: "update cow h A h3 (insert a (A2 \<union> Ar))"
    using update_trans [OF update_extend [OF u, of "insert a Ar"]] p(3) x(8) by (simp add: Un_commute insert_commute Un_ac)
  have cl3: "closed h3" using u3 by (simp add: update_def)
  have eq: "rotateLeft (Mutate l version) version = mkBranch (Mem None) version k2 (mkBranch (Mem None) version k1 ll lrl) lrr" by (simp add: l rotateLeft_def)
  obtain f h4 A4 where q: "h_rotateRight a version cow h3 = Some (f, h4)" "own cow h4 f" "update cow h3 (insert a (A2 \<union> Ar)) h4 A4"
    "rep h4 (MemRef f) (rotateRight (Branch (Mem c) hgt s ver k (rotateLeft (Mutate l version) version) r) version) A4"
    using h_rotateRight_spec [OF cl3 p(1) [of c, unfolded eq] p(2) v] unfolding eq by blast
  have "h_reBalance a version cow h = Some (f, h4)"
    using h_calcBalance_rep [OF rp] h_calcBalance_rep [OF x(4) [unfolded l]] b lb x(2) m(1) r(1) q(1) ca
    by (simp add: h_reBalance_def modify_def h3_def l)
  moreover have "reBalance (Branch rp hgt s ver k l r) version = rotateRight (Branch (Mem c) hgt s ver k (rotateLeft (Mutate l version) version) r) version"
    using b lb x(1) by (simp add: reBalance_def Let_def)
  ultimately show ?thesis using q(2,4) update_trans [OF u3 q(3)] by auto
qed

lemma h_rebalance_right:
  assumes cl: "closed h" and rp: "rep h (MemRef a) (Branch rp hgt s ver k l r) A" and ow: "own cow h a" and v: "cow < version"
    and b: "calcBalance (Branch rp hgt s ver k l r) < -1" and l: "r = Branch rp1 hg1 s1 ver1 k1 (Branch rp2 hg2 s2 ver2 k2 rll rlr) rr"
    and lb: "calcBalance r > 0"
  shows "\<exists>b h' A'. h_reBalance a version cow h = Some (b, h') \<and> own cow h' b \<and> update cow h A h' A' \<and>
    rep h' (MemRef b) (reBalance (Branch rp hgt s ver k l r) version) A'"
proof -
  obtain c xl xr Al Ar where x: "rp = Mem c" "h_cells h a = Some (BranchCell None hgt s ver k xl xr)" "cow < ver" "rep h xl l Al" "rep h xr r Ar"
    "Al \<inter> Ar = {}" "a \<notin> Al \<union> Ar" "A = insert a (Al \<union> Ar)" by (rule own_branch [OF rp ow])
  obtain d h1 A1 where m: "h_Mutate xr version cow h = Some (d, h1)" "own cow h1 d" "update cow h Ar h1 A1" "rep h1 (MemRef d) (Mutate r version) A1"
    using mutate_branch [OF cl x(5) [unfolded l] v] unfolding l by blast
  have cl1: "closed h1" using m(3) by (simp add: update_def)
  have m4: "rep h1 (MemRef d) (Branch (Mem None) hg1 s1 version k1 (Branch rp2 hg2 s2 ver2 k2 rll rlr) rr) A1" using m(4) l by simp
  obtain e h2 A2 where q1: "h_rotateRight d version cow h1 = Some (e, h2)" "own cow h2 e" "update cow h1 A1 h2 A2"
    "rep h2 (MemRef e) (rotateRight (Mutate r version) version) A2"
    using h_rotateRight_spec [OF cl1 m4 m(2) v] l by auto
  have u: "update cow h Ar h2 A2" by (rule update_trans [OF m(3) q1(3)])
  have cl2: "closed h2" using u by (simp add: update_def)
  have a: "a < h_next h" using x(2) cl by (auto simp: closed_def)
  then have ca: "h_cells h2 a = Some (BranchCell None hgt s ver k xl xr)" using u x(2,7) writable_subset [of cow h Ar] by (auto simp: update_def)
  have xr2: "rep h2 xl l Al" "Al \<inter> A2 = {}" using update_frame [OF cl u x(4)] update_apart [OF cl u x(4)] x(6) writable_subset [of cow h Ar] by auto
  have a2: "a \<notin> Al \<union> A2" using u x(7) a by (auto simp: update_def)
  have ow2: "own cow h2 a" using ca x(3) by (simp add: own_def)
  define h3 where "h3 = put_cell a (BranchCell None hgt s ver k xl (MemRef e)) h2"
  note p = own_put [OF cl2 ow2 xr2(1) q1(4) xr2(2) a2 x(3) h3_def]
  have u3: "update cow h A h3 (insert a (Al \<union> A2))"
    using update_trans [OF update_extend [OF u, of "insert a Al"]] p(3) x(8) by (simp add: Un_commute insert_commute Un_ac)
  have cl3: "closed h3" using u3 by (simp add: update_def)
  have eq: "rotateRight (Mutate r version) version = mkBranch (Mem None) version k2 rll (mkBranch (Mem None) version k1 rlr rr)" by (simp add: l rotateRight_def)
  obtain f h4 A4 where q: "h_rotateLeft a version cow h3 = Some (f, h4)" "own cow h4 f" "update cow h3 (insert a (Al \<union> A2)) h4 A4"
    "rep h4 (MemRef f) (rotateLeft (Branch (Mem c) hgt s ver k l (rotateRight (Mutate r version) version)) version) A4"
    using h_rotateLeft_spec [OF cl3 p(1) [of c, unfolded eq] p(2) v] unfolding eq by blast
  have "h_reBalance a version cow h = Some (f, h4)"
    using h_calcBalance_rep [OF rp] h_calcBalance_rep [OF x(5) [unfolded l]] b lb x(2) m(1) q1(1) q(1) ca
    by (simp add: h_reBalance_def modify_def h3_def l)
  moreover have "reBalance (Branch rp hgt s ver k l r) version = rotateLeft (Branch (Mem c) hgt s ver k l (rotateRight (Mutate r version) version)) version"
    using b lb x(1) by (simp add: reBalance_def Let_def)
  ultimately show ?thesis using q(2,4) update_trans [OF u3 q(3)] by auto
qed

lemma h_reBalance_spec:
  assumes cl: "closed h" and rp: "rep h (MemRef a) (Branch rp hgt s ver k l r) A" and ow: "own cow h a" and v: "cow < version"
  shows "\<exists>b h' A'. h_reBalance a version cow h = Some (b, h') \<and> own cow h' b \<and> update cow h A h' A' \<and>
    rep h' (MemRef b) (reBalance (Branch rp hgt s ver k l r) version) A'"
proof -
  obtain c xl xr Al Ar where x: "rp = Mem c" "h_cells h a = Some (BranchCell None hgt s ver k xl xr)" "cow < ver" "rep h xl l Al" "rep h xr r Ar"
    "Al \<inter> Ar = {}" "a \<notin> Al \<union> Ar" "A = insert a (Al \<union> Ar)" by (rule own_branch [OF rp ow])
  note bal = h_calcBalance_rep [OF rp]
  show ?thesis
  proof (cases rule: reBalance_shapes [of rp hgt s ver k l r version])
    case same
    have "\<not> calcBalance (Branch rp hgt s ver k l r) > 1" "\<not> calcBalance (Branch rp hgt s ver k l r) < -1" using same(1) by linarith+
    then have "h_reBalance a version cow h = Some (a, h)" using bal x(2) by (simp add: h_reBalance_def)
    then show ?thesis using same(2) ow rp update_refl [OF cl] by auto
  next
    case (LL lrp lh ls lver lk ll lr)
    have lb: "0 \<le> calcBalance l" using LL(1,3) by (simp add: calcBalance_def word_le_def)
    have "h_reBalance a version cow h = h_rotateRight a version cow h"
      using bal x(2) LL(2) lb h_calcBalance_rep [OF x(4) [unfolded LL(1)]] LL(1) by (simp add: h_reBalance_def)
    moreover have "reBalance (Branch rp hgt s ver k l r) version = rotateRight (Branch rp hgt s ver k l r) version"
      using LL(2) lb by (simp add: reBalance_def)
    ultimately show ?thesis using h_rotateRight_spec [OF cl rp [unfolded LL(1)] ow v] LL(1) by simp
  next
    case (LR lrp lh ls lver lk ll mrp mh ms mver mk p q)
    have "calcBalance l < 0" using LR(1,3) by (simp add: calcBalance_def word_less_def)
    then show ?thesis by (rule h_rebalance_left [OF cl rp ow v LR(2,1)])
  next
    case (RR rrp rh rs rver rk rl rr)
    have rb: "calcBalance r \<le> 0" using RR(1,3) by (simp add: calcBalance_def word_le_def)
    have "h_reBalance a version cow h = h_rotateLeft a version cow h"
      using bal x(2) RR(2) rb h_calcBalance_rep [OF x(5) [unfolded RR(1)]] RR(1) by (simp add: h_reBalance_def)
    moreover have "reBalance (Branch rp hgt s ver k l r) version = rotateLeft (Branch rp hgt s ver k l r) version"
      using RR(2) rb by (simp add: reBalance_def)
    ultimately show ?thesis using h_rotateLeft_spec [OF cl rp [unfolded RR(1)] ow v] RR(1) by simp
  next
    case (RL rrp rh rs rver rk rr mrp mh ms mver mk p q)
    have "0 < calcBalance r" using RL(1,3) by (simp add: calcBalance_def word_less_def)
    then show ?thesis by (rule h_rebalance_right [OF cl rp ow v RL(2,1)])
  qed
qed

lemma rebalance_up:
  assumes cl: "closed h" and rp: "rep h (MemRef a) (Branch rp hgt s ver k l r) A" and ow: "own cow h a" and v: "cow < version"
  obtains b h1 h' A' where "h_updateHeightSize a h = Some h1" "h_reBalance a version cow h1 = Some (b, h')" "own cow h' b" "update cow h A h' A'"
    "rep h' (MemRef b) (reBalance (updateHeightSize (Branch rp hgt s ver k l r)) version) A'"
proof -
  obtain c xl xr Al Ar where x: "rp = Mem c" "h_cells h a = Some (BranchCell None hgt s ver k xl xr)" "cow < ver" "rep h xl l Al" "rep h xr r Ar"
    "Al \<inter> Ar = {}" "a \<notin> Al \<union> Ar" "A = insert a (Al \<union> Ar)" by (rule own_branch [OF rp ow])
  define h1 where "h1 = put_cell a (BranchCell None (max (node_Height l) (node_Height r) + 1) (node_Size l + node_Size r) ver k xl xr) h"
  have u: "h_updateHeightSize a h = Some h1" using h_updateHeightSize_rep [OF x(2,4,5)] by (simp add: h1_def)
  note p = own_put [OF cl ow x(4-7,3) h1_def]
  have cl1: "closed h1" using p(3) by (simp add: update_def)
  obtain b h' A' where b: "h_reBalance a version cow h1 = Some (b, h')" "own cow h' b" "update cow h1 (insert a (Al \<union> Ar)) h' A'"
    "rep h' (MemRef b) (reBalance (updateHeightSize (Branch rp hgt s ver k l r)) version) A'"
    using h_reBalance_spec [OF cl1 p(1) [of c] p(2) v] by (auto simp: x(1))
  show thesis using that u b(1,2,4) update_trans [OF p(3) b(3)] x(8) by simp
qed

text \<open>A branch one of whose subtrees has been changed.\<close>

lemma load_persisted: "load h' (PersistedRef n) = load h (PersistedRef n)"
  by (cases n) simp_all

lemma load_frame:
  assumes "closed h" and "update cow h A h' A'" and "addr r \<inter> A = {}" and "load h r = Some c"
  shows "load h' r = Some c" and "addr r \<inter> A' = {}"
proof -
  have "load h' r = Some c \<and> addr r \<inter> A' = {}"
  proof (cases r)
    case (MemRef a)
    have "a < h_next h" "a \<notin> writable cow h A" using assms MemRef writable_subset [of cow h A] by (auto simp: closed_def)
    then show ?thesis using assms(2-4) MemRef by (auto simp: update_def)
  next
    case (PersistedRef n)
    then show ?thesis using assms(4) load_persisted [of h' n h] by simp
  qed
  then show "load h' r = Some c" "addr r \<inter> A' = {}" by simp_all
qed

lemma child_left:
  assumes cl: "closed h" and ld: "load h r = Some (BranchCell hs hgt s ver k xl xr)" and x: "rep h xr n Ar" "Al \<inter> Ar = {}" "addr r \<inter> (Al \<union> Ar) = {}"
    and u: "update cow h Al h1 A1" "rep h1 x l A1" and v: "cow < version"
  obtains a h2 where "h_Mutate r version cow h1 = Some (a, h2)" "h_cells h2 a = Some (BranchCell None hgt s version k xl xr)"
    "\<And>c k' h3. h3 = put_cell a (BranchCell None hgt s version k' x xr) h2 \<Longrightarrow> closed h3 \<and> own cow h3 a \<and>
      rep h3 (MemRef a) (Branch (Mem c) hgt s version k' l n) (insert a (A1 \<union> Ar)) \<and> update cow h (addr r \<union> Al \<union> Ar) h3 (insert a (A1 \<union> Ar))"
proof -
  have ad: "addr r \<inter> Al = {}" "addr r \<inter> Ar = {}" using x(3) by blast+
  note f = load_frame [OF cl u(1) ad(1) ld]
  have cl1: "closed h1" using u(1) by (simp add: update_def)
  have "writable cow h Al \<inter> Ar = {}" using x(2) writable_subset [of cow h Al] by blast
  then have y: "rep h1 xr n Ar" "A1 \<inter> Ar = {}" "addr r \<inter> (A1 \<union> Ar) = {}"
    using update_frame [OF cl u(1) x(1)] update_apart [OF cl u(1) x(1) x(2)] f(2) ad by auto
  obtain a h2 where m: "h_Mutate r version cow h1 = Some (a, h2)" "h_cells h2 a = Some (BranchCell None hgt s version k xl xr)" "own cow h2 a" "closed h2"
    "a \<notin> A1 \<union> Ar" "rep h2 x l A1" "rep h2 xr n Ar" "update cow h1 (addr r \<union> A1 \<union> Ar) h2 (insert a (A1 \<union> Ar))"
    by (rule mutate_relink [OF cl1 f(1) v u(2) y])
  have "update cow h (addr r \<union> Al \<union> Ar) h1 (addr r \<union> A1 \<union> Ar)" using update_extend [OF u(1), of "addr r \<union> Ar"] by (simp add: Un_ac)
  then have w: "update cow h (addr r \<union> Al \<union> Ar) h2 (insert a (A1 \<union> Ar))" by (rule update_trans [OF _ m(8)])
  show thesis
  proof (rule that [OF m(1,2)])
    fix c k' h3 assume h3: "h3 = put_cell a (BranchCell None hgt s version k' x xr) h2"
    note p = own_put [OF m(4,3,6,7) y(2) m(5) v h3]
    show "closed h3 \<and> own cow h3 a \<and> rep h3 (MemRef a) (Branch (Mem c) hgt s version k' l n) (insert a (A1 \<union> Ar)) \<and>
        update cow h (addr r \<union> Al \<union> Ar) h3 (insert a (A1 \<union> Ar))"
      using p update_trans [OF w p(3)] by (simp add: update_def)
  qed
qed

lemma child_right:
  assumes cl: "closed h" and ld: "load h r = Some (BranchCell hs hgt s ver k xl xr)" and x: "rep h xl l Al" "Al \<inter> Ar = {}" "addr r \<inter> (Al \<union> Ar) = {}"
    and u: "update cow h Ar h1 A1" "rep h1 x n A1" and v: "cow < version"
  obtains a h2 where "h_Mutate r version cow h1 = Some (a, h2)" "h_cells h2 a = Some (BranchCell None hgt s version k xl xr)"
    "\<And>c k' h3. h3 = put_cell a (BranchCell None hgt s version k' xl x) h2 \<Longrightarrow> closed h3 \<and> own cow h3 a \<and>
      rep h3 (MemRef a) (Branch (Mem c) hgt s version k' l n) (insert a (Al \<union> A1)) \<and> update cow h (addr r \<union> Al \<union> Ar) h3 (insert a (Al \<union> A1))"
proof -
  have ad: "addr r \<inter> Al = {}" "addr r \<inter> Ar = {}" using x(3) by blast+
  note f = load_frame [OF cl u(1) ad(2) ld]
  have cl1: "closed h1" using u(1) by (simp add: update_def)
  have "writable cow h Ar \<inter> Al = {}" using x(2) writable_subset [of cow h Ar] by blast
  then have y: "rep h1 xl l Al" "Al \<inter> A1 = {}" "addr r \<inter> (Al \<union> A1) = {}"
    using update_frame [OF cl u(1) x(1)] update_apart [OF cl u(1) x(1)] x(2) f(2) ad by auto
  obtain a h2 where m: "h_Mutate r version cow h1 = Some (a, h2)" "h_cells h2 a = Some (BranchCell None hgt s version k xl xr)" "own cow h2 a" "closed h2"
    "a \<notin> Al \<union> A1" "rep h2 xl l Al" "rep h2 x n A1" "update cow h1 (addr r \<union> Al \<union> A1) h2 (insert a (Al \<union> A1))"
    by (rule mutate_relink [OF cl1 f(1) v y(1) u(2) y(2,3)])
  have "update cow h (addr r \<union> Al \<union> Ar) h1 (addr r \<union> Al \<union> A1)" using update_extend [OF u(1), of "addr r \<union> Al"] by (simp add: Un_ac)
  then have w: "update cow h (addr r \<union> Al \<union> Ar) h2 (insert a (Al \<union> A1))" by (rule update_trans [OF _ m(8)])
  show thesis
  proof (rule that [OF m(1,2)])
    fix c k' h3 assume h3: "h3 = put_cell a (BranchCell None hgt s version k' xl x) h2"
    note p = own_put [OF m(4,3,6,7) y(2) m(5) v h3]
    show "closed h3 \<and> own cow h3 a \<and> rep h3 (MemRef a) (Branch (Mem c) hgt s version k' l n) (insert a (Al \<union> A1)) \<and>
        update cow h (addr r \<union> Al \<union> Ar) h3 (insert a (Al \<union> A1))"
      using p update_trans [OF w p(3)] by (simp add: update_def)
  qed
qed

section \<open>Set and remove\<close>

lemma alloc_simps [simp]:
  "fst (alloc c h) = h_next h" "h_cells (snd (alloc c h)) = (h_cells h)(h_next h \<mapsto> c)" "h_next (snd (alloc c h)) = Suc (h_next h)"
  by (simp_all add: alloc_def)

lemma rep_leaf_cell: "h_cells h a = Some (LeafCell None ver k v) \<Longrightarrow> rep h (MemRef a) (Leaf (Mem c) ver k v) {a}"
  by (simp add: rep.simps(2))

lemma set_leaf_new:
  assumes cl: "closed h" and rp: "rep h r (Leaf rp ver k v) A" and v: "cow < version" and c: "bytes_Compare key k \<noteq> 0"
  shows "\<exists>a h' A'. h_setRecursive (Some r) key val version cow h = Some ((a, False), h') \<and> own cow h' a \<and> update cow h A h' A' \<and>
    rep h' (MemRef a) (fst (setRecursive (Some (Leaf rp ver k v)) key val version)) A'"
proof -
  obtain hs where ld: "load h r = Some (LeafCell hs ver k v)" by (rule rep_leaf [OF rp])
  let ?lf = "h_next h" and ?a = "Suc (h_next h)"
  define lt where "lt \<longleftrightarrow> bytes_Compare key k = -1"
  define b where "b = (if lt then BranchCell None 1 2 version k (MemRef ?lf) r else BranchCell None 1 2 version key r (MemRef ?lf))"
  define h' where "h' = snd (alloc b (snd (alloc (LeafCell None version key val) h)))"
  have c': "h_cells h' = (h_cells h)(?lf \<mapsto> LeafCell None version key val, ?a \<mapsto> b)" by (simp add: h'_def)
  have A: "?lf \<notin> A" "?a \<notin> A" using rep_less [OF cl rp, of ?lf] rep_less [OF cl rp, of ?a] by auto
  have r: "rep h' r (Leaf rp ver k v) A" by (rule rep_put2 [OF rp A c'])
  have l: "rep h' (MemRef ?lf) (Leaf (Mem None) version key val) {?lf}" by (rule rep_leaf_cell) (simp add: c')
  have cmp: "bytes_Compare key k = -1 \<or> bytes_Compare key k = 1" using c bytes_Compare_range [of key k] by auto
  have "h_setRecursive (Some r) key val version cow h = Some ((?a, False), h')"
    using cmp ld by (subst h_setRecursive.simps) (auto simp: lt_def b_def h'_def alloc_def Let_def)
  moreover have "own cow h' ?a" using v by (simp add: own_def c' b_def)
  moreover have "update cow h A h' (insert ?a (insert ?lf A))"
    by (rule update_put2 [OF cl c']) (auto simp: h'_def)
  moreover have "rep h' (MemRef ?a) (fst (setRecursive (Some (Leaf rp ver k v)) key val version)) (insert ?a (insert ?lf A))"
  proof (cases lt)
    case True
    then show ?thesis using rep_join [of h' ?a 1 2 version k "MemRef ?lf" r, OF _ l r] A cmp by (auto simp: c' b_def lt_def newLeafNode_def setRecursive_Leaf)
  next
    case False
    then show ?thesis using rep_join [of h' ?a 1 2 version key r "MemRef ?lf", OF _ r l] A cmp by (auto simp: c' b_def lt_def newLeafNode_def setRecursive_Leaf)
  qed
  ultimately show ?thesis by blast
qed

lemma set_leaf_same:
  assumes cl: "closed h" and rp: "rep h r (Leaf rp ver k v) A" and v: "cow < version" and c: "bytes_Compare key k = 0"
  shows "\<exists>a h' A'. h_setRecursive (Some r) key val version cow h = Some ((a, True), h') \<and> own cow h' a \<and> update cow h A h' A' \<and>
    rep h' (MemRef a) (fst (setRecursive (Some (Leaf rp ver k v)) key val version)) A'"
proof -
  obtain hs where ld: "load h r = Some (LeafCell hs ver k v)" "A = addr r" by (rule rep_leaf [OF rp])
  obtain a h1 where m: "h_Mutate r version cow h = Some (a, h1)" "h_cells h1 = (h_cells h)(a \<mapsto> refresh version (LeafCell hs ver k v))"
    "closed h1" "h_next h \<le> h_next h1" "a < h_next h1" "h_next h \<le> a \<or> r = MemRef a \<and> cow < cell_Version (LeafCell hs ver k v)"
    by (rule h_Mutate_spec [OF cl ld(1)])
  define h' where "h' = put_cell a (LeafCell None version k val) h1"
  have c': "h_cells h' = (h_cells h)(a \<mapsto> LeafCell None version k val)" using m(2) by (simp add: h'_def)
  have "h_setRecursive (Some r) key val version cow h = Some ((a, True), h')"
    using ld(1) c m(1,2) by (subst h_setRecursive.simps) (simp add: modify_def h'_def)
  moreover have "own cow h' a" using v by (simp add: own_def c')
  moreover have "a \<in> writable cow h A \<or> h_next h \<le> a" using m(6) ld by (auto simp: writable_def)
  then have "update cow h A h' {a}"
    using put_cell_closed [OF m(3,5)] m(4,5) c' writable_subset [of cow h A] by (auto simp: update_def h'_def)
  moreover have "rep h' (MemRef a) (fst (setRecursive (Some (Leaf rp ver k v)) key val version)) {a}"
    using rep_leaf_cell [of h' a version k val None] c by (simp add: c' setRecursive_Leaf)
  ultimately show ?thesis by blast
qed

lemma h_setRecursive_spec:
  assumes cl: "closed h" and v: "cow < version" and rp: "rep h r n A"
  shows "\<exists>a h' A'. h_setRecursive (Some r) key val version cow h = Some ((a, snd (setRecursive (Some n) key val version)), h') \<and>
    own cow h' a \<and> update cow h A h' A' \<and> rep h' (MemRef a) (fst (setRecursive (Some n) key val version)) A'"
  using rp
proof (induction n arbitrary: r A)
  case (Leaf rp ver k x)
  then show ?case
    using set_leaf_new [OF cl Leaf.prems v, of key val] set_leaf_same [OF cl Leaf.prems v, of key val]
    by (cases "bytes_Compare key k = 0") (auto simp: setRecursive_Leaf)
next
  case (Branch rp hgt s ver k l n)
  obtain hs xl xr Al Ar where x: "load h r = Some (BranchCell hs hgt s ver k xl xr)" "rep h xl l Al" "rep h xr n Ar" "Al \<inter> Ar = {}"
    "addr r \<inter> (Al \<union> Ar) = {}" "A = addr r \<union> Al \<union> Ar" by (rule rep_branch [OF Branch.prems])
  show ?case
  proof (cases "key < k")
    case True
    obtain c u where cu: "setRecursive (Some l) key val version = (c, u)" by force
    obtain b h1 A1 where i: "h_setRecursive (Some xl) key val version cow h = Some ((b, u), h1)" "update cow h Al h1 A1" "rep h1 (MemRef b) c A1"
      using Branch.IH(1) [OF x(2)] cu by auto
    obtain a h2 where m: "h_Mutate r version cow h1 = Some (a, h2)" "h_cells h2 a = Some (BranchCell None hgt s version k xl xr)"
      "\<And>c' k' h3. h3 = put_cell a (BranchCell None hgt s version k' (MemRef b) xr) h2 \<Longrightarrow> closed h3 \<and> own cow h3 a \<and>
        rep h3 (MemRef a) (Branch (Mem c') hgt s version k' c n) (insert a (A1 \<union> Ar)) \<and> update cow h (addr r \<union> Al \<union> Ar) h3 (insert a (A1 \<union> Ar))"
      using child_left [OF cl x(1,3,4,5) i(2,3) v] by blast
    define h3 where "h3 = put_cell a (BranchCell None hgt s version k (MemRef b) xr) h2"
    have h3: "closed h3" "own cow h3 a" "rep h3 (MemRef a) (Branch (Mem None) hgt s version k c n) (insert a (A1 \<union> Ar))"
      "update cow h A h3 (insert a (A1 \<union> Ar))" using m(3) [OF h3_def] x(6) by blast+
    obtain b' h4 h5 A5 where up: "h_updateHeightSize a h3 = Some h4" "h_reBalance a version cow h4 = Some (b', h5)" "own cow h5 b'"
      "update cow h3 (insert a (A1 \<union> Ar)) h5 A5" "rep h5 (MemRef b') (reBalance (updateHeightSize (Branch (Mem None) hgt s version k c n)) version) A5"
      by (rule rebalance_up [OF h3(1,3,2) v])
    have "h_setRecursive (Some r) key val version cow h = (if u then Some ((a, u), h3) else Some ((b', u), h5))"
      using x(1) True i(1) m(1,2) up(1,2) by (subst h_setRecursive.simps) (simp add: modify_def flip: h3_def)
    then show ?thesis using True cu h3 up(3,5) update_trans [OF h3(4) up(4)] by (cases u) (auto simp: setRecursive_Branch)
  next
    case False
    obtain c u where cu: "setRecursive (Some n) key val version = (c, u)" by force
    obtain b h1 A1 where i: "h_setRecursive (Some xr) key val version cow h = Some ((b, u), h1)" "update cow h Ar h1 A1" "rep h1 (MemRef b) c A1"
      using Branch.IH(2) [OF x(3)] cu by auto
    obtain a h2 where m: "h_Mutate r version cow h1 = Some (a, h2)" "h_cells h2 a = Some (BranchCell None hgt s version k xl xr)"
      "\<And>c' k' h3. h3 = put_cell a (BranchCell None hgt s version k' xl (MemRef b)) h2 \<Longrightarrow> closed h3 \<and> own cow h3 a \<and>
        rep h3 (MemRef a) (Branch (Mem c') hgt s version k' l c) (insert a (Al \<union> A1)) \<and> update cow h (addr r \<union> Al \<union> Ar) h3 (insert a (Al \<union> A1))"
      using child_right [OF cl x(1,2,4,5) i(2,3) v] by blast
    define h3 where "h3 = put_cell a (BranchCell None hgt s version k xl (MemRef b)) h2"
    have h3: "closed h3" "own cow h3 a" "rep h3 (MemRef a) (Branch (Mem None) hgt s version k l c) (insert a (Al \<union> A1))"
      "update cow h A h3 (insert a (Al \<union> A1))" using m(3) [OF h3_def] x(6) by blast+
    obtain b' h4 h5 A5 where up: "h_updateHeightSize a h3 = Some h4" "h_reBalance a version cow h4 = Some (b', h5)" "own cow h5 b'"
      "update cow h3 (insert a (Al \<union> A1)) h5 A5" "rep h5 (MemRef b') (reBalance (updateHeightSize (Branch (Mem None) hgt s version k l c)) version) A5"
      by (rule rebalance_up [OF h3(1,3,2) v])
    have "h_setRecursive (Some r) key val version cow h = (if u then Some ((a, u), h3) else Some ((b', u), h5))"
      using x(1) False i(1) m(1,2) up(1,2) by (subst h_setRecursive.simps) (simp add: modify_def flip: h3_def)
    then show ?thesis using False cu h3 up(3,5) update_trans [OF h3(4) up(4)] by (cases u) (auto simp: setRecursive_Branch)
  qed
qed

lemma update_shrink: "update cow h A h' A' \<Longrightarrow> B \<subseteq> A' \<Longrightarrow> update cow h A h' B"
  by (auto simp: update_def)

fun rep_option :: "heap \<Rightarrow> nref option \<Rightarrow> node option \<Rightarrow> nat set \<Rightarrow> bool" where
  "rep_option h None None A \<longleftrightarrow> A = {}"
| "rep_option h (Some r) (Some n) A \<longleftrightarrow> rep h r n A"
| "rep_option h _ _ A \<longleftrightarrow> False"

lemma rep_option_simps [simp]:
  "rep_option h x (Some n) A \<longleftrightarrow> (\<exists>r. x = Some r \<and> rep h r n A)" "rep_option h x None A \<longleftrightarrow> x = None \<and> A = {}"
  "rep_option h None y A \<longleftrightarrow> y = None \<and> A = {}"
  by (cases x; simp)+ (cases y; simp)

text \<open>What a removal does to the heap, for the result \<open>(val, n', nk)\<close> of the function on values.\<close>

definition removes :: "u32 \<Rightarrow> heap \<Rightarrow> nat set \<Rightarrow> ((bytes option \<times> nref option \<times> bytes option) \<times> heap) option \<Rightarrow>
    bytes option \<times> node option \<times> bytes option \<Rightarrow> bool" where
  "removes cow h A res v \<longleftrightarrow> (case v of (val, n', nk) \<Rightarrow>
     \<exists>x h' A'. res = Some ((val, x, nk), h') \<and> (val = None \<longrightarrow> h' = h) \<and> update cow h A h' A' \<and> rep_option h' x n' A')"

lemma remove_left:
  assumes cl: "closed h" and v: "cow < version"
    and x: "load h r = Some (BranchCell hs hgt s ver k xl xr)" "rep h xl l Al" "rep h xr n Ar" "Al \<inter> Ar = {}" "addr r \<inter> (Al \<union> Ar) = {}" "A = addr r \<union> Al \<union> Ar"
    and rp: "rep h r (Branch rp hgt s ver k l n) A" and k: "key < k"
    and i: "removes cow h Al (h_removeRecursive (Some xl) key version cow h) (removeRecursive (Some l) key version)"
  shows "removes cow h A (h_removeRecursive (Some r) key version cow h) (removeRecursive (Some (Branch rp hgt s ver k l n)) key version)"
proof -
  obtain val l' nk where e: "removeRecursive (Some l) key version = (val, l', nk)" by (metis prod_cases3)
  obtain y h1 A1 where y: "h_removeRecursive (Some xl) key version cow h = Some ((val, y, nk), h1)" "val = None \<longrightarrow> h1 = h" "update cow h Al h1 A1"
    "rep_option h1 y l' A1" using i e by (auto simp: removes_def)
  consider "val = None" | w where "val = Some w" "l' = None" | w c where "val = Some w" "l' = Some c" by (cases val; cases l') auto
  then show ?thesis
  proof cases
    case 1
    then have "h_removeRecursive (Some r) key version cow h = Some ((None, Some r, None), h)"
      using x(1) k y(1,2) by (subst h_removeRecursive.simps) simp
    then show ?thesis using 1 e k rp update_refl [OF cl] by (simp add: removes_def removeRecursive.simps(3)) blast
  next
    case (2 w)
    have "h_removeRecursive (Some r) key version cow h = Some ((Some w, Some xr, Some k), h1)"
      using 2 x(1) k y(1,4) by (subst h_removeRecursive.simps) simp
    moreover have "writable cow h Al \<inter> Ar = {}" using x(4) writable_subset [of cow h Al] by blast
    then have "rep h1 xr n Ar" by (rule update_frame [OF cl y(3) x(3)])
    moreover have "A = (addr r \<union> Ar) \<union> Al" using x(6) by blast
    then have "update cow h A h1 Ar" using update_shrink [OF update_extend [OF y(3), of "addr r \<union> Ar"], of Ar] by blast
    ultimately show ?thesis using 2 e k by (simp add: removes_def removeRecursive.simps(3)) blast
  next
    case (3 w c)
    then obtain b where b: "y = Some b" "rep h1 b c A1" using y(4) by auto
    obtain a h2 where m: "h_Mutate r version cow h1 = Some (a, h2)" "h_cells h2 a = Some (BranchCell None hgt s version k xl xr)"
      "\<And>c' k' h3. h3 = put_cell a (BranchCell None hgt s version k' b xr) h2 \<Longrightarrow> closed h3 \<and> own cow h3 a \<and>
        rep h3 (MemRef a) (Branch (Mem c') hgt s version k' c n) (insert a (A1 \<union> Ar)) \<and> update cow h (addr r \<union> Al \<union> Ar) h3 (insert a (A1 \<union> Ar))"
      using child_left [OF cl x(1,3,4,5) y(3) b(2) v] by blast
    define h3 where "h3 = put_cell a (BranchCell None hgt s version k b xr) h2"
    have h3: "closed h3" "own cow h3 a" "rep h3 (MemRef a) (Branch (Mem None) hgt s version k c n) (insert a (A1 \<union> Ar))"
      "update cow h A h3 (insert a (A1 \<union> Ar))" using m(3) [OF h3_def] x(6) by blast+
    obtain b' h4 h5 A5 where up: "h_updateHeightSize a h3 = Some h4" "h_reBalance a version cow h4 = Some (b', h5)" "own cow h5 b'"
      "update cow h3 (insert a (A1 \<union> Ar)) h5 A5" "rep h5 (MemRef b') (reBalance (updateHeightSize (Branch (Mem None) hgt s version k c n)) version) A5"
      by (rule rebalance_up [OF h3(1,3,2) v])
    have "h_removeRecursive (Some r) key version cow h = Some ((Some w, Some (MemRef b'), nk), h5)"
      using 3 x(1) k y(1) b(1) m(1,2) up(1,2) by (subst h_removeRecursive.simps) (simp add: modify_def flip: h3_def)
    then show ?thesis using 3 e k up(5) update_trans [OF h3(4) up(4)] by (simp add: removes_def removeRecursive.simps(3)) blast
  qed
qed

lemma remove_right:
  assumes cl: "closed h" and v: "cow < version"
    and x: "load h r = Some (BranchCell hs hgt s ver k xl xr)" "rep h xl l Al" "rep h xr n Ar" "Al \<inter> Ar = {}" "addr r \<inter> (Al \<union> Ar) = {}" "A = addr r \<union> Al \<union> Ar"
    and rp: "rep h r (Branch rp hgt s ver k l n) A" and k: "\<not> key < k"
    and i: "removes cow h Ar (h_removeRecursive (Some xr) key version cow h) (removeRecursive (Some n) key version)"
  shows "removes cow h A (h_removeRecursive (Some r) key version cow h) (removeRecursive (Some (Branch rp hgt s ver k l n)) key version)"
proof -
  obtain val l' nk where e: "removeRecursive (Some n) key version = (val, l', nk)" by (metis prod_cases3)
  obtain y h1 A1 where y: "h_removeRecursive (Some xr) key version cow h = Some ((val, y, nk), h1)" "val = None \<longrightarrow> h1 = h" "update cow h Ar h1 A1"
    "rep_option h1 y l' A1" using i e by (auto simp: removes_def)
  consider "val = None" | w where "val = Some w" "l' = None" | w c where "val = Some w" "l' = Some c" by (cases val; cases l') auto
  then show ?thesis
  proof cases
    case 1
    then have "h_removeRecursive (Some r) key version cow h = Some ((None, Some r, None), h)"
      using x(1) k y(1,2) by (subst h_removeRecursive.simps) simp
    then show ?thesis using 1 e k rp update_refl [OF cl] by (simp add: removes_def removeRecursive.simps(3)) blast
  next
    case (2 w)
    have "h_removeRecursive (Some r) key version cow h = Some ((Some w, Some xl, None), h1)"
      using 2 x(1) k y(1,4) by (subst h_removeRecursive.simps) simp
    moreover have "writable cow h Ar \<inter> Al = {}" using x(4) writable_subset [of cow h Ar] by blast
    then have "rep h1 xl l Al" by (rule update_frame [OF cl y(3) x(2)])
    moreover have "A = (addr r \<union> Al) \<union> Ar" using x(6) by blast
    then have "update cow h A h1 Al" using update_shrink [OF update_extend [OF y(3), of "addr r \<union> Al"], of Al] by blast
    ultimately show ?thesis using 2 e k by (simp add: removes_def removeRecursive.simps(3)) blast
  next
    case (3 w c)
    then obtain b where b: "y = Some b" "rep h1 b c A1" using y(4) by auto
    obtain a h2 where m: "h_Mutate r version cow h1 = Some (a, h2)" "h_cells h2 a = Some (BranchCell None hgt s version k xl xr)"
      "\<And>c' k' h3. h3 = put_cell a (BranchCell None hgt s version k' xl b) h2 \<Longrightarrow> closed h3 \<and> own cow h3 a \<and>
        rep h3 (MemRef a) (Branch (Mem c') hgt s version k' l c) (insert a (Al \<union> A1)) \<and> update cow h (addr r \<union> Al \<union> Ar) h3 (insert a (Al \<union> A1))"
      using child_right [OF cl x(1,2,4,5) y(3) b(2) v] by blast
    define kk where "kk = (case nk of None \<Rightarrow> k | Some q \<Rightarrow> q)"
    define h3 where "h3 = put_cell a (BranchCell None hgt s version kk xl b) h2"
    have h3: "closed h3" "own cow h3 a" "rep h3 (MemRef a) (Branch (Mem None) hgt s version kk l c) (insert a (Al \<union> A1))"
      "update cow h A h3 (insert a (Al \<union> A1))" using m(3) [OF h3_def] x(6) by blast+
    obtain b' h4 h5 A5 where up: "h_updateHeightSize a h3 = Some h4" "h_reBalance a version cow h4 = Some (b', h5)" "own cow h5 b'"
      "update cow h3 (insert a (Al \<union> A1)) h5 A5" "rep h5 (MemRef b') (reBalance (updateHeightSize (Branch (Mem None) hgt s version kk l c)) version) A5"
      by (rule rebalance_up [OF h3(1,3,2) v])
    have "h_removeRecursive (Some r) key version cow h = Some ((Some w, Some (MemRef b'), None), h5)"
    proof (cases nk)
      case None
      then have h3': "put_cell a (BranchCell None hgt s version k xl b) h2 = h3" by (simp add: h3_def kk_def)
      show ?thesis using None 3 x(1) k y(1) b(1) m(1,2) up(1,2) by (subst h_removeRecursive.simps) (simp add: modify_def h3')
    next
      case (Some q)
      then have h3': "put_cell a (BranchCell None hgt s version q xl b) (put_cell a (BranchCell None hgt s version k xl b) h2) = h3"
        by (simp add: h3_def kk_def put_cell_def)
      show ?thesis using Some 3 x(1) k y(1) b(1) m(1,2) up(1,2) by (subst h_removeRecursive.simps) (simp add: modify_def h3')
    qed
    moreover have "removeRecursive (Some (Branch rp hgt s ver k l n)) key version =
        (Some w, Some (reBalance (updateHeightSize (Branch (Mem None) hgt s version kk l c)) version), None)"
      using 3 e k by (cases nk) (simp_all add: removeRecursive.simps(3) kk_def)
    ultimately show ?thesis using up(5) update_trans [OF h3(4) up(4)] by (auto simp: removes_def)
  qed
qed

lemma h_removeRecursive_spec:
  assumes cl: "closed h" and v: "cow < version" and rp: "rep h r n A"
  shows "removes cow h A (h_removeRecursive (Some r) key version cow h) (removeRecursive (Some n) key version)"
  using rp
proof (induction n arbitrary: r A)
  case (Leaf rp ver k x)
  obtain hs where ld: "load h r = Some (LeafCell hs ver k x)" by (rule rep_leaf [OF Leaf.prems])
  have "h_removeRecursive (Some r) key version cow h = Some (if k = key then ((Some x, None, None), h) else ((None, Some r, None), h))"
    using ld by (subst h_removeRecursive.simps) simp
  moreover have "update cow h A h {}" using update_shrink [OF update_refl [OF cl]] by simp
  ultimately show ?case using Leaf.prems update_refl [OF cl] by (auto simp: removes_def)
next
  case (Branch rp hgt s ver k l n)
  obtain hs xl xr Al Ar where x: "load h r = Some (BranchCell hs hgt s ver k xl xr)" "rep h xl l Al" "rep h xr n Ar" "Al \<inter> Ar = {}"
    "addr r \<inter> (Al \<union> Ar) = {}" "A = addr r \<union> Al \<union> Ar" by (rule rep_branch [OF Branch.prems])
  show ?case
    using remove_left [OF cl v x Branch.prems _ Branch.IH(1) [OF x(2)]] remove_right [OF cl v x Branch.prems _ Branch.IH(2) [OF x(3)]] by blast
qed

section \<open>Hashes\<close>

text \<open>\<^verbatim>\<open>Hash\<close> fills caches, also of nodes that other trees share. It changes nothing that a tree stands for.\<close>

definition hashes :: "heap \<Rightarrow> heap \<Rightarrow> bool" where
  "hashes h h' \<longleftrightarrow> h_next h' = h_next h \<and> (\<forall>a. map_option cell_Version (h_cells h' a) = map_option cell_Version (h_cells h a)) \<and>
     (\<forall>r n A. rep h r n A \<longrightarrow> rep h' r n A)"

lemma hashes_refl: "hashes h h"
  by (simp add: hashes_def)

lemma hashes_trans: "hashes h h1 \<Longrightarrow> hashes h1 h2 \<Longrightarrow> hashes h h2"
  by (simp add: hashes_def)

lemma hashes_closed: "hashes h h' \<Longrightarrow> closed h \<Longrightarrow> closed h'"
  unfolding hashes_def closed_def by (metis map_option_eq_Some)

lemma set_hash_Version [simp]: "cell_Version (set_hash hs c) = cell_Version c"
  by (cases c) simp_all

lemma rep_strip:
  assumes "rep h r n A" and "rep h r m B"
  shows "strip n = strip m"
  using assms
proof (induction n arbitrary: r A m B)
  case (Leaf rp ver k v)
  then show ?case by (cases r; cases m) (auto simp: rep.simps)
next
  case (Branch rp hgt s ver k l n)
  show ?case
  proof (cases r)
    case (MemRef a)
    with Branch.prems(1) obtain hs xl xr Al Ar where x: "h_cells h a = Some (BranchCell hs hgt s ver k xl xr)" "rep h xl l Al" "rep h xr n Ar"
      by (auto simp: rep.simps)
    then obtain rp' l' n' Bl Br where "m = Branch rp' hgt s ver k l' n'" "rep h xl l' Bl" "rep h xr n' Br"
      using Branch.prems(2) MemRef by (cases m) (auto simp: rep.simps)
    then show ?thesis using Branch.IH x(2,3) by auto
  qed (use Branch.prems in \<open>simp add: rep.simps\<close>)
qed

lemma rehash_rep:
  assumes "rep h r n B" and "h_cells h a = Some c" and "\<And>m C. rep h (MemRef a) m C \<Longrightarrow> merkle m = hs"
  shows "rep (put_cell a (set_hash hs c) h) r n B"
  using assms(1)
proof (induction n arbitrary: r B)
  case (Leaf rp ver k v)
  show ?case
  proof (cases "r = MemRef a")
    case True
    then have "merkle (Leaf rp ver k v) = hs" using assms(3) Leaf by blast
    then show ?thesis using True Leaf assms(2) by (auto simp: rep.simps)
  qed (use Leaf in \<open>cases r; auto simp: rep.simps\<close>)
next
  case (Branch rp hgt s ver k l n)
  show ?case
  proof (cases r)
    case (MemRef b)
    obtain d hs' xl xr Al Ar where x: "rp = Mem d" "h_cells h b = Some (BranchCell hs' hgt s ver k xl xr)" "hs' \<in> {None, Some (merkle (Branch rp hgt s ver k l n))}"
      "rep h xl l Al" "rep h xr n Ar" "Al \<inter> Ar = {}" "b \<notin> Al \<union> Ar" "B = insert b (Al \<union> Ar)" using Branch.prems MemRef by (auto simp: rep.simps)
    have "merkle (Branch rp hgt s ver k l n) = hs" if "b = a" using assms(3) Branch.prems MemRef that by blast
    then obtain hs'' where z: "h_cells (put_cell a (set_hash hs c) h) b = Some (BranchCell hs'' hgt s ver k xl xr)"
      "hs'' \<in> {None, Some (merkle (Branch rp hgt s ver k l n))}" using x(2,3) assms(2) by (cases "b = a") auto
    show ?thesis unfolding MemRef rep.simps(3)
      using x(1) z Branch.IH(1) [OF x(4)] Branch.IH(2) [OF x(5)] x(6-8)
      by (intro exI [of _ d] exI [of _ hs''] exI [of _ xl] exI [of _ xr] exI [of _ Al] exI [of _ Ar]) simp
  qed (use Branch in \<open>simp add: rep.simps\<close>)
qed

lemma hash_cell:
  assumes "rep h (MemRef a) n A"
  shows "\<exists>h'. modify a (\<lambda>c. Some (set_hash (merkle n) c)) h = Some h' \<and> hashes h h'"
proof -
  obtain c where c: "h_cells h a = Some c" using rep_cells [OF assms rep_root [OF assms]] by blast
  have m: "merkle m = merkle n" if "rep h (MemRef a) m C" for m C using rep_strip [OF that assms] strip_simps(7) by metis
  show ?thesis using c rehash_rep [OF _ c m] by (auto simp: modify_def hashes_def)
qed

lemma stored_hash_persisted: "persisted n = n \<Longrightarrow> stored_hash n = Some (merkle n)"
proof (cases n)
  case (Leaf rp ver k v)
  then show "persisted n = n \<Longrightarrow> ?thesis" by (cases rp) auto
next
  case (Branch rp hgt s ver k l r)
  then show "persisted n = n \<Longrightarrow> ?thesis" by (cases rp) auto
qed

lemma h_Hash_spec: "rep h r n A \<Longrightarrow> \<exists>h'. h_Hash r h = Some (merkle n, h') \<and> hashes h h'"
proof (induction n arbitrary: r A h)
  case (Leaf rp ver k v)
  show ?case
  proof (cases r)
    case (MemRef a)
    with Leaf obtain hs where hs: "h_cells h a = Some (LeafCell hs ver k v)" "hs \<in> {None, Some (merkle (Leaf rp ver k v))}" by (auto simp: rep.simps)
    obtain h' where h': "modify a (\<lambda>c. Some (set_hash (merkle (Leaf rp ver k v)) c)) h = Some h'" "hashes h h'" using hash_cell Leaf MemRef by blast
    show ?thesis using hs h' hashes_refl MemRef by (subst h_Hash.simps) (auto simp: Let_def)
  next
    case (PersistedRef m)
    then show ?thesis using Leaf stored_hash_persisted hashes_refl by (subst h_Hash.simps) (auto simp: rep.simps)
  qed
next
  case (Branch rp hgt s ver k l n)
  show ?case
  proof (cases r)
    case (MemRef a)
    obtain hs xl xr Al Ar where x: "h_cells h a = Some (BranchCell hs hgt s ver k xl xr)" "hs \<in> {None, Some (merkle (Branch rp hgt s ver k l n))}"
      "rep h xl l Al" "rep h xr n Ar" using Branch.prems MemRef by (auto simp: rep.simps)
    obtain h1 where h1: "h_Hash xl h = Some (merkle l, h1)" "hashes h h1" using Branch.IH(1) [OF x(3)] by blast
    obtain h2 where h2: "h_Hash xr h1 = Some (merkle n, h2)" "hashes h1 h2" using Branch.IH(2) x(4) h1(2) by (meson hashes_def)
    have "rep h2 (MemRef a) (Branch rp hgt s ver k l n) A" using Branch.prems MemRef h1(2) h2(2) by (simp add: hashes_def)
    from hash_cell [OF this] obtain h3 where h3: "modify a (\<lambda>c. Some (set_hash (merkle (Branch rp hgt s ver k l n)) c)) h2 = Some h3" "hashes h2 h3" by blast
    have "hashes h h3" using hashes_trans h1(2) h2(2) h3(2) by blast
    then show ?thesis using x(1,2) h1(1) h2(1) h3(1) hashes_refl MemRef by (subst h_Hash.simps) (auto simp: Let_def)
  next
    case (PersistedRef m)
    then show ?thesis using Branch.prems stored_hash_persisted hashes_refl by (subst h_Hash.simps) (auto simp: rep.simps)
  qed
qed

section \<open>Trees\<close>

record htree =
  ht_version :: u32
  ht_cowVersion :: u32
  ht_root :: "nref option"

definition h_tree_set :: "htree \<Rightarrow> bytes \<Rightarrow> bytes option \<Rightarrow> heap \<Rightarrow> (htree \<times> heap) option" where
  "h_tree_set t key val h =
     do { ((a, _), h) \<leftarrow> h_setRecursive (ht_root t) key (case val of None \<Rightarrow> [] | Some x \<Rightarrow> x) (ht_version t + 1) (ht_cowVersion t) h;
          Some (t\<lparr>ht_root := Some (MemRef a)\<rparr>, h) }"

definition h_tree_remove :: "htree \<Rightarrow> bytes \<Rightarrow> heap \<Rightarrow> (htree \<times> heap) option" where
  "h_tree_remove t key h =
     do { ((_, root, _), h) \<leftarrow> h_removeRecursive (ht_root t) key (ht_version t + 1) (ht_cowVersion t) h;
          Some (t\<lparr>ht_root := root\<rparr>, h) }"

definition h_tree_RootHash :: "htree \<Rightarrow> heap \<Rightarrow> (bytes \<times> heap) option" where
  "h_tree_RootHash t h = (case ht_root t of None \<Rightarrow> Some (emptyHash, h) | Some r \<Rightarrow> h_Hash r h)"

text \<open>The version is not changed when it would overflow.\<close>

definition h_tree_SaveVersion :: "bool \<Rightarrow> htree \<Rightarrow> heap \<Rightarrow> (htree \<times> heap) option" where
  "h_tree_SaveVersion updateHash t h =
     (if ht_version t = word_of_nat MaxUint32 then Some (t, h)
      else do { h \<leftarrow> (if updateHash then map_option snd (h_tree_RootHash t h) else Some h);
                Some (t\<lparr>ht_version := ht_version t + 1\<rparr>, h) })"

definition h_tree_Copy :: "htree \<Rightarrow> htree \<times> htree" where
  "h_tree_Copy t =
     (let t' = (case ht_root t of Some (MemRef a) \<Rightarrow> t\<lparr>ht_cowVersion := ht_version t\<rparr> | _ \<Rightarrow> t) in (t', t'))"

text \<open>Calls on a collection of trees, on the heap and on values; a copy joins the collection.\<close>

datatype tree_call = SetCall nat bytes "bytes option" | RemoveCall nat bytes | HashCall nat | SaveCall nat bool | CopyCall nat

fun call_tree :: "tree_call \<Rightarrow> nat" where
  "call_tree (SetCall i key val) = i"
| "call_tree (RemoveCall i key) = i"
| "call_tree (HashCall i) = i"
| "call_tree (SaveCall i u) = i"
| "call_tree (CopyCall i) = i"

fun h_call :: "tree_call \<Rightarrow> htree list \<times> heap \<Rightarrow> (htree list \<times> heap) option" where
  "h_call (SetCall i key val) (ts, h) = do { (t, h) \<leftarrow> h_tree_set (ts ! i) key val h; Some (ts[i := t], h) }"
| "h_call (RemoveCall i key) (ts, h) = do { (t, h) \<leftarrow> h_tree_remove (ts ! i) key h; Some (ts[i := t], h) }"
| "h_call (HashCall i) (ts, h) = do { (_, h) \<leftarrow> h_tree_RootHash (ts ! i) h; Some (ts, h) }"
| "h_call (SaveCall i u) (ts, h) = do { (t, h) \<leftarrow> h_tree_SaveVersion u (ts ! i) h; Some (ts[i := t], h) }"
| "h_call (CopyCall i) (ts, h) = (let (t, c) = h_tree_Copy (ts ! i) in Some (ts[i := t] @ [c], h))"

fun h_calls :: "tree_call list \<Rightarrow> htree list \<times> heap \<Rightarrow> (htree list \<times> heap) option" where
  "h_calls [] w = Some w"
| "h_calls (c # cs) w = do { w \<leftarrow> h_call c w; h_calls cs w }"

fun v_call :: "'c cache_ops \<Rightarrow> tree_call \<Rightarrow> 'c tree list \<Rightarrow> 'c tree list" where
  "v_call ops (SetCall i key val) ts = ts[i := tree_set ops (ts ! i) key val]"
| "v_call ops (RemoveCall i key) ts = ts[i := tree_remove ops (ts ! i) key]"
| "v_call ops (HashCall i) ts = ts[i := snd (tree_RootHash (ts ! i))]"
| "v_call ops (SaveCall i u) ts = (case tree_SaveVersion u (ts ! i) of Inl e \<Rightarrow> ts | Inr (_, _, t) \<Rightarrow> ts[i := t])"
| "v_call ops (CopyCall i) ts = (let (t, c) = tree_Copy ops 0 (ts ! i) in ts[i := t] @ [c])"

text \<open>Copies are taken of trees without unsaved changes, and the last version is not worked on.\<close>

fun versions_le :: "u32 \<Rightarrow> node \<Rightarrow> bool" where
  "versions_le w (Leaf rp ver k v) \<longleftrightarrow> ver \<le> w"
| "versions_le w (Branch rp hgt s ver k l r) \<longleftrightarrow> ver \<le> w \<and> versions_le w l \<and> versions_le w r"

definition saved :: "'c tree \<Rightarrow> bool" where
  "saved t \<longleftrightarrow> pred_option (versions_le (t_version t)) (t_root t)"

fun good_call :: "tree_call \<Rightarrow> 'c tree list \<Rightarrow> bool" where
  "good_call (SetCall i key val) ts \<longleftrightarrow> i < length ts \<and> t_version (ts ! i) \<noteq> word_of_nat MaxUint32"
| "good_call (RemoveCall i key) ts \<longleftrightarrow> i < length ts \<and> t_version (ts ! i) \<noteq> word_of_nat MaxUint32"
| "good_call (HashCall i) ts \<longleftrightarrow> i < length ts"
| "good_call (SaveCall i u) ts \<longleftrightarrow> i < length ts"
| "good_call (CopyCall i) ts \<longleftrightarrow> i < length ts \<and> saved (ts ! i)"

fun good_calls :: "'c cache_ops \<Rightarrow> tree_call list \<Rightarrow> 'c tree list \<Rightarrow> bool" where
  "good_calls ops [] ts \<longleftrightarrow> True"
| "good_calls ops (c # cs) ts \<longleftrightarrow> good_call c ts \<and> good_calls ops cs (v_call ops c ts)"

definition tree_rep :: "heap \<Rightarrow> htree \<Rightarrow> 'c tree \<Rightarrow> nat set \<Rightarrow> bool" where
  "tree_rep h htr t A \<longleftrightarrow> ht_version htr = t_version t \<and> ht_cowVersion htr = t_cowVersion t \<and> t_cowVersion t \<le> t_version t \<and>
     rep_option h (ht_root htr) (t_root t) A"

definition world :: "(nat \<Rightarrow> nat set) \<Rightarrow> heap \<Rightarrow> htree list \<Rightarrow> 'c tree list \<Rightarrow> bool" where
  "world As h hts ts \<longleftrightarrow> closed h \<and> length hts = length ts \<and> (\<forall>i < length ts. tree_rep h (hts ! i) (ts ! i) (As i)) \<and>
     (\<forall>i < length ts. \<forall>j < length ts. i \<noteq> j \<longrightarrow> writable (t_cowVersion (ts ! i)) h (As i) \<inter> As j = {})"

lemma rep_option_less: "closed h \<Longrightarrow> rep_option h r n A \<Longrightarrow> a \<in> A \<Longrightarrow> a < h_next h"
  by (cases n) (auto dest: rep_less)

lemma rep_option_frame:
  "closed h \<Longrightarrow> update cow h A h' A' \<Longrightarrow> rep_option h r n B \<Longrightarrow> writable cow h A \<inter> B = {} \<Longrightarrow> rep_option h' r n B"
  by (cases n) (auto dest: update_frame)

text \<open>A change of one tree, seen from a tree that does not own what the first may write.\<close>

lemma update_sep:
  assumes "update cow h A h' A'" and "\<And>a. a \<in> B \<Longrightarrow> a < h_next h" and "writable cow h A \<inter> B = {}"
  shows "writable cow h' A' \<inter> B = {}" and "writable cow' h' B = writable cow' h B" and "x \<in> B \<Longrightarrow> x \<in> A' \<Longrightarrow> x \<in> A"
proof -
  have same: "h_cells h' x = h_cells h x" if "x \<in> B" for x using assms that by (auto simp: update_def)
  then show "writable cow' h' B = writable cow' h B" by (auto simp: writable_def)
  show old: "x \<in> A" if "x \<in> B" "x \<in> A'" for x using assms(1) assms(2) [OF that(1)] that(2) by (auto simp: update_def)
  have "x \<in> writable cow h A" if "x \<in> writable cow h' A'" "x \<in> B" for x using that same old by (auto simp: writable_def)
  then show "writable cow h' A' \<inter> B = {}" using assms(3) by blast
qed

lemma world_update:
  assumes w: "world As h hts ts" and i: "i < length ts" and u: "update (t_cowVersion (ts ! i)) h (As i) h' A'"
    and t: "tree_rep h' htr t A'" "t_cowVersion t = t_cowVersion (ts ! i)"
  shows "world (As(i := A')) h' (hts[i := htr]) (ts[i := t])"
proof -
  have cl: "closed h" "closed h'" using w u by (simp_all add: world_def update_def)
  have sep: "writable (t_cowVersion (ts ! a)) h (As a) \<inter> As b = {}" if "a < length ts" "b < length ts" "a \<noteq> b" for a b
    using w that by (simp add: world_def)
  have rp: "tree_rep h (hts ! j) (ts ! j) (As j)" if "j < length ts" for j using w that by (simp add: world_def)
  have less: "x < h_next h" if "j < length ts" "x \<in> As j" for j x using rp [OF that(1)] that(2) rep_option_less [OF cl(1)] by (auto simp: tree_rep_def)
  have new: "tree_rep h' (hts ! j) (ts ! j) (As j)" if "j < length ts" "j \<noteq> i" for j
    using rp [OF that(1)] rep_option_frame [OF cl(1) u _ sep [OF i that(1)]] that(2) by (auto simp: tree_rep_def)
  note us = update_sep [OF u less sep [OF i]]
  have "writable (t_cowVersion (ts[i := t] ! a)) h' ((As(i := A')) a) \<inter> (As(i := A')) b = {}" if ab: "a < length ts" "b < length ts" "a \<noteq> b" for a b
  proof (cases "a = i")
    case True
    then show ?thesis using us(1) [OF ab(2) _ ab(2)] ab t(2) i by auto
  next
    case False
    note wa = us(2) [OF ab(1) _ ab(1), of "t_cowVersion (ts ! a)"]
    show ?thesis
    proof (cases "b = i")
      case True
      have "x \<in> As i" if "x \<in> As a" "x \<in> A'" for x using us(3) [OF ab(1) _ ab(1)] False that by blast
      then show ?thesis using sep [OF ab] wa False True writable_subset [of "t_cowVersion (ts ! a)" h "As a"] by auto
    next
      case bi: False
      then show ?thesis using sep [OF ab] wa False by auto
    qed
  qed
  then show ?thesis using cl(2) w i t(1) new by (auto simp: world_def nth_list_update)
qed

lemma world_hashes:
  assumes "world As h hts ts" and "hashes h h'"
  shows "world As h' hts ts"
proof -
  have "writable cow h' A = writable cow h A" for cow A
  proof -
    have "(\<exists>c. h_cells h' a = Some c \<and> cow < cell_Version c) \<longleftrightarrow> (\<exists>c. h_cells h a = Some c \<and> cow < cell_Version c)" for a
    proof -
      have "map_option cell_Version (h_cells h' a) = map_option cell_Version (h_cells h a)" using assms(2) by (simp add: hashes_def)
      then show ?thesis by (cases "h_cells h a"; cases "h_cells h' a") auto
    qed
    then show ?thesis by (simp add: writable_def)
  qed
  moreover have "rep_option h' r n A" if "rep_option h r n A" for r n A using that assms(2) by (cases n) (auto simp: hashes_def)
  ultimately show ?thesis using assms hashes_closed [OF assms(2)] by (simp add: world_def tree_rep_def)
qed

lemma world_same_root:
  assumes "world As h hts ts" and "i < length ts" and "tree_rep h htr t (As i)" and "writable (t_cowVersion t) h (As i) \<subseteq> writable (t_cowVersion (ts ! i)) h (As i)"
  shows "world As h (hts[i := htr]) (ts[i := t])"
proof -
  have "writable (t_cowVersion t) h (As i) \<inter> As j = {}" if "j < length ts" "j \<noteq> i" for j
  proof -
    have "writable (t_cowVersion (ts ! i)) h (As i) \<inter> As j = {}" using assms(1,2) that by (simp add: world_def)
    then show ?thesis using assms(4) by blast
  qed
  then show ?thesis using assms(1-3) by (auto simp: world_def nth_list_update)
qed

lemma versions_le_cells: "rep h r n A \<Longrightarrow> versions_le w n \<Longrightarrow> writable w h A = {}"
proof (induction n arbitrary: r A)
  case (Leaf rp ver k v)
  then show ?case by (cases r) (auto simp: rep.simps writable_def)
next
  case (Branch rp hgt s ver k l n)
  show ?case
  proof (cases r)
    case (MemRef a)
    obtain hs xl xr Al Ar where x: "h_cells h a = Some (BranchCell hs hgt s ver k xl xr)" "rep h xl l Al" "rep h xr n Ar" "A = insert a (Al \<union> Ar)"
      using Branch.prems(1) MemRef by (auto simp: rep.simps)
    have "writable w h Al = {}" "writable w h Ar = {}" using Branch.IH x(2,3) Branch.prems(2) by auto
    then show ?thesis using x(1,4) Branch.prems(2) by (auto simp: writable_def)
  qed (use Branch.prems in \<open>simp add: rep.simps writable_def\<close>)
qed

lemma next_version: "cow \<le> v \<Longrightarrow> v \<noteq> word_of_nat MaxUint32 \<Longrightarrow> cow < v + (1 :: u32)"
proof -
  assume c: "cow \<le> v" and v: "v \<noteq> word_of_nat MaxUint32"
  have "unat v \<noteq> MaxUint32"
  proof
    assume "unat v = MaxUint32"
    then have "(word_of_nat (unat v) :: u32) = word_of_nat MaxUint32" by (rule arg_cong)
    then show False using v by simp
  qed
  moreover have "unat v < 4294967296" using unsigned_less [of v] by simp
  ultimately have "unat v < MaxUint32" by simp
  then have "unat (v + 1) = unat v + 1" by (simp add: unat_word_ariths)
  then show ?thesis using c by (simp add: word_le_nat_alt word_less_nat_alt)
qed

section \<open>Calls\<close>

lemma set_call:
  assumes w: "world As h hts ts" and g: "good_call (SetCall i key val) ts"
  shows "\<exists>As' h' hts'. h_call (SetCall i key val) (hts, h) = Some (hts', h') \<and> world As' h' hts' (v_call ops (SetCall i key val) ts)"
proof -
  let ?v = "case val of None \<Rightarrow> [] | Some x \<Rightarrow> x" and ?t = "ts ! i" and ?ht = "hts ! i"
  have i: "i < length ts" "t_version ?t \<noteq> word_of_nat MaxUint32" using g by simp_all
  have r: "tree_rep h ?ht ?t (As i)" and cl: "closed h" using w i(1) by (simp_all add: world_def)
  have lt: "t_cowVersion ?t < t_version ?t + 1" using r i(2) by (intro next_version) (simp_all add: tree_rep_def)
  have "\<exists>a u h' A'. h_setRecursive (ht_root ?ht) key ?v (t_version ?t + 1) (t_cowVersion ?t) h = Some ((a, u), h') \<and> update (t_cowVersion ?t) h (As i) h' A' \<and>
      rep h' (MemRef a) (fst (setRecursive (t_root ?t) key ?v (t_version ?t + 1))) A'"
  proof (cases "t_root ?t")
    case None
    then have n: "ht_root ?ht = None" "As i = {}" using r by (auto simp: tree_rep_def)
    let ?h = "snd (alloc (LeafCell None (t_version ?t + 1) key ?v) h)"
    have "closed ?h" using cl by (auto simp: closed_def less_Suc_eq)
    then have "update (t_cowVersion ?t) h (As i) ?h {h_next h}" by (auto simp: update_def)
    moreover have "rep ?h (MemRef (h_next h)) (Leaf (Mem None) (t_version ?t + 1) key ?v) {h_next h}" by (rule rep_leaf_cell) simp
    ultimately show ?thesis
      using None n by (intro exI [of _ "h_next h"] exI [of _ True] exI [of _ ?h] exI [of _ "{h_next h}"], subst h_setRecursive.simps)
        (simp add: newLeafNode_def alloc_def)
  next
    case (Some n)
    then obtain x where x: "ht_root ?ht = Some x" "rep h x n (As i)" using r by (auto simp: tree_rep_def)
    show ?thesis using h_setRecursive_spec [OF cl lt x(2), of key ?v] Some x(1) by auto
  qed
  then obtain a u h' A' where s: "h_setRecursive (ht_root ?ht) key ?v (t_version ?t + 1) (t_cowVersion ?t) h = Some ((a, u), h')"
    "update (t_cowVersion ?t) h (As i) h' A'" "rep h' (MemRef a) (fst (setRecursive (t_root ?t) key ?v (t_version ?t + 1))) A'" by blast
  let ?ht' = "?ht\<lparr>ht_root := Some (MemRef a)\<rparr>"
  have "h_tree_set ?ht key val h = Some (?ht', h')" using s(1) r by (simp add: h_tree_set_def tree_rep_def)
  moreover have "tree_rep h' ?ht' (tree_set ops ?t key val) A'" "t_cowVersion (tree_set ops ?t key val) = t_cowVersion ?t"
    using r s(3) by (simp_all add: tree_rep_def tree_set_def Let_def split_beta)
  then have "world (As(i := A')) h' (hts[i := ?ht']) (ts[i := tree_set ops ?t key val])" by (rule world_update [OF w i(1) s(2)])
  ultimately show ?thesis by auto
qed

lemma remove_call:
  assumes w: "world As h hts ts" and g: "good_call (RemoveCall i key) ts"
  shows "\<exists>As' h' hts'. h_call (RemoveCall i key) (hts, h) = Some (hts', h') \<and> world As' h' hts' (v_call ops (RemoveCall i key) ts)"
proof -
  let ?t = "ts ! i" and ?ht = "hts ! i"
  have i: "i < length ts" "t_version ?t \<noteq> word_of_nat MaxUint32" using g by simp_all
  have r: "tree_rep h ?ht ?t (As i)" and cl: "closed h" using w i(1) by (simp_all add: world_def)
  have lt: "t_cowVersion ?t < t_version ?t + 1" using r i(2) by (intro next_version) (simp_all add: tree_rep_def)
  obtain val n' nk where e: "removeRecursive (t_root ?t) key (t_version ?t + 1) = (val, n', nk)" by (metis prod_cases3)
  have "\<exists>x h' A'. h_removeRecursive (ht_root ?ht) key (t_version ?t + 1) (t_cowVersion ?t) h = Some ((val, x, nk), h') \<and>
      update (t_cowVersion ?t) h (As i) h' A' \<and> rep_option h' x n' A'"
  proof (cases "t_root ?t")
    case None
    then show ?thesis using r e update_refl [OF cl] by (subst h_removeRecursive.simps) (auto simp: tree_rep_def)
  next
    case (Some n)
    then obtain x where x: "ht_root ?ht = Some x" "rep h x n (As i)" using r by (auto simp: tree_rep_def)
    show ?thesis using h_removeRecursive_spec [OF cl lt x(2), of key] Some x(1) e by (auto simp: removes_def)
  qed
  then obtain x h' A' where s: "h_removeRecursive (ht_root ?ht) key (t_version ?t + 1) (t_cowVersion ?t) h = Some ((val, x, nk), h')"
    "update (t_cowVersion ?t) h (As i) h' A'" "rep_option h' x n' A'" by blast
  let ?ht' = "?ht\<lparr>ht_root := x\<rparr>"
  have "h_tree_remove ?ht key h = Some (?ht', h')" using s(1) r by (simp add: h_tree_remove_def tree_rep_def)
  moreover have "tree_rep h' ?ht' (tree_remove ops ?t key) A'" "t_cowVersion (tree_remove ops ?t key) = t_cowVersion ?t"
    using r s(3) e by (simp_all add: tree_rep_def tree_remove_def)
  then have "world (As(i := A')) h' (hts[i := ?ht']) (ts[i := tree_remove ops ?t key])" by (rule world_update [OF w i(1) s(2)])
  ultimately show ?thesis by auto
qed

lemma node_Hash_persisted: "persisted n = n \<Longrightarrow> snd (node_Hash n) = n"
proof (cases n)
  case (Leaf rp ver k v)
  then show "persisted n = n \<Longrightarrow> ?thesis" by (cases rp) auto
next
  case (Branch rp hgt s ver k l r)
  then show "persisted n = n \<Longrightarrow> ?thesis" by (cases rp) auto
qed

lemma rep_node_Hash: "rep h r n A \<Longrightarrow> rep h r (snd (node_Hash n)) A"
proof (induction n arbitrary: r A)
  case (Leaf rp ver k v)
  show ?case
  proof (cases r)
    case (MemRef a)
    with Leaf obtain c where "rp = Mem c" by (auto simp: rep.simps)
    then show ?thesis using Leaf MemRef by (cases c) (auto simp: rep.simps Let_def)
  next
    case (PersistedRef m)
    then show ?thesis using Leaf node_Hash_persisted by (simp add: rep.simps)
  qed
next
  case (Branch rp hgt s ver k l n)
  show ?case
  proof (cases r)
    case (MemRef a)
    obtain c hs xl xr Al Ar where x: "rp = Mem c" "h_cells h a = Some (BranchCell hs hgt s ver k xl xr)" "hs \<in> {None, Some (merkle (Branch rp hgt s ver k l n))}"
      "rep h xl l Al" "rep h xr n Ar" "Al \<inter> Ar = {}" "a \<notin> Al \<union> Ar" "A = insert a (Al \<union> Ar)" using Branch.prems MemRef by (auto simp: rep.simps)
    show ?thesis
    proof (cases c)
      case None
      have "\<exists>d. snd (node_Hash (Branch rp hgt s ver k l n)) = Branch (Mem d) hgt s ver k (snd (node_Hash l)) (snd (node_Hash n))"
        using None x(1) by (simp add: Let_def split_beta)
      then obtain d where d: "snd (node_Hash (Branch rp hgt s ver k l n)) = Branch (Mem d) hgt s ver k (snd (node_Hash l)) (snd (node_Hash n))" ..
      show ?thesis unfolding d MemRef rep.simps(3)
        using x(2-3,6-8) Branch.IH(1) [OF x(4)] Branch.IH(2) [OF x(5)]
        by (intro exI [of _ d] exI [of _ hs] exI [of _ xl] exI [of _ xr] exI [of _ Al] exI [of _ Ar]) (simp add: merkle_node_Hash)
    next
      case (Some y)
      then show ?thesis using x(1) Branch.prems by simp
    qed
  next
    case (PersistedRef m)
    have "rep h (PersistedRef m) (Branch rp hgt s ver k l n) A" using Branch.prems PersistedRef by simp
    then have "persisted (Branch rp hgt s ver k l n) = Branch rp hgt s ver k l n" unfolding rep.simps(1) by blast
    from node_Hash_persisted [OF this] show ?thesis using Branch.prems by simp
  qed
qed

text \<open>The root hash is that of the contents, whatever the caches hold.\<close>

lemma h_tree_RootHash_spec:
  assumes "tree_rep h htr t A"
  shows "\<exists>h'. h_tree_RootHash htr h = Some (root_merkle (t_root t), h') \<and> hashes h h' \<and> tree_rep h' htr t A \<and> tree_rep h' htr (snd (tree_RootHash t)) A"
proof (cases "t_root t")
  case None
  then show ?thesis
    using assms hashes_refl by (auto simp: tree_rep_def h_tree_RootHash_def tree_RootHash_def root_merkle_def)
next
  case (Some n)
  then obtain x where x: "ht_root htr = Some x" "rep h x n A" using assms by (auto simp: tree_rep_def)
  obtain h' where h': "h_Hash x h = Some (merkle n, h')" "hashes h h'" using h_Hash_spec [OF x(2)] by blast
  have "rep h' x n A" using h'(2) x(2) by (simp add: hashes_def)
  then show ?thesis
    using assms Some x(1) h' rep_node_Hash [of h' x n A]
    by (auto simp: tree_rep_def h_tree_RootHash_def tree_RootHash_def root_merkle_def split_beta)
qed

lemma hash_call:
  assumes w: "world As h hts ts" and g: "good_call (HashCall i) ts"
  shows "\<exists>As' h' hts'. h_call (HashCall i) (hts, h) = Some (hts', h') \<and> world As' h' hts' (v_call ops (HashCall i) ts)"
proof -
  have i: "i < length ts" using g by simp
  have r: "tree_rep h (hts ! i) (ts ! i) (As i)" using w i by (simp add: world_def)
  obtain h' where h': "h_tree_RootHash (hts ! i) h = Some (root_merkle (t_root (ts ! i)), h')" "hashes h h'"
    "tree_rep h' (hts ! i) (snd (tree_RootHash (ts ! i))) (As i)" using h_tree_RootHash_spec [OF r] by blast
  have c: "t_cowVersion (snd (tree_RootHash (ts ! i))) = t_cowVersion (ts ! i)" by (simp add: tree_RootHash_def split_beta split: option.split)
  have "world As h' (hts[i := hts ! i]) (ts[i := snd (tree_RootHash (ts ! i))])"
    by (rule world_same_root [OF world_hashes [OF w h'(2)] i h'(3)]) (simp add: c)
  then show ?thesis using h'(1) by auto
qed

lemma save_call:
  assumes w: "world As h hts ts" and g: "good_call (SaveCall i u) ts"
  shows "\<exists>As' h' hts'. h_call (SaveCall i u) (hts, h) = Some (hts', h') \<and> world As' h' hts' (v_call ops (SaveCall i u) ts)"
proof (cases "t_version (ts ! i) = word_of_nat MaxUint32")
  case True
  have "ht_version (hts ! i) = t_version (ts ! i)" using w g by (simp add: world_def tree_rep_def)
  then show ?thesis using True w by (auto simp: h_tree_SaveVersion_def tree_SaveVersion_def checkVersionOverflow_def)
next
  case False
  let ?t = "ts ! i" and ?ht = "hts ! i"
  define t1 where "t1 = (if u then snd (tree_RootHash ?t) else ?t)"
  have i: "i < length ts" using g by simp
  have r: "tree_rep h ?ht ?t (As i)" using w i by (simp add: world_def)
  obtain h' where h': "(if u then map_option snd (h_tree_RootHash ?ht h) else Some h) = Some h'" "hashes h h'" "tree_rep h' ?ht t1 (As i)"
    using h_tree_RootHash_spec [OF r] r hashes_refl [of h] by (cases u) (auto simp: t1_def)
  have c: "t_cowVersion t1 = t_cowVersion ?t" "t_version t1 = t_version ?t" by (simp_all add: t1_def tree_RootHash_def split_beta split: option.split)
  have v: "ht_version ?ht = t_version ?t" using r by (simp add: tree_rep_def)
  have "t_cowVersion ?t < t_version ?t + 1" using r False by (intro next_version) (simp_all add: tree_rep_def)
  then have t: "tree_rep h' (?ht\<lparr>ht_version := ht_version ?ht + 1\<rparr>) (t1\<lparr>t_version := t_version t1 + 1\<rparr>) (As i)"
    using h'(3) c by (simp add: tree_rep_def)
  have "world As h' (hts[i := ?ht\<lparr>ht_version := ht_version ?ht + 1\<rparr>]) (ts[i := t1\<lparr>t_version := t_version t1 + 1\<rparr>])"
    by (rule world_same_root [OF world_hashes [OF w h'(2)] i t]) (simp add: c)
  moreover have "v_call ops (SaveCall i u) ts = ts[i := t1\<lparr>t_version := t_version t1 + 1\<rparr>]"
    using False by (simp add: tree_SaveVersion_def checkVersionOverflow_def t1_def Let_def split_beta)
  ultimately show ?thesis using h'(1) v False by (auto simp: h_tree_SaveVersion_def)
qed

lemma root_is_MemNode:
  assumes "rep_option h x y A"
  shows "is_MemNode y \<longleftrightarrow> (\<exists>a. x = Some (MemRef a))"
proof (cases y)
  case (Some n)
  then obtain r where r: "x = Some r" "rep h r n A" using assms by auto
  show ?thesis
  proof (cases r)
    case (MemRef a)
    then show ?thesis using r Some by (cases n) (auto simp: rep.simps)
  next
    case (PersistedRef m)
    then have "persisted n = n" using r(2) by (simp add: rep.simps)
    then show ?thesis using r(1) Some PersistedRef by (cases n) auto
  qed
next
  case None
  then have "x = None" using assms by (cases x) auto
  then show ?thesis using None by simp
qed

lemma copy_call:
  assumes w: "world As h hts ts" and g: "good_call (CopyCall i) ts"
  shows "\<exists>As' h' hts'. h_call (CopyCall i) (hts, h) = Some (hts', h') \<and> world As' h' hts' (v_call ops (CopyCall i) ts)"
proof -
  let ?t = "ts ! i" and ?ht = "hts ! i"
  define t' where "t' = (if is_MemNode (t_root ?t) then ?t\<lparr>t_cowVersion := t_version ?t\<rparr> else ?t)"
  define ht' where "ht' = fst (h_tree_Copy ?ht)"
  define c where "c = t'\<lparr>t_cache := NewCache ops 0\<rparr>"
  have i: "i < length ts" "saved ?t" using g by simp_all
  have r: "tree_rep h ?ht ?t (As i)" using w i by (simp add: world_def)
  have m: "is_MemNode (t_root ?t) \<longleftrightarrow> (\<exists>a. ht_root ?ht = Some (MemRef a))" using r root_is_MemNode by (auto simp: tree_rep_def)
  have t': "tree_rep h ht' t' (As i)"
    using r m by (auto simp: tree_rep_def t'_def ht'_def h_tree_Copy_def Let_def split: option.split nref.split)
  have e: "writable (t_cowVersion t') h (As i) = {}"
  proof (cases "is_MemNode (t_root ?t)")
    case True
    then obtain n x where n: "t_root ?t = Some n" "rep h x n (As i)" using r by (cases "t_root ?t") (auto simp: tree_rep_def)
    then show ?thesis using versions_le_cells [OF n(2)] i(2) True by (simp add: saved_def t'_def)
  next
    case False
    have rr: "rep_option h (ht_root ?ht) (t_root ?t) (As i)" using r by (simp add: tree_rep_def)
    have "As i = {}"
    proof (cases "t_root ?t")
      case (Some n)
      then obtain x where x: "ht_root ?ht = Some x" "rep h x n (As i)" using rr by auto
      then obtain y where "x = PersistedRef y" using False m by (cases x) auto
      then show ?thesis using x(2) by (simp add: rep.simps)
    qed (use rr in simp)
    then show ?thesis by (simp add: writable_def)
  qed
  have w1: "world As h (hts[i := ht']) (ts[i := t'])" by (rule world_same_root [OF w i(1) t']) (simp add: e)
  let ?n = "length ts"
  have tr: "tree_rep h (hts[i := ht'] ! a) (ts[i := t'] ! a) (As a)" and
    sp: "b < ?n \<Longrightarrow> a \<noteq> b \<Longrightarrow> writable (t_cowVersion (ts[i := t'] ! a)) h (As a) \<inter> As b = {}" if "a < ?n" for a b
    using w1 that unfolding world_def by simp_all
  have sep: "writable (t_cowVersion (ts[i := t'] ! a)) h (As a) \<inter> As i = {}" if "a < ?n" for a
    using sp [OF that i(1)] i(1) e by (cases "a = i") simp_all
  have tc: "tree_rep h ht' c (As i)" using t' by (simp add: tree_rep_def c_def)
  have ec: "writable (t_cowVersion c) h (As i) = {}" using e by (simp add: c_def)
  have len: "length hts = ?n" "closed h" using w by (simp_all add: world_def)
  have nth: "(ts[i := t'] @ [c]) ! a = (if a = ?n then c else ts[i := t'] ! a)" "(hts[i := ht'] @ [ht']) ! a = (if a = ?n then ht' else hts[i := ht'] ! a)"
    if "a < Suc ?n" for a using that len(1) by (simp_all add: nth_append)
  have "world (As(?n := As i)) h (hts[i := ht'] @ [ht']) (ts[i := t'] @ [c])"
    unfolding world_def
  proof (intro conjI allI impI)
    fix a assume "a < length (ts[i := t'] @ [c])"
    then have a: "a < Suc ?n" by simp
    show "tree_rep h ((hts[i := ht'] @ [ht']) ! a) ((ts[i := t'] @ [c]) ! a) ((As(?n := As i)) a)" using nth [OF a] tr [of a] tc a by simp
    fix b assume "b < length (ts[i := t'] @ [c])" and ab: "a \<noteq> b"
    then have "b < Suc ?n" by simp
    then show "writable (t_cowVersion ((ts[i := t'] @ [c]) ! a)) h ((As(?n := As i)) a) \<inter> (As(?n := As i)) b = {}"
      using nth(1) [OF a] sp [of a b] sep [of a] ec a ab by simp
  qed (use len in simp_all)
  moreover have "h_tree_Copy ?ht = (ht', ht')" by (simp add: ht'_def h_tree_Copy_def Let_def)
  moreover have "tree_Copy ops 0 ?t = (t', c)" by (simp add: tree_Copy_def t'_def c_def Let_def)
  ultimately show ?thesis by auto
qed

lemma world_call:
  assumes "world As h hts ts" and "good_call call ts"
  shows "\<exists>As' h' hts'. h_call call (hts, h) = Some (hts', h') \<and> world As' h' hts' (v_call ops call ts)"
proof (cases call)
  case (SetCall i key val)
  then show ?thesis using set_call [OF assms(1)] assms(2) by metis
next
  case (RemoveCall i key)
  then show ?thesis using remove_call [OF assms(1)] assms(2) by metis
next
  case (HashCall i)
  then show ?thesis using hash_call [OF assms(1)] assms(2) by metis
next
  case (SaveCall i u)
  then show ?thesis using save_call [OF assms(1)] assms(2) by metis
next
  case (CopyCall i)
  then show ?thesis using copy_call [OF assms(1)] assms(2) by metis
qed

lemma world_calls:
  assumes "world As h hts ts" and "good_calls ops calls ts"
  shows "\<exists>As' h' hts'. h_calls calls (hts, h) = Some (hts', h') \<and> world As' h' hts' (foldl (\<lambda>ts c. v_call ops c ts) ts calls)"
  using assms
proof (induction calls arbitrary: As h hts ts)
  case (Cons c calls)
  then obtain As' h' hts' where "h_call c (hts, h) = Some (hts', h')" "world As' h' hts' (v_call ops c ts)" using world_call [of As h hts ts c ops] by auto
  then show ?case using Cons.IH [of As' h' hts' "v_call ops c ts"] Cons.prems(2) by auto
next
  case Nil
  then show ?case by (intro exI [of _ As]) simp
qed

section \<open>Properties\<close>

definition empty_heap :: heap where
  "empty_heap = \<lparr>h_cells = Map.empty, h_next = 0\<rparr>"

definition new_htree :: "'c tree \<Rightarrow> htree" where
  "new_htree t = \<lparr>ht_version = t_version t, ht_cowVersion = t_cowVersion t, ht_root = map_option PersistedRef (t_root t)\<rparr>"

lemma new_world:
  assumes "pred_option (\<lambda>n. persisted n = n) (t_root t)" and "t_cowVersion t \<le> t_version t"
  shows "world (\<lambda>_. {}) empty_heap [new_htree t] [t]"
  using assms by (cases "t_root t") (auto simp: world_def closed_def empty_heap_def tree_rep_def new_htree_def rep.simps)

text \<open>
  C3: copies are independent although they share nodes and nodes are changed in place. A tree starts empty or from a
  snapshot; sets, removals, hashing, saving and copying of it and of its copies follow in any order, where copies are
  taken of trees without unsaved changes. Then no call fails, and each tree stands for exactly the value
  that the calls on this tree alone give, as if no node were shared; its root hash is that of this value.
\<close>

theorem copies_independent:
  assumes "pred_option (\<lambda>n. persisted n = n) (t_root t)" and "t_cowVersion t \<le> t_version t" and "good_calls ops calls [t]"
    and "ts' = foldl (\<lambda>ts c. v_call ops c ts) [t] calls"
  shows "\<exists>hts' h'. h_calls calls ([new_htree t], empty_heap) = Some (hts', h') \<and> length hts' = length ts' \<and>
    (\<forall>i < length ts'. (\<exists>A. tree_rep h' (hts' ! i) (ts' ! i) A) \<and>
      (\<exists>h''. h_tree_RootHash (hts' ! i) h' = Some (root_merkle (t_root (ts' ! i)), h'')))"
proof -
  obtain As' h' hts' where w: "h_calls calls ([new_htree t], empty_heap) = Some (hts', h')" "world As' h' hts' ts'"
    using world_calls [OF new_world [OF assms(1,2)] assms(3)] assms(4) by blast
  then have r: "tree_rep h' (hts' ! i) (ts' ! i) (As' i)" if "i < length ts'" for i using that by (simp add: world_def)
  have "\<exists>h''. h_tree_RootHash (hts' ! i) h' = Some (root_merkle (t_root (ts' ! i)), h'')" if "i < length ts'" for i
    using h_tree_RootHash_spec [OF r [OF that]] by blast
  then show ?thesis using w r by (auto simp: world_def)
qed

definition plain_tree :: "lru tree" where
  "plain_tree = \<lparr>t_version = 0, t_cowVersion = 0, t_root = None, t_snapshot = None, t_cache = None, t_zeroCopy = True, t_traverse = None\<rparr>"

theorem copies_independent_witness:
  "\<exists>hts' h'. h_calls [SetCall 0 [1] (Some [7]), SaveCall 0 False, CopyCall 0, SetCall 0 [1] (Some [8]), SetCall 1 [2] (Some [9])]
      ([new_htree plain_tree], empty_heap) = Some (hts', h') \<and> length hts' = 2"
proof -
  let ?calls = "[SetCall 0 [1] (Some [7]), SaveCall 0 False, CopyCall 0, SetCall 0 [1] (Some [8]), SetCall 1 [2] (Some [9])]"
  have t: "pred_option (\<lambda>n. persisted n = n) (t_root plain_tree)" "t_cowVersion plain_tree \<le> t_version plain_tree" by (simp_all add: plain_tree_def)
  have g: "good_calls lru_ops ?calls [plain_tree]"
    by (simp add: plain_tree_def tree_set_def newLeafNode_def tree_SaveVersion_def checkVersionOverflow_def saved_def tree_Copy_def
        cache_add_def NewCache_def setRecursive_Leaf Let_def)
  have "length (foldl (\<lambda>ts c. v_call lru_ops c ts) [plain_tree] ?calls) = 2"
    by (simp add: plain_tree_def tree_set_def newLeafNode_def tree_SaveVersion_def checkVersionOverflow_def tree_Copy_def
        cache_add_def NewCache_def Let_def)
  then show ?thesis using copies_independent [OF t g refl] by auto
qed

text \<open>
  C39: a copy of a tree with unsaved changes is not protected. The nodes of the changes have the next version, which is
  above the \<^verbatim>\<open>cowVersion\<close> that \<^verbatim>\<open>Copy\<close> sets, so the next change of the source is made in place in a node that the copy
  shares: after \<open>k := v\<close>, a copy, and \<open>k := w\<close> on the source, the copy has the value \<open>w\<close> as well.
\<close>

theorem unsaved_copy_changes:
  assumes "t_version t \<noteq> word_of_nat MaxUint32" and "t_root t = None" and "calls = [SetCall 0 k (Some v), CopyCall 0, SetCall 0 k (Some w)]"
  shows "(\<exists>src h. h_calls calls ([new_htree t], empty_heap) = Some ([src, src], h) \<and> ht_root src = Some (MemRef 0) \<and>
      h_cells h 0 = Some (LeafCell None (t_version t + 1) k w)) \<and>
    t_root (foldl (\<lambda>ts c. v_call ops c ts) [t] calls ! 1) = Some (Leaf (Mem None) (t_version t + 1) k v)"
proof -
  let ?ver = "t_version t + 1"
  define h1 where "h1 = put_cell 0 (LeafCell None ?ver k v) (empty_heap\<lparr>h_next := Suc 0\<rparr>)"
  have gt: "\<not> ?ver \<le> t_version t" using next_version [of "t_version t" "t_version t"] assms(1) by simp
  have s1: "h_setRecursive None k v ?ver cow empty_heap = Some ((0, True), h1)" for cow
    by (subst h_setRecursive.simps) (simp add: alloc_def empty_heap_def put_cell_def h1_def)
  have c1: "h_cells h1 0 = Some (LeafCell None ?ver k v)" by (simp add: h1_def)
  have "bytes_Compare k k = 0" using bytes_Compare_range [of k k] by auto
  then have s2: "\<exists>h. h_setRecursive (Some (MemRef 0)) k w ?ver (t_version t) h1 = Some ((0, True), h) \<and> h_cells h 0 = Some (LeafCell None ?ver k w)"
    using c1 gt by (subst h_setRecursive.simps) (simp add: h_Mutate_def modify_def)
  then show ?thesis
    using assms(2,3) s1 by (auto simp: h_tree_set_def new_htree_def h_tree_Copy_def Let_def tree_set_def tree_Copy_def newLeafNode_def)
qed

theorem unsaved_copy_changes_witness:
  "\<exists>src h. h_calls [SetCall 0 [1] (Some [7]), CopyCall 0, SetCall 0 [1] (Some [8])] ([new_htree plain_tree], empty_heap) = Some ([src, src], h) \<and>
     h_cells h 0 = Some (LeafCell None 1 [1] [8])"
proof -
  have t: "t_version plain_tree \<noteq> word_of_nat MaxUint32" "t_root plain_tree = None" by (simp_all add: plain_tree_def)
  from unsaved_copy_changes [OF t refl, of "[1]" "[7]" "[8]" lru_ops] show ?thesis by (auto simp: plain_tree_def)
qed

end
