(* ===== verification/WAL.thy ===== *)
theory WAL
  imports Snapshot "HOL-Library.AList"
begin

text \<open>
  The write-ahead log: \<^verbatim>\<open>memiavl/wal.go\<close>. The log itself is the package \<^verbatim>\<open>tidwall/wal\<close>; the code here repairs
  the torn end of its last file before opening it, and reads its files without touching them while a
  writer is at work. The package's \<^verbatim>\<open>Open\<close> and the JSON query of \<^verbatim>\<open>gjson\<close> are arguments.

  A directory is the list of its entries, a subdirectory having no data; \<^verbatim>\<open>os.ReadDir\<close> returns it sorted
  by name.
\<close>

section \<open>Entries of a file\<close>

datatype log_format = Binary | JSON

text \<open>The total length of the next entry and the length of its size prefix.\<close>

definition loadNextBinaryEntry :: "bytes \<Rightarrow> (nat \<times> nat) result" where
  "loadNextBinaryEntry data =
     (let (sz, header) = Uvarint data in
      if header \<le> 0 then Inl WalCorrupt
      else if length data - nat header < sz then Inl WalCorrupt
      else Inr (nat header + sz, nat header))"

fun index_byte :: "u8 \<Rightarrow> bytes \<Rightarrow> nat option" where
  "index_byte c [] = None"
| "index_byte c (b # bs) = (if b = c then Some 0 else map_option Suc (index_byte c bs))"

text \<open>\<open>gjson line\<close>: the field \<^verbatim>\<open>data\<close> of the line is a JSON string.\<close>

definition loadNextJSONEntry :: "(bytes \<Rightarrow> bool) \<Rightarrow> bytes \<Rightarrow> nat result" where
  "loadNextJSONEntry gjson data =
     (case index_byte 10 data of
        None \<Rightarrow> Inl WalCorrupt
      | Some idx \<Rightarrow> if \<not> gjson (take idx data) then Inl WalCorrupt else Inr (idx + 1))"

definition load_next :: "(bytes \<Rightarrow> bool) \<Rightarrow> log_format \<Rightarrow> bytes \<Rightarrow> nat result" where
  "load_next gjson format data =
     (if format = JSON then loadNextJSONEntry gjson data
      else rbind (loadNextBinaryEntry data) (\<lambda>(n, header). Inr n))"

lemma load_next_pos: "load_next gjson format data = Inr n \<Longrightarrow> 0 < n"
  by (auto simp: load_next_def loadNextJSONEntry_def loadNextBinaryEntry_def Let_def split: if_splits prod.splits option.splits)

lemma index_byte_less: "index_byte c bs = Some i \<Longrightarrow> i < length bs"
  by (induction bs arbitrary: i) (auto split: if_splits)

lemma Uvarint_header:
  assumes "uvarint_loop bs i x s = (v, h)"
  shows "h \<le> int (i + length bs)"
  using assms
proof (induction bs arbitrary: i x s)
  case (Cons b bs)
  show ?case
  proof (cases "i = 10 \<or> unat b < 128")
    case True
    then show ?thesis using Cons.prems by (auto split: if_splits)
  next
    case False
    then have "uvarint_loop bs (Suc i) (x + unat b mod 128 * 2 ^ s) (s + 7) = (v, h)"
      using Cons.prems by simp
    from Cons.IH [OF this] show ?thesis by simp
  qed
qed simp

lemma loadNextBinaryEntry_bounds:
  assumes "loadNextBinaryEntry data = Inr (n, header)"
  shows "0 < header" "header \<le> n" "n \<le> length data"
proof -
  obtain sz h where u: "Uvarint data = (sz, h)" by (cases "Uvarint data")
  have "h \<le> int (length data)" using u Uvarint_header [of data 0 0 0 sz h] by (simp add: Uvarint_def)
  then show "0 < header" "header \<le> n" "n \<le> length data"
    using assms u by (auto simp: loadNextBinaryEntry_def Let_def split: if_splits)
qed

lemma load_next_le: "load_next gjson format data = Inr n \<Longrightarrow> n \<le> length data"
  by (auto simp: load_next_def loadNextJSONEntry_def rbind_Inr_iff Suc_le_eq
      dest: loadNextBinaryEntry_bounds(3) index_byte_less split: if_splits option.splits)

text \<open>The position up to which the loop of \<^verbatim>\<open>truncateCorruptedTail\<close> finds whole entries.\<close>

function truncate_pos :: "(bytes \<Rightarrow> bool) \<Rightarrow> log_format \<Rightarrow> bytes \<Rightarrow> nat \<Rightarrow> nat result" where
  "truncate_pos gjson format data pos =
     (if length data > 0 then
        (case load_next gjson format data of
           Inl e \<Rightarrow> if e = WalCorrupt then Inr pos else Inl e
         | Inr n \<Rightarrow> truncate_pos gjson format (drop n data) (pos + n))
      else Inr pos)"
  by pat_completeness auto
termination
proof (relation "measure (\<lambda>(gjson, format, data, pos). length data)")
  fix gjson format data pos n
  assume "length data > 0" "load_next gjson format data = Inr n"
  then show "((gjson, format, drop n data, pos + n), gjson, format, data, pos)
      \<in> measure (\<lambda>(gjson, format, data, pos). length data)"
    using load_next_pos by force
qed simp

declare truncate_pos.simps [simp del]

definition truncateCorruptedTail :: "(bytes \<Rightarrow> bool) \<Rightarrow> log_format \<Rightarrow> bytes \<Rightarrow> bytes result" where
  "truncateCorruptedTail gjson format data =
     rbind (truncate_pos gjson format data 0) (\<lambda>pos.
     Inr (if pos < length data then take pos data else data))"

function split_entries :: "bytes \<Rightarrow> bytes list \<times> bool" where
  "split_entries data =
     (if length data > 0 then
        (case loadNextBinaryEntry data of
           Inl e \<Rightarrow> ([], True)
         | Inr (n, header) \<Rightarrow>
             (let (entries, torn) = split_entries (drop n data)
              in (take (n - header) (drop header data) # entries, torn)))
      else ([], False))"
  by pat_completeness auto
termination
proof (relation "measure length")
  fix data :: bytes and p n header
  assume "length data > 0" "loadNextBinaryEntry data = Inr p" "(n, header) = p"
  then show "(drop n data, data) \<in> measure length"
    using loadNextBinaryEntry_bounds [of data n header] by auto
qed simp

declare split_entries.simps [simp del]

section \<open>The directory\<close>

type_synonym wal_dir = "(string \<times> bytes option) list"

abbreviation ErrNotExist :: gerror where
  "ErrNotExist \<equiv> AnyError ''file does not exist''"

definition walStartSuffix :: string where "walStartSuffix = ''.START''"
definition walEndSuffix :: string where "walEndSuffix = ''.END''"
definition readOnlyWALOpenAttempts :: nat where "readOnlyWALOpenAttempts = 3"

record walSegment =
  sg_index :: u64
  sg_path :: string
  sg_entries :: "bytes list option"

text \<open>\<^verbatim>\<open>strconv.ParseUint(s, 10, 64)\<close>\<close>

definition is_digit :: "char \<Rightarrow> bool" where
  "is_digit c \<longleftrightarrow> 48 \<le> (of_char c :: nat) \<and> (of_char c :: nat) \<le> 57"

definition decimal :: "string \<Rightarrow> nat" where
  "decimal s = foldl (\<lambda>n c. 10 * n + (of_char c - 48)) 0 s"

definition ParseUint :: "string \<Rightarrow> nat option" where
  "ParseUint s = (if s \<noteq> [] \<and> list_all is_digit s \<and> decimal s < 2 ^ 64 then Some (decimal s) else None)"

text \<open>What \<^verbatim>\<open>listWALSegments\<close> makes of an entry of the directory, and its loop.\<close>

datatype seg_kind = PlainSeg | StartSeg | EndSeg

definition segment_of :: "string \<times> bytes option \<Rightarrow> (seg_kind \<times> walSegment) option" where
  "segment_of e =
     (let name = fst e in
      if snd e = None \<or> length name < 20 then None
      else case ParseUint (take 20 name) of
        None \<Rightarrow> None
      | Some index \<Rightarrow>
          if index = 0 then None
          else (let seg = \<lparr>sg_index = word_of_nat index, sg_path = name, sg_entries = None\<rparr>; suffix = drop 20 name in
            if suffix = [] then Some (PlainSeg, seg)
            else if suffix = walStartSuffix then Some (StartSeg, seg)
            else if suffix = walEndSuffix then Some (EndSeg, seg)
            else None))"

fun list_segments ::
  "(seg_kind \<times> walSegment) list \<Rightarrow> walSegment list \<Rightarrow> bool \<Rightarrow> bool \<Rightarrow> walSegment list result" where
  "list_segments [] segments hasStart hasEnd =
     (if hasStart \<and> hasEnd then Inl WalCorrupt else Inr segments)"
| "list_segments ((PlainSeg, seg) # es) segments hasStart hasEnd =
     list_segments es (if \<not> hasEnd then segments @ [seg] else segments) hasStart hasEnd"
| "list_segments ((StartSeg, seg) # es) segments hasStart hasEnd = list_segments es [seg] True hasEnd"
| "list_segments ((EndSeg, seg) # es) segments hasStart hasEnd =
     (if hasEnd then list_segments es segments hasStart hasEnd
      else
        (let kept = (if segments \<noteq> [] \<and> sg_index (last segments) = sg_index seg then butlast segments else segments)
         in list_segments es (kept @ [seg]) hasStart True))"

definition listWALSegments :: "wal_dir option \<Rightarrow> walSegment list result" where
  "listWALSegments dir =
     (case dir of
        None \<Rightarrow> Inr []
      | Some es \<Rightarrow> list_segments (List.map_filter segment_of (sort_key fst es)) [] False False)"

definition read_file :: "wal_dir \<Rightarrow> string \<Rightarrow> bytes result" where
  "read_file dir name =
     (case map_of dir name of Some (Some data) \<Rightarrow> Inr data | _ \<Rightarrow> Inl ErrNotExist)"

definition has_suffix :: "string \<Rightarrow> string \<Rightarrow> bool" where
  "has_suffix s suf \<longleftrightarrow> length suf \<le> length s \<and> drop (length s - length suf) s = suf"

definition trim_suffix :: "string \<Rightarrow> string \<Rightarrow> string" where
  "trim_suffix s suf = (if has_suffix s suf then take (length s - length suf) s else s)"

definition readWALEntries :: "wal_dir \<Rightarrow> string \<Rightarrow> (bytes list \<times> bool) result" where
  "readWALEntries dir path =
     rbind
       (case read_file dir path of
          Inl e \<Rightarrow> if e = ErrNotExist \<and> has_suffix path walStartSuffix
            then read_file dir (trim_suffix path walStartSuffix) else Inl e
        | Inr data \<Rightarrow> Inr data)
       (\<lambda>data. Inr (split_entries data))"

section \<open>Reading without repairing\<close>

text \<open>\<open>ro_cached\<close> is the position of the segment that \<^verbatim>\<open>cached\<close> points to.\<close>

record readOnlyWAL =
  ro_segments :: "walSegment list"
  ro_firstIndex :: u64
  ro_lastIndex :: u64
  ro_closed :: bool
  ro_cached :: "nat option"

text \<open>The writer may change the directory between the listing and the reading of the last file.\<close>

definition tryOpenReadOnlyWAL :: "wal_dir option \<Rightarrow> wal_dir \<Rightarrow> readOnlyWAL result" where
  "tryOpenReadOnlyWAL listed dir =
     rbind (listWALSegments listed) (\<lambda>segments.
       if segments = [] then
         Inr \<lparr>ro_segments = [], ro_firstIndex = 0, ro_lastIndex = 0, ro_closed = False, ro_cached = None\<rparr>
       else
         (let tail = last segments in
          rbind (readWALEntries dir (sg_path tail)) (\<lambda>(entries, _).
          Inr \<lparr>ro_segments = butlast segments @ [tail\<lparr>sg_entries := Some entries\<rparr>],
               ro_firstIndex = sg_index (hd segments),
               ro_lastIndex = sg_index tail + word_of_nat (length entries) - 1,
               ro_closed = False, ro_cached = None\<rparr>)))"

fun open_attempts :: "(wal_dir option \<times> wal_dir) list \<Rightarrow> readOnlyWAL result \<Rightarrow> readOnlyWAL result" where
  "open_attempts [] r = r"
| "open_attempts ((listed, dir) # dirs) r =
     (let r' = tryOpenReadOnlyWAL listed dir in
      if r' \<noteq> Inl ErrNotExist then r' else open_attempts dirs r')"

definition openReadOnlyWAL :: "(wal_dir option \<times> wal_dir) list \<Rightarrow> readOnlyWAL result" where
  "openReadOnlyWAL dirs = open_attempts (take readOnlyWALOpenAttempts dirs) (Inl ErrNotExist)"

definition ro_FirstIndex :: "readOnlyWAL \<Rightarrow> u64 result" where
  "ro_FirstIndex l =
     (if ro_closed l then Inl WalClosed else if ro_lastIndex l = 0 then Inr 0 else Inr (ro_firstIndex l))"

definition ro_LastIndex :: "readOnlyWAL \<Rightarrow> u64 result" where
  "ro_LastIndex l = (if ro_closed l then Inl WalClosed else Inr (ro_lastIndex l))"

definition set_entries :: "nat \<Rightarrow> bytes list option \<Rightarrow> walSegment list \<Rightarrow> walSegment list" where
  "set_entries i es segs = segs[i := (segs ! i)\<lparr>sg_entries := es\<rparr>]"

text \<open>The entries of the segment at a position, from memory or from its file.\<close>

definition ro_load :: "wal_dir \<Rightarrow> nat \<Rightarrow> readOnlyWAL \<Rightarrow> bytes list result \<times> readOnlyWAL" where
  "ro_load dir pos l =
     (case sg_entries (ro_segments l ! pos) of
        Some entries \<Rightarrow> (Inr entries, l)
      | None \<Rightarrow>
          (case readWALEntries dir (sg_path (ro_segments l ! pos)) of
             Inl e \<Rightarrow> (Inl e, l)
           | Inr (entries, torn) \<Rightarrow>
               if torn then (Inl WalCorrupt, l)
               else (Inr entries, l\<lparr>ro_segments := set_entries pos (Some entries)
                   (case ro_cached l of None \<Rightarrow> ro_segments l | Some c \<Rightarrow> set_entries c None (ro_segments l)),
                 ro_cached := Some pos\<rparr>)))"

definition ro_Read :: "wal_dir \<Rightarrow> u64 \<Rightarrow> readOnlyWAL \<Rightarrow> bytes result \<times> readOnlyWAL" where
  "ro_Read dir index l =
     (if ro_closed l then (Inl WalClosed, l)
      else if index = 0 \<or> index < ro_firstIndex l \<or> index > ro_lastIndex l then (Inl WalNotFound, l)
      else
        (let pos = sort_Search (length (ro_segments l)) (\<lambda>i. sg_index (ro_segments l ! i) > index) - 1;
             (r, l') = ro_load dir pos l;
             offset = index - sg_index (ro_segments l ! pos)
         in (rbind r (\<lambda>entries. if unat offset \<ge> length entries then Inl WalCorrupt
               else Inr (entries ! unat offset)), l')))"

definition ro_Close :: "readOnlyWAL \<Rightarrow> unit result \<times> readOnlyWAL" where
  "ro_Close l = (if ro_closed l then (Inl WalClosed, l) else (Inr (), l\<lparr>ro_closed := True\<rparr>))"

section \<open>Opening for writing\<close>

text \<open>
  \<open>open\<close> is the package's \<^verbatim>\<open>wal.Open\<close>: the log, and the directory as it leaves it. The file to repair is
  the last segment.
\<close>

definition OpenWAL ::
  "(wal_dir \<Rightarrow> 'w result \<times> wal_dir) \<Rightarrow> (bytes \<Rightarrow> bool) \<Rightarrow> log_format \<Rightarrow> wal_dir \<Rightarrow> 'w result \<times> wal_dir" where
  "OpenWAL open gjson format dir =
     (let (log, dir1) = open dir in
      if log = Inl WalCorrupt then
        (case listWALSegments (Some dir1) of
           Inl e \<Rightarrow> (Inl e, dir1)
         | Inr segments \<Rightarrow>
             if segments = [] then (Inl WalCorrupt, dir1)
             else
               (let path = sg_path (last segments) in
                case rbind (read_file dir1 path) (truncateCorruptedTail gjson format) of
                  Inl e \<Rightarrow> (Inl e, dir1)
                | Inr data \<Rightarrow> open (AList.update path (Some data) dir1)))
      else (log, dir1))"

section \<open>The interface of a log\<close>

record 'w wal_reader =
  wr_FirstIndex :: "'w \<Rightarrow> u64 result"
  wr_LastIndex :: "'w \<Rightarrow> u64 result"
  wr_Read :: "u64 \<Rightarrow> 'w \<Rightarrow> bytes result \<times> 'w"

definition ro_reader :: "wal_dir \<Rightarrow> readOnlyWAL wal_reader" where
  "ro_reader dir = \<lparr>wr_FirstIndex = ro_FirstIndex, wr_LastIndex = ro_LastIndex, wr_Read = ro_Read dir\<rparr>"

section \<open>Lemmas: entries\<close>

definition encode_entry :: "bytes \<Rightarrow> bytes" where
  "encode_entry e = PutUvarint (word_of_nat (length e)) @ e"

lemma loadNextBinaryEntry_encode:
  assumes "length e < 2 ^ 64"
  shows "loadNextBinaryEntry (encode_entry e @ rest) = Inr (length (encode_entry e), length (encode_entry e) - length e)"
proof -
  let ?p = "put_uvarint (length e)"
  have enc: "encode_entry e = ?p @ e" using assms by (simp add: encode_entry_def PutUvarint_def unat_of_nat)
  have "Uvarint (?p @ e @ rest) = (length e, int (length ?p))"
    using assms by (simp add: Uvarint_put_uvarint)
  then show ?thesis by (simp add: loadNextBinaryEntry_def enc)
qed

lemma split_entries_encode:
  assumes "length e < 2 ^ 64"
  shows "split_entries (encode_entry e @ rest) = (e # fst (split_entries rest), snd (split_entries rest))"
proof -
  have "length (encode_entry e @ rest) > 0" by (simp add: encode_entry_def PutUvarint_def)
  moreover have "length e \<le> length (encode_entry e)" by (simp add: encode_entry_def)
  moreover have "drop (length (encode_entry e) - length e) (encode_entry e) = e" by (simp add: encode_entry_def)
  ultimately show ?thesis
    using loadNextBinaryEntry_encode [OF assms, of rest]
    by (subst split_entries.simps) (simp add: split_beta)
qed

lemma split_entries_whole:
  assumes "\<forall>e \<in> set es. length e < 2 ^ 64"
  shows "split_entries (concat (map encode_entry es) @ rest) =
    (es @ fst (split_entries rest), snd (split_entries rest))"
  using assms by (induction es) (simp_all add: split_entries_encode)

lemma split_entries_Nil [simp]: "split_entries [] = ([], False)"
  by (subst split_entries.simps) simp

lemma uvarint_loop_pos:
  "uvarint_loop bs i x s = (v, h) \<Longrightarrow> 0 < h \<Longrightarrow> i < nat h"
proof (induction bs arbitrary: i x s)
  case (Cons b bs)
  show ?case
  proof (cases "i = 10 \<or> unat b < 128")
    case True
    then show ?thesis using Cons.prems by (auto split: if_splits)
  next
    case False
    then have "uvarint_loop bs (Suc i) (x + unat b mod 128 * 2 ^ s) (s + 7) = (v, h)"
      using Cons.prems(1) by simp
    from Cons.IH [OF this Cons.prems(2)] show ?thesis by simp
  qed
qed simp

lemma uvarint_loop_take:
  assumes "uvarint_loop bs i x s = (v, h)" and "0 < h" and "nat h - i \<le> m"
  shows "uvarint_loop (take m bs) i x s = (v, h)"
  using assms
proof (induction bs arbitrary: i x s m)
  case (Cons b bs)
  have "i < nat h" using Cons.prems(1,2) by (rule uvarint_loop_pos)
  then obtain m' where m: "m = Suc m'" using Cons.prems(3) by (cases m) auto
  show ?case
  proof (cases "i = 10 \<or> unat b < 128")
    case True
    then show ?thesis using Cons.prems(1) m by (auto split: if_splits)
  next
    case False
    then have "uvarint_loop bs (Suc i) (x + unat b mod 128 * 2 ^ s) (s + 7) = (v, h)"
      using Cons.prems(1) by simp
    from Cons.IH [OF this Cons.prems(2), of m'] show ?thesis using False Cons.prems(3) m by simp
  qed
qed simp

lemma loadNextBinaryEntry_take:
  assumes "loadNextBinaryEntry data = Inr (n, header)" and "n \<le> m"
  shows "loadNextBinaryEntry (take m data) = Inr (n, header)"
proof -
  obtain sz h where u: "Uvarint data = (sz, h)" by (cases "Uvarint data")
  have h: "0 < h" "n = nat h + sz" "header = nat h"
    using assms(1) u by (auto simp: loadNextBinaryEntry_def Let_def split: if_splits)
  have "Uvarint (take m data) = (sz, h)"
    using uvarint_loop_take [of data 0 0 0 sz h m] u h assms(2) by (simp add: Uvarint_def)
  moreover have "n \<le> length data" by (rule loadNextBinaryEntry_bounds(3) [OF assms(1)])
  ultimately show ?thesis using h assms(2) by (auto simp: loadNextBinaryEntry_def)
qed

text \<open>Where the file is cut, exactly the whole entries remain.\<close>

lemma truncate_pos_split:
  "\<exists>p. truncate_pos gjson Binary data pos = Inr (pos + p) \<and> p \<le> length data \<and>
     (p = length data \<longleftrightarrow> \<not> snd (split_entries data)) \<and>
     split_entries (take p data) = (fst (split_entries data), False)"
proof (induction data arbitrary: pos rule: split_entries.induct)
  case (1 data)
  show ?case
  proof (cases "length data > 0")
    case False
    then show ?thesis by (subst truncate_pos.simps) simp
  next
    case True
    show ?thesis
    proof (cases "loadNextBinaryEntry data")
      case (Inl e)
      then have "e = WalCorrupt" by (auto simp: loadNextBinaryEntry_def Let_def split: if_splits prod.splits)
      then show ?thesis
        using True Inl
        by (intro exI [of _ 0]) (subst truncate_pos.simps, simp add: load_next_def split_entries.simps [of data])
    next
      case (Inr a)
      obtain n h where a: "a = (n, h)" by (cases a)
      note nb = loadNextBinaryEntry_bounds [OF Inr [unfolded a]]
      obtain p where p: "truncate_pos gjson Binary (drop n data) (pos + n) = Inr (pos + n + p)"
        "p \<le> length (drop n data)" "p = length (drop n data) \<longleftrightarrow> \<not> snd (split_entries (drop n data))"
        "split_entries (take p (drop n data)) = (fst (split_entries (drop n data)), False)"
        using "1.IH" [OF True Inr a [symmetric]] by blast
      have "loadNextBinaryEntry (take (n + p) data) = Inr (n, h)"
        using Inr a by (intro loadNextBinaryEntry_take) simp_all
      moreover have "length (take (n + p) data) > 0" using nb True by simp
      moreover have "take (n - h) (drop h (take (n + p) data)) = take (n - h) (drop h data)"
        using nb by (simp add: drop_take min_def)
      ultimately have "split_entries (take (n + p) data) =
          (take (n - h) (drop h data) # fst (split_entries (drop n data)), False)"
        using p(4) by (subst split_entries.simps) (simp add: drop_take)
      then show ?thesis
        using p(1-3) Inr a True nb
        by (intro exI [of _ "n + p"])
          (subst truncate_pos.simps, auto simp: load_next_def split_entries.simps [of data] split_beta)
    qed
  qed
qed

lemma truncate_encoded:
  assumes "length e < 2 ^ 64"
  shows "truncate_pos gjson Binary (encode_entry e @ rest) q = truncate_pos gjson Binary rest (q + length (encode_entry e))"
proof -
  have "length (encode_entry e @ rest) > 0" by (simp add: encode_entry_def PutUvarint_def)
  then show ?thesis
    using loadNextBinaryEntry_encode [OF assms, of rest]
    by (subst truncate_pos.simps) (simp add: load_next_def)
qed

lemma truncate_torn: "loadNextBinaryEntry torn = Inl WalCorrupt \<Longrightarrow> truncate_pos gjson Binary torn q = Inr q"
  by (subst truncate_pos.simps) (simp add: load_next_def)

section \<open>Lemmas: segments\<close>

lemma list_segments_plain_append:
  "StartSeg \<notin> fst ` set pre \<Longrightarrow> EndSeg \<notin> fst ` set pre \<Longrightarrow>
    list_segments (pre @ es) segs b False = list_segments es (segs @ map snd pre) b False"
proof (induction pre arbitrary: segs)
  case (Cons x pre)
  then show ?case by (cases x; cases "fst x") auto
qed simp

lemma list_segments_plain:
  "StartSeg \<notin> fst ` set es \<Longrightarrow> EndSeg \<notin> fst ` set es \<Longrightarrow> list_segments es segs b False = Inr (segs @ map snd es)"
  using list_segments_plain_append [of es "[]" segs b] by simp

lemma list_segments_no_end:
  "EndSeg \<notin> fst ` set pre \<Longrightarrow>
    \<exists>segs' b'. list_segments (pre @ es) segs b False = list_segments es segs' b' False"
proof (induction pre arbitrary: segs b)
  case (Cons x pre)
  then show ?case by (cases x; cases "fst x") auto
qed auto

lemma list_segments_ended:
  "StartSeg \<notin> fst ` set es \<Longrightarrow> list_segments es segs False True = Inr segs"
proof (induction es)
  case (Cons x es)
  then show ?case by (cases x; cases "fst x") auto
qed simp

lemma list_segments_both:
  "b \<or> StartSeg \<in> fst ` set es \<Longrightarrow> c \<or> EndSeg \<in> fst ` set es \<Longrightarrow> list_segments es segs b c = Inl WalCorrupt"
proof (induction es arbitrary: segs b c)
  case (Cons x es)
  then show ?case by (cases x; cases "fst x") (auto simp: Let_def)
qed auto

section \<open>The laws of a log\<close>

text \<open>
  What the readers of a log rely on: it holds consecutive entries from index \<open>wfirst\<close> on, and reading
  does not change them. An empty log starts at index 1.
\<close>

locale wal_log =
  fixes rd :: "'w wal_reader" and winv :: "'w \<Rightarrow> bool" and wfirst :: "'w \<Rightarrow> nat" and wentries :: "'w \<Rightarrow> bytes list"
  assumes bounds: "winv w \<Longrightarrow> 1 \<le> wfirst w \<and> wfirst w + length (wentries w) < 2 ^ 63"
    and FirstIndex: "winv w \<Longrightarrow> wr_FirstIndex rd w =
      Inr (if wfirst w + length (wentries w) = 1 then 0 else word_of_nat (wfirst w))"
    and LastIndex: "winv w \<Longrightarrow> wr_LastIndex rd w = Inr (word_of_nat (wfirst w + length (wentries w) - 1))"
    and Read: "winv w \<Longrightarrow> wfirst w \<le> i \<Longrightarrow> i < wfirst w + length (wentries w) \<Longrightarrow>
      fst (wr_Read rd (word_of_nat i) w) = Inr (wentries w ! (i - wfirst w))"
    and Read_state: "winv w \<Longrightarrow> winv (snd (wr_Read rd x w)) \<and> wfirst (snd (wr_Read rd x w)) = wfirst w \<and>
      wentries (snd (wr_Read rd x w)) = wentries w"

section \<open>The read-only log obeys the laws\<close>

definition seg_data :: "wal_dir \<Rightarrow> walSegment \<Rightarrow> bytes list" where
  "seg_data dir seg =
     (case sg_entries seg of
        Some es \<Rightarrow> es
      | None \<Rightarrow> (case readWALEntries dir (sg_path seg) of Inr (es, _) \<Rightarrow> es | Inl _ \<Rightarrow> []))"

fun chained :: "wal_dir \<Rightarrow> nat \<Rightarrow> walSegment list \<Rightarrow> bool" where
  "chained dir i [] = True"
| "chained dir i (seg # segs) =
     (sg_index seg = word_of_nat i \<and> chained dir (i + length (seg_data dir seg)) segs)"

definition ro_entries :: "wal_dir \<Rightarrow> readOnlyWAL \<Rightarrow> bytes list" where
  "ro_entries dir l = concat (map (seg_data dir) (ro_segments l))"

definition ro_first :: "readOnlyWAL \<Rightarrow> nat" where
  "ro_first l = (if ro_segments l = [] then 1 else unat (ro_firstIndex l))"

definition readable :: "wal_dir \<Rightarrow> walSegment \<Rightarrow> bool" where
  "readable dir seg \<longleftrightarrow> (\<exists>es. readWALEntries dir (sg_path seg) = Inr (es, False) \<and> sg_entries seg \<in> {None, Some es})"

definition ro_inv :: "wal_dir \<Rightarrow> readOnlyWAL \<Rightarrow> bool" where
  "ro_inv dir l \<longleftrightarrow> \<not> ro_closed l \<and> 1 \<le> ro_first l \<and> ro_first l + length (ro_entries dir l) < 2 ^ 63 \<and>
     chained dir (ro_first l) (ro_segments l) \<and>
     (if ro_segments l = [] then ro_firstIndex l = 0 else ro_firstIndex l = word_of_nat (ro_first l)) \<and>
     ro_lastIndex l = word_of_nat (ro_first l + length (ro_entries dir l) - 1) \<and>
     (\<forall>seg \<in> set (butlast (ro_segments l)). readable dir seg) \<and>
     (ro_segments l \<noteq> [] \<longrightarrow> sg_entries (last (ro_segments l)) \<noteq> None) \<and>
     (\<forall>c. ro_cached l = Some c \<longrightarrow> c < length (ro_segments l) - 1)"

lemma chained_mono:
  assumes "chained dir i segs" and "a \<le> b" and "b < length segs" and "i + length (concat (map (seg_data dir) segs)) < 2 ^ 63"
  shows "i \<le> unat (sg_index (segs ! a)) \<and> unat (sg_index (segs ! a)) \<le> unat (sg_index (segs ! b))"
  using assms
proof (induction segs arbitrary: i a b)
  case (Cons seg segs)
  let ?i = "i + length (seg_data dir seg)"
  have "i < 2 ^ 64" using Cons.prems(4) by simp
  then have i: "unat (sg_index seg) = i" using Cons.prems(1) by (simp add: unat_of_nat)
  have ih: "\<And>a b. a \<le> b \<Longrightarrow> b < length segs \<Longrightarrow>
      ?i \<le> unat (sg_index (segs ! a)) \<and> unat (sg_index (segs ! a)) \<le> unat (sg_index (segs ! b))"
    using Cons.prems(1,4) by (intro Cons.IH) auto
  show ?case
  proof (cases a)
    case 0
    then show ?thesis using i ih [of "b - 1" "b - 1"] Cons.prems(3) by (cases b) auto
  next
    case (Suc a')
    then show ?thesis using ih [of a' "b - 1"] Cons.prems(2,3) by (cases b) auto
  qed
qed simp

lemma chained_lookup:
  assumes "chained dir i segs" and "i \<le> x" and "x < i + length (concat (map (seg_data dir) segs))"
    and "i + length (concat (map (seg_data dir) segs)) < 2 ^ 63"
  shows "\<exists>pos < length segs. unat (sg_index (segs ! pos)) \<le> x \<and>
    (\<forall>j. pos < j \<longrightarrow> j < length segs \<longrightarrow> x < unat (sg_index (segs ! j))) \<and>
    x - unat (sg_index (segs ! pos)) < length (seg_data dir (segs ! pos)) \<and>
    concat (map (seg_data dir) segs) ! (x - i) =
      seg_data dir (segs ! pos) ! (x - unat (sg_index (segs ! pos)))"
  using assms
proof (induction segs arbitrary: i)
  case (Cons seg segs)
  let ?i = "i + length (seg_data dir seg)"
  have ch: "chained dir ?i segs" "?i + length (concat (map (seg_data dir) segs)) < 2 ^ 63"
    using Cons.prems(1,4) by auto
  have "i < 2 ^ 64" using Cons.prems(4) by simp
  then have i: "unat (sg_index seg) = i" using Cons.prems(1) by (simp add: unat_of_nat)
  show ?case
  proof (cases "x < ?i")
    case True
    have "x < unat (sg_index ((seg # segs) ! j))" if "0 < j" "j < length (seg # segs)" for j
      using chained_mono [OF ch(1), of "j - 1" "j - 1"] ch(2) that True by (cases j) auto
    then show ?thesis
      using True i Cons.prems(2) by (intro exI [of _ 0]) (auto simp: nth_append)
  next
    case False
    then obtain pos where pos: "pos < length segs" "unat (sg_index (segs ! pos)) \<le> x"
      "\<forall>j. pos < j \<longrightarrow> j < length segs \<longrightarrow> x < unat (sg_index (segs ! j))"
      "x - unat (sg_index (segs ! pos)) < length (seg_data dir (segs ! pos))"
      "concat (map (seg_data dir) segs) ! (x - ?i) = seg_data dir (segs ! pos) ! (x - unat (sg_index (segs ! pos)))"
      using Cons.IH [OF ch(1) _ _ ch(2)] Cons.prems(3) by auto
    have "\<forall>j. Suc pos < j \<longrightarrow> j < length (seg # segs) \<longrightarrow> x < unat (sg_index ((seg # segs) ! j))"
      using pos(3) by (auto simp: less_Suc_eq_0_disj nth_Cons')
    then show ?thesis
      using pos False by (intro exI [of _ "Suc pos"]) (auto simp: nth_append)
  qed
qed simp

lemma chained_last:
  "chained dir i segs \<Longrightarrow> segs \<noteq> [] \<Longrightarrow>
    sg_index (last segs) + word_of_nat (length (seg_data dir (last segs))) =
      word_of_nat (i + length (concat (map (seg_data dir) segs)))"
proof (induction segs arbitrary: i)
  case (Cons seg segs)
  then show ?case
    using Cons.IH [of "i + length (seg_data dir seg)"] by (cases "segs = []") (simp_all add: algebra_simps)
qed simp

lemma chained_append:
  "chained dir i (xs @ ys) \<longleftrightarrow> chained dir i xs \<and> chained dir (i + length (concat (map (seg_data dir) xs))) ys"
  by (induction xs arbitrary: i) (simp_all add: add.assoc)

lemma list_segments_fresh:
  "list_segments es segs b c = Inr segs' \<Longrightarrow> seg \<in> set segs' \<Longrightarrow> seg \<in> set segs \<or> seg \<in> snd ` set es"
proof (induction es segs b c rule: list_segments.induct)
  case (4 sg es segs b c)
  then show ?case by (auto simp: Let_def split: if_splits dest: in_set_butlastD)
qed (auto split: if_splits)

lemma segment_of_entries:
  assumes "segment_of e = Some (k, seg)"
  shows "sg_entries seg = None"
proof (cases "snd e = None \<or> length (fst e) < 20")
  case False
  show ?thesis
  proof (cases "ParseUint (take 20 (fst e))")
    case (Some index)
    define sg where "sg = \<lparr>sg_index = word_of_nat index :: u64, sg_path = fst e, sg_entries = None :: bytes list option\<rparr>"
    have "seg = sg"
      using assms False Some by (simp add: segment_of_def Let_def sg_def split: if_split_asm)
    then show ?thesis by (simp add: sg_def)
  qed (use assms False in \<open>simp add: segment_of_def Let_def\<close>)
qed (use assms in \<open>auto simp: segment_of_def Let_def\<close>)

lemma segment_of_fresh: "(k, seg) \<in> set (List.map_filter segment_of es) \<Longrightarrow> sg_entries seg = None"
  by (induction es) (auto simp: map_filter_simps segment_of_entries split: option.split_asm)

lemma chained_update:
  assumes "sg_index seg' = sg_index (segs ! c)" and "seg_data dir seg' = seg_data dir (segs ! c)"
  shows "chained dir i (segs[c := seg']) = chained dir i segs"
  using assms
proof (induction segs arbitrary: i c)
  case (Cons seg segs)
  then show ?case by (cases c) auto
qed simp

definition segs_ok :: "wal_dir \<Rightarrow> walSegment list \<Rightarrow> bool" where
  "segs_ok dir segs \<longleftrightarrow> (\<forall>seg \<in> set (butlast segs). readable dir seg) \<and>
     (segs \<noteq> [] \<longrightarrow> sg_entries (last segs) \<noteq> None)"

lemma set_entries_view:
  assumes "segs_ok dir segs" and "c < length segs - 1" and "readWALEntries dir (sg_path (segs ! c)) = Inr (es, False)"
    and "x \<in> {None, Some es}"
  shows "segs_ok dir (set_entries c x segs)" and "length (set_entries c x segs) = length segs"
    and "map (seg_data dir) (set_entries c x segs) = map (seg_data dir) segs"
    and "chained dir i (set_entries c x segs) = chained dir i segs"
    and "map sg_path (set_entries c x segs) = map sg_path segs"
proof -
  let ?seg = "(segs ! c)\<lparr>sg_entries := x\<rparr>"
  have c: "c < length segs" using assms(2) by simp
  have mem: "segs ! c \<in> set (butlast segs)"
    using assms(2) nth_mem [of c "butlast segs"] by (simp add: nth_butlast)
  then have rd: "readable dir (segs ! c)" using assms(1) by (simp add: segs_ok_def)
  then have dt: "seg_data dir ?seg = seg_data dir (segs ! c)"
    using assms(3,4) by (auto simp: readable_def seg_data_def)
  then show "map (seg_data dir) (set_entries c x segs) = map (seg_data dir) segs"
    by (simp add: set_entries_def map_update c) (metis c list_update_id map_update nth_map)
  show "chained dir i (set_entries c x segs) = chained dir i segs"
    unfolding set_entries_def using dt by (intro chained_update) simp_all
  show "length (set_entries c x segs) = length segs" by (simp add: set_entries_def)
  show "map sg_path (set_entries c x segs) = map sg_path segs"
    by (simp add: set_entries_def map_update c) (metis c list_update_id map_update nth_map)
  have "butlast (segs[c := ?seg]) = (butlast segs)[c := ?seg]" using assms(2) by (simp add: butlast_list_update)
  moreover have "readable dir ?seg" using rd assms(3,4) by (auto simp: readable_def)
  moreover have "last (segs[c := ?seg]) = last segs" 
    using assms(2) c by (cases "segs = []") (simp_all add: last_list_update)
  ultimately show "segs_ok dir (set_entries c x segs)"
    using assms(1) by (auto simp: segs_ok_def set_entries_def dest!: set_update_subset_insert [THEN subsetD])
qed

lemma ro_inv_segs:
  "ro_inv dir l \<Longrightarrow> segs_ok dir (ro_segments l)"
  by (simp add: ro_inv_def segs_ok_def)

lemma unat_u64: "n < 2 ^ 64 \<Longrightarrow> unat (word_of_nat n :: u64) = n"
  by (simp add: unat_of_nat)

lemma ro_inv_bounds:
  assumes "ro_inv dir l"
  shows "1 \<le> ro_first l" and "ro_first l + length (ro_entries dir l) < 2 ^ 63" and "\<not> ro_closed l"
    and "unat (ro_lastIndex l) = ro_first l + length (ro_entries dir l) - 1"
    and "ro_segments l \<noteq> [] \<Longrightarrow> ro_firstIndex l = word_of_nat (ro_first l) \<and> unat (ro_firstIndex l) = ro_first l"
    and "ro_segments l = [] \<Longrightarrow> ro_first l + length (ro_entries dir l) = 1"
proof -
  let ?n = "ro_first l + length (ro_entries dir l)"
  show b: "1 \<le> ro_first l" "?n < 2 ^ 63" "\<not> ro_closed l" using assms by (auto simp: ro_inv_def)
  have "ro_lastIndex l = word_of_nat (?n - 1)" using assms unfolding ro_inv_def by blast
  moreover have "?n - 1 < 2 ^ 64" using b(2) by (rule less_imp_diff_less [OF less_trans]) simp
  ultimately show "unat (ro_lastIndex l) = ?n - 1" by (simp only: unat_u64)
  have "ro_first l < 2 ^ 64" using b(2) by simp
  then show "ro_segments l \<noteq> [] \<Longrightarrow> ro_firstIndex l = word_of_nat (ro_first l) \<and> unat (ro_firstIndex l) = ro_first l"
    using assms unat_u64 by (simp add: ro_inv_def)
  show "ro_segments l = [] \<Longrightarrow> ?n = 1" by (simp add: ro_first_def ro_entries_def)
qed

text \<open>Replacing the entries that are kept in memory by the same data changes nothing that can be seen.\<close>

lemma ro_inv_replace:
  assumes "ro_inv dir l" and "segs_ok dir segs" and "length segs = length (ro_segments l)"
    and "map (seg_data dir) segs = map (seg_data dir) (ro_segments l)"
    and "\<And>i. chained dir i segs = chained dir i (ro_segments l)" and "pos < length segs - 1"
  shows "ro_inv dir (l\<lparr>ro_segments := segs, ro_cached := Some pos\<rparr>) \<and>
    ro_first (l\<lparr>ro_segments := segs, ro_cached := Some pos\<rparr>) = ro_first l \<and>
    ro_entries dir (l\<lparr>ro_segments := segs, ro_cached := Some pos\<rparr>) = ro_entries dir l"
proof -
  have nil: "segs = [] \<longleftrightarrow> ro_segments l = []" using assms(3) by (cases segs) auto
  have first: "ro_first (l\<lparr>ro_segments := segs, ro_cached := Some pos\<rparr>) = ro_first l"
    using nil by (simp add: ro_first_def)
  moreover have entries: "ro_entries dir (l\<lparr>ro_segments := segs, ro_cached := Some pos\<rparr>) = ro_entries dir l"
    using assms(4) by (simp add: ro_entries_def)
  ultimately show ?thesis
    using assms(1,2,5,6) nil unfolding ro_inv_def segs_ok_def by simp
qed

lemma ro_evict_view:
  assumes "ro_inv dir l"
  defines "segs \<equiv> (case ro_cached l of None \<Rightarrow> ro_segments l | Some c \<Rightarrow> set_entries c None (ro_segments l))"
  shows "segs_ok dir segs" and "length segs = length (ro_segments l)"
    and "map (seg_data dir) segs = map (seg_data dir) (ro_segments l)"
    and "chained dir i segs = chained dir i (ro_segments l)"
    and "map sg_path segs = map sg_path (ro_segments l)"
proof -
  have ok: "segs_ok dir (ro_segments l)" by (rule ro_inv_segs [OF assms(1)])
  have "segs_ok dir segs \<and> length segs = length (ro_segments l) \<and>
    map (seg_data dir) segs = map (seg_data dir) (ro_segments l) \<and>
    chained dir i segs = chained dir i (ro_segments l) \<and> map sg_path segs = map sg_path (ro_segments l)"
  proof (cases "ro_cached l")
    case (Some c)
    then have c: "c < length (ro_segments l) - 1" using assms(1) by (simp add: ro_inv_def)
    then have "ro_segments l ! c \<in> set (butlast (ro_segments l))"
      using nth_mem [of c "butlast (ro_segments l)"] by (simp add: nth_butlast)
    then obtain es where "readWALEntries dir (sg_path (ro_segments l ! c)) = Inr (es, False)"
      using ok by (auto simp: segs_ok_def readable_def)
    from set_entries_view [OF ok c this, of None] show ?thesis by (simp add: segs_def Some)
  qed (use ok in \<open>simp add: segs_def\<close>)
  then show "segs_ok dir segs" and "length segs = length (ro_segments l)"
    and "map (seg_data dir) segs = map (seg_data dir) (ro_segments l)"
    and "chained dir i segs = chained dir i (ro_segments l)"
    and "map sg_path segs = map sg_path (ro_segments l)" by simp_all
qed

lemma search_loop_le: "i \<le> j \<Longrightarrow> search_loop f i j \<le> j"
proof (induction f i j rule: search_loop.induct)
  case (1 f i j)
  have "(i + j) div 2 \<le> j" using "1.prems" by simp
  moreover have "i < j \<Longrightarrow> f ((i + j) div 2) \<Longrightarrow> search_loop f i ((i + j) div 2) \<le> (i + j) div 2"
    using "1.IH"(2) [OF _ refl] by simp
  moreover have "i < j \<Longrightarrow> \<not> f ((i + j) div 2) \<Longrightarrow> search_loop f ((i + j) div 2 + 1) j \<le> j"
    using "1.IH"(1) [OF _ refl] by simp
  ultimately show ?case using "1.prems" by (subst search_loop.simps) (auto simp: Let_def intro: le_trans)
qed

lemma ro_Read_position:
  assumes "ro_inv dir l" and "ro_first l \<le> i" and "i < ro_first l + length (ro_entries dir l)"
  obtains pos where "pos < length (ro_segments l)"
    "sort_Search (length (ro_segments l)) (\<lambda>j. sg_index (ro_segments l ! j) > word_of_nat i) = Suc pos"
    "unat (word_of_nat i - sg_index (ro_segments l ! pos)) < length (seg_data dir (ro_segments l ! pos))"
    "ro_entries dir l ! (i - ro_first l) =
      seg_data dir (ro_segments l ! pos) ! unat (word_of_nat i - sg_index (ro_segments l ! pos))"
proof -
  let ?segs = "ro_segments l" let ?f = "\<lambda>j. sg_index (?segs ! j) > word_of_nat i"
  have ch: "chained dir (ro_first l) ?segs" and lt: "ro_first l + length (concat (map (seg_data dir) ?segs)) < 2 ^ 63"
    using assms(1) by (auto simp: ro_inv_def ro_entries_def)
  obtain pos where pos: "pos < length ?segs" "unat (sg_index (?segs ! pos)) \<le> i"
    "\<And>j. pos < j \<Longrightarrow> j < length ?segs \<Longrightarrow> i < unat (sg_index (?segs ! j))"
    "i - unat (sg_index (?segs ! pos)) < length (seg_data dir (?segs ! pos))"
    "ro_entries dir l ! (i - ro_first l) = seg_data dir (?segs ! pos) ! (i - unat (sg_index (?segs ! pos)))"
    using chained_lookup [OF ch assms(2) _ lt] assms(3) by (auto simp: ro_entries_def)
  have "i < 2 ^ 63" using assms(3) lt by (simp add: ro_entries_def)
  then have i: "unat (word_of_nat i :: u64) = i" by (simp add: unat_of_nat)
  have f: "?f j \<longleftrightarrow> pos < j" if "j < length ?segs" for j
  proof (cases "pos < j")
    case True
    then show ?thesis using pos(3) [OF True that] i by (simp add: word_less_nat_alt)
  next
    case False
    then have "unat (sg_index (?segs ! j)) \<le> unat (sg_index (?segs ! pos))"
      using chained_mono [OF ch _ pos(1) lt, of j] by simp
    then show ?thesis using pos(2) i False by (simp add: word_less_nat_alt)
  qed
  have "sort_Search (length ?segs) ?f = Suc pos"
    by (rule sort_Search_threshold) (use f pos(1) in \<open>simp_all add: Suc_le_eq\<close>)
  moreover have "unat (word_of_nat i - sg_index (?segs ! pos)) = i - unat (sg_index (?segs ! pos))"
    using pos(2) i by (simp add: unat_sub word_le_nat_alt)
  ultimately show thesis using that pos by simp
qed

lemma ro_segment_readable:
  assumes "segs_ok dir segs" and "pos < length segs" and "sg_entries (segs ! pos) = None"
  shows "pos < length segs - 1" and "\<exists>es. readWALEntries dir (sg_path (segs ! pos)) = Inr (es, False)"
proof -
  have ne: "segs \<noteq> []" using assms(2) by auto
  then have "sg_entries (segs ! (length segs - 1)) \<noteq> None"
    using assms(1) by (simp add: segs_ok_def last_conv_nth)
  then have "pos \<noteq> length segs - 1" using assms(3) by metis
  then show lt: "pos < length segs - 1" using assms(2) by simp
  then have "segs ! pos \<in> set (butlast segs)"
    using nth_mem [of pos "butlast segs"] by (simp add: nth_butlast)
  then show "\<exists>es. readWALEntries dir (sg_path (segs ! pos)) = Inr (es, False)"
    using assms(1) by (auto simp: segs_ok_def readable_def)
qed

text \<open>Loading a segment keeps the view and gives its data.\<close>

lemma ro_load_spec:
  assumes "ro_inv dir l" and "pos < length (ro_segments l)"
  shows "fst (ro_load dir pos l) = Inr (seg_data dir (ro_segments l ! pos))"
    and "ro_inv dir (snd (ro_load dir pos l)) \<and> ro_first (snd (ro_load dir pos l)) = ro_first l \<and>
      ro_entries dir (snd (ro_load dir pos l)) = ro_entries dir l"
proof -
  let ?segs = "ro_segments l"
  have ok: "segs_ok dir ?segs" by (rule ro_inv_segs [OF assms(1)])
  have "fst (ro_load dir pos l) = Inr (seg_data dir (?segs ! pos)) \<and>
    ro_inv dir (snd (ro_load dir pos l)) \<and> ro_first (snd (ro_load dir pos l)) = ro_first l \<and>
      ro_entries dir (snd (ro_load dir pos l)) = ro_entries dir l"
  proof (cases "sg_entries (?segs ! pos)")
    case None
    obtain es where es: "readWALEntries dir (sg_path (?segs ! pos)) = Inr (es, False)"
      using ro_segment_readable(2) [OF ok assms(2) None] by blast
    have pos: "pos < length ?segs - 1" by (rule ro_segment_readable(1) [OF ok assms(2) None])
    define segs where "segs = (case ro_cached l of None \<Rightarrow> ?segs | Some c \<Rightarrow> set_entries c None ?segs)"
    have segs: "segs_ok dir segs" "length segs = length ?segs" "map (seg_data dir) segs = map (seg_data dir) ?segs"
      "\<And>i. chained dir i segs = chained dir i ?segs" "map sg_path segs = map sg_path ?segs"
      using ro_evict_view [OF assms(1)] by (simp_all add: segs_def)
    have "sg_path (segs ! pos) = sg_path (?segs ! pos)" using segs(2,5) assms(2) by (metis nth_map)
    then have es': "readWALEntries dir (sg_path (segs ! pos)) = Inr (es, False)" using es by simp
    note view = set_entries_view [OF segs(1) _ es', of "Some es", unfolded segs(2), OF pos]
    have "ro_inv dir (l\<lparr>ro_segments := set_entries pos (Some es) segs, ro_cached := Some pos\<rparr>) \<and>
      ro_first (l\<lparr>ro_segments := set_entries pos (Some es) segs, ro_cached := Some pos\<rparr>) = ro_first l \<and>
      ro_entries dir (l\<lparr>ro_segments := set_entries pos (Some es) segs, ro_cached := Some pos\<rparr>) = ro_entries dir l"
      by (rule ro_inv_replace [OF assms(1)]) (use view segs pos in simp_all)
    moreover have "ro_load dir pos l = (Inr es, l\<lparr>ro_segments := set_entries pos (Some es) segs, ro_cached := Some pos\<rparr>)"
      using None es by (simp add: ro_load_def segs_def)
    ultimately show ?thesis using None es by (simp add: seg_data_def)
  qed (use assms(1) in \<open>simp add: ro_load_def seg_data_def\<close>)
  then show "fst (ro_load dir pos l) = Inr (seg_data dir (?segs ! pos))"
    and "ro_inv dir (snd (ro_load dir pos l)) \<and> ro_first (snd (ro_load dir pos l)) = ro_first l \<and>
      ro_entries dir (snd (ro_load dir pos l)) = ro_entries dir l" by simp_all
qed

lemma ro_Read_state:
  assumes "ro_inv dir l"
  shows "ro_inv dir (snd (ro_Read dir x l)) \<and> ro_first (snd (ro_Read dir x l)) = ro_first l \<and>
    ro_entries dir (snd (ro_Read dir x l)) = ro_entries dir l"
proof -
  let ?pos = "sort_Search (length (ro_segments l)) (\<lambda>i. sg_index (ro_segments l ! i) > x) - 1"
  show ?thesis
  proof (cases "ro_closed l \<or> x = 0 \<or> x < ro_firstIndex l \<or> x > ro_lastIndex l")
    case True
    then show ?thesis using assms by (auto simp: ro_Read_def)
  next
    case False
    have ne: "ro_segments l \<noteq> []"
    proof
      assume "ro_segments l = []"
      then have "unat (ro_lastIndex l) = 0" using ro_inv_bounds(4,6) [OF assms] by simp
      then show False using False by (auto simp: word_less_nat_alt unat_eq_0)
    qed
    have "sort_Search (length (ro_segments l)) (\<lambda>i. sg_index (ro_segments l ! i) > x) \<le> length (ro_segments l)"
      unfolding sort_Search_def by (rule search_loop_le) simp
    then have "?pos < length (ro_segments l)" using length_greater_0_conv [THEN iffD2, OF ne] by linarith
    from ro_load_spec(2) [OF assms this] show ?thesis using False by (simp add: ro_Read_def Let_def split_beta)
  qed
qed

lemma ro_Read_found:
  assumes "ro_inv dir l" and "ro_first l \<le> i" and "i < ro_first l + length (ro_entries dir l)"
  shows "fst (ro_Read dir (word_of_nat i) l) = Inr (ro_entries dir l ! (i - ro_first l))"
proof -
  obtain pos where pos: "pos < length (ro_segments l)"
    "sort_Search (length (ro_segments l)) (\<lambda>j. sg_index (ro_segments l ! j) > word_of_nat i) = Suc pos"
    "unat (word_of_nat i - sg_index (ro_segments l ! pos)) < length (seg_data dir (ro_segments l ! pos))"
    "ro_entries dir l ! (i - ro_first l) =
      seg_data dir (ro_segments l ! pos) ! unat (word_of_nat i - sg_index (ro_segments l ! pos))"
    by (rule ro_Read_position [OF assms])
  note bd = ro_inv_bounds [OF assms(1)]
  have "i < 2 ^ 64" using assms(3) bd(2) by simp
  then have i: "unat (word_of_nat i :: u64) = i" by (rule unat_u64)
  have ne: "ro_segments l \<noteq> []" using pos(1) by auto
  have "\<not> (word_of_nat i = (0 :: u64) \<or> word_of_nat i < ro_firstIndex l \<or> word_of_nat i > ro_lastIndex l)"
  proof -
    have "(word_of_nat i :: u64) \<noteq> 0" using i assms(2) bd(1) unat_0 by (metis not_one_le_zero le_trans)
    moreover have "\<not> word_of_nat i < ro_firstIndex l" 
      unfolding word_less_nat_alt i bd(5) [OF ne, THEN conjunct2] using assms(2) by linarith
    moreover have "\<not> word_of_nat i > ro_lastIndex l" unfolding word_less_nat_alt bd(4) i using assms(3) by linarith
    ultimately show ?thesis by blast
  qed
  then show ?thesis
    using bd(3) pos ro_load_spec(1) [OF assms(1) pos(1)]
    by (simp add: ro_Read_def Let_def split_beta)
qed

lemma ro_FirstIndex_spec:
  assumes "ro_inv dir w"
  shows "wr_FirstIndex (ro_reader dir) w =
    Inr (if ro_first w + length (ro_entries dir w) = 1 then 0 else word_of_nat (ro_first w))"
proof -
  let ?n = "ro_first w + length (ro_entries dir w)"
  note bd = ro_inv_bounds [OF assms]
  have z: "ro_lastIndex w = 0 \<longleftrightarrow> ?n = 1" using bd(1,4) by (simp only: unat_eq_0 [symmetric]) linarith
  show ?thesis
  proof (cases "ro_segments w = []")
    case True
    then show ?thesis using z bd(3,6) by (simp add: ro_reader_def ro_FirstIndex_def)
  next
    case False
    then show ?thesis using z bd(3,5) by (simp add: ro_reader_def ro_FirstIndex_def)
  qed
qed

interpretation ro: wal_log "ro_reader dir" "ro_inv dir" ro_first "ro_entries dir" for dir
proof
  fix w assume w: "ro_inv dir w"
  show "1 \<le> ro_first w \<and> ro_first w + length (ro_entries dir w) < 2 ^ 63" using w by (simp add: ro_inv_def)
  show "wr_LastIndex (ro_reader dir) w = Inr (word_of_nat (ro_first w + length (ro_entries dir w) - 1))"
    using w by (simp add: ro_reader_def ro_LastIndex_def ro_inv_def)
  show "wr_FirstIndex (ro_reader dir) w =
      Inr (if ro_first w + length (ro_entries dir w) = 1 then 0 else word_of_nat (ro_first w))"
    by (rule ro_FirstIndex_spec [OF w])
  show "ro_inv dir (snd (wr_Read (ro_reader dir) x w)) \<and> ro_first (snd (wr_Read (ro_reader dir) x w)) = ro_first w \<and>
      ro_entries dir (snd (wr_Read (ro_reader dir) x w)) = ro_entries dir w" for x
    using ro_Read_state [OF w] by (simp add: ro_reader_def)
  show "fst (wr_Read (ro_reader dir) (word_of_nat i) w) = Inr (ro_entries dir w ! (i - ro_first w))"
    if "ro_first w \<le> i" "i < ro_first w + length (ro_entries dir w)" for i
    using ro_Read_found [OF w that] by (simp add: ro_reader_def)
qed

text \<open>What opening finds: the segments of the directory, those before the last one whole.\<close>

lemma tryOpen_inv:
  assumes "listWALSegments (Some dir) = Inr segs" and "segs \<noteq> []" and "chained dir first segs"
    and "1 \<le> first" and "first + length (concat (map (seg_data dir) segs)) < 2 ^ 63"
    and "\<forall>seg \<in> set (butlast segs). \<exists>es. readWALEntries dir (sg_path seg) = Inr (es, False)"
    and "readWALEntries dir (sg_path (last segs)) = Inr (tail, torn)"
  shows "\<exists>l. tryOpenReadOnlyWAL (Some dir) dir = Inr l \<and> ro_inv dir l \<and> ro_first l = first \<and>
    ro_entries dir l = concat (map (seg_data dir) segs)"
proof -
  have fresh: "sg_entries seg = None" if "seg \<in> set segs" for seg
  proof -
    have "seg \<in> snd ` set (List.map_filter segment_of (sort_key fst dir))"
      using list_segments_fresh [of "List.map_filter segment_of (sort_key fst dir)" "[]" False False segs seg]
        assms(1) that by (simp add: listWALSegments_def)
    then show ?thesis using segment_of_fresh by (metis imageE prod.collapse)
  qed
  define tl where "tl = (last segs)\<lparr>sg_entries := Some tail\<rparr>"
  define l where "l = \<lparr>ro_segments = butlast segs @ [tl], ro_firstIndex = sg_index (hd segs),
    ro_lastIndex = sg_index (last segs) + word_of_nat (length tail) - 1, ro_closed = False, ro_cached = None\<rparr>"
  have split: "segs = butlast segs @ [last segs]" using assms(2) by simp
  have tl: "seg_data dir tl = tail" "seg_data dir (last segs) = tail"
    using assms(2,7) fresh [of "last segs"] by (simp_all add: tl_def seg_data_def)
  have same: "map (seg_data dir) (butlast segs @ [tl]) = map (seg_data dir) segs"
    using tl by (subst (2) split) simp
  have ch: "chained dir first (butlast segs @ [tl])"
    using assms(3) split chained_append [of dir first "butlast segs" "[last segs]"]
      chained_append [of dir first "butlast segs" "[tl]"] by (simp add: tl_def)
  have hd: "sg_index (hd segs) = word_of_nat first" using assms(2,3) by (cases segs) auto
  have lt: "first < 2 ^ 64" using assms(5) by simp
  have first: "ro_first l = first" using hd unat_u64 [OF lt] by (simp add: ro_first_def l_def)
  have ent: "ro_entries dir l = concat (map (seg_data dir) segs)" using same by (simp add: ro_entries_def l_def)
  have last: "sg_index (last segs) + word_of_nat (length tail) - 1 =
      (word_of_nat (first + length (concat (map (seg_data dir) segs)) - 1) :: u64)"
    using chained_last [OF assms(3,2)] tl(2) assms(4) by (simp add: of_nat_diff)
  have "ro_inv dir l"
    unfolding ro_inv_def first ent
    using assms(4-6) ch hd last fresh
    by (auto simp: l_def tl_def readable_def dest: in_set_butlastD)
  moreover have "tryOpenReadOnlyWAL (Some dir) dir = Inr l"
    using assms(1,2,7) by (simp add: tryOpenReadOnlyWAL_def l_def tl_def Let_def)
  ultimately show ?thesis using first ent by blast
qed

section \<open>The log of the package\<close>

text \<open>
  The documented behaviour of \<^verbatim>\<open>tidwall/wal\<close> for a log that is open: consecutive entries from index \<open>lg_first\<close>
  on, appended in batches and cut at either end. It serves as the instance of the interface in the
  examples; the properties hold for every log that obeys the laws.
\<close>

record mem_log =
  lg_first :: nat
  lg_entries :: "bytes list"

definition log_reader :: "mem_log wal_reader" where
  "log_reader =
     \<lparr>wr_FirstIndex = (\<lambda>l. Inr (if lg_first l + length (lg_entries l) = 1 then 0 else word_of_nat (lg_first l))),
      wr_LastIndex = (\<lambda>l. Inr (word_of_nat (lg_first l + length (lg_entries l) - 1))),
      wr_Read = (\<lambda>i l. (if lg_first l \<le> unat i \<and> unat i < lg_first l + length (lg_entries l)
        then Inr (lg_entries l ! (unat i - lg_first l)) else Inl WalNotFound, l))\<rparr>"

definition log_inv :: "mem_log \<Rightarrow> bool" where
  "log_inv l \<longleftrightarrow> 1 \<le> lg_first l \<and> lg_first l + length (lg_entries l) < 2 ^ 63"

interpretation mem: wal_log log_reader log_inv lg_first lg_entries
  by unfold_locales (simp_all add: log_reader_def log_inv_def unat_of_nat)

section \<open>Properties\<close>

text \<open>
  C29: opening the log for writing repairs a torn tail without losing an entry: the truncated file is a prefix
  of the old one, parses to exactly the entries that were complete, has no torn end left, and is the whole
  file when nothing was torn. Whole entries followed by a torn one are found again as written.
\<close>

theorem truncateCorruptedTail_keeps_entries:
  shows "\<exists>data'. truncateCorruptedTail gjson Binary data = Inr data' \<and>
      data' = take (length data') data \<and>
      split_entries data' = (fst (split_entries data), False) \<and>
      (data' = data \<longleftrightarrow> \<not> snd (split_entries data)) \<and>
      (data = concat (map encode_entry es) @ torn \<and> (\<forall>e \<in> set es. length e < 2 ^ 64) \<and>
         loadNextBinaryEntry torn = Inl WalCorrupt \<longrightarrow> data' = concat (map encode_entry es))"
proof -
  obtain p where p: "truncate_pos gjson Binary data 0 = Inr p" "p \<le> length data"
    "p = length data \<longleftrightarrow> \<not> snd (split_entries data)" "split_entries (take p data) = (fst (split_entries data), False)"
    using truncate_pos_split [of gjson data 0] by auto
  have t: "truncateCorruptedTail gjson Binary data = Inr (take p data)"
    using p(1,2) by (simp add: truncateCorruptedTail_def)
  have w: "take p data = concat (map encode_entry es)"
    if d: "data = concat (map encode_entry es) @ torn" and e: "\<forall>e \<in> set es. length e < 2 ^ 64"
      and c: "loadNextBinaryEntry torn = Inl WalCorrupt"
  proof -
    have "truncate_pos gjson Binary (concat (map encode_entry es) @ torn) q = Inr (q + length (concat (map encode_entry es)))" for q
      using e by (induction es arbitrary: q) (auto simp: truncate_encoded truncate_torn [OF c])
    from this [of 0] show ?thesis using p(1) d by simp
  qed
  have "take p data = data \<longleftrightarrow> \<not> snd (split_entries data)"
    using p(2,3) by (metis le_neq_implies_less length_take less_irrefl min.absorb2 take_all order_refl)
  then show ?thesis using t p(2,4) w by (intro exI [of _ "take p data"]) (simp add: min_def)
qed

theorem truncateCorruptedTail_keeps_entries_witness:
  "truncateCorruptedTail (\<lambda>_. False) Binary [2, 7, 8, 1, 9, 5, 6] = Inr [2, 7, 8, 1, 9]"
proof -
  have u: "Uvarint [5, 6] = (5, 1)" by (simp add: Uvarint_def)
  have "encode_entry [7, 8] = [2, 7, 8]" "encode_entry [9] = [1, 9]"
    by (simp_all add: encode_entry_def PutUvarint_def put_uvarint_small)
  moreover have "loadNextBinaryEntry [5, 6] = Inl WalCorrupt" by (simp add: loadNextBinaryEntry_def u)
  ultimately show ?thesis
    using truncateCorruptedTail_keeps_entries [of "\<lambda>_. False" "[2, 7, 8, 1, 9, 5, 6]" "[[7, 8], [9]]" "[5, 6]"] by auto
qed

text \<open>
  C30: \<^verbatim>\<open>listWALSegments\<close> sees a directory the way the package would recover it, in every state a writer can leave
  it in. Without marks it is all segments; while the front is being cut, only the \<^verbatim>\<open>.START\<close> segment and the
  later ones count; while the back is being cut, the segments before the \<^verbatim>\<open>.END\<close> one and that one, in place of
  the segment of the same index; both marks at once are a corrupt log; a missing directory is an empty log.
\<close>

theorem listWALSegments_recovers:
  fixes dir :: wal_dir
  defines "es \<equiv> List.map_filter segment_of (sort_key fst dir)"
  shows "listWALSegments None = Inr [] \<and>
    (StartSeg \<notin> fst ` set es \<and> EndSeg \<notin> fst ` set es \<longrightarrow> listWALSegments (Some dir) = Inr (map snd es)) \<and>
    (es = pre @ (StartSeg, s) # post \<and> StartSeg \<notin> fst ` set post \<and> EndSeg \<notin> fst ` set es \<longrightarrow>
       listWALSegments (Some dir) = Inr (s # map snd post)) \<and>
    (es = pre @ (EndSeg, s) # post \<and> EndSeg \<notin> fst ` set pre \<and> StartSeg \<notin> fst ` set es \<longrightarrow>
       listWALSegments (Some dir) =
         Inr ((if pre \<noteq> [] \<and> sg_index (snd (last pre)) = sg_index s then map snd (butlast pre) else map snd pre) @ [s])) \<and>
    (StartSeg \<in> fst ` set es \<and> EndSeg \<in> fst ` set es \<longrightarrow> listWALSegments (Some dir) = Inl WalCorrupt)"
proof -
  have l: "listWALSegments (Some dir) = list_segments es [] False False" by (simp add: listWALSegments_def es_def)
  have plain: "StartSeg \<notin> fst ` set es \<and> EndSeg \<notin> fst ` set es \<longrightarrow> listWALSegments (Some dir) = Inr (map snd es)"
    unfolding l using list_segments_plain [of es "[]" False] by simp
  have st: "es = pre @ (StartSeg, s) # post \<and> StartSeg \<notin> fst ` set post \<and> EndSeg \<notin> fst ` set es \<longrightarrow>
       listWALSegments (Some dir) = Inr (s # map snd post)"
    unfolding l
  proof (intro impI, elim conjE)
    assume es: "es = pre @ (StartSeg, s) # post" and p: "StartSeg \<notin> fst ` set post" "EndSeg \<notin> fst ` set es"
    obtain segs b where "list_segments (pre @ (StartSeg, s) # post) [] False False = list_segments ((StartSeg, s) # post) segs b False"
      using list_segments_no_end [of pre "(StartSeg, s) # post" "[]" False] p(2) es by auto
    moreover have "EndSeg \<notin> fst ` set post" using p(2) es by auto
    ultimately show "list_segments es [] False False = Inr (s # map snd post)"
      using es p(1) list_segments_plain [of post "[s]" True] by simp
  qed
  have en: "es = pre @ (EndSeg, s) # post \<and> EndSeg \<notin> fst ` set pre \<and> StartSeg \<notin> fst ` set es \<longrightarrow>
       listWALSegments (Some dir) =
         Inr ((if pre \<noteq> [] \<and> sg_index (snd (last pre)) = sg_index s then map snd (butlast pre) else map snd pre) @ [s])"
    unfolding l
  proof (intro impI, elim conjE)
    assume es: "es = pre @ (EndSeg, s) # post" and p: "EndSeg \<notin> fst ` set pre" "StartSeg \<notin> fst ` set es"
    have "StartSeg \<notin> fst ` set pre" and post: "StartSeg \<notin> fst ` set post" using p(2) es by auto
    then have "list_segments es [] False False = list_segments ((EndSeg, s) # post) (map snd pre) False False"
      using list_segments_plain_append [of pre "(EndSeg, s) # post" "[]" False] p(1) unfolding es by simp
    also have "\<dots> = list_segments post ((if pre \<noteq> [] \<and> sg_index (snd (last pre)) = sg_index s
        then map snd (butlast pre) else map snd pre) @ [s]) False True"
      by (cases "pre = []") (simp_all add: Let_def last_map map_butlast)
    also have "\<dots> = Inr ((if pre \<noteq> [] \<and> sg_index (snd (last pre)) = sg_index s
        then map snd (butlast pre) else map snd pre) @ [s])"
      by (rule list_segments_ended [OF post])
    finally show "list_segments es [] False False =
        Inr ((if pre \<noteq> [] \<and> sg_index (snd (last pre)) = sg_index s then map snd (butlast pre) else map snd pre) @ [s])" .
  qed
  have both: "StartSeg \<in> fst ` set es \<and> EndSeg \<in> fst ` set es \<longrightarrow> listWALSegments (Some dir) = Inl WalCorrupt"
    unfolding l using list_segments_both [where es = es and segs = "[]" and b = False and c = False] by auto
  show ?thesis using plain st en both by (auto simp: listWALSegments_def)
qed

definition seg_name :: "char \<Rightarrow> string" where
  "seg_name d = replicate 19 (CHR ''0'') @ [d]"

text \<open>A directory in the middle of cutting the front at index 3, and one with two segments.\<close>

definition start_dir :: wal_dir where
  "start_dir = [(seg_name CHR ''1'', Some [1, 7, 1, 8]), (seg_name CHR ''3'' @ walStartSuffix, Some [1, 9]),
     (seg_name CHR ''4'', Some [1, 10])]"

definition two_segments :: wal_dir where
  "two_segments = [(seg_name CHR ''1'', Some [1, 7, 1, 8]), (seg_name CHR ''3'', Some [1, 9, 5])]"

definition seg_at :: "u64 \<Rightarrow> string \<Rightarrow> walSegment" where
  "seg_at i path = \<lparr>sg_index = i, sg_path = path, sg_entries = None\<rparr>"

lemma seg_name_parse:
  assumes "is_digit d"
  shows "ParseUint (seg_name d) = Some (of_char d - 48)"
proof -
  have "foldl (\<lambda>n c. 10 * n + (of_char c - 48)) 0 (replicate n (CHR ''0'')) = (0 :: nat)" for n
    by (induction n) simp_all
  then have "decimal (seg_name d) = of_char d - 48" by (simp add: decimal_def seg_name_def)
  moreover have "list_all is_digit (seg_name d)"
    using assms by (simp add: seg_name_def list_all_iff is_digit_def)
  moreover have "of_char d - 48 < (2 ^ 64 :: nat)"
  proof (rule le_less_trans)
    show "of_char d - 48 \<le> (57 :: nat)" using assms unfolding is_digit_def by linarith
  qed simp
  moreover have "seg_name d \<noteq> []" by (simp add: seg_name_def)
  ultimately show ?thesis unfolding ParseUint_def by (simp only: simp_thms if_True)
qed

lemma segment_of_seg_name:
  assumes "is_digit d" and "d \<noteq> CHR ''0''" and "i = of_char d - 48"
  shows "segment_of (seg_name d, Some x) = Some (PlainSeg, seg_at (word_of_nat i) (seg_name d))"
    and "segment_of (seg_name d @ walStartSuffix, Some x) =
      Some (StartSeg, seg_at (word_of_nat i) (seg_name d @ walStartSuffix))"
proof -
  have len: "length (seg_name d) = 20" by (simp add: seg_name_def)
  have "(of_char d :: nat) \<noteq> 48"
  proof
    assume "(of_char d :: nat) = 48"
    then have "of_char d = (of_char CHR ''0'' :: nat)" by simp
    then show False using assms(2) by (simp only: of_char_eq_iff)
  qed
  then have pos: "of_char d - 48 \<noteq> (0 :: nat)" using assms(1) by (simp add: is_digit_def)
  show "segment_of (seg_name d, Some x) = Some (PlainSeg, seg_at (word_of_nat i) (seg_name d))"
    "segment_of (seg_name d @ walStartSuffix, Some x) =
      Some (StartSeg, seg_at (word_of_nat i) (seg_name d @ walStartSuffix))"
    using len pos assms(3) seg_name_parse [OF assms(1)]
    by (simp_all add: segment_of_def seg_at_def walStartSuffix_def Let_def)
qed

lemma append_le_append [simp]: "(xs @ ys :: 'a :: linorder list) \<le> xs @ zs \<longleftrightarrow> ys \<le> zs"
  by (induction xs) auto

lemma example_dirs_sorted: "sort_key fst start_dir = start_dir" "sort_key fst two_segments = two_segments"
proof -
  show "sort_key fst start_dir = start_dir"
    by (rule sort_key_id_if_sorted) (simp add: start_dir_def seg_name_def walStartSuffix_def less_char_def)
  show "sort_key fst two_segments = two_segments"
    by (rule sort_key_id_if_sorted) (simp add: two_segments_def seg_name_def less_char_def)
qed

lemma example_segments:
  "segment_of (seg_name CHR ''1'', Some x) = Some (PlainSeg, seg_at 1 (seg_name CHR ''1''))"
  "segment_of (seg_name CHR ''3'', Some x) = Some (PlainSeg, seg_at 3 (seg_name CHR ''3''))"
  "segment_of (seg_name CHR ''3'' @ walStartSuffix, Some x) = Some (StartSeg, seg_at 3 (seg_name CHR ''3'' @ walStartSuffix))"
  "segment_of (seg_name CHR ''4'', Some x) = Some (PlainSeg, seg_at 4 (seg_name CHR ''4''))"
proof -
  have d: "is_digit CHR ''1''" "is_digit CHR ''3''" "is_digit CHR ''4''" by (simp_all add: is_digit_def)
  have z: "CHR ''1'' \<noteq> CHR ''0''" "CHR ''3'' \<noteq> CHR ''0''" "CHR ''4'' \<noteq> CHR ''0''" by simp_all
  have i: "1 = (of_char CHR ''1'' - 48 :: nat)" "3 = (of_char CHR ''3'' - 48 :: nat)" "4 = (of_char CHR ''4'' - 48 :: nat)"
    by simp_all
  have w: "word_of_nat 1 = (1 :: u64)" "word_of_nat 3 = (3 :: u64)" "word_of_nat 4 = (4 :: u64)" by simp_all
  show "segment_of (seg_name CHR ''1'', Some x) = Some (PlainSeg, seg_at 1 (seg_name CHR ''1''))"
    by (rule segment_of_seg_name(1) [OF d(1) z(1) i(1), unfolded w])
  show "segment_of (seg_name CHR ''3'', Some x) = Some (PlainSeg, seg_at 3 (seg_name CHR ''3''))"
    by (rule segment_of_seg_name(1) [OF d(2) z(2) i(2), unfolded w])
  show "segment_of (seg_name CHR ''3'' @ walStartSuffix, Some x) =
      Some (StartSeg, seg_at 3 (seg_name CHR ''3'' @ walStartSuffix))"
    by (rule segment_of_seg_name(2) [OF d(2) z(2) i(2), unfolded w])
  show "segment_of (seg_name CHR ''4'', Some x) = Some (PlainSeg, seg_at 4 (seg_name CHR ''4''))"
    by (rule segment_of_seg_name(1) [OF d(3) z(3) i(3), unfolded w])
qed

lemma example_dirs_listed:
  "List.map_filter segment_of start_dir = [(PlainSeg, seg_at 1 (seg_name CHR ''1'')),
     (StartSeg, seg_at 3 (seg_name CHR ''3'' @ walStartSuffix)), (PlainSeg, seg_at 4 (seg_name CHR ''4''))]"
  "List.map_filter segment_of two_segments =
     [(PlainSeg, seg_at 1 (seg_name CHR ''1'')), (PlainSeg, seg_at 3 (seg_name CHR ''3''))]"
  by (simp_all only: start_dir_def two_segments_def map_filter_simps example_segments option.case)

theorem listWALSegments_recovers_witness:
  "listWALSegments (Some start_dir) =
     Inr [seg_at 3 (seg_name CHR ''3'' @ walStartSuffix), seg_at 4 (seg_name CHR ''4'')]"
  using listWALSegments_recovers [of start_dir "[(PlainSeg, seg_at 1 (seg_name CHR ''1''))]"
      "seg_at 3 (seg_name CHR ''3'' @ walStartSuffix)" "[(PlainSeg, seg_at 4 (seg_name CHR ''4''))]"]
  unfolding example_dirs_sorted example_dirs_listed by simp

text \<open>
  C31: a log that is opened for reading only shows exactly the complete entries of its segments. For consecutive
  segments whose files are whole, the last of which may end in an entry still being written, the reader's
  last index is that of the last complete entry, and every index in range reads its entry, however many
  reads came before and whichever segments they loaded or evicted.
\<close>

theorem readOnlyWAL_reads:
  assumes "listWALSegments (Some dir) = Inr segs" and "segs \<noteq> []" and "chained dir first segs"
    and "1 \<le> first" and "first + length (concat (map (seg_data dir) segs)) < 2 ^ 63"
    and "\<forall>seg \<in> set (butlast segs). \<exists>es. readWALEntries dir (sg_path seg) = Inr (es, False)"
    and "readWALEntries dir (sg_path (last segs)) = Inr (tail, torn)"
  shows "\<exists>l. tryOpenReadOnlyWAL (Some dir) dir = Inr l \<and>
    ro_LastIndex l = Inr (word_of_nat (first + length (concat (map (seg_data dir) segs)) - 1)) \<and>
    (\<forall>xs i. first \<le> i \<and> i < first + length (concat (map (seg_data dir) segs)) \<longrightarrow>
      fst (ro_Read dir (word_of_nat i) (fold (\<lambda>x l. snd (ro_Read dir x l)) xs l)) =
        Inr (concat (map (seg_data dir) segs) ! (i - first)))"
proof -
  obtain l where l: "tryOpenReadOnlyWAL (Some dir) dir = Inr l" "ro_inv dir l" "ro_first l = first"
    "ro_entries dir l = concat (map (seg_data dir) segs)"
    using tryOpen_inv [OF assms] by blast
  have after: "ro_inv dir (fold (\<lambda>x l. snd (ro_Read dir x l)) xs l) \<and>
      ro_first (fold (\<lambda>x l. snd (ro_Read dir x l)) xs l) = first \<and>
      ro_entries dir (fold (\<lambda>x l. snd (ro_Read dir x l)) xs l) = concat (map (seg_data dir) segs)" for xs
    by (induction xs rule: rev_induct) (use l ro_Read_state in auto)
  have "ro_LastIndex l = Inr (word_of_nat (first + length (concat (map (seg_data dir) segs)) - 1))"
    using ro.LastIndex [OF l(2)] unfolding l(3,4) by (simp add: ro_reader_def)
  then show ?thesis using l(1) after ro_Read_found by metis
qed

lemma two_segments_files:
  "readWALEntries two_segments (seg_name CHR ''1'') = Inr ([[7], [8]], False)"
  "readWALEntries two_segments (seg_name CHR ''3'') = Inr ([[9]], True)"
proof -
  have "encode_entry [x] = [1, x]" for x by (simp add: encode_entry_def PutUvarint_def put_uvarint_small)
  then have "split_entries [1, 7, 1, 8] = ([[7], [8]], False)"
    using split_entries_whole [of "[[7], [8]]" "[]"] by simp
  moreover have "split_entries [5] = ([], True)"
    by (subst split_entries.simps) (simp add: loadNextBinaryEntry_def Uvarint_def)
  then have "split_entries [1, 9, 5] = ([[9]], True)"
    using split_entries_whole [of "[[9]]" "[5]"] \<open>\<And>x. encode_entry [x] = [1, x]\<close> by simp
  ultimately show "readWALEntries two_segments (seg_name CHR ''1'') = Inr ([[7], [8]], False)"
    "readWALEntries two_segments (seg_name CHR ''3'') = Inr ([[9]], True)"
    by (simp_all add: readWALEntries_def read_file_def two_segments_def seg_name_def)
qed

theorem readOnlyWAL_reads_witness:
  "\<exists>l. tryOpenReadOnlyWAL (Some two_segments) two_segments = Inr l \<and> ro_LastIndex l = Inr 3 \<and>
     fst (ro_Read two_segments 2 (snd (ro_Read two_segments 3 l))) = Inr [8]"
proof -
  let ?s1 = "seg_at 1 (seg_name CHR ''1'')" and ?s3 = "seg_at 3 (seg_name CHR ''3'')"
  have list: "listWALSegments (Some two_segments) = Inr [?s1, ?s3]"
    by (simp add: listWALSegments_def example_dirs_sorted example_dirs_listed)
  have dat: "seg_data two_segments ?s1 = [[7], [8]]" "seg_data two_segments ?s3 = [[9]]"
    using two_segments_files by (simp_all add: seg_data_def seg_at_def)
  have tot: "concat (map (seg_data two_segments) [?s1, ?s3]) = [[7], [8], [9]]" by (simp add: dat)
  have "\<exists>l. tryOpenReadOnlyWAL (Some two_segments) two_segments = Inr l \<and>
    ro_LastIndex l = Inr (word_of_nat (1 + length (concat (map (seg_data two_segments) [?s1, ?s3])) - 1)) \<and>
    (\<forall>xs i. 1 \<le> i \<and> i < 1 + length (concat (map (seg_data two_segments) [?s1, ?s3])) \<longrightarrow>
      fst (ro_Read two_segments (word_of_nat i) (fold (\<lambda>x l. snd (ro_Read two_segments x l)) xs l)) =
        Inr (concat (map (seg_data two_segments) [?s1, ?s3]) ! (i - 1)))"
    by (rule readOnlyWAL_reads [OF list, of 1 "[[9]]" True])
      (use dat two_segments_files in \<open>simp_all add: seg_at_def\<close>)
  then obtain l where l: "tryOpenReadOnlyWAL (Some two_segments) two_segments = Inr l"
    "ro_LastIndex l = Inr (word_of_nat (1 + length [[7], [8], [9 :: u8]] - 1))"
    and r: "\<forall>xs i. 1 \<le> i \<and> i < 1 + length [[7], [8], [9 :: u8]] \<longrightarrow>
      fst (ro_Read two_segments (word_of_nat i) (fold (\<lambda>x l. snd (ro_Read two_segments x l)) xs l)) =
        Inr ([[7], [8], [9]] ! (i - 1))"
    unfolding tot by blast
  have "fst (ro_Read two_segments 2 (snd (ro_Read two_segments 3 l))) = Inr [8]"
    using r [rule_format, of 2 "[3]"] by simp
  moreover have "ro_LastIndex l = Inr 3" using l(2) by simp
  ultimately show ?thesis using l(1) by blast
qed

end
