(* ===== verification/Proto.thy ===== *)
theory Proto
  imports Tree
begin

text \<open>
  The protobuf messages of the write-ahead log and of the snapshot metadata, with the encoder and decoder
  that \<^verbatim>\<open>changeset.pb.go\<close>, \<^verbatim>\<open>commit_info.pb.go\<close> and \<^verbatim>\<open>wal.pb.go\<close> have for them. Each generated
  \<^verbatim>\<open>Unmarshal\<close> is the same loop over tagged fields; the loop is written once and a message gives the wire
  type of each of its fields and what a field does to the message. Where a length overflows the position
  the generated code has a separate error; here both are the error of a truncated input.
\<close>

section \<open>Messages\<close>

record namedChangeSet =
  ncs_Changeset :: changeset
  ncs_Name :: string

record treeNameUpgrade =
  up_Name :: string
  up_RenameFrom :: string
  up_Delete :: bool

record walEntry =
  we_Changesets :: "namedChangeSet list"
  we_Upgrades :: "treeNameUpgrade list"

record commitID =
  cid_Version :: int
  cid_Hash :: bytes

record storeInfo =
  si_Name :: string
  si_CommitId :: commitID

record commitInfo =
  ci_Version :: int
  ci_StoreInfos :: "storeInfo list"

record multiTreeMetadata =
  md_CommitInfo :: "commitInfo option"
  md_InitialVersion :: int

text \<open>A Go string is a sequence of bytes.\<close>

definition string_bytes :: "string \<Rightarrow> bytes" where
  "string_bytes s = map (\<lambda>c. word_of_nat (of_char c)) s"

definition bytes_string :: "bytes \<Rightarrow> string" where
  "bytes_string b = map (\<lambda>x. char_of (unat x)) b"

section \<open>Encoding\<close>

definition pb_int :: "u8 \<Rightarrow> u64 \<Rightarrow> bytes" where
  "pb_int tag v = (if v = 0 then [] else tag # PutUvarint v)"

definition pb_msg :: "u8 \<Rightarrow> bytes \<Rightarrow> bytes" where
  "pb_msg tag b = tag # PutUvarint (word_of_nat (length b)) @ b"

definition pb_bytes :: "u8 \<Rightarrow> bytes \<Rightarrow> bytes" where
  "pb_bytes tag b = (if b = [] then [] else pb_msg tag b)"

definition pb_bool :: "u8 \<Rightarrow> bool \<Rightarrow> bytes" where
  "pb_bool tag b = (if b then [tag, 1] else [])"

definition pb_repeated :: "u8 \<Rightarrow> ('m \<Rightarrow> bytes) \<Rightarrow> 'm list \<Rightarrow> bytes" where
  "pb_repeated tag enc ms = concat (map (\<lambda>m. pb_msg tag (enc m)) ms)"

definition KVPair_Marshal :: "kvpair \<Rightarrow> bytes" where
  "KVPair_Marshal m =
     pb_bool 0x08 (kv_delete m) @ pb_bytes 0x12 (kv_key m) @ pb_bytes 0x1a (nonnil (kv_value m))"

definition ChangeSet_Marshal :: "changeset \<Rightarrow> bytes" where
  "ChangeSet_Marshal m = pb_repeated 0x0a KVPair_Marshal m"

definition NamedChangeSet_Marshal :: "namedChangeSet \<Rightarrow> bytes" where
  "NamedChangeSet_Marshal m =
     pb_msg 0x0a (ChangeSet_Marshal (ncs_Changeset m)) @ pb_bytes 0x12 (string_bytes (ncs_Name m))"

definition TreeNameUpgrade_Marshal :: "treeNameUpgrade \<Rightarrow> bytes" where
  "TreeNameUpgrade_Marshal m =
     pb_bytes 0x0a (string_bytes (up_Name m)) @ pb_bytes 0x12 (string_bytes (up_RenameFrom m)) @
     pb_bool 0x18 (up_Delete m)"

definition WALEntry_Marshal :: "walEntry \<Rightarrow> bytes" where
  "WALEntry_Marshal m =
     pb_repeated 0x0a NamedChangeSet_Marshal (we_Changesets m) @
     pb_repeated 0x12 TreeNameUpgrade_Marshal (we_Upgrades m)"

definition CommitID_Marshal :: "commitID \<Rightarrow> bytes" where
  "CommitID_Marshal m = pb_int 0x08 (word_of_int (cid_Version m)) @ pb_bytes 0x12 (cid_Hash m)"

definition StoreInfo_Marshal :: "storeInfo \<Rightarrow> bytes" where
  "StoreInfo_Marshal m =
     pb_bytes 0x0a (string_bytes (si_Name m)) @ pb_msg 0x12 (CommitID_Marshal (si_CommitId m))"

definition CommitInfo_Marshal :: "commitInfo \<Rightarrow> bytes" where
  "CommitInfo_Marshal m =
     pb_int 0x08 (word_of_int (ci_Version m)) @ pb_repeated 0x12 StoreInfo_Marshal (ci_StoreInfos m)"

definition MultiTreeMetadata_Marshal :: "multiTreeMetadata \<Rightarrow> bytes" where
  "MultiTreeMetadata_Marshal m =
     (case md_CommitInfo m of None \<Rightarrow> [] | Some ci \<Rightarrow> pb_msg 0x0a (CommitInfo_Marshal ci)) @
     pb_int 0x10 (word_of_int (md_InitialVersion m))"

section \<open>Decoding\<close>

text \<open>The varint loop; the shift reaches 64 after ten bytes. Bits above the 64th are lost.\<close>

fun pb_varint_loop :: "nat \<Rightarrow> bytes \<Rightarrow> nat \<Rightarrow> nat \<Rightarrow> (u64 \<times> bytes) result" where
  "pb_varint_loop 0 rd x s = Inl VarintOverflow"
| "pb_varint_loop (Suc fuel) [] x s = Inl UnexpectedEOF"
| "pb_varint_loop (Suc fuel) (b # rd) x s =
     (let x' = x + (unat b mod 128) * 2 ^ s in
      if unat b < 128 then Inr (word_of_nat x', rd) else pb_varint_loop fuel rd x' (s + 7))"

definition pb_varint :: "bytes \<Rightarrow> (u64 \<times> bytes) result" where
  "pb_varint rd = pb_varint_loop 10 rd 0 0"

definition pb_len :: "bytes \<Rightarrow> (bytes \<times> bytes) result" where
  "pb_len rd =
     rbind (pb_varint rd) (\<lambda>(n, rd').
       if sint n < 0 then Inl (AnyError ''negative length found during unmarshaling'')
       else if unat n > length rd' then Inl UnexpectedEOF
       else Inr (take (unat n) rd', drop (unat n) rd'))"

definition pb_fixed :: "nat \<Rightarrow> bytes \<Rightarrow> bytes result" where
  "pb_fixed n rd = (if n > length rd then Inl UnexpectedEOF else Inr (drop n rd))"

lemma pb_varint_loop_shrinks: "pb_varint_loop fuel rd x s = Inr (v, rd') \<Longrightarrow> length rd' < length rd"
proof (induction fuel rd x s rule: pb_varint_loop.induct)
  case (3 fuel b rd x s)
  then show ?case by (cases "unat b < 128") (auto simp: Let_def)
qed simp_all

lemma pb_shrinks:
  "pb_varint rd = Inr (v, rd') \<Longrightarrow> length rd' < length rd"
  "pb_len rd = Inr (b, rd') \<Longrightarrow> length rd' < length rd"
  "pb_fixed n rd = Inr rd' \<Longrightarrow> length rd' \<le> length rd"
proof -
  show v: "pb_varint rd = Inr (v, rd') \<Longrightarrow> length rd' < length rd" for v rd'
    by (auto simp: pb_varint_def dest: pb_varint_loop_shrinks)
  show "pb_len rd = Inr (b, rd') \<Longrightarrow> length rd' < length rd"
    by (auto simp: pb_len_def rbind_Inr_iff split: if_splits dest!: v)
  show "pb_fixed n rd = Inr rd' \<Longrightarrow> length rd' \<le> length rd"
    by (auto simp: pb_fixed_def split: if_splits)
qed

lemma rbind_cong [fundef_cong]: "r = r' \<Longrightarrow> (\<And>x. r' = Inr x \<Longrightarrow> f x = g x) \<Longrightarrow> rbind r f = rbind r' g"
  by (cases r') (auto simp: rbind_def)

text \<open>Skipping a field of an unknown number; groups nest.\<close>

definition pb_skip_value :: "nat \<Rightarrow> nat \<Rightarrow> bytes \<Rightarrow> (nat \<times> bytes) result" where
  "pb_skip_value wireType depth rd =
     (if wireType = 0 then rmap (\<lambda>(_, rd'). (depth, rd')) (pb_varint rd)
      else if wireType = 1 then rmap (Pair depth) (pb_fixed 8 rd)
      else if wireType = 2 then rmap (\<lambda>(_, rd'). (depth, rd')) (pb_len rd)
      else if wireType = 3 then Inr (Suc depth, rd)
      else if wireType = 4 then
        (if depth = 0 then Inl (AnyError ''unexpected end of group'') else Inr (depth - 1, rd))
      else if wireType = 5 then rmap (Pair depth) (pb_fixed 4 rd)
      else Inl (AnyError ''illegal wireType''))"

lemma rmap_Inr_iff: "rmap f r = Inr y \<longleftrightarrow> (\<exists>x. r = Inr x \<and> y = f x)"
  by (cases r) (auto simp: rmap_def)

lemma pb_skip_value_shrinks:
  "pb_skip_value wt depth rd = Inr (depth', rd') \<Longrightarrow> length rd' \<le> length rd"
  by (auto simp: pb_skip_value_def rmap_Inr_iff split: if_splits dest: pb_shrinks less_imp_le)

function pb_skip :: "nat \<Rightarrow> bytes \<Rightarrow> bytes result" where
  "pb_skip depth rd =
     rbind (pb_varint rd) (\<lambda>(wire, rd1).
     rbind (pb_skip_value (unat wire mod 8) depth rd1) (\<lambda>(depth', rd2).
     if depth' = 0 then Inr rd2 else pb_skip depth' rd2))"
  by pat_completeness auto
termination
  by (relation "measure (\<lambda>(depth, rd). length rd)")
    (auto dest!: pb_shrinks(1) pb_skip_value_shrinks)

declare pb_skip.simps [simp del]

lemma pb_skip_shrinks: "pb_skip depth rd = Inr rd' \<Longrightarrow> length rd' < length rd"
proof (induction depth rd rule: pb_skip.induct)
  case (1 depth rd)
  from "1.prems" obtain wire rd1 depth' rd2 where
    s: "pb_varint rd = Inr (wire, rd1)" "pb_skip_value (unat wire mod 8) depth rd1 = Inr (depth', rd2)"
    "(if depth' = 0 then Inr rd2 else pb_skip depth' rd2) = Inr rd'"
    by (subst (asm) pb_skip.simps) (auto simp: rbind_Inr_iff)
  have "length rd2 < length rd" using pb_shrinks(1) [OF s(1)] pb_skip_value_shrinks [OF s(2)] by simp
  then show ?case
  proof (cases "depth' = 0")
    case False
    then show ?thesis using "1.IH" [OF s(1) refl s(2) refl False] s(3) \<open>length rd2 < length rd\<close> by auto
  qed (use s(3) in auto)
qed

datatype pb_val = Varint u64 | Bytes bytes

definition pb_value :: "nat \<Rightarrow> bytes \<Rightarrow> (pb_val \<times> bytes) result" where
  "pb_value wireType rd =
     (if wireType = 0 then rmap (map_prod Varint id) (pb_varint rd) else rmap (map_prod Bytes id) (pb_len rd))"

lemma pb_value_shrinks: "pb_value wt rd = Inr (v, rd') \<Longrightarrow> length rd' < length rd"
  by (auto simp: pb_value_def rmap_Inr_iff split: if_splits dest: pb_shrinks)

text \<open>
  The loop of an \<^verbatim>\<open>Unmarshal\<close>: \<open>kinds\<close> gives the wire type of a field number, \<open>put\<close> what the field does.
\<close>

function pb_loop ::
  "(nat \<Rightarrow> nat option) \<Rightarrow> (nat \<Rightarrow> pb_val \<Rightarrow> 'm \<Rightarrow> 'm result) \<Rightarrow> bytes \<Rightarrow> 'm \<Rightarrow> 'm result" where
  "pb_loop kinds put rd m =
     (if rd = [] then Inr m
      else rbind (pb_varint rd) (\<lambda>(wire, rd1).
        let fieldNum = ucast (drop_bit 3 wire) :: u32; wireType = unat wire mod 8 in
        if wireType = 4 then Inl (AnyError ''wiretype end group for non-group'')
        else if sint fieldNum \<le> 0 then Inl (AnyError ''illegal tag'')
        else case kinds (unat fieldNum) of
          Some wt \<Rightarrow>
            if wireType \<noteq> wt then Inl (AnyError ''wrong wireType'')
            else rbind (pb_value wt rd1) (\<lambda>(v, rd2).
              rbind (put (unat fieldNum) v m) (\<lambda>m'. pb_loop kinds put rd2 m'))
        | None \<Rightarrow> rbind (pb_skip 0 rd) (\<lambda>rd2. pb_loop kinds put rd2 m)))"
  by pat_completeness auto
termination
  by (relation "measure (\<lambda>(kinds, put, rd, m). length rd)")
    (auto dest!: pb_shrinks(1) pb_value_shrinks pb_skip_shrinks)

declare pb_loop.simps [simp del]

text \<open>The generated decoders; each starts from the message it is called on.\<close>

definition KVPair_kinds :: "nat \<Rightarrow> nat option" where
  "KVPair_kinds n = (if n = 1 then Some 0 else if n = 2 \<or> n = 3 then Some 2 else None)"

fun KVPair_put :: "nat \<Rightarrow> pb_val \<Rightarrow> kvpair \<Rightarrow> kvpair result" where
  "KVPair_put n (Varint x) m = Inr (m\<lparr>kv_delete := (x \<noteq> 0)\<rparr>)"
| "KVPair_put n (Bytes b) m = Inr (if n = 2 then m\<lparr>kv_key := b\<rparr> else m\<lparr>kv_value := Some b\<rparr>)"

definition KVPair_Unmarshal :: "bytes \<Rightarrow> kvpair result" where
  "KVPair_Unmarshal b = pb_loop KVPair_kinds KVPair_put b \<lparr>kv_delete = False, kv_key = [], kv_value = None\<rparr>"

definition ChangeSet_kinds :: "nat \<Rightarrow> nat option" where
  "ChangeSet_kinds n = (if n = 1 then Some 2 else None)"

fun ChangeSet_put :: "nat \<Rightarrow> pb_val \<Rightarrow> changeset \<Rightarrow> changeset result" where
  "ChangeSet_put n (Bytes b) m = rmap (\<lambda>p. m @ [p]) (KVPair_Unmarshal b)"
| "ChangeSet_put n v m = Inr m"

definition ChangeSet_Unmarshal :: "bytes \<Rightarrow> changeset \<Rightarrow> changeset result" where
  "ChangeSet_Unmarshal b m = pb_loop ChangeSet_kinds ChangeSet_put b m"

definition NamedChangeSet_kinds :: "nat \<Rightarrow> nat option" where
  "NamedChangeSet_kinds n = (if n = 1 \<or> n = 2 then Some 2 else None)"

fun NamedChangeSet_put :: "nat \<Rightarrow> pb_val \<Rightarrow> namedChangeSet \<Rightarrow> namedChangeSet result" where
  "NamedChangeSet_put n (Bytes b) m =
     (if n = 1 then rmap (\<lambda>cs. m\<lparr>ncs_Changeset := cs\<rparr>) (ChangeSet_Unmarshal b (ncs_Changeset m))
      else Inr (m\<lparr>ncs_Name := bytes_string b\<rparr>))"
| "NamedChangeSet_put n v m = Inr m"

definition NamedChangeSet_Unmarshal :: "bytes \<Rightarrow> namedChangeSet result" where
  "NamedChangeSet_Unmarshal b =
     pb_loop NamedChangeSet_kinds NamedChangeSet_put b \<lparr>ncs_Changeset = [], ncs_Name = []\<rparr>"

definition TreeNameUpgrade_kinds :: "nat \<Rightarrow> nat option" where
  "TreeNameUpgrade_kinds n = (if n = 1 \<or> n = 2 then Some 2 else if n = 3 then Some 0 else None)"

fun TreeNameUpgrade_put :: "nat \<Rightarrow> pb_val \<Rightarrow> treeNameUpgrade \<Rightarrow> treeNameUpgrade result" where
  "TreeNameUpgrade_put n (Bytes b) m =
     Inr (if n = 1 then m\<lparr>up_Name := bytes_string b\<rparr> else m\<lparr>up_RenameFrom := bytes_string b\<rparr>)"
| "TreeNameUpgrade_put n (Varint x) m = Inr (m\<lparr>up_Delete := (x \<noteq> 0)\<rparr>)"

definition TreeNameUpgrade_Unmarshal :: "bytes \<Rightarrow> treeNameUpgrade result" where
  "TreeNameUpgrade_Unmarshal b = pb_loop TreeNameUpgrade_kinds TreeNameUpgrade_put b
     \<lparr>up_Name = [], up_RenameFrom = [], up_Delete = False\<rparr>"

definition WALEntry_kinds :: "nat \<Rightarrow> nat option" where
  "WALEntry_kinds n = (if n = 1 \<or> n = 2 then Some 2 else None)"

fun WALEntry_put :: "nat \<Rightarrow> pb_val \<Rightarrow> walEntry \<Rightarrow> walEntry result" where
  "WALEntry_put n (Bytes b) m =
     (if n = 1 then rmap (\<lambda>cs. m\<lparr>we_Changesets := we_Changesets m @ [cs]\<rparr>) (NamedChangeSet_Unmarshal b)
      else rmap (\<lambda>u. m\<lparr>we_Upgrades := we_Upgrades m @ [u]\<rparr>) (TreeNameUpgrade_Unmarshal b))"
| "WALEntry_put n v m = Inr m"

definition WALEntry_Unmarshal :: "bytes \<Rightarrow> walEntry result" where
  "WALEntry_Unmarshal b = pb_loop WALEntry_kinds WALEntry_put b \<lparr>we_Changesets = [], we_Upgrades = []\<rparr>"

definition int_bytes_kinds :: "nat \<Rightarrow> nat option" where
  "int_bytes_kinds n = (if n = 1 then Some 0 else if n = 2 then Some 2 else None)"

fun CommitID_put :: "nat \<Rightarrow> pb_val \<Rightarrow> commitID \<Rightarrow> commitID result" where
  "CommitID_put n (Varint x) m = Inr (m\<lparr>cid_Version := sint x\<rparr>)"
| "CommitID_put n (Bytes b) m = Inr (m\<lparr>cid_Hash := b\<rparr>)"

definition CommitID_Unmarshal :: "bytes \<Rightarrow> commitID \<Rightarrow> commitID result" where
  "CommitID_Unmarshal b m = pb_loop int_bytes_kinds CommitID_put b m"

definition StoreInfo_kinds :: "nat \<Rightarrow> nat option" where
  "StoreInfo_kinds n = (if n = 1 \<or> n = 2 then Some 2 else None)"

fun StoreInfo_put :: "nat \<Rightarrow> pb_val \<Rightarrow> storeInfo \<Rightarrow> storeInfo result" where
  "StoreInfo_put n (Bytes b) m =
     (if n = 1 then Inr (m\<lparr>si_Name := bytes_string b\<rparr>)
      else rmap (\<lambda>c. m\<lparr>si_CommitId := c\<rparr>) (CommitID_Unmarshal b (si_CommitId m)))"
| "StoreInfo_put n v m = Inr m"

definition StoreInfo_Unmarshal :: "bytes \<Rightarrow> storeInfo result" where
  "StoreInfo_Unmarshal b = pb_loop StoreInfo_kinds StoreInfo_put b
     \<lparr>si_Name = [], si_CommitId = \<lparr>cid_Version = 0, cid_Hash = []\<rparr>\<rparr>"

fun CommitInfo_put :: "nat \<Rightarrow> pb_val \<Rightarrow> commitInfo \<Rightarrow> commitInfo result" where
  "CommitInfo_put n (Varint x) m = Inr (m\<lparr>ci_Version := sint x\<rparr>)"
| "CommitInfo_put n (Bytes b) m = rmap (\<lambda>s. m\<lparr>ci_StoreInfos := ci_StoreInfos m @ [s]\<rparr>) (StoreInfo_Unmarshal b)"

definition CommitInfo_Unmarshal :: "bytes \<Rightarrow> commitInfo \<Rightarrow> commitInfo result" where
  "CommitInfo_Unmarshal b m = pb_loop int_bytes_kinds CommitInfo_put b m"

definition MultiTreeMetadata_kinds :: "nat \<Rightarrow> nat option" where
  "MultiTreeMetadata_kinds n = (if n = 1 then Some 2 else if n = 2 then Some 0 else None)"

fun MultiTreeMetadata_put :: "nat \<Rightarrow> pb_val \<Rightarrow> multiTreeMetadata \<Rightarrow> multiTreeMetadata result" where
  "MultiTreeMetadata_put n (Bytes b) m =
     rmap (\<lambda>ci. m\<lparr>md_CommitInfo := Some ci\<rparr>)
       (CommitInfo_Unmarshal b (case md_CommitInfo m of None \<Rightarrow> \<lparr>ci_Version = 0, ci_StoreInfos = []\<rparr> | Some ci \<Rightarrow> ci))"
| "MultiTreeMetadata_put n (Varint x) m = Inr (m\<lparr>md_InitialVersion := sint x\<rparr>)"

definition MultiTreeMetadata_Unmarshal :: "bytes \<Rightarrow> multiTreeMetadata result" where
  "MultiTreeMetadata_Unmarshal b = pb_loop MultiTreeMetadata_kinds MultiTreeMetadata_put b
     \<lparr>md_CommitInfo = None, md_InitialVersion = 0\<rparr>"

section \<open>Lemmas: decoding one field\<close>

lemma bytes_string_bytes [simp]: "bytes_string (string_bytes s) = s"
proof -
  have "char_of (unat (word_of_nat (of_char c) :: u8)) = c" for c
    by (simp add: unat_of_nat)
  then show ?thesis by (simp add: bytes_string_def string_bytes_def comp_def)
qed

lemma pb_varint_loop_cont:
  "pb_varint_loop (Suc f) (word_of_nat (n mod 128 + 128) # rd) x s = pb_varint_loop f rd (x + n mod 128 * 2 ^ s) (s + 7)"
proof -
  define b where "b = (word_of_nat (n mod 128 + 128) :: u8)"
  have "unat b = n mod 128 + 128" unfolding b_def by (rule unat_cont_byte)
  then show ?thesis unfolding b_def [symmetric] by (simp add: Let_def)
qed

lemma pb_varint_loop_put:
  "n < 2 ^ (64 - 7 * i) \<Longrightarrow> i \<le> 9 \<Longrightarrow>
     pb_varint_loop (10 - i) (put_uvarint n @ rd) x (7 * i) = Inr (word_of_nat (x + n * 2 ^ (7 * i)), rd)"
proof (induction n arbitrary: i x rule: put_uvarint.induct)
  case (1 n)
  obtain f where f: "10 - i = Suc f" "f = 10 - Suc i" using "1.prems"(2) by (cases "10 - i") auto
  show ?case
  proof (cases "n < 128")
    case True
    then show ?thesis by (simp add: f(1) put_uvarint_small unat_of_nat)
  next
    case False
    note fit = uvarint_step_fits [OF False "1.prems"]
    have "pb_varint_loop (10 - i) (put_uvarint n @ rd) x (7 * i) =
        pb_varint_loop f (put_uvarint (n div 128) @ rd) (x + n mod 128 * 2 ^ (7 * i)) (7 * Suc i)"
      unfolding f(1) put_uvarint_step [OF False] append_Cons pb_varint_loop_cont by (simp add: add.commute)
    also have "\<dots> = Inr (word_of_nat (x + n mod 128 * 2 ^ (7 * i) + n div 128 * 2 ^ (7 * Suc i)), rd)"
      unfolding f(2) using "1.IH" [OF False, of "Suc i"] fit by simp
    also have "x + n mod 128 * 2 ^ (7 * i) + n div 128 * 2 ^ (7 * Suc i) = x + n * 2 ^ (7 * i)"
      using uvarint_step_val [of n i] by linarith
    finally show ?thesis .
  qed
qed

lemma pb_varint_put [codec_simps]: "pb_varint (PutUvarint v @ rd) = Inr (v, rd)"
  using pb_varint_loop_put [of "unat v" 0 rd 0] unsigned_less [of v]
  by (simp add: pb_varint_def PutUvarint_def)

lemma pb_varint_small:
  assumes "b < 128"
  shows "pb_varint (b # rd) = Inr (ucast b, rd)"
proof -
  have "PutUvarint (ucast b) = [b]"
    using assms by (simp add: PutUvarint_def put_uvarint_small word_less_nat_alt unsigned_ucast_eq)
  then show ?thesis using pb_varint_put [of "ucast b" rd] by simp
qed

lemma pb_len_put [codec_simps]:
  assumes "length b < 2 ^ 63"
  shows "pb_len (PutUvarint (word_of_nat (length b)) @ b @ rd) = Inr (b, rd)"
proof -
  have u: "unat (word_of_nat (length b) :: u64) = length b"
    using assms by (simp add: unat_of_nat)
  then have "0 \<le> sint (word_of_nat (length b) :: u64)"
    using assms sint_i64_small [of "word_of_nat (length b)"] by simp
  with u show ?thesis by (simp add: pb_len_def pb_varint_put)
qed

text \<open>The tags of the first three fields, by wire type.\<close>

definition int_tags :: "(u8 \<times> nat) set" where
  "int_tags = {(0x08, 1), (0x10, 2), (0x18, 3)}"

definition len_tags :: "(u8 \<times> nat) set" where
  "len_tags = {(0x0a, 1), (0x12, 2), (0x1a, 3)}"

lemma pb_loop_varint:
  assumes "(tag, n) \<in> int_tags" and "kinds n = Some 0"
  shows "pb_loop kinds put (tag # PutUvarint v @ rd) m = rbind (put n (Varint v) m) (pb_loop kinds put rd)"
proof -
  have "tag < 128" "ucast (drop_bit 3 (ucast tag :: u64)) = (word_of_nat n :: u32)" "unat (ucast tag :: u64) mod 8 = 0"
    "unat (word_of_nat n :: u32) = n" "\<not> sint (word_of_nat n :: u32) \<le> 0"
    using assms(1) by (auto simp: int_tags_def)
  then show ?thesis
    using assms(2)
    by (subst pb_loop.simps) (simp add: pb_varint_small Let_def pb_value_def pb_varint_put rbind_simps rmap_simps)
qed

lemma pb_loop_msg:
  assumes "(tag, n) \<in> len_tags" and "kinds n = Some 2" and "length b < 2 ^ 63"
  shows "pb_loop kinds put (pb_msg tag b @ rd) m = rbind (put n (Bytes b) m) (pb_loop kinds put rd)"
proof -
  have "tag < 128" "ucast (drop_bit 3 (ucast tag :: u64)) = (word_of_nat n :: u32)" "unat (ucast tag :: u64) mod 8 = 2"
    "unat (word_of_nat n :: u32) = n" "\<not> sint (word_of_nat n :: u32) \<le> 0"
    using assms(1) by (auto simp: len_tags_def)
  then show ?thesis
    using assms(2) pb_len_put [OF assms(3)]
    by (subst pb_loop.simps) (simp add: pb_msg_def pb_varint_small Let_def pb_value_def rbind_simps rmap_simps)
qed

lemma pb_loop_Nil: "pb_loop kinds put [] m = Inr m"
  by (subst pb_loop.simps) simp

lemma pb_loop_int:
  assumes "(tag, n) \<in> int_tags" and "kinds n = Some 0"
  shows "pb_loop kinds put (pb_int tag v @ rd) m =
    (if v = 0 then pb_loop kinds put rd m else rbind (put n (Varint v) m) (pb_loop kinds put rd))"
  using pb_loop_varint [of tag n kinds put v rd m] assms by (simp add: pb_int_def)

lemma pb_loop_bool:
  assumes "(tag, n) \<in> int_tags" and "kinds n = Some 0"
  shows "pb_loop kinds put (pb_bool tag b @ rd) m =
    (if b then rbind (put n (Varint 1) m) (pb_loop kinds put rd) else pb_loop kinds put rd m)"
  using pb_loop_varint [of tag n kinds put 1 rd m] assms
  by (simp add: pb_bool_def PutUvarint_def put_uvarint_small)

lemma pb_loop_bytes:
  assumes "(tag, n) \<in> len_tags" and "kinds n = Some 2" and "length b < 2 ^ 63"
  shows "pb_loop kinds put (pb_bytes tag b @ rd) m =
    (if b = [] then pb_loop kinds put rd m else rbind (put n (Bytes b) m) (pb_loop kinds put rd))"
  using pb_loop_msg [of tag n kinds b put rd m] assms by (simp add: pb_bytes_def)

lemma first_tags:
  "(0x08, 1) \<in> int_tags" "(0x10, 2) \<in> int_tags" "(0x18, 3) \<in> int_tags"
  "(0x0a, 1) \<in> len_tags" "(0x12, 2) \<in> len_tags" "(0x1a, 3) \<in> len_tags"
  by (simp_all add: int_tags_def len_tags_def)

lemmas pb_loop_tags = first_tags(1-3) [THEN pb_loop_int] first_tags(1-3) [THEN pb_loop_bool]
  first_tags(4-6) [THEN pb_loop_bytes] first_tags(4-6) [THEN pb_loop_msg]

lemmas pb_loop_steps = pb_loop_tags pb_loop_tags [where rd = "[]", unfolded append_Nil2] pb_loop_Nil

lemma length_pb: "length b \<le> length (pb_msg tag b)" "length b \<le> length (pb_bytes tag b)"
  by (simp_all add: pb_msg_def pb_bytes_def)

section \<open>The interface of a message\<close>

text \<open>
  What a message type offers to the messages that hold it: decoding an encoded message gives it back, up
  to the representation of absent values.
\<close>

locale pb_codec =
  fixes enc :: "'m \<Rightarrow> bytes"
    and dec :: "bytes \<Rightarrow> 'm result"
    and norm :: "'m \<Rightarrow> 'm"
    and ok :: "'m \<Rightarrow> bool"
  assumes dec_enc: "ok m \<Longrightarrow> length (enc m) < 2 ^ 63 \<Longrightarrow> dec (enc m) = Inr (norm m)"
begin

lemma repeated:
  assumes "(tag, n) \<in> len_tags" and "kinds n = Some 2"
    and "\<And>b m. put n (Bytes b) m = rmap (\<lambda>x. add x m) (dec b)"
    and "list_all ok xs" and "length (pb_repeated tag enc xs) < 2 ^ 63"
  shows "pb_loop kinds put (pb_repeated tag enc xs @ rd) m = pb_loop kinds put rd (fold add (map norm xs) m)"
  using assms(4,5)
proof (induction xs arbitrary: m)
  case (Cons x xs)
  have len: "length (enc x) < 2 ^ 63" "length (pb_repeated tag enc xs) < 2 ^ 63"
    using Cons.prems(2) le_less_trans [OF length_pb(1) [of "enc x" tag]] by (simp_all add: pb_repeated_def)
  have "pb_loop kinds put (pb_repeated tag enc (x # xs) @ rd) m =
      pb_loop kinds put (pb_repeated tag enc xs @ rd) (add (norm x) m)"
    using pb_loop_msg [of tag n kinds "enc x" put, OF assms(1,2) len(1)] dec_enc [of x] Cons.prems(1) len(1)
    by (simp add: pb_repeated_def assms(3) rmap_simps rbind_simps)
  then show ?case using Cons.IH [OF _ len(2)] Cons.prems(1) by simp
qed (simp add: pb_repeated_def)

end

text \<open>The messages.\<close>

definition norm_pair :: "kvpair \<Rightarrow> kvpair" where
  "norm_pair p = p\<lparr>kv_value := (if nonnil (kv_value p) = [] then None else kv_value p)\<rparr>"

lemmas kinds_defs = KVPair_kinds_def ChangeSet_kinds_def NamedChangeSet_kinds_def
  TreeNameUpgrade_kinds_def WALEntry_kinds_def int_bytes_kinds_def StoreInfo_kinds_def MultiTreeMetadata_kinds_def

interpretation pair: pb_codec KVPair_Marshal KVPair_Unmarshal norm_pair "\<lambda>_. True"
proof
  fix m :: kvpair
  assume len: "length (KVPair_Marshal m) < 2 ^ 63"
  let ?v = "nonnil (kv_value m)"
  have l: "length (kv_key m) < 2 ^ 63" "length ?v < 2 ^ 63"
    using len length_pb(2) [of "kv_key m" "0x12"] length_pb(2) [of ?v "0x1a"]
    unfolding KVPair_Marshal_def length_append by linarith+
  show "KVPair_Unmarshal (KVPair_Marshal m) = Inr (norm_pair m)"
    using l by (cases m) (auto simp: KVPair_Unmarshal_def KVPair_Marshal_def pb_loop_steps kinds_defs rbind_simps norm_pair_def
      nonnil_def split: option.splits)
qed

lemma fold_append_map: "fold (\<lambda>x m. m @ [x]) xs ys = ys @ xs"
  by (induction xs arbitrary: ys) simp_all

lemma ChangeSet_roundtrip:
  assumes "length (ChangeSet_Marshal cs) < 2 ^ 63"
  shows "ChangeSet_Unmarshal (ChangeSet_Marshal cs) m = Inr (m @ map norm_pair cs)"
  using assms pair.repeated [of "0x0a" 1 ChangeSet_kinds ChangeSet_put "\<lambda>x m. m @ [x]" cs "[]" m]
  by (simp add: ChangeSet_Unmarshal_def ChangeSet_Marshal_def len_tags_def kinds_defs pb_loop_Nil fold_append_map list_all_iff)

definition norm_ncs :: "namedChangeSet \<Rightarrow> namedChangeSet" where
  "norm_ncs m = m\<lparr>ncs_Changeset := map norm_pair (ncs_Changeset m)\<rparr>"

definition norm_entry :: "walEntry \<Rightarrow> walEntry" where
  "norm_entry m = m\<lparr>we_Changesets := map norm_ncs (we_Changesets m)\<rparr>"

lemma string_bytes_Nil [simp]: "string_bytes s = [] \<longleftrightarrow> s = []"
  by (simp add: string_bytes_def)

interpretation ncs: pb_codec NamedChangeSet_Marshal NamedChangeSet_Unmarshal norm_ncs "\<lambda>_. True"
proof
  fix m :: namedChangeSet
  assume len: "length (NamedChangeSet_Marshal m) < 2 ^ 63"
  have l: "length (ChangeSet_Marshal (ncs_Changeset m)) < 2 ^ 63" "length (string_bytes (ncs_Name m)) < 2 ^ 63"
    using len length_pb(1) [of "ChangeSet_Marshal (ncs_Changeset m)" "0x0a"] length_pb(2) [of "string_bytes (ncs_Name m)" "0x12"]
    unfolding NamedChangeSet_Marshal_def length_append by linarith+
  show "NamedChangeSet_Unmarshal (NamedChangeSet_Marshal m) = Inr (norm_ncs m)"
    using l by (cases m) (simp add: NamedChangeSet_Unmarshal_def NamedChangeSet_Marshal_def pb_loop_steps kinds_defs ChangeSet_roundtrip norm_ncs_def)
qed

interpretation upg: pb_codec TreeNameUpgrade_Marshal TreeNameUpgrade_Unmarshal id "\<lambda>_. True"
proof
  fix m :: treeNameUpgrade
  assume len: "length (TreeNameUpgrade_Marshal m) < 2 ^ 63"
  have l: "length (string_bytes (up_Name m)) < 2 ^ 63" "length (string_bytes (up_RenameFrom m)) < 2 ^ 63"
    using len length_pb(2) [of "string_bytes (up_Name m)" "0x0a"] length_pb(2) [of "string_bytes (up_RenameFrom m)" "0x12"]
    unfolding TreeNameUpgrade_Marshal_def length_append by linarith+
  show "TreeNameUpgrade_Unmarshal (TreeNameUpgrade_Marshal m) = Inr (id m)"
    using l by (cases m) (simp add: TreeNameUpgrade_Unmarshal_def TreeNameUpgrade_Marshal_def pb_loop_steps kinds_defs)
qed

lemma fold_changesets:
  "fold (\<lambda>x m. m\<lparr>we_Changesets := we_Changesets m @ [x]\<rparr>) xs m = m\<lparr>we_Changesets := we_Changesets m @ xs\<rparr>"
  "fold (\<lambda>x m. m\<lparr>we_Upgrades := we_Upgrades m @ [x]\<rparr>) us m = m\<lparr>we_Upgrades := we_Upgrades m @ us\<rparr>"
  by (induction xs arbitrary: m; simp) (induction us arbitrary: m; simp)

lemma WALEntry_decodes:
  assumes "length (WALEntry_Marshal m) < 2 ^ 63"
  shows "WALEntry_Unmarshal (WALEntry_Marshal m) = Inr (norm_entry m)"
proof -
  let ?K = WALEntry_kinds and ?P = WALEntry_put
  let ?cs = "pb_repeated 0x0a NamedChangeSet_Marshal (we_Changesets m)"
    and ?us = "pb_repeated 0x12 TreeNameUpgrade_Marshal (we_Upgrades m)"
  have l: "length ?cs < 2 ^ 63" "length ?us < 2 ^ 63"
    using assms unfolding WALEntry_Marshal_def length_append by linarith+
  have "pb_loop ?K ?P (?cs @ ?us) m0 =
      pb_loop ?K ?P ?us (m0\<lparr>we_Changesets := we_Changesets m0 @ map norm_ncs (we_Changesets m)\<rparr>)" for m0
    by (subst ncs.repeated [where n = 1 and add = "\<lambda>x m. m\<lparr>we_Changesets := we_Changesets m @ [x]\<rparr>"])
      (use l in \<open>simp_all add: len_tags_def kinds_defs list_all_iff fold_changesets\<close>)
  moreover have "pb_loop ?K ?P (?us @ []) m0 =
      pb_loop ?K ?P [] (m0\<lparr>we_Upgrades := we_Upgrades m0 @ map id (we_Upgrades m)\<rparr>)" for m0
    by (subst upg.repeated [where n = 2 and add = "\<lambda>x m. m\<lparr>we_Upgrades := we_Upgrades m @ [x]\<rparr>"])
      (use l in \<open>simp_all add: len_tags_def kinds_defs list_all_iff fold_changesets\<close>)
  ultimately show ?thesis
    by (cases m) (simp add: WALEntry_Unmarshal_def WALEntry_Marshal_def pb_loop_Nil norm_entry_def)
qed

definition int64 :: "int \<Rightarrow> bool" where
  "int64 v \<longleftrightarrow> - (2 ^ 63) \<le> v \<and> v < 2 ^ 63"

lemma sint_int64: "int64 v \<Longrightarrow> sint (word_of_int v :: u64) = v"
  unfolding int64_def sint_sbintrunc' by (rule signed_take_bit_int_eq_self) simp_all

lemma int64_zero: "int64 v \<Longrightarrow> (word_of_int v :: u64) = 0 \<longleftrightarrow> v = 0"
proof
  assume "int64 v" "(word_of_int v :: u64) = 0"
  then show "v = 0" using sint_int64 [of v] by simp
qed simp

lemma CommitID_roundtrip:
  assumes "int64 (cid_Version m)" and "length (CommitID_Marshal m) < 2 ^ 63"
  shows "CommitID_Unmarshal (CommitID_Marshal m) \<lparr>cid_Version = 0, cid_Hash = []\<rparr> = Inr m"
proof -
  have "length (cid_Hash m) < 2 ^ 63"
    using assms(2) length_pb(2) [of "cid_Hash m" "0x12"] unfolding CommitID_Marshal_def length_append by linarith
  then show ?thesis
    using assms(1) by (cases m) (simp add: CommitID_Unmarshal_def CommitID_Marshal_def pb_loop_steps kinds_defs
      sint_int64 int64_zero)
qed

interpretation info: pb_codec StoreInfo_Marshal StoreInfo_Unmarshal id "\<lambda>m. int64 (cid_Version (si_CommitId m))"
proof
  fix m :: storeInfo
  assume v: "int64 (cid_Version (si_CommitId m))" and len: "length (StoreInfo_Marshal m) < 2 ^ 63"
  have l: "length (string_bytes (si_Name m)) < 2 ^ 63" "length (CommitID_Marshal (si_CommitId m)) < 2 ^ 63"
    using len length_pb(2) [of "string_bytes (si_Name m)" "0x0a"] length_pb(1) [of "CommitID_Marshal (si_CommitId m)" "0x12"]
    unfolding StoreInfo_Marshal_def length_append by linarith+
  show "StoreInfo_Unmarshal (StoreInfo_Marshal m) = Inr (id m)"
    using l v CommitID_roundtrip [OF v l(2)]
    by (cases m) (simp add: StoreInfo_Unmarshal_def StoreInfo_Marshal_def pb_loop_steps kinds_defs)
qed

definition info_ok :: "commitInfo \<Rightarrow> bool" where
  "info_ok ci \<longleftrightarrow> int64 (ci_Version ci) \<and> list_all (\<lambda>m. int64 (cid_Version (si_CommitId m))) (ci_StoreInfos ci)"

lemma fold_infos:
  "fold (\<lambda>x m. m\<lparr>ci_StoreInfos := ci_StoreInfos m @ [x]\<rparr>) xs m = m\<lparr>ci_StoreInfos := ci_StoreInfos m @ xs\<rparr>"
  by (induction xs arbitrary: m) simp_all

lemma CommitInfo_roundtrip:
  assumes "info_ok m" and "length (CommitInfo_Marshal m) < 2 ^ 63"
  shows "CommitInfo_Unmarshal (CommitInfo_Marshal m) \<lparr>ci_Version = 0, ci_StoreInfos = []\<rparr> = Inr m"
proof -
  let ?ss = "pb_repeated 0x12 StoreInfo_Marshal (ci_StoreInfos m)"
  have l: "length ?ss < 2 ^ 63" using assms(2) by (simp add: CommitInfo_Marshal_def)
  have "pb_loop int_bytes_kinds CommitInfo_put (?ss @ []) m0 =
      pb_loop int_bytes_kinds CommitInfo_put [] (m0\<lparr>ci_StoreInfos := ci_StoreInfos m0 @ map id (ci_StoreInfos m)\<rparr>)" for m0
    by (subst info.repeated [where n = 2 and add = "\<lambda>x m. m\<lparr>ci_StoreInfos := ci_StoreInfos m @ [x]\<rparr>"])
      (use l assms(1) in \<open>simp_all add: len_tags_def kinds_defs info_ok_def fold_infos\<close>)
  then show ?thesis
    using assms(1) by (cases m) (simp add: CommitInfo_Unmarshal_def CommitInfo_Marshal_def pb_loop_steps kinds_defs
      sint_int64 int64_zero info_ok_def)
qed

lemma MultiTreeMetadata_decodes:
  assumes "pred_option info_ok (md_CommitInfo m)" and "int64 (md_InitialVersion m)"
    and "length (MultiTreeMetadata_Marshal m) < 2 ^ 63"
  shows "MultiTreeMetadata_Unmarshal (MultiTreeMetadata_Marshal m) = Inr m"
proof (cases "md_CommitInfo m")
  case None
  then show ?thesis
    using assms(2) by (cases m) (simp add: MultiTreeMetadata_Unmarshal_def MultiTreeMetadata_Marshal_def pb_loop_steps
      kinds_defs sint_int64 int64_zero)
next
  case (Some ci)
  have l: "length (CommitInfo_Marshal ci) < 2 ^ 63"
    using assms(3) length_pb(1) [of "CommitInfo_Marshal ci" "0x0a"]
    unfolding MultiTreeMetadata_Marshal_def length_append Some option.case by linarith
  then show ?thesis
    using Some assms(1,2) CommitInfo_roundtrip [of ci]
    by (cases m) (simp add: MultiTreeMetadata_Unmarshal_def MultiTreeMetadata_Marshal_def pb_loop_steps
      kinds_defs sint_int64 int64_zero)
qed

section \<open>Properties\<close>

text \<open>
  C32: what the log and the snapshots store is read back. Decoding an encoded log entry gives its upgrades and
  change sets in order, an empty value becoming an absent one; decoding encoded metadata gives the commit
  info, with the versions and hashes of all stores, and the initial version.
\<close>

theorem messages_roundtrip:
  assumes "length (WALEntry_Marshal e) < 2 ^ 63" and "length (MultiTreeMetadata_Marshal m) < 2 ^ 63"
    and "int64 (md_InitialVersion m)" and "pred_option info_ok (md_CommitInfo m)"
  shows "WALEntry_Unmarshal (WALEntry_Marshal e) = Inr (norm_entry e) \<and>
    MultiTreeMetadata_Unmarshal (MultiTreeMetadata_Marshal m) = Inr m"
  using WALEntry_decodes [OF assms(1)] MultiTreeMetadata_decodes [OF assms(4,3,2)] by blast

definition entry_ex :: walEntry where
  "entry_ex = \<lparr>we_Changesets = [\<lparr>ncs_Changeset = [\<lparr>kv_delete = False, kv_key = [1], kv_value = Some []\<rparr>,
       \<lparr>kv_delete = True, kv_key = [2], kv_value = None\<rparr>], ncs_Name = ''bank''\<rparr>],
     we_Upgrades = [\<lparr>up_Name = ''acc'', up_RenameFrom = ''auth'', up_Delete = False\<rparr>]\<rparr>"

definition metadata_ex :: multiTreeMetadata where
  "metadata_ex = \<lparr>md_CommitInfo = Some \<lparr>ci_Version = 5, ci_StoreInfos = [\<lparr>si_Name = ''bank'',
     si_CommitId = \<lparr>cid_Version = 5, cid_Hash = [9, 9]\<rparr>\<rparr>]\<rparr>, md_InitialVersion = 0\<rparr>"

lemma examples_small: "length (WALEntry_Marshal entry_ex) < 100" "length (MultiTreeMetadata_Marshal metadata_ex) < 100"
  by (simp_all add: entry_ex_def metadata_ex_def WALEntry_Marshal_def MultiTreeMetadata_Marshal_def CommitInfo_Marshal_def
      StoreInfo_Marshal_def CommitID_Marshal_def NamedChangeSet_Marshal_def ChangeSet_Marshal_def KVPair_Marshal_def
      TreeNameUpgrade_Marshal_def pb_repeated_def pb_msg_def pb_bytes_def pb_int_def pb_bool_def PutUvarint_def
      put_uvarint_small string_bytes_def nonnil_def)

theorem messages_roundtrip_witness:
  "WALEntry_Unmarshal (WALEntry_Marshal entry_ex) = Inr (norm_entry entry_ex) \<and>
   MultiTreeMetadata_Unmarshal (MultiTreeMetadata_Marshal metadata_ex) = Inr metadata_ex"
proof (rule messages_roundtrip)
  show "length (WALEntry_Marshal entry_ex) < 2 ^ 63" "length (MultiTreeMetadata_Marshal metadata_ex) < 2 ^ 63"
    using examples_small by simp_all
  show "int64 (md_InitialVersion metadata_ex)" "pred_option info_ok (md_CommitInfo metadata_ex)"
    by (simp_all add: metadata_ex_def int64_def info_ok_def)
qed

end
