(* ===== verification/MultiTree.thy ===== *)
theory MultiTree
  imports TreeState WAL Proto
begin

text \<open>
  \<^verbatim>\<open>memiavl/multitree.go\<close>: the trees of all stores under one version. The trees are kept ordered by name, with an
  index from names to positions; versions are saved for all trees at once; a snapshot directory holds the
  files of every tree and the metadata; the write-ahead log brings a loaded tree up to date.

  Versions are \<^verbatim>\<open>int64\<close> in the code and integers here; the arithmetic on log indices wraps and is done on
  64-bit words. An operation that can fail half-way returns its result and the state it leaves.
\<close>

section \<open>State\<close>

type_synonym 'c namedTree = "string \<times> 'c tree"

record 'c multiTree =
  mt_initialVersion :: u32
  mt_zeroCopy :: bool
  mt_cacheSize :: int
  mt_chainId :: string
  mt_trees :: "'c namedTree list"
  mt_treesByName :: "string \<rightharpoonup> nat"
  mt_lastCommitInfo :: commitInfo
  mt_metadata :: multiTreeMetadata

definition over :: "('a \<Rightarrow> 'b) \<Rightarrow> string \<times> 'a \<Rightarrow> string \<times> 'b" where
  "over f e = (fst e, f (snd e))"

abbreviation nilPointer :: gerror where
  "nilPointer \<equiv> Panic ''nil pointer dereference''"

definition NewEmptyMultiTree :: "u32 \<Rightarrow> int \<Rightarrow> string \<Rightarrow> 'c multiTree" where
  "NewEmptyMultiTree initialVersion cacheSize chainId =
     \<lparr>mt_initialVersion = initialVersion, mt_zeroCopy = True, mt_cacheSize = cacheSize, mt_chainId = chainId,
      mt_trees = [], mt_treesByName = Map.empty, mt_lastCommitInfo = \<lparr>ci_Version = 0, ci_StoreInfos = []\<rparr>,
      mt_metadata = \<lparr>md_CommitInfo = None, md_InitialVersion = 0\<rparr>\<rparr>"

definition TreeByName :: "string \<Rightarrow> 'c multiTree \<Rightarrow> 'c tree option" where
  "TreeByName name t = (case mt_treesByName t name of None \<Rightarrow> None | Some i \<Rightarrow> Some (snd (mt_trees t ! i)))"

definition mt_Version :: "'c multiTree \<Rightarrow> int" where
  "mt_Version t = ci_Version (mt_lastCommitInfo t)"

definition SnapshotVersion :: "'c multiTree \<Rightarrow> int result" where
  "SnapshotVersion t = (case md_CommitInfo (mt_metadata t) of None \<Rightarrow> Inl nilPointer | Some ci \<Rightarrow> Inr (ci_Version ci))"

section \<open>Versions and indices of the log\<close>

definition nextVersion :: "int \<Rightarrow> u32 \<Rightarrow> int" where
  "nextVersion v initialVersion = (if v = 0 \<and> initialVersion > 1 then int (unat initialVersion) else v + 1)"

definition walIndex :: "int \<Rightarrow> u32 \<Rightarrow> u64" where
  "walIndex v initialVersion =
     (if initialVersion > 1 then word_of_int v - ucast initialVersion + 1 else word_of_int v)"

definition walVersion :: "u64 \<Rightarrow> u32 \<Rightarrow> int" where
  "walVersion index initialVersion =
     (if initialVersion > 1 then sint (index + ucast initialVersion - 1) else sint index)"

section \<open>Setting the initial version, copying, closing\<close>

definition mt_setInitialVersion :: "u32 \<Rightarrow> 'c multiTree \<Rightarrow> 'c multiTree" where
  "mt_setInitialVersion initialVersion t =
     (let t1 = t\<lparr>mt_initialVersion := initialVersion\<rparr> in
      if initialVersion > 1 then
        t1\<lparr>mt_trees := map (\<lambda>(name, tree). (name, setInitialVersion initialVersion tree)) (mt_trees t1)\<rparr>
      else t1)"

definition mt_SetInitialVersion :: "int \<Rightarrow> 'c multiTree \<Rightarrow> 'c multiTree result" where
  "mt_SetInitialVersion initialVersion t =
     (if initialVersion \<ge> int MaxUint32 then Inl VersionOverflow
      else if mt_Version t \<noteq> 0 then Inl MultiTreeNotEmpty
      else case List.find (\<lambda>(name, tree). \<not> tree_IsEmpty tree) (mt_trees t) of
        Some (name, tree) \<Rightarrow> Inl (TreeNotEmpty name)
      | None \<Rightarrow> Inr (mt_setInitialVersion (word_of_int initialVersion) t))"

definition mt_SetZeroCopy :: "bool \<Rightarrow> 'c multiTree \<Rightarrow> 'c multiTree" where
  "mt_SetZeroCopy zeroCopy t =
     t\<lparr>mt_zeroCopy := zeroCopy, mt_trees := map (\<lambda>(name, tree). (name, SetZeroCopy zeroCopy tree)) (mt_trees t)\<rparr>"

text \<open>The index that the loops over the trees build.\<close>

definition index_map :: "(string \<times> 'a) list \<Rightarrow> string \<rightharpoonup> nat" where
  "index_map trees = foldl (\<lambda>m (i, name, tree). m(name \<mapsto> i)) Map.empty (enumerate 0 trees)"

text \<open>\<^verbatim>\<open>Copy\<close> returns the source, whose trees note the copy, and the clone.\<close>

definition mt_Copy :: "'c cache_ops \<Rightarrow> int \<Rightarrow> 'c multiTree \<Rightarrow> 'c multiTree \<times> 'c multiTree" where
  "mt_Copy ops cacheSize t =
     (let copies = map (\<lambda>(name, tree). (name, tree_Copy ops cacheSize tree)) (mt_trees t);
          trees = map (\<lambda>(name, c). (name, snd c)) copies
      in (t\<lparr>mt_trees := map (\<lambda>(name, c). (name, fst c)) copies\<rparr>,
          t\<lparr>mt_trees := trees, mt_treesByName := index_map trees\<rparr>))"

definition mt_Close :: "'c multiTree \<Rightarrow> 'c multiTree" where
  "mt_Close t = t\<lparr>mt_trees := [], mt_treesByName := Map.empty,
     mt_lastCommitInfo := \<lparr>ci_Version = 0, ci_StoreInfos = []\<rparr>\<rparr>"

section \<open>Upgrades and change sets\<close>

fun index_func :: "('a \<Rightarrow> bool) \<Rightarrow> 'a list \<Rightarrow> nat option" where
  "index_func p [] = None"
| "index_func p (x # xs) = (if p x then Some 0 else map_option Suc (index_func p xs))"

text \<open>One upgrade of the list of named trees; \<open>fresh\<close> is the tree that an addition creates.\<close>

definition upgrade_step ::
  "'a result \<Rightarrow> treeNameUpgrade \<Rightarrow> (string \<times> 'a) list \<Rightarrow> unit result \<times> (string \<times> 'a) list" where
  "upgrade_step fresh u trees =
     (if up_Delete u then
        (case index_func (\<lambda>e. fst e = up_Name u) trees of
           None \<Rightarrow> (Inl (UnknownTree (up_Name u)), trees)
         | Some i \<Rightarrow>
             (let n = length trees in (Inr (), take (n - 1) (trees[i := trees ! (n - 1), n - 1 := trees ! i]))))
      else if up_RenameFrom u \<noteq> [] then
        (case index_func (\<lambda>e. fst e = up_RenameFrom u) trees of
           None \<Rightarrow> (Inl (UnknownTree (up_RenameFrom u)), trees)
         | Some i \<Rightarrow> (Inr (), trees[i := (up_Name u, snd (trees ! i))]))
      else case fresh of
          Inl e \<Rightarrow> (Inl e, trees)
        | Inr tree \<Rightarrow> (Inr (), trees @ [(up_Name u, tree)]))"

fun upgrade_loop ::
  "'a result \<Rightarrow> treeNameUpgrade list \<Rightarrow> (string \<times> 'a) list \<Rightarrow> unit result \<times> (string \<times> 'a) list" where
  "upgrade_loop fresh [] trees = (Inr (), trees)"
| "upgrade_loop fresh (u # us) trees =
     (case upgrade_step fresh u trees of
        (Inl e, trees') \<Rightarrow> (Inl e, trees')
      | (Inr _, trees') \<Rightarrow> upgrade_loop fresh us trees')"

fun index_trees :: "nat \<Rightarrow> (string \<times> 'a) list \<Rightarrow> (string \<rightharpoonup> nat) \<Rightarrow> unit result \<times> (string \<rightharpoonup> nat)" where
  "index_trees i [] m = (Inr (), m)"
| "index_trees i ((name, tree) # trees) m =
     (if m name \<noteq> None then (Inl (NameConflict name), m) else index_trees (Suc i) trees (m(name \<mapsto> i)))"

text \<open>The loop, the stable sort and the rebuilt index, over any kind of tree.\<close>

definition upgrade_trees ::
  "'a result \<Rightarrow> treeNameUpgrade list \<Rightarrow> (string \<times> 'a) list \<Rightarrow>
     unit result \<times> (string \<rightharpoonup> nat) \<times> (string \<times> 'a) list" where
  "upgrade_trees fresh us trees =
     (case upgrade_loop fresh us trees of
        (Inl e, trees') \<Rightarrow> (Inl e, Map.empty, trees')
      | (Inr _, trees') \<Rightarrow>
          (let sorted_trees = sort_key fst trees'; (r, m) = index_trees 0 sorted_trees Map.empty
           in (r, m, sorted_trees)))"

definition ApplyUpgrades ::
  "'c cache_ops \<Rightarrow> treeNameUpgrade list \<Rightarrow> 'c multiTree \<Rightarrow> unit result \<times> 'c multiTree" where
  "ApplyUpgrades ops us t =
     (if us = [] then (Inr (), t)
      else
        (let fresh = NewWithInitialVersion ops (word_of_int (nextVersion (mt_Version t) (mt_initialVersion t)))
               (mt_cacheSize t);
             (r, m, trees) = upgrade_trees fresh us (mt_trees t)
         in (r, t\<lparr>mt_trees := trees, mt_treesByName := m\<rparr>)))"

definition mt_ApplyChangeSet ::
  "'c cache_ops \<Rightarrow> string \<Rightarrow> changeset \<Rightarrow> 'c multiTree \<Rightarrow> unit result \<times> 'c multiTree" where
  "mt_ApplyChangeSet ops name cs t =
     (case mt_treesByName t name of
        None \<Rightarrow> (Inl (UnknownTree name), t)
      | Some i \<Rightarrow>
          if i < length (mt_trees t) then
            (Inr (), t\<lparr>mt_trees := (mt_trees t)[i := over (\<lambda>tree. ApplyChangeSet ops tree cs) (mt_trees t ! i)]\<rparr>)
          else (Inl (Panic ''index out of range''), t))"

fun mt_ApplyChangeSets ::
  "'c cache_ops \<Rightarrow> namedChangeSet list \<Rightarrow> 'c multiTree \<Rightarrow> unit result \<times> 'c multiTree" where
  "mt_ApplyChangeSets ops [] t = (Inr (), t)"
| "mt_ApplyChangeSets ops (cs # css) t =
     (case mt_ApplyChangeSet ops (ncs_Name cs) (ncs_Changeset cs) t of
        (Inl e, t') \<Rightarrow> (Inl e, t')
      | (Inr _, t') \<Rightarrow> mt_ApplyChangeSets ops css t')"

definition applyWALEntry :: "'c cache_ops \<Rightarrow> walEntry \<Rightarrow> 'c multiTree \<Rightarrow> unit result \<times> 'c multiTree" where
  "applyWALEntry ops entry t =
     (case ApplyUpgrades ops (we_Upgrades entry) t of
        (Inl e, t') \<Rightarrow> (Inl e, t')
      | (Inr _, t') \<Rightarrow> mt_ApplyChangeSets ops (we_Changesets entry) t')"

section \<open>Commit infos and saving a version\<close>

definition store_info :: "'c namedTree \<Rightarrow> storeInfo \<times> 'c namedTree" where
  "store_info e =
     (let (hsh, tree) = tree_RootHash (snd e)
      in (\<lparr>si_Name = fst e, si_CommitId = \<lparr>cid_Version = tree_Version (snd e), cid_Hash = hsh\<rparr>\<rparr>, (fst e, tree)))"

text \<open>\<^verbatim>\<open>buildCommitInfo\<close> fills the hash caches of the trees.\<close>

definition buildCommitInfo :: "int \<Rightarrow> 'c multiTree \<Rightarrow> commitInfo \<times> 'c multiTree" where
  "buildCommitInfo version t =
     (let infos = map store_info (mt_trees t)
      in (\<lparr>ci_Version = version, ci_StoreInfos = map fst infos\<rparr>, t\<lparr>mt_trees := map snd infos\<rparr>))"

definition WorkingCommitInfo :: "'c multiTree \<Rightarrow> commitInfo \<times> 'c multiTree" where
  "WorkingCommitInfo t = buildCommitInfo (nextVersion (mt_Version t) (mt_initialVersion t)) t"

definition UpdateCommitInfo :: "'c multiTree \<Rightarrow> 'c multiTree" where
  "UpdateCommitInfo t = (let (ci, t') = buildCommitInfo (mt_Version t) t in t'\<lparr>mt_lastCommitInfo := ci\<rparr>)"

fun check_trees :: "'c namedTree list \<Rightarrow> unit result" where
  "check_trees [] = Inr ()"
| "check_trees (e # es) = rbind (checkVersionOverflow (snd e)) (\<lambda>_. check_trees es)"

fun save_trees :: "bool \<Rightarrow> 'c namedTree list \<Rightarrow> unit result \<times> 'c namedTree list" where
  "save_trees u [] = (Inr (), [])"
| "save_trees u ((name, tree) # es) =
     (case tree_SaveVersion u tree of
        Inl e \<Rightarrow> (Inl e, (name, tree) # es)
      | Inr (_, _, tree') \<Rightarrow> (let (r, es') = save_trees u es in (r, (name, tree') # es')))"

definition mt_SaveVersion :: "bool \<Rightarrow> 'c multiTree \<Rightarrow> int result \<times> 'c multiTree" where
  "mt_SaveVersion updateCommitInfo t =
     (case check_trees (mt_trees t) of
        Inl e \<Rightarrow> (Inl e, t)
      | Inr _ \<Rightarrow>
          (let v = nextVersion (mt_Version t) (mt_initialVersion t);
               t1 = t\<lparr>mt_lastCommitInfo := (mt_lastCommitInfo t)\<lparr>ci_Version := v\<rparr>\<rparr>;
               (r, trees) = save_trees updateCommitInfo (mt_trees t1);
               t2 = t1\<lparr>mt_trees := trees\<rparr>
           in case r of
                Inl e \<Rightarrow> (Inl e, t2)
              | Inr _ \<Rightarrow>
                  (let t3 = (if updateCommitInfo then UpdateCommitInfo t2
                             else t2\<lparr>mt_lastCommitInfo := (mt_lastCommitInfo t2)\<lparr>ci_StoreInfos := []\<rparr>\<rparr>)
                   in (Inr (mt_Version t3), t3))))"

fun infos_equal :: "storeInfo list \<Rightarrow> storeInfo list \<Rightarrow> bool" where
  "infos_equal (want # trusted) (got # actual) \<longleftrightarrow>
     si_Name want = si_Name got \<and> cid_Version (si_CommitId want) = cid_Version (si_CommitId got) \<and>
     cid_Hash (si_CommitId want) = cid_Hash (si_CommitId got) \<and> infos_equal trusted actual"
| "infos_equal trusted actual \<longleftrightarrow> True"

definition commitInfoEqual :: "commitInfo \<Rightarrow> commitInfo \<Rightarrow> unit result" where
  "commitInfoEqual trusted actual =
     (if ci_Version trusted \<noteq> ci_Version actual \<or> length (ci_StoreInfos trusted) \<noteq> length (ci_StoreInfos actual) \<or>
         \<not> infos_equal (ci_StoreInfos trusted) (ci_StoreInfos actual)
      then Inl CommitInfoMismatch else Inr ())"

section \<open>Replaying the log\<close>

text \<open>
  The loop runs over the indices from the first to the last one; it would not end at the largest 64-bit
  index, which a log does not reach.
\<close>

fun replay :: "'c cache_ops \<Rightarrow> 'w wal_reader \<Rightarrow> u64 list \<Rightarrow> 'w \<Rightarrow> 'c multiTree \<Rightarrow> unit result \<times> 'w \<times> 'c multiTree" where
  "replay ops rd [] w t = (Inr (), w, t)"
| "replay ops rd (i # is) w t =
     (case wr_Read rd i w of
        (Inl e, w') \<Rightarrow> (Inl e, w', t)
      | (Inr bz, w') \<Rightarrow>
          (case WALEntry_Unmarshal bz of
             Inl e \<Rightarrow> (Inl e, w', t)
           | Inr entry \<Rightarrow>
               (case applyWALEntry ops entry t of
                  (Inl e, t') \<Rightarrow> (Inl e, w', t')
                | (Inr _, t') \<Rightarrow>
                    (case mt_SaveVersion False t' of
                       (Inl e, t'') \<Rightarrow> (Inl e, w', t'')
                     | (Inr _, t'') \<Rightarrow> replay ops rd is w' t''))))"

definition catchupWAL ::
  "'c cache_ops \<Rightarrow> 'w wal_reader \<Rightarrow> int \<Rightarrow> 'w \<Rightarrow> 'c multiTree \<Rightarrow> unit result \<times> 'w \<times> 'c multiTree" where
  "catchupWAL ops rd endVersion w t =
     (if endVersion < 0 then (Inl InvalidEndVersion, w, t)
      else case wr_LastIndex rd w of
        Inl e \<Rightarrow> (Inl e, w, t)
      | Inr lastIndex \<Rightarrow>
          (let firstIndex = walIndex (nextVersion (mt_Version t) (mt_initialVersion t)) (mt_initialVersion t) in
           if firstIndex > lastIndex then (Inr (), w, t)
           else
             (let endIndex = (if endVersion = 0 then lastIndex else walIndex endVersion (mt_initialVersion t)) in
              if endIndex < firstIndex then (Inl TargetPruned, w, t)
              else
                (let endIndex' = (if endIndex > lastIndex then lastIndex else endIndex)
                 in case replay ops rd (map word_of_nat [unat firstIndex ..< Suc (unat endIndex')]) w t of
                      (Inl e, w', t') \<Rightarrow> (Inl e, w', t')
                    | (Inr _, w', t') \<Rightarrow> (Inr (), w', UpdateCommitInfo t')))))"

section \<open>Tasks on a pool of workers\<close>

text \<open>
  \<^verbatim>\<open>RunWorkerGroup\<close> runs one task per label on the workers of a pool. What the scheduling decides is given by
  \<open>sched\<close>: a task either finds its context done when it starts and is skipped, or runs, with the
  answers it gets when it polls the context; the answers are those of the context to the \<open>i\<close>-th leaf
  a snapshot writes. A panic of a task becomes an error. \<^verbatim>\<open>errors.Join\<close> is represented by the first error.
\<close>

type_synonym ctx_view = "u32 \<Rightarrow> bool"

definition runWorkerTask :: "string \<Rightarrow> 'a result \<Rightarrow> 'a result" where
  "runWorkerTask label r = (case r of Inl (Panic msg) \<Rightarrow> Inl (AnyError (''panic in worker task '' @ label)) | _ \<Rightarrow> r)"

definition task_result ::
  "(nat \<Rightarrow> ctx_view option) \<Rightarrow> (ctx_view \<Rightarrow> nat \<Rightarrow> 'a result) \<Rightarrow> string list \<Rightarrow> nat \<Rightarrow> 'a result" where
  "task_result sched f labels i =
     (case sched i of None \<Rightarrow> Inl Canceled | Some ctx \<Rightarrow> runWorkerTask (labels ! i) (f ctx i))"

fun join_results :: "'a result list \<Rightarrow> 'a list result" where
  "join_results [] = Inr []"
| "join_results (r # rs) = rbind r (\<lambda>x. rmap (Cons x) (join_results rs))"

definition RunWorkerGroup ::
  "(nat \<Rightarrow> ctx_view option) \<Rightarrow> string list \<Rightarrow> (ctx_view \<Rightarrow> nat \<Rightarrow> 'a result) \<Rightarrow> 'a list result" where
  "RunWorkerGroup sched labels f = join_results (map (task_result sched f labels) [0..<length labels])"

text \<open>
  The schedules that can happen: \<open>order\<close> lists the tasks as they end. A task sees a done context only
  if the caller cancelled or a task that ended before failed.
\<close>

definition sees_done :: "ctx_view option \<Rightarrow> bool" where
  "sees_done v \<longleftrightarrow> v \<noteq> Some (\<lambda>_. False)"

definition sched_possible ::
  "bool \<Rightarrow> (nat \<Rightarrow> ctx_view option) \<Rightarrow> (ctx_view \<Rightarrow> nat \<Rightarrow> 'a result) \<Rightarrow> string list \<Rightarrow> nat list \<Rightarrow> bool" where
  "sched_possible canceled sched f labels order \<longleftrightarrow>
     distinct order \<and> set order = {..<length labels} \<and>
     (\<forall>k < length order. sees_done (sched (order ! k)) \<longrightarrow>
        canceled \<or> (\<exists>j < k. \<exists>e. task_result sched f labels (order ! j) = Inl e))"

section \<open>Snapshots\<close>

text \<open>
  A snapshot directory: the metadata file, if it is there, and the subdirectory of every store in the order of
  \<^verbatim>\<open>os.ReadDir\<close>. Files are complete when \<^verbatim>\<open>WriteFileSync\<close> returns; a directory that a failed write leaves
  behind is not described.
\<close>

record snapshot_dir =
  sd_metadata :: "bytes option"
  sd_stores :: "(string \<times> snapshot_files) list"

definition WriteSnapshotWithContext ::
  "(nat \<Rightarrow> ctx_view option) \<Rightarrow> bool \<Rightarrow> 'c multiTree \<Rightarrow> snapshot_dir result" where
  "WriteSnapshotWithContext sched canceled t =
     (let names = map fst (mt_trees t) in
      rbind (RunWorkerGroup sched names (\<lambda>ctx i. tree_WriteSnapshot ctx (snd (mt_trees t ! i)))) (\<lambda>files.
      if canceled then Inl Canceled
      else
        (let metadata = \<lparr>md_CommitInfo = Some (mt_lastCommitInfo t), md_InitialVersion = int (unat (mt_initialVersion t))\<rparr>
         in Inr \<lparr>sd_metadata = Some (MultiTreeMetadata_Marshal metadata), sd_stores = sort_key fst (zip names files)\<rparr>)))"

definition mt_WriteSnapshot :: "(nat \<Rightarrow> ctx_view option) \<Rightarrow> 'c multiTree \<Rightarrow> snapshot_dir result" where
  "mt_WriteSnapshot sched t = WriteSnapshotWithContext sched False t"

definition readMetadata :: "snapshot_dir \<Rightarrow> multiTreeMetadata result" where
  "readMetadata dir =
     (case sd_metadata dir of
        None \<Rightarrow> Inl ErrNotExist
      | Some bz \<Rightarrow>
          rbind (MultiTreeMetadata_Unmarshal bz) (\<lambda>md.
            case md_CommitInfo md of
              None \<Rightarrow> Inl nilPointer
            | Some ci \<Rightarrow>
                if ci_Version ci > int MaxUint32 then Inl VersionOverflow
                else if md_InitialVersion md > int MaxUint32 then Inl VersionOverflow
                else Inr md))"

fun open_stores ::
  "'c cache_ops \<Rightarrow> bool \<Rightarrow> int \<Rightarrow> (string \<times> snapshot_files) list \<Rightarrow> 'c namedTree list result" where
  "open_stores ops zeroCopy cacheSize [] = Inr []"
| "open_stores ops zeroCopy cacheSize ((name, files) # es) =
     rbind (OpenSnapshot files) (\<lambda>sn.
     rbind (NewFromSnapshot ops sn zeroCopy cacheSize) (\<lambda>tree.
     rmap (Cons (name, tree)) (open_stores ops zeroCopy cacheSize es)))"

definition LoadMultiTree ::
  "'c cache_ops \<Rightarrow> bool \<Rightarrow> int \<Rightarrow> string \<Rightarrow> snapshot_dir \<Rightarrow> 'c multiTree result" where
  "LoadMultiTree ops zeroCopy cacheSize chainId dir =
     rbind (readMetadata dir) (\<lambda>md.
     rbind (open_stores ops zeroCopy cacheSize (sd_stores dir)) (\<lambda>opened.
     case md_CommitInfo md of
       None \<Rightarrow> Inl nilPointer
     | Some ci \<Rightarrow>
         (let trees = sort_key fst opened;
              mtree = mt_setInitialVersion (word_of_int (md_InitialVersion md))
                \<lparr>mt_initialVersion = 0, mt_zeroCopy = zeroCopy, mt_cacheSize = cacheSize, mt_chainId = chainId,
                 mt_trees = trees, mt_treesByName = index_map trees, mt_lastCommitInfo = ci, mt_metadata = md\<rparr>;
              actualVersion = (case mt_trees mtree of [] \<Rightarrow> ci_Version ci | e # _ \<Rightarrow> tree_Version (snd e));
              (actual, mtree') = buildCommitInfo actualVersion mtree
          in rbind (commitInfoEqual ci actual) (\<lambda>_. Inr mtree'))))"

section \<open>Lemmas: names and positions\<close>

lemma over_simps [simp]: "fst (over f e) = fst e" "snd (over f e) = f (snd e)" "over f (name, x) = (name, f x)"
  by (simp_all add: over_def)

lemma fst_over [simp]: "fst \<circ> over f = fst"
  by auto

lemma index_map_snoc: "index_map (trees @ [(name, x)]) = (index_map trees)(name \<mapsto> length trees)"
  by (simp add: index_map_def enumerate_append_eq)

lemma index_map_Some:
  assumes "distinct (map fst trees)"
  shows "index_map trees name = Some i \<longleftrightarrow> i < length trees \<and> fst (trees ! i) = name"
  using assms
proof (induction trees arbitrary: i rule: rev_induct)
  case (snoc e trees)
  obtain n x where e: "e = (n, x)" by force
  have n: "\<And>j. j < length trees \<Longrightarrow> fst (trees ! j) \<noteq> n"
  proof
    fix j assume "j < length trees" "fst (trees ! j) = n"
    then have "n \<in> fst ` set trees" using nth_mem [of j trees] by (metis image_eqI)
    then show False using snoc.prems e by simp
  qed
  show ?case
  proof (cases "name = n")
    case True
    then show ?thesis using n by (auto simp: e index_map_snoc nth_append less_Suc_eq)
  next
    case False
    then show ?thesis using snoc.IH snoc.prems e by (auto simp: index_map_snoc nth_append less_Suc_eq)
  qed
qed (simp add: index_map_def)

lemma index_map_fst: "map fst trees = map fst trees' \<Longrightarrow> index_map trees = index_map trees'"
proof (induction trees arbitrary: trees' rule: rev_induct)
  case (snoc e trees)
  then obtain e' trees'' where "trees' = trees'' @ [e']" by (metis append_is_Nil_conv map_is_Nil_conv not_Cons_self2 rev_exhaust)
  moreover from this have "length trees = length trees''" "map fst trees = map fst trees''" "fst e = fst e'"
    using snoc.prems by (auto dest: map_eq_imp_length_eq)
  moreover have "index_map trees = index_map trees''" by (rule snoc.IH) fact
  ultimately show ?case by (cases e; cases e') (simp add: index_map_snoc)
qed (simp add: index_map_def)

lemma index_trees_append:
  "distinct (map fst (pre @ trees)) \<Longrightarrow>
     index_trees (length pre) trees (index_map pre) = (Inr (), index_map (pre @ trees))"
proof (induction trees arbitrary: pre)
  case (Cons e trees)
  obtain name x where e: "e = (name, x)" by force
  have "index_map pre name = None"
  proof (cases "index_map pre name")
    case (Some i)
    then have "i < length pre" "fst (pre ! i) = name" using Cons.prems index_map_Some [of pre name i] by auto
    then have "name \<in> fst ` set pre" by (metis image_eqI nth_mem)
    then show ?thesis using Cons.prems by (auto simp: e)
  qed
  then show ?case
    using Cons.IH [of "pre @ [e]"] Cons.prems unfolding e index_map_snoc by (simp del: fun_upd_apply)
qed simp

lemma index_trees_distinct: "distinct (map fst trees) \<Longrightarrow> index_trees 0 trees Map.empty = (Inr (), index_map trees)"
  using index_trees_append [of "[]" trees] by (simp add: index_map_def)

lemma index_trees_Inr: "fst (index_trees i trees m) = Inr () \<Longrightarrow> distinct (map fst trees) \<and> dom m \<inter> fst ` set trees = {}"
proof (induction trees arbitrary: i m)
  case (Cons e trees)
  obtain name x where e: "e = (name, x)" by force
  have free: "m name = None" "fst (index_trees (Suc i) trees (m(name \<mapsto> i))) = Inr ()"
    using Cons.prems unfolding e by (simp_all del: fun_upd_apply split: if_splits)
  have "distinct (map fst trees)" "insert name (dom m) \<inter> fst ` set trees = {}"
    using Cons.IH [OF free(2)] unfolding dom_fun_upd by simp_all
  then show ?case using free(1) by (auto simp: e)
qed simp

lemma index_func_Some:
  "index_func p xs = Some i \<Longrightarrow> i < length xs \<and> p (xs ! i)"
  by (induction xs arbitrary: i) (auto split: if_splits)

lemma index_func_None: "index_func p xs = None \<longleftrightarrow> (\<forall>x \<in> set xs. \<not> p x)"
  by (induction xs) auto

text \<open>Upgrades look at the names only, so they commute with any change of the trees.\<close>

lemma index_func_map: "index_func p (map f xs) = index_func (p \<circ> f) xs"
  by (induction xs) (simp_all add: comp_def)

lemma upgrade_step_map:
  "upgrade_step (rmap f fresh) u (map (over f) trees) = apsnd (map (over f)) (upgrade_step fresh u trees)"
proof -
  have i: "index_func (\<lambda>e. fst e = n) (map (over f) trees) = index_func (\<lambda>e. fst e = n) trees" for n
    by (simp add: index_func_map comp_def)
  show ?thesis
  proof (cases "up_Delete u")
    case True
    then show ?thesis
      by (cases "index_func (\<lambda>e. fst e = up_Name u) trees")
        (auto simp: upgrade_step_def i map_update Let_def simp flip: take_map dest!: index_func_Some)
  next
    case False
    then show ?thesis
      by (cases "up_RenameFrom u = []"; cases "index_func (\<lambda>e. fst e = up_RenameFrom u) trees"; cases fresh)
        (auto simp: upgrade_step_def i map_update dest!: index_func_Some)
  qed
qed

lemma upgrade_loop_map:
  "upgrade_loop (rmap f fresh) us (map (over f) trees) =
     apsnd (map (over f)) (upgrade_loop fresh us trees)"
proof (induction us arbitrary: trees)
  case (Cons u us)
  obtain r trees' where s: "upgrade_step fresh u trees = (r, trees')" by force
  then have "upgrade_step (rmap f fresh) u (map (over f) trees) = (r, map (over f) trees')"
    using upgrade_step_map [of f fresh u trees] by simp
  then show ?case using s Cons.IH by (cases r) simp_all
qed simp

lemma index_trees_map: "index_trees i (map (over f) trees) m = index_trees i trees m"
  by (induction trees arbitrary: i m) auto

lemma sort_key_map: "(\<And>x. k' (f x) = k x) \<Longrightarrow> sort_key k' (map f xs) = map f (sort_key k xs)"
proof (induction xs)
  case (Cons x xs)
  have "insort_key k' (f x) (map f ys) = map f (insort_key k x ys)" for ys
    using Cons.prems by (induction ys) simp_all
  then show ?case using Cons by simp
qed simp

lemma upgrade_trees_map:
  "upgrade_trees (rmap f fresh) us (map (over f) trees) =
     (let (r, m, trees') = upgrade_trees fresh us trees in (r, m, map (over f) trees'))"
proof -
  obtain r trees' where l: "upgrade_loop fresh us trees = (r, trees')" by force
  have "sort_key fst (map (over f) trees') = map (over f) (sort_key fst trees')"
    using sort_key_map [of fst "over f" fst trees'] by simp
  then show ?thesis
    using l upgrade_loop_map [of f fresh us trees]
    by (cases r) (simp_all add: upgrade_trees_def index_trees_map Let_def split_beta)
qed

end
