(* ===== verification/MultiTreeSpec.thy ===== *)
theory MultiTreeSpec
  imports MultiTree
begin

text \<open>
  The correctness of the multi-tree: the operations implement a specification on the visible state, which has the
  invariant; snapshots and the log bring the state back; one upgrade has the effect its fields say.
\<close>

section \<open>Specification: what the operations do to the visible state\<close>

text \<open>
  The visible state of a multi-tree: the versions, the names in order and the state of every tree, without
  caches, cached hashes and the places where nodes live.
\<close>

type_synonym treeState = "u32 \<times> node option"

record mstate =
  ms_initial :: u32
  ms_version :: int
  ms_index :: "string \<rightharpoonup> nat"
  ms_trees :: "(string \<times> treeState) list"

definition mt_state :: "'c multiTree \<Rightarrow> mstate" where
  "mt_state t = \<lparr>ms_initial = mt_initialVersion t, ms_version = mt_Version t, ms_index = mt_treesByName t,
     ms_trees = map (over tree_state) (mt_trees t)\<rparr>"

definition spec_fresh :: "u32 \<Rightarrow> treeState result" where
  "spec_fresh v = (if v \<le> 1 then Inr (0, None)
     else if unat (v - 1) \<ge> MaxUint32 then Inl (Panic ''version overflows uint32'') else Inr (v - 1, None))"

definition spec_upgrades :: "treeNameUpgrade list \<Rightarrow> mstate \<Rightarrow> unit result \<times> mstate" where
  "spec_upgrades us s =
     (if us = [] then (Inr (), s)
      else (let (r, m, trees) = upgrade_trees (spec_fresh (word_of_int (nextVersion (ms_version s) (ms_initial s)))) us (ms_trees s)
            in (r, s\<lparr>ms_trees := trees, ms_index := m\<rparr>)))"

definition spec_change :: "string \<Rightarrow> changeset \<Rightarrow> mstate \<Rightarrow> unit result \<times> mstate" where
  "spec_change name cs s =
     (case ms_index s name of
        None \<Rightarrow> (Inl (UnknownTree name), s)
      | Some i \<Rightarrow>
          if i < length (ms_trees s) then
            (Inr (), s\<lparr>ms_trees := (ms_trees s)[i := over (\<lambda>st. state_changes st cs) (ms_trees s ! i)]\<rparr>)
          else (Inl (Panic ''index out of range''), s))"

fun spec_changes :: "namedChangeSet list \<Rightarrow> mstate \<Rightarrow> unit result \<times> mstate" where
  "spec_changes [] s = (Inr (), s)"
| "spec_changes (cs # css) s =
     (case spec_change (ncs_Name cs) (ncs_Changeset cs) s of
        (Inl e, s') \<Rightarrow> (Inl e, s')
      | (Inr _, s') \<Rightarrow> spec_changes css s')"

definition spec_entry :: "walEntry \<Rightarrow> mstate \<Rightarrow> unit result \<times> mstate" where
  "spec_entry entry s =
     (case spec_upgrades (we_Upgrades entry) s of
        (Inl e, s') \<Rightarrow> (Inl e, s')
      | (Inr _, s') \<Rightarrow> spec_changes (we_Changesets entry) s')"

definition spec_save :: "mstate \<Rightarrow> int result \<times> mstate" where
  "spec_save s =
     (if \<exists>e \<in> set (ms_trees s). fst (snd e) = word_of_nat MaxUint32 then (Inl VersionOverflow, s)
      else (let v = nextVersion (ms_version s) (ms_initial s)
            in (Inr v, s\<lparr>ms_version := v, ms_trees := map (over (\<lambda>st. (fst st + 1, snd st))) (ms_trees s)\<rparr>)))"

definition spec_info :: "int \<Rightarrow> mstate \<Rightarrow> commitInfo" where
  "spec_info version s =
     \<lparr>ci_Version = version, ci_StoreInfos = map (\<lambda>e. \<lparr>si_Name = fst e,
        si_CommitId = \<lparr>cid_Version = int (unat (fst (snd e))), cid_Hash = root_merkle (snd (snd e))\<rparr>\<rparr>) (ms_trees s)\<rparr>"

section \<open>Lemmas: the operations implement the specification\<close>

lemma mt_state_simps [simp]:
  "ms_initial (mt_state t) = mt_initialVersion t" "ms_version (mt_state t) = mt_Version t"
  "ms_index (mt_state t) = mt_treesByName t" "ms_trees (mt_state t) = map (over tree_state) (mt_trees t)"
  "mt_Version (t\<lparr>mt_trees := x\<rparr>) = mt_Version t" "mt_Version (t\<lparr>mt_treesByName := m\<rparr>) = mt_Version t"
  by (simp_all add: mt_state_def mt_Version_def)

lemma spec_fresh_New: "rmap tree_state (NewWithInitialVersion ops v n) = spec_fresh v"
  by (auto simp: NewWithInitialVersion_def New_def NewEmptyTree_def spec_fresh_def tree_state_def)

lemma ApplyUpgrades_spec:
  "fst (ApplyUpgrades ops us t) = fst (spec_upgrades us (mt_state t))"
  "mt_state (snd (ApplyUpgrades ops us t)) = snd (spec_upgrades us (mt_state t))"
proof -
  let ?v = "word_of_int (nextVersion (mt_Version t) (mt_initialVersion t)) :: u32"
  obtain r m trees where
    u: "upgrade_trees (NewWithInitialVersion ops ?v (mt_cacheSize t)) us (mt_trees t) = (r, m, trees)"
    by (metis surj_pair)
  then have "upgrade_trees (spec_fresh ?v) us (map (over tree_state) (mt_trees t)) = (r, m, map (over tree_state) trees)"
    using upgrade_trees_map [of tree_state "NewWithInitialVersion ops ?v (mt_cacheSize t)" us "mt_trees t"]
    by (simp add: spec_fresh_New)
  then show "fst (ApplyUpgrades ops us t) = fst (spec_upgrades us (mt_state t))"
    "mt_state (snd (ApplyUpgrades ops us t)) = snd (spec_upgrades us (mt_state t))"
    using u by (simp_all add: ApplyUpgrades_def spec_upgrades_def mt_state_def mt_Version_def)
qed

lemma mt_ApplyChangeSet_spec:
  "fst (mt_ApplyChangeSet ops name cs t) = fst (spec_change name cs (mt_state t))"
  "mt_state (snd (mt_ApplyChangeSet ops name cs t)) = snd (spec_change name cs (mt_state t))"
proof -
  show "fst (mt_ApplyChangeSet ops name cs t) = fst (spec_change name cs (mt_state t))"
    by (simp add: mt_ApplyChangeSet_def spec_change_def split: option.split)
  have "over tree_state (over (\<lambda>tree. ApplyChangeSet ops tree cs) e) =
      over (\<lambda>st. state_changes st cs) (over tree_state e)" for e
    by (simp add: over_def tree_state_ApplyChangeSet)
  then show "mt_state (snd (mt_ApplyChangeSet ops name cs t)) = snd (spec_change name cs (mt_state t))"
    by (simp add: mt_ApplyChangeSet_def spec_change_def map_update mt_state_def mt_Version_def split: option.split)
qed

lemma mt_ApplyChangeSets_spec:
  "fst (mt_ApplyChangeSets ops css t) = fst (spec_changes css (mt_state t)) \<and>
   mt_state (snd (mt_ApplyChangeSets ops css t)) = snd (spec_changes css (mt_state t))"
proof (induction css arbitrary: t)
  case (Cons cs css)
  obtain r t' where a: "mt_ApplyChangeSet ops (ncs_Name cs) (ncs_Changeset cs) t = (r, t')" by force
  then have "spec_change (ncs_Name cs) (ncs_Changeset cs) (mt_state t) = (r, mt_state t')"
    using mt_ApplyChangeSet_spec [of ops "ncs_Name cs" "ncs_Changeset cs" t] by (simp add: prod_eq_iff)
  then show ?case using a Cons.IH by (cases r) simp_all
qed simp

lemma applyWALEntry_spec:
  "fst (applyWALEntry ops e t) = fst (spec_entry e (mt_state t)) \<and>
   mt_state (snd (applyWALEntry ops e t)) = snd (spec_entry e (mt_state t))"
proof -
  obtain r t' where a: "ApplyUpgrades ops (we_Upgrades e) t = (r, t')" by force
  then have "spec_upgrades (we_Upgrades e) (mt_state t) = (r, mt_state t')"
    using ApplyUpgrades_spec [of ops "we_Upgrades e" t] by (simp add: prod_eq_iff)
  then show ?thesis
    using a mt_ApplyChangeSets_spec by (cases r) (simp_all add: applyWALEntry_def spec_entry_def)
qed

lemma check_trees_iff:
  "check_trees es = (if \<exists>e \<in> set es. t_version (snd e) = word_of_nat MaxUint32 then Inl VersionOverflow else Inr ())"
  by (induction es) (auto simp: checkVersionOverflow_def)

lemma save_trees_spec:
  assumes "\<forall>e \<in> set es. t_version (snd e) \<noteq> word_of_nat MaxUint32"
  shows "fst (save_trees u es) = Inr () \<and>
    map (over tree_state) (snd (save_trees u es)) = map (over (\<lambda>st. (fst st + 1, snd st))) (map (over tree_state) es)"
  using assms
proof (induction u es rule: save_trees.induct)
  case (2 u name tree es)
  then have "t_version tree \<noteq> word_of_nat MaxUint32" by simp
  then obtain hs v tree' where s: "tree_SaveVersion u tree = Inr (hs, v, tree')"
    by (auto simp: tree_SaveVersion_def checkVersionOverflow_def Let_def split_beta)
  note st = tree_state_SaveVersion [OF s]
  have "tree_state tree' = (fst (tree_state tree) + 1, snd (tree_state tree))"
    using st by (simp add: tree_state_def)
  then show ?case using "2.IH" [OF s] "2.prems" s by (simp add: split_beta)
qed simp

lemma store_info_state: "over tree_state (snd (store_info e)) = over tree_state e"
  by (simp add: store_info_def split_beta over_def tree_state_RootHash)

lemma buildCommitInfo_state: "mt_state (snd (buildCommitInfo v t)) = mt_state t"
  by (simp add: buildCommitInfo_def mt_state_def mt_Version_def store_info_state comp_def)

lemma UpdateCommitInfo_state: "mt_state (UpdateCommitInfo t) = mt_state t"
  using buildCommitInfo_state [of "mt_Version t" t]
  by (simp add: UpdateCommitInfo_def mt_state_def mt_Version_def split_beta) (simp add: buildCommitInfo_def)

lemma mt_SaveVersion_spec:
  "fst (mt_SaveVersion u t) = fst (spec_save (mt_state t))"
  "mt_state (snd (mt_SaveVersion u t)) = snd (spec_save (mt_state t))"
proof -
  have ver: "fst (tree_state x) = t_version x" for x :: "'a tree" by (simp add: tree_state_def)
  have "fst (mt_SaveVersion u t) = fst (spec_save (mt_state t)) \<and>
    mt_state (snd (mt_SaveVersion u t)) = snd (spec_save (mt_state t))"
  proof (cases "\<exists>e \<in> set (mt_trees t). t_version (snd e) = word_of_nat MaxUint32")
    case True
    then show ?thesis by (simp add: mt_SaveVersion_def check_trees_iff spec_save_def ver)
  next
    case False
    define v where "v = nextVersion (mt_Version t) (mt_initialVersion t)"
    obtain trees where sv: "save_trees u (mt_trees t) = (Inr (), trees)"
      and tr: "map (over tree_state) trees = map (over (\<lambda>st. (fst st + 1, snd st))) (map (over tree_state) (mt_trees t))"
    proof (cases "save_trees u (mt_trees t)")
      case (Pair r trees)
      show thesis by (rule that [of trees]) (use save_trees_spec [of "mt_trees t" u] False Pair in auto)
    qed
    define t2 where "t2 = t\<lparr>mt_lastCommitInfo := (mt_lastCommitInfo t)\<lparr>ci_Version := v\<rparr>, mt_trees := trees\<rparr>"
    define t3 where "t3 = (if u then UpdateCommitInfo t2
      else t2\<lparr>mt_lastCommitInfo := (mt_lastCommitInfo t2)\<lparr>ci_StoreInfos := []\<rparr>\<rparr>)"
    have s3: "mt_SaveVersion u t = (Inr (mt_Version t3), t3)"
      using False by (simp add: mt_SaveVersion_def check_trees_iff t3_def t2_def v_def sv Let_def)
    have st2: "mt_state t2 = (mt_state t)\<lparr>ms_version := v,
        ms_trees := map (over (\<lambda>st. (fst st + 1, snd st))) (map (over tree_state) (mt_trees t))\<rparr>"
      unfolding tr [symmetric] by (simp add: t2_def mt_state_def mt_Version_def)
    have st3: "mt_state t3 = mt_state t2"
      using UpdateCommitInfo_state [of t2] by (simp add: t3_def) (simp add: mt_state_def mt_Version_def)
    have "mt_Version t3 = ms_version (mt_state t3)" by simp
    also have "\<dots> = v" unfolding st3 st2 by simp
    finally have "mt_Version t3 = v" .
    then show ?thesis
      using False st2 st3 unfolding s3 by (simp add: spec_save_def ver v_def Let_def)
  qed
  then show "fst (mt_SaveVersion u t) = fst (spec_save (mt_state t))"
    "mt_state (snd (mt_SaveVersion u t)) = snd (spec_save (mt_state t))" by blast+
qed

text \<open>Well-formed trees with room for \<open>k\<close> more keys, and the hashes of such trees.\<close>

definition roomy :: "nat \<Rightarrow> 'c multiTree \<Rightarrow> bool" where
  "roomy k t \<longleftrightarrow> (\<forall>e \<in> set (mt_trees t). pred_option wf_node (t_root (snd e)) \<and> length (tree_view (snd e)) + k < 2 ^ 63)"

lemma buildCommitInfo_spec: "roomy k t \<Longrightarrow> fst (buildCommitInfo v t) = spec_info v (mt_state t)"
  using tree_state_hash
  by (auto simp: buildCommitInfo_def spec_info_def store_info_def split_beta roomy_def tree_Version_def tree_state_def)

section \<open>Lemmas: the invariant\<close>

text \<open>
  The trees are ordered by name without duplicates, the index is that of the list, and every tree is at the
  version before the next one.
\<close>

definition ms_inv :: "mstate \<Rightarrow> bool" where
  "ms_inv s \<longleftrightarrow> sorted (map fst (ms_trees s)) \<and> distinct (map fst (ms_trees s)) \<and>
     ms_index s = index_map (ms_trees s) \<and> 0 \<le> ms_version s \<and>
     (\<forall>e \<in> set (ms_trees s). int (unat (fst (snd e))) = nextVersion (ms_version s) (ms_initial s) - 1)"

definition mt_inv :: "'c multiTree \<Rightarrow> bool" where
  "mt_inv t \<longleftrightarrow> ms_inv (mt_state t)"

lemma upgrade_step_all:
  assumes "upgrade_step fresh u trees = (r, trees')" and "\<forall>x. fresh = Inr x \<longrightarrow> P x" and "\<forall>e \<in> set trees. P (snd e)"
  shows "\<forall>e \<in> set trees'. P (snd e)"
proof -
  have at: "P (snd (trees ! i))" if "i < length trees" for i
    using assms(3) that nth_mem by blast
  show ?thesis
  proof (cases "up_Delete u")
    case True
    show ?thesis
    proof (cases "index_func (\<lambda>e. fst e = up_Name u) trees")
      case (Some i)
      then have "i < length trees" using index_func_Some by blast
      then have "\<forall>e \<in> set (trees[i := trees ! (length trees - Suc 0)]). P (snd e)"
        using assms(3) at by (auto dest!: set_update_subset_insert [THEN subsetD])
      then show ?thesis using assms(1) True Some by (auto simp: upgrade_step_def Let_def dest: in_set_takeD)
    qed (use assms True in \<open>auto simp: upgrade_step_def\<close>)
  next
    case False
    show ?thesis
    proof (cases "up_RenameFrom u = []")
      case True
      then show ?thesis using assms False by (cases fresh) (auto simp: upgrade_step_def)
    next
      case rename: False
      show ?thesis
      proof (cases "index_func (\<lambda>e. fst e = up_RenameFrom u) trees")
        case (Some i)
        then have "i < length trees" using index_func_Some by blast
        then show ?thesis
          using assms(1,3) at False rename Some
          by (auto simp: upgrade_step_def dest!: set_update_subset_insert [THEN subsetD])
      qed (use assms False rename in \<open>auto simp: upgrade_step_def\<close>)
    qed
  qed
qed

lemma upgrade_loop_all:
  "upgrade_loop fresh us trees = (r, trees') \<Longrightarrow> (\<forall>x. fresh = Inr x \<longrightarrow> P x) \<Longrightarrow> \<forall>e \<in> set trees. P (snd e) \<Longrightarrow>
     \<forall>e \<in> set trees'. P (snd e)"
proof (induction us arbitrary: trees)
  case (Cons u us)
  obtain r1 trees1 where s: "upgrade_step fresh u trees = (r1, trees1)" by force
  have one: "\<forall>e \<in> set trees1. P (snd e)" by (rule upgrade_step_all [OF s Cons.prems(2,3)])
  show ?case
  proof (cases r1)
    case (Inl e)
    then show ?thesis using Cons.prems(1) s one by simp
  next
    case (Inr x)
    then show ?thesis using Cons.IH [OF _ Cons.prems(2) one] Cons.prems(1) s by simp
  qed
qed simp

lemma upgrade_trees_Inr:
  assumes "upgrade_trees fresh us trees = (Inr (), m, trees')"
  shows "sorted (map fst trees') \<and> distinct (map fst trees') \<and> m = index_map trees' \<and>
    (\<exists>l. upgrade_loop fresh us trees = (Inr (), l) \<and> trees' = sort_key fst l)"
proof -
  obtain r l where l: "upgrade_loop fresh us trees = (r, l)" by force
  show ?thesis
  proof (cases r)
    case (Inr x)
    then have t: "trees' = sort_key fst l" and i: "index_trees 0 trees' Map.empty = (Inr (), m)"
      using assms l by (auto simp: upgrade_trees_def Let_def split_beta prod_eq_iff)
    then have d: "distinct (map fst trees')" using index_trees_Inr [of 0 trees' Map.empty] by simp
    then have "m = index_map trees'" using trans [OF i [symmetric] index_trees_distinct [OF d]] by simp
    then show ?thesis using d t l Inr by simp
  qed (use assms l in \<open>simp add: upgrade_trees_def\<close>)
qed

lemma spec_fresh_version:
  assumes "1 \<le> v" and "v \<le> int MaxUint32" and "spec_fresh (word_of_int v) = Inr st"
  shows "int (unat (fst st)) = v - 1"
proof -
  obtain n where n: "v = int n" "n < 2 ^ 32" using assms(1,2) zero_le_imp_eq_int [of v] by auto
  then have u: "unat (word_of_int v :: u32) = nat v" by (simp add: unat_of_nat)
  show ?thesis
  proof (cases "v = 1")
    case True
    then show ?thesis using assms(3) by (auto simp: spec_fresh_def)
  next
    case False
    then have gt: "\<not> (word_of_int v :: u32) \<le> 1" using u assms(1) by (simp add: word_le_nat_alt)
    then have "unat (word_of_int v - 1 :: u32) = nat v - 1"
      using u by (simp add: unat_sub word_le_nat_alt)
    then show ?thesis using assms gt by (auto simp: spec_fresh_def simp del: of_nat_unat split: if_splits)
  qed
qed

lemma nextVersion_pos: "0 \<le> v \<Longrightarrow> 1 \<le> nextVersion v iv"
proof (cases "v = 0 \<and> iv > 1")
  case True
  then have "unat (1 :: u32) < unat iv" unfolding word_less_nat_alt by blast
  then have "1 \<le> int (unat iv)" by linarith
  then show ?thesis using True by (simp add: nextVersion_def del: of_nat_unat)
qed (auto simp: nextVersion_def)

lemma nextVersion_next: "0 \<le> v \<Longrightarrow> nextVersion (nextVersion v iv) iv = nextVersion v iv + 1"
  using nextVersion_pos [of v iv] by (simp add: nextVersion_def [of "nextVersion v iv"])

lemma spec_upgrades_inv:
  assumes "ms_inv s" and "nextVersion (ms_version s) (ms_initial s) \<le> int MaxUint32"
    and "spec_upgrades us s = (Inr (), s')"
  shows "ms_inv s'"
proof (cases "us = []")
  case False
  let ?v = "nextVersion (ms_version s) (ms_initial s)"
  let ?P = "\<lambda>st :: treeState. int (unat (fst st)) = ?v - 1"
  obtain m trees where u: "upgrade_trees (spec_fresh (word_of_int ?v)) us (ms_trees s) = (Inr (), m, trees)"
    and s': "s' = s\<lparr>ms_trees := trees, ms_index := m\<rparr>"
    using assms(3) False by (auto simp: spec_upgrades_def split_beta prod_eq_iff)
  from upgrade_trees_Inr [OF u] obtain l where
    t: "sorted (map fst trees)" "distinct (map fst trees)" "m = index_map trees"
    and l: "upgrade_loop (spec_fresh (word_of_int ?v)) us (ms_trees s) = (Inr (), l)" "trees = sort_key fst l" by blast
  have "\<forall>e \<in> set l. ?P (snd e)"
    using assms(1,2) nextVersion_pos [of "ms_version s" "ms_initial s"] spec_fresh_version [of ?v]
    by (intro upgrade_loop_all [OF l(1)]) (auto simp: ms_inv_def)
  then show ?thesis using assms(1) t l(2) by (simp add: ms_inv_def s')
qed (use assms in \<open>simp add: spec_upgrades_def\<close>)

lemma index_map_update: "i < length trees \<Longrightarrow> index_map (trees[i := over f (trees ! i)]) = index_map trees"
  by (rule index_map_fst) (simp add: map_update list_update_same_conv)

lemma state_changes_version [simp]: "fst (state_changes st cs) = fst st"
  unfolding state_changes_def by (induction cs arbitrary: st) (auto simp: state_pair_def)

lemma spec_change_inv:
  assumes "ms_inv s"
  shows "ms_inv (snd (spec_change name cs s))"
proof (cases "ms_index s name")
  case (Some i)
  show ?thesis
  proof (cases "i < length (ms_trees s)")
    case True
    let ?e = "over (\<lambda>st. state_changes st cs) (ms_trees s ! i)"
    have "map fst ((ms_trees s)[i := ?e]) = map fst (ms_trees s)"
      using True by (simp add: map_update list_update_same_conv)
    moreover have "\<forall>e \<in> set ((ms_trees s)[i := ?e]). int (unat (fst (snd e))) = nextVersion (ms_version s) (ms_initial s) - 1"
      using assms True unfolding ms_inv_def
      by (auto dest!: set_update_subset_insert [THEN subsetD] nth_mem)
    ultimately show ?thesis
      using assms True Some index_map_update [OF True] by (simp add: spec_change_def ms_inv_def)
  qed (use assms Some in \<open>simp add: spec_change_def\<close>)
qed (use assms in \<open>simp add: spec_change_def\<close>)

lemma spec_changes_inv: "ms_inv s \<Longrightarrow> ms_inv (snd (spec_changes css s))"
proof (induction css arbitrary: s)
  case (Cons cs css)
  obtain r s' where c: "spec_change (ncs_Name cs) (ncs_Changeset cs) s = (r, s')" by force
  then have "ms_inv s'" using spec_change_inv [OF Cons.prems] by (metis snd_conv)
  then show ?case using c Cons.IH by (cases r) simp_all
qed simp

lemma spec_save_inv:
  assumes "ms_inv s"
  shows "ms_inv (snd (spec_save s))"
proof (cases "\<exists>e \<in> set (ms_trees s). fst (snd e) = word_of_nat MaxUint32")
  case False
  let ?v = "nextVersion (ms_version s) (ms_initial s)"
  let ?trees = "map (over (\<lambda>st. (fst st + 1, snd st))) (ms_trees s)"
  have v: "0 \<le> ms_version s" using assms by (simp add: ms_inv_def)
  have "int (unat (fst (snd e) + 1)) = ?v" if "e \<in> set (ms_trees s)" for e
  proof -
    have "fst (snd e) + 1 \<noteq> 0" using False that by (auto simp: eq_neg_iff_add_eq_0 [symmetric])
    then have "unat (fst (snd e) + 1) = unat (fst (snd e)) + 1" by (simp add: unatSuc add.commute)
    then show ?thesis using assms that by (auto simp: ms_inv_def simp del: of_nat_unat)
  qed
  then have "\<forall>e \<in> set ?trees. int (unat (fst (snd e))) = nextVersion ?v (ms_initial s) - 1"
    using nextVersion_next [OF v] by (auto simp del: of_nat_unat)
  moreover have "map fst ?trees = map fst (ms_trees s)" by simp
  moreover have "index_map ?trees = index_map (ms_trees s)" by (rule index_map_fst) simp
  ultimately show ?thesis
    using assms False nextVersion_pos [OF v, of "ms_initial s"]
    by (simp add: spec_save_def ms_inv_def Let_def)
qed (use assms in \<open>simp add: spec_save_def\<close>)

section \<open>Lemmas: committing and replaying\<close>

lemma norm_pair_changes: "state_changes st (map norm_pair cs) = state_changes st cs"
  unfolding state_changes_def
  by (induction cs arbitrary: st) (auto simp: norm_pair_def state_pair_def nonnil_def split: option.splits)

lemma norm_ncs_changes: "spec_changes (map norm_ncs css) s = spec_changes css s"
proof (induction css arbitrary: s)
  case (Cons cs css)
  have "spec_change name (map norm_pair x) s = spec_change name x s" for name x
    by (simp add: spec_change_def norm_pair_changes split: option.split)
  then show ?case using Cons.IH by (simp add: norm_ncs_def split: prod.split sum.split)
qed simp

lemma spec_entry_norm: "spec_entry (norm_entry e) s = spec_entry e s"
  by (simp add: spec_entry_def norm_entry_def norm_ncs_changes split: prod.split sum.split)

text \<open>
  A block of a running node: the entry is applied and a version is saved with its commit info. \<open>spec_run\<close> is
  the effect of a sequence of blocks on the visible state.
\<close>

fun commits :: "'c cache_ops \<Rightarrow> walEntry list \<Rightarrow> 'c multiTree \<Rightarrow> unit result \<times> 'c multiTree" where
  "commits ops [] t = (Inr (), t)"
| "commits ops (e # es) t =
     (case applyWALEntry ops e t of
        (Inl x, t') \<Rightarrow> (Inl x, t')
      | (Inr _, t') \<Rightarrow>
          (case mt_SaveVersion True t' of
             (Inl x, t'') \<Rightarrow> (Inl x, t'')
           | (Inr _, t'') \<Rightarrow> commits ops es t''))"

fun spec_run :: "walEntry list \<Rightarrow> mstate \<Rightarrow> unit result \<times> mstate" where
  "spec_run [] s = (Inr (), s)"
| "spec_run (e # es) s =
     (case spec_entry e s of
        (Inl x, s') \<Rightarrow> (Inl x, s')
      | (Inr _, s') \<Rightarrow>
          (case spec_save s' of
             (Inl x, s'') \<Rightarrow> (Inl x, s'')
           | (Inr _, s'') \<Rightarrow> spec_run es s''))"

lemma applyWALEntry_pair:
  "applyWALEntry ops e t = (r, t') \<Longrightarrow> spec_entry e (mt_state t) = (r, mt_state t')"
  using applyWALEntry_spec [of ops e t] by (simp add: prod_eq_iff)

lemma mt_SaveVersion_pair: "mt_SaveVersion u t = (r, t') \<Longrightarrow> spec_save (mt_state t) = (r, mt_state t')"
  using mt_SaveVersion_spec [of u t] by (simp add: prod_eq_iff)

lemma commits_spec: "fst (commits ops es t) = fst (spec_run es (mt_state t)) \<and>
    mt_state (snd (commits ops es t)) = snd (spec_run es (mt_state t))"
proof (induction es arbitrary: t)
  case (Cons e es)
  obtain r t' where a: "applyWALEntry ops e t = (r, t')" by force
  obtain q t'' where b: "mt_SaveVersion True t' = (q, t'')" by force
  show ?case
    using a b applyWALEntry_pair [OF a] mt_SaveVersion_pair [OF b] Cons.IH by (cases r; cases q) simp_all
qed simp

text \<open>Room for keys is used up by the pairs of the change sets only.\<close>

definition entry_size :: "walEntry \<Rightarrow> nat" where
  "entry_size e = sum_list (map (\<lambda>cs. length (ncs_Changeset cs)) (we_Changesets e))"

definition good_tree :: "nat \<Rightarrow> 'c tree \<Rightarrow> bool" where
  "good_tree k t \<longleftrightarrow> pred_option wf_node (t_root t) \<and> length (tree_view t) + k < 2 ^ 63"

lemma roomy_iff: "roomy k t \<longleftrightarrow> (\<forall>e \<in> set (mt_trees t). good_tree k (snd e))"
  by (simp add: roomy_def good_tree_def)

lemma good_tree_mono: "good_tree k t \<Longrightarrow> j \<le> k \<Longrightarrow> good_tree j t"
  by (auto simp: good_tree_def)

lemma roomy_mono: "roomy k t \<Longrightarrow> j \<le> k \<Longrightarrow> roomy j t"
  unfolding roomy_iff using good_tree_mono by blast

lemma good_tree_pair: "good_tree (Suc k) t \<Longrightarrow> good_tree k (apply_pair ops t p)"
proof -
  assume g: "good_tree (Suc k) t"
  then have w: "pred_option wf_node (t_root t)" "length (tree_view t) < 2 ^ 63" by (auto simp: good_tree_def)
  have "length (put_pair (kv_key p) v (tree_view t)) \<le> Suc (length (tree_view t))" for v
    using length_put_pair [OF tree_view_sorted [OF w(1)]] by auto
  moreover have "length (del_pair (kv_key p) (tree_view t)) \<le> length (tree_view t)" by (simp add: del_pair_def)
  ultimately have "length (tree_view (apply_pair ops t p)) \<le> Suc (length (tree_view t))"
    using set_root(2) [OF w] remove_root(2) [OF w] by (simp add: apply_pair_def le_SucI)
  moreover have "pred_option wf_node (t_root (apply_pair ops t p))"
    using set_root(1) [OF w] remove_root(1) [OF w] by (simp add: apply_pair_def)
  ultimately show ?thesis using g by (simp add: good_tree_def)
qed

lemma good_tree_changes: "good_tree (length cs + k) t \<Longrightarrow> good_tree k (ApplyChangeSet ops t cs)"
  unfolding ApplyChangeSet_def
proof (induction cs arbitrary: t)
  case (Cons p cs)
  then show ?case using good_tree_pair [of "length cs + k" t ops p] by simp
qed simp

lemma good_tree_hash: "good_tree k t \<Longrightarrow> good_tree k (snd (tree_RootHash t))"
proof -
  assume g: "good_tree k t"
  then have spec: "pred_option wf_node (t_root (snd (tree_RootHash t)))"
    "map_option strip (t_root (snd (tree_RootHash t))) = map_option strip (t_root t)"
    using tree_RootHash_spec [of t] by (auto simp: good_tree_def)
  have "tree_view (snd (tree_RootHash t)) = tree_view t"
    using spec(2) by (cases "t_root t"; cases "t_root (snd (tree_RootHash t))")
      (auto simp: tree_view_def dest: leaves_strip_eq)
  then show ?thesis using g spec(1) by (simp add: good_tree_def)
qed

lemma good_tree_save:
  assumes "good_tree k t" and "tree_SaveVersion u t = Inr (hs, v, t')"
  shows "good_tree k t'"
proof -
  have "t' = (if u then snd (tree_RootHash t) else t)\<lparr>t_version := t_version t + 1\<rparr>"
    using assms(2)
    by (auto simp: tree_SaveVersion_def checkVersionOverflow_def tree_RootHash_def Let_def split_beta
        split: if_splits option.splits)
  moreover have "good_tree k (x\<lparr>t_version := y\<rparr>) = good_tree k x" for x :: "'a tree" and y
    by (simp add: good_tree_def tree_view_def)
  ultimately show ?thesis using assms(1) good_tree_hash [of k t] by simp
qed

lemma roomy_upgrades:
  assumes "roomy k t" and "k < 2 ^ 63"
  shows "roomy k (snd (ApplyUpgrades ops us t))"
proof (cases "us = []")
  case False
  let ?f = "NewWithInitialVersion ops (word_of_int (nextVersion (mt_Version t) (mt_initialVersion t))) (mt_cacheSize t)"
  obtain r l where l: "upgrade_loop ?f us (mt_trees t) = (r, l)" by force
  have fresh: "\<forall>x. ?f = Inr x \<longrightarrow> good_tree k x"
    using assms(2) by (auto simp: NewWithInitialVersion_def New_def NewEmptyTree_def good_tree_def tree_view_def split: if_splits)
  have "\<forall>e \<in> set l. good_tree k (snd e)"
    using upgrade_loop_all [OF l fresh] assms(1) by (simp add: roomy_iff)
  then show ?thesis
    using l False by (cases r) (simp_all add: ApplyUpgrades_def upgrade_trees_def roomy_iff split_beta Let_def)
qed (use assms in \<open>simp add: ApplyUpgrades_def\<close>)

lemma roomy_change:
  assumes "roomy (length cs + k) t"
  shows "roomy k (snd (mt_ApplyChangeSet ops name cs t))"
proof -
  have old: "good_tree k (snd e)" and new: "good_tree k (ApplyChangeSet ops (snd e) cs)" if "e \<in> set (mt_trees t)" for e
    using assms that good_tree_mono [of "length cs + k" "snd e" k] good_tree_changes [of cs k "snd e" ops]
    by (simp_all add: roomy_iff)
  have "good_tree k (snd e)" if "i < length (mt_trees t)"
    "e \<in> set ((mt_trees t)[i := over (\<lambda>tree. ApplyChangeSet ops tree cs) (mt_trees t ! i)])" for i e
  proof -
    have "e = over (\<lambda>tree. ApplyChangeSet ops tree cs) (mt_trees t ! i) \<or> e \<in> set (mt_trees t)"
      using set_update_subset_insert that(2) by fastforce
    then show ?thesis using old [of e] new [OF nth_mem [OF that(1)]] by auto
  qed
  then show ?thesis using old by (simp add: mt_ApplyChangeSet_def roomy_iff split: option.split)
qed

lemma roomy_changes:
  "roomy (sum_list (map (\<lambda>cs. length (ncs_Changeset cs)) css) + k) t \<Longrightarrow> roomy k (snd (mt_ApplyChangeSets ops css t))"
proof (induction css arbitrary: t)
  case (Cons cs css)
  let ?n = "sum_list (map (\<lambda>cs. length (ncs_Changeset cs)) css) + k"
  obtain r t' where a: "mt_ApplyChangeSet ops (ncs_Name cs) (ncs_Changeset cs) t = (r, t')" by force
  have "roomy ?n t'" using roomy_change [of "ncs_Changeset cs" ?n t] Cons.prems a by (simp add: add.assoc) (metis snd_conv)
  moreover from this have "roomy k t'" by (rule roomy_mono) simp
  ultimately show ?case using Cons.IH a by (cases r) simp_all
qed simp

lemma roomy_entry:
  assumes "roomy (entry_size e + k) t" and "entry_size e + k < 2 ^ 63"
  shows "roomy k (snd (applyWALEntry ops e t))"
proof -
  obtain r t' where a: "ApplyUpgrades ops (we_Upgrades e) t = (r, t')" by force
  have "roomy (entry_size e + k) t'" using roomy_upgrades [OF assms, of ops "we_Upgrades e"] a by simp
  moreover from this have "roomy k t'" by (rule roomy_mono) simp
  ultimately show ?thesis
    using a roomy_changes [of "we_Changesets e" k t' ops] by (cases r) (simp_all add: applyWALEntry_def entry_size_def)
qed

lemma roomy_buildCommitInfo: "roomy k t \<Longrightarrow> roomy k (snd (buildCommitInfo v t))"
  using good_tree_hash by (auto simp: roomy_iff buildCommitInfo_def store_info_def split_beta)

lemma roomy_UpdateCommitInfo: "roomy k t \<Longrightarrow> roomy k (UpdateCommitInfo t)"
  using roomy_buildCommitInfo [of k t "mt_Version t"] by (simp add: UpdateCommitInfo_def split_beta roomy_iff)

lemma good_save_trees: "\<forall>e \<in> set es. good_tree k (snd e) \<Longrightarrow> \<forall>e \<in> set (snd (save_trees u es)). good_tree k (snd e)"
proof (induction u es rule: save_trees.induct)
  case (2 u name tree es)
  show ?case
  proof (cases "tree_SaveVersion u tree")
    case (Inr x)
    obtain hs v tree' where x: "x = (hs, v, tree')" by (cases x)
    then have "good_tree k tree'" using good_tree_save [of k tree u hs v tree'] Inr "2.prems" by simp
    then show ?thesis using 2 Inr x by (simp add: split_beta)
  qed (use 2 in simp)
qed simp

lemma roomy_save: "roomy k t \<Longrightarrow> roomy k (snd (mt_SaveVersion u t))"
proof -
  assume r: "roomy k t"
  obtain q trees where s: "save_trees u (mt_trees t) = (q, trees)" by force
  define t2 where "t2 = t\<lparr>mt_lastCommitInfo := (mt_lastCommitInfo t)\<lparr>ci_Version := nextVersion (mt_Version t)
    (mt_initialVersion t)\<rparr>, mt_trees := trees\<rparr>"
  have r2: "roomy k t2" using good_save_trees [of "mt_trees t" k u] r s by (simp add: roomy_iff t2_def)
  have "roomy k (t2\<lparr>mt_lastCommitInfo := ci\<rparr>)" for ci using r2 by (simp add: roomy_iff)
  moreover have "snd (mt_SaveVersion u t) \<in>
      {t, t2, UpdateCommitInfo t2, t2\<lparr>mt_lastCommitInfo := (mt_lastCommitInfo t2)\<lparr>ci_StoreInfos := []\<rparr>\<rparr>}"
    using s by (simp add: mt_SaveVersion_def t2_def Let_def split: sum.split)
  ultimately show ?thesis using r r2 roomy_UpdateCommitInfo [OF r2] by auto
qed

lemma roomy_commits:
  "roomy (sum_list (map entry_size es) + k) t \<Longrightarrow> sum_list (map entry_size es) + k < 2 ^ 63 \<Longrightarrow>
     roomy k (snd (commits ops es t))"
proof (induction es arbitrary: t)
  case (Cons e es)
  let ?n = "sum_list (map entry_size es) + k"
  obtain r t' where a: "applyWALEntry ops e t = (r, t')" by force
  have r1: "roomy ?n t'" using roomy_entry [of e ?n t ops] Cons.prems a by (simp add: add.assoc)
  obtain q t'' where b: "mt_SaveVersion True t' = (q, t'')" by force
  have r2: "roomy ?n t''" using roomy_save [OF r1, of True] b by simp
  have "roomy k t'" "roomy k t''" using roomy_mono [OF r1] roomy_mono [OF r2] by auto
  then show ?case using Cons.IH [OF r2] Cons.prems(2) a b by (cases r; cases q) simp_all
qed simp

text \<open>After a commit the commit info is that of the state.\<close>

lemma UpdateCommitInfo_info:
  "roomy k t \<Longrightarrow> mt_lastCommitInfo (UpdateCommitInfo t) = spec_info (mt_Version t) (mt_state t)"
  using buildCommitInfo_spec [of k t "mt_Version t"] by (simp add: UpdateCommitInfo_def split_beta)

lemma mt_SaveVersion_info:
  assumes "roomy k t" and "mt_SaveVersion True t = (Inr v, t')"
  shows "mt_lastCommitInfo t' = spec_info (mt_Version t') (mt_state t')"
proof -
  have c: "check_trees (mt_trees t) = Inr ()"
    using assms(2) by (cases "check_trees (mt_trees t)") (simp_all add: mt_SaveVersion_def)
  obtain r trees where s: "save_trees True (mt_trees t) = (r, trees)" by force
  define t2 where "t2 = t\<lparr>mt_lastCommitInfo := (mt_lastCommitInfo t)\<lparr>ci_Version := nextVersion (mt_Version t)
    (mt_initialVersion t)\<rparr>, mt_trees := trees\<rparr>"
  have t': "t' = UpdateCommitInfo t2"
    using assms(2) c s by (cases r) (simp_all add: mt_SaveVersion_def t2_def Let_def)
  have "roomy k t2"
    using good_save_trees [of "mt_trees t" k True] assms(1) s by (simp add: roomy_iff t2_def)
  then have "mt_lastCommitInfo t' = spec_info (mt_Version t2) (mt_state t2)"
    unfolding t' by (rule UpdateCommitInfo_info)
  moreover have "mt_state t' = mt_state t2" unfolding t' by (rule UpdateCommitInfo_state)
  moreover from this have "mt_Version t' = mt_Version t2" by (metis mt_state_simps(2))
  ultimately show ?thesis by simp
qed

lemma commits_info:
  assumes "roomy (sum_list (map entry_size es)) t" and "sum_list (map entry_size es) < 2 ^ 63"
    and "commits ops es t = (Inr (), t')" and "es \<noteq> []"
  shows "mt_lastCommitInfo t' = spec_info (mt_Version t') (mt_state t')"
  using assms
proof (induction es arbitrary: t)
  case (Cons e es)
  let ?n = "sum_list (map entry_size es)"
  obtain r t1 where a: "applyWALEntry ops e t = (r, t1)" by force
  have r1: "roomy ?n t1" using roomy_entry [of e ?n t ops] Cons.prems a by simp
  obtain q t2 where b: "mt_SaveVersion True t1 = (q, t2)" by force
  have r2: "roomy ?n t2" using roomy_save [OF r1, of True] b by simp
  obtain x y where q: "r = Inr x" "q = Inr y" and rest: "commits ops es t2 = (Inr (), t')"
    using Cons.prems(3) a b by (cases r; cases q) simp_all
  show ?case
  proof (cases "es = []")
    case True
    then show ?thesis using mt_SaveVersion_info [OF r1] b q rest by simp
  next
    case False
    then show ?thesis using Cons.IH [OF r2 _ rest] Cons.prems(2) by simp
  qed
qed simp

text \<open>Replaying the entries of a log, for any log that keeps its laws.\<close>

context wal_log
begin

lemma replay_spec:
  assumes "winv w" and "wfirst w \<le> i" and "drop (i - wfirst w) (wentries w) = map WALEntry_Marshal es @ rest"
    and "\<forall>e \<in> set es. length (WALEntry_Marshal e) < 2 ^ 63"
    and "roomy (sum_list (map entry_size es) + k) t" and "sum_list (map entry_size es) + k < 2 ^ 63"
  shows "\<exists>w' t'. replay ops rd (map word_of_nat [i..<i + length es]) w t = (fst (spec_run es (mt_state t)), w', t') \<and>
    mt_state t' = snd (spec_run es (mt_state t)) \<and> roomy k t' \<and> winv w' \<and> wfirst w' = wfirst w \<and> wentries w' = wentries w"
  using assms
proof (induction es arbitrary: i w t)
  case (Cons e es)
  let ?k = "i - wfirst w" and ?n = "sum_list (map entry_size es) + k"
  have d: "drop ?k (wentries w) = WALEntry_Marshal e # map WALEntry_Marshal es @ rest" using Cons.prems(3) by simp
  then have k: "?k < length (wentries w)" by (metis drop_eq_Nil linorder_not_less list.distinct(1))
  have at: "wentries w ! ?k = WALEntry_Marshal e" by (rule nth_via_drop [OF d])
  have dr: "drop (Suc i - wfirst w) (wentries w) = map WALEntry_Marshal es @ rest"
    using Cons.prems(2) arg_cong [OF d, of tl] by (simp add: Suc_diff_le drop_Suc tl_drop)
  obtain bz w1 where rd1: "wr_Read rd (word_of_nat i) w = (bz, w1)" by force
  have "bz = Inr (WALEntry_Marshal e)"
    using Read [of w i] Cons.prems(1,2) k at rd1 by auto
  moreover have w1: "winv w1" "wfirst w1 = wfirst w" "wentries w1 = wentries w"
    using Read_state [of w "word_of_nat i"] Cons.prems(1) rd1 by auto
  moreover have dec: "WALEntry_Unmarshal (WALEntry_Marshal e) = Inr (norm_entry e)"
    using Cons.prems(4) WALEntry_decodes by simp
  ultimately have rd2: "wr_Read rd (word_of_nat i) w = (Inr (WALEntry_Marshal e), w1)" using rd1 by simp
  obtain r t1 where a: "applyWALEntry ops (norm_entry e) t = (r, t1)" by force
  have sa: "spec_entry e (mt_state t) = (r, mt_state t1)" using applyWALEntry_pair [OF a] by (simp add: spec_entry_norm)
  obtain q t2 where b: "mt_SaveVersion False t1 = (q, t2)" by force
  note sb = mt_SaveVersion_pair [OF b]
  have "entry_size (norm_entry e) = entry_size e"
    by (simp add: entry_size_def norm_entry_def norm_ncs_def comp_def)
  then have r1: "roomy ?n t1" using roomy_entry [of "norm_entry e" ?n t ops] Cons.prems(5,6) a by (simp add: add.assoc)
  have r2: "roomy ?n t2" using roomy_save [OF r1, of False] b by simp
  have rk: "roomy k t1" "roomy k t2" using roomy_mono [OF r1] roomy_mono [OF r2] by auto
  have list: "[i..<i + length (e # es)] = i # [Suc i..<Suc i + length es]"
    using upt_conv_Cons [of i "i + length (e # es)"] by simp
  show ?case
  proof (cases r)
    case (Inl x)
    then show ?thesis unfolding list using rd2 dec a sa w1 rk by simp
  next
    case (Inr x)
    show ?thesis
    proof (cases q)
      case (Inl y)
      then show ?thesis unfolding list using rd2 dec a sa b sb w1 Inr rk by simp
    next
      case q: (Inr y)
      have "\<exists>w' t'. replay ops rd (map word_of_nat [Suc i..<Suc i + length es]) w1 t2 =
          (fst (spec_run es (mt_state t2)), w', t') \<and> mt_state t' = snd (spec_run es (mt_state t2)) \<and>
          roomy k t' \<and> winv w' \<and> wfirst w' = wfirst w1 \<and> wentries w' = wentries w1"
        using w1 Cons.prems(2,4,6) dr r2 by (intro Cons.IH) auto
      then show ?thesis unfolding list using rd2 dec a sa b sb w1 Inr q by simp
    qed
  qed
qed simp

lemma walIndex_add: "walIndex (v + int n) iv = walIndex v iv + word_of_nat n"
  by (simp add: walIndex_def)

lemma spec_entry_versions:
  "spec_entry e s = (r, s') \<Longrightarrow> ms_version s' = ms_version s \<and> ms_initial s' = ms_initial s"
proof -
  have up: "ms_version (snd (spec_upgrades us s)) = ms_version s \<and> ms_initial (snd (spec_upgrades us s)) = ms_initial s" for us s
    by (simp add: spec_upgrades_def split_beta)
  have one: "ms_version (snd (spec_change name cs s)) = ms_version s \<and> ms_initial (snd (spec_change name cs s)) = ms_initial s" for name cs s
    by (simp add: spec_change_def split: option.split)
  have ch: "ms_version (snd (spec_changes css s)) = ms_version s \<and> ms_initial (snd (spec_changes css s)) = ms_initial s" for css s
  proof (induction css arbitrary: s)
    case (Cons cs css)
    obtain q s1 where q: "spec_change (ncs_Name cs) (ncs_Changeset cs) s = (q, s1)" by force
    then have "ms_version s1 = ms_version s \<and> ms_initial s1 = ms_initial s" using one by (metis snd_conv)
    then show ?case using q Cons.IH [of s1] by (cases q) simp_all
  qed simp
  assume "spec_entry e s = (r, s')"
  moreover obtain q s1 where q: "spec_upgrades (we_Upgrades e) s = (q, s1)" by force
  moreover from this have "ms_version s1 = ms_version s \<and> ms_initial s1 = ms_initial s" using up by (metis snd_conv)
  ultimately show ?thesis
    using ch [of "we_Changesets e" s1] by (cases q) (auto simp: spec_entry_def)
qed

lemma spec_run_version:
  assumes "spec_run es s = (Inr (), s')" and "0 \<le> ms_version s" and "es \<noteq> []"
  shows "ms_version s' = nextVersion (ms_version s) (ms_initial s) + int (length es - 1)"
  using assms
proof (induction es arbitrary: s)
  case (Cons e es)
  obtain r s1 where a: "spec_entry e s = (r, s1)" by force
  obtain q s2 where b: "spec_save s1 = (q, s2)" by force
  have v1: "ms_version s1 = ms_version s" "ms_initial s1 = ms_initial s" using spec_entry_versions [OF a] by auto
  obtain x y where q: "r = Inr x" "q = Inr y" and rest: "spec_run es s2 = (Inr (), s')"
    using Cons.prems(1) a b by (cases r; cases q) simp_all
  have v2: "ms_version s2 = nextVersion (ms_version s) (ms_initial s)" "ms_initial s2 = ms_initial s"
    using b q v1 by (auto simp: spec_save_def Let_def split: if_splits)
  show ?case
  proof (cases "es = []")
    case True
    then show ?thesis using rest v2 by simp
  next
    case False
    have pos: "0 \<le> ms_version s2" using v2 nextVersion_pos [OF Cons.prems(2), of "ms_initial s"] by simp
    have "int (length es - 1) + 1 = int (length es)" using False by (cases es) simp_all
    then show ?thesis
      using Cons.IH [OF rest pos False] v2 nextVersion_next [OF Cons.prems(2), of "ms_initial s"] by simp
  qed
qed simp

lemma catchupWAL_spec:
  assumes "winv w" and "0 \<le> mt_Version t"
    and first: "first = unat (walIndex (nextVersion (mt_Version t) (mt_initialVersion t)) (mt_initialVersion t))"
    and "wfirst w \<le> first" and "drop (first - wfirst w) (wentries w) = map WALEntry_Marshal es @ rest"
    and "\<forall>e \<in> set es. length (WALEntry_Marshal e) < 2 ^ 63"
    and "roomy (sum_list (map entry_size es) + k) t" and "sum_list (map entry_size es) + k < 2 ^ 63"
    and run: "spec_run es (mt_state t) = (Inr (), s')"
    and "endVersion = 0 \<and> rest = [] \<or> endVersion = ms_version s' \<and> es \<noteq> []"
  shows "\<exists>w' t'. catchupWAL ops rd endVersion w t = (Inr (), w', t') \<and> mt_state t' = s' \<and> roomy k t' \<and>
    winv w' \<and> wfirst w' = wfirst w \<and> wentries w' = wentries w \<and>
    (if es = [] then t' = t else mt_lastCommitInfo t' = spec_info (mt_Version t') s')"
proof -
  let ?iv = "mt_initialVersion t" and ?v = "nextVersion (mt_Version t) (mt_initialVersion t)"
  let ?last = "wfirst w + length (wentries w) - 1"
  have b: "1 \<le> wfirst w" "wfirst w + length (wentries w) < 2 ^ 63" using bounds [OF assms(1)] by auto
  have first': "walIndex ?v ?iv = word_of_nat first" unfolding first by simp
  have last1: "wr_LastIndex rd w = Inr (word_of_nat ?last)" by (rule LastIndex [OF assms(1)])
  have last2: "unat (word_of_nat ?last :: u64) = ?last" by (rule unat_u64 [OF le_less_trans [OF diff_le_self]]) (use b in simp)
  note last = last1 last2
  show ?thesis
  proof (cases "es = []")
    case True
    then have e: "endVersion = 0" "rest = []" using assms(10) by auto
    have "length (wentries w) \<le> first - wfirst w" using assms(5) True e by simp
    then have "?last < first" using b assms(4) by linarith
    then have "walIndex ?v ?iv > word_of_nat ?last"
      unfolding word_less_nat_alt last(2) first [symmetric] by simp
    then show ?thesis using True e last(1) run assms(1,7) by (simp add: catchupWAL_def Let_def)
  next
    case False
    have len: "first + length es + length rest = wfirst w + length (wentries w)"
      using arg_cong [OF assms(5), of length] assms(4) False by (cases es) auto
    define stop where "stop = first + length es - 1"
    have stop: "first \<le> stop" "stop \<le> ?last" "Suc stop = first + length es"
      using len False by (cases es; simp add: stop_def)+
    then have u: "unat (word_of_nat stop :: u64) = stop" using b by (intro unat_u64) simp
    have ev: "endVersion \<ge> 0" "(if endVersion = 0 then word_of_nat ?last else walIndex endVersion ?iv) = (word_of_nat stop :: u64)"
    proof -
      have v: "ms_version s' = ?v + int (length es - 1)" using spec_run_version [OF run] assms(2) False by simp
      then have pos: "0 < ms_version s'" using nextVersion_pos [OF assms(2), of ?iv] by simp
      have "walIndex (ms_version s') ?iv = word_of_nat first + word_of_nat (length es - 1)"
        unfolding v walIndex_add first' by simp
      also have "\<dots> = word_of_nat stop" unfolding stop_def of_nat_add [symmetric] using False by (cases es) simp_all
      finally have "walIndex (ms_version s') ?iv = word_of_nat stop" .
      moreover have "rest = [] \<Longrightarrow> ?last = stop" using len by (simp add: stop_def)
      ultimately show "endVersion \<ge> 0"
        "(if endVersion = 0 then word_of_nat ?last else walIndex endVersion ?iv) = (word_of_nat stop :: u64)"
        using assms(10) pos by auto
    qed
    have cmp: "\<not> walIndex ?v ?iv > word_of_nat ?last" "\<not> (word_of_nat stop :: u64) < walIndex ?v ?iv"
      "\<not> (word_of_nat stop :: u64) > word_of_nat ?last"
      unfolding word_less_nat_alt last(2) u first [symmetric] using stop by auto
    obtain w' t1 where r: "replay ops rd (map word_of_nat [first..<first + length es]) w t = (Inr (), w', t1)"
      "mt_state t1 = s'" "roomy k t1" "winv w' \<and> wfirst w' = wfirst w \<and> wentries w' = wentries w"
      using replay_spec [OF assms(1,4,5,6), of k t ops] assms(7,8) run by auto
    have "catchupWAL ops rd endVersion w t = (Inr (), w', UpdateCommitInfo t1)"
      unfolding catchupWAL_def Let_def last(1) sum.case ev(2) using ev(1) cmp r(1) stop(3)
      by (simp add: first [symmetric] u)
    moreover have "mt_state (UpdateCommitInfo t1) = s'" using UpdateCommitInfo_state [of t1] r(2) by simp
    moreover from this have "mt_Version (UpdateCommitInfo t1) = mt_Version t1" using r(2) by (metis mt_state_simps(2))
    ultimately show ?thesis using False UpdateCommitInfo_info [OF r(3)] roomy_UpdateCommitInfo [OF r(3)] r(2,4) by simp
  qed
qed

end

section \<open>Lemmas: snapshots\<close>

lemma join_results_Inr: "join_results rs = Inr xs \<longleftrightarrow> rs = map Inr xs"
  by (induction rs arbitrary: xs) (auto simp: rbind_Inr_iff rmap_Inr_iff map_eq_Cons_conv Cons_eq_map_conv)

lemma runWorkerTask_Inr: "runWorkerTask label r = Inr x \<longleftrightarrow> r = Inr x"
proof (cases r)
  case (Inl e)
  then show ?thesis by (cases e) (simp_all add: runWorkerTask_def)
qed (simp add: runWorkerTask_def)

lemma RunWorkerGroup_Inr:
  "RunWorkerGroup sched labels f = Inr xs \<longleftrightarrow>
     length xs = length labels \<and> (\<forall>i < length labels. \<exists>ctx. sched i = Some ctx \<and> f ctx i = Inr (xs ! i))"
proof -
  have "task_result sched f labels i = Inr x \<longleftrightarrow> (\<exists>ctx. sched i = Some ctx \<and> f ctx i = Inr x)" for i x
    by (cases "sched i") (simp_all add: task_result_def runWorkerTask_Inr)
  moreover have "map g [0..<m] = map Inr ys \<longleftrightarrow> length ys = m \<and> (\<forall>i < m. g i = Inr (ys ! i))"
    for g :: "nat \<Rightarrow> 'a result" and m ys
    by (auto simp: list_eq_iff_nth_eq)
  ultimately show ?thesis unfolding RunWorkerGroup_def join_results_Inr by presburger
qed

lemma stores_reload:
  assumes "\<forall>e \<in> set es. storable (t_root (snd e))"
  shows "\<exists>fss es'. length fss = length es \<and>
    (\<forall>i < length es. tree_WriteSnapshot (\<lambda>_. False) (snd (es ! i)) = Inr (fss ! i)) \<and>
    open_stores ops zc n (zip (map fst es) fss) = Inr es' \<and> map (over tree_state) es' = map (over tree_state) es \<and>
    (\<forall>e \<in> set es'. pred_option wf_node (t_root (snd e)))"
  using assms
proof (induction es)
  case (Cons e es)
  then obtain fss es' where ih: "length fss = length es"
    "\<forall>i < length es. tree_WriteSnapshot (\<lambda>_. False) (snd (es ! i)) = Inr (fss ! i)"
    "open_stores ops zc n (zip (map fst es) fss) = Inr es'" "map (over tree_state) es' = map (over tree_state) es"
    "\<forall>e \<in> set es'. pred_option wf_node (t_root (snd e))" by auto
  obtain fs sn t' where r: "tree_WriteSnapshot (\<lambda>_. False) (snd e) = Inr fs" "OpenSnapshot fs = Inr sn"
    "NewFromSnapshot ops sn zc n = Inr t'" "tree_state t' = tree_state (snd e)" "pred_option wf_node (t_root t')"
    using snapshot_reload [of "snd e" ops zc n] Cons.prems by auto
  show ?case
  proof (intro exI conjI)
    show "length (fs # fss) = length (e # es)" using ih(1) by simp
    show "\<forall>i < length (e # es). tree_WriteSnapshot (\<lambda>_. False) (snd ((e # es) ! i)) = Inr ((fs # fss) ! i)"
      using ih(2) r(1) by (auto simp: less_Suc_eq_0_disj)
    show "open_stores ops zc n (zip (map fst (e # es)) (fs # fss)) = Inr ((fst e, t') # es')"
      using ih(3) r by simp
  qed (use ih r in \<open>auto simp: over_def [of tree_state e]\<close>)
qed simp

lemma infos_equal_refl: "infos_equal xs xs"
  by (induction xs) simp_all

lemma int64_u32: "int64 (int (unat (x :: u32)))"
proof -
  have "unat x < 4294967296" using unat_u32_less [of x] by simp
  then have "int (unat x) < 4294967296" by linarith
  then show ?thesis unfolding int64_def by (simp del: of_nat_unat)
qed

lemma spec_info_ok: "int64 v \<Longrightarrow> info_ok (spec_info v s)"
  using int64_u32 by (simp add: info_ok_def spec_info_def list_all_iff del: of_nat_unat)

lemma loaded_versions: "ms_inv s \<Longrightarrow> ms_version s \<noteq> 0 \<Longrightarrow> e \<in> set (ms_trees s) \<Longrightarrow> int (unat (fst (snd e))) = ms_version s"
  by (auto simp: ms_inv_def nextVersion_def simp del: of_nat_unat)

lemma setInitialVersion_id: "t_version t > 0 \<Longrightarrow> setInitialVersion v t = t"
  by (simp add: setInitialVersion_def)

lemma good_tree_storable:
  assumes "storable (t_root t)" and "tree_state t' = tree_state t" and "pred_option wf_node (t_root t')" and "k \<le> 2 ^ 62"
  shows "good_tree k t'"
proof -
  have "length (tree_view t') = length (tree_view t)"
    using assms(2) by (cases "t_root t"; cases "t_root t'") (auto simp: tree_state_def tree_view_def dest: leaves_strip_eq)
  moreover have "length (tree_view t) < 2 ^ 32"
    using assms(1) by (cases "t_root t") (simp_all add: storable_def tree_view_def)
  ultimately show ?thesis using assms(3,4) by (simp add: good_tree_def)
qed

text \<open>The metadata of a snapshot, and when a multi-tree can be written and loaded again.\<close>

definition metadata_of :: "'c multiTree \<Rightarrow> multiTreeMetadata" where
  "metadata_of t = \<lparr>md_CommitInfo = Some (mt_lastCommitInfo t), md_InitialVersion = int (unat (mt_initialVersion t))\<rparr>"

definition clean :: "'c multiTree \<Rightarrow> bool" where
  "clean t \<longleftrightarrow> mt_lastCommitInfo t = spec_info (mt_Version t) (mt_state t)"

definition writable :: "'c multiTree \<Rightarrow> bool" where
  "writable t \<longleftrightarrow> mt_inv t \<and> clean t \<and> (mt_trees t \<noteq> [] \<longrightarrow> mt_Version t \<noteq> 0) \<and> mt_Version t \<le> int MaxUint32 \<and>
     (\<forall>e \<in> set (mt_trees t). storable (t_root (snd e))) \<and> length (MultiTreeMetadata_Marshal (metadata_of t)) < 2 ^ 63"

lemma readMetadata_of:
  assumes "mt_inv t" and "clean t" and "mt_Version t \<le> int MaxUint32"
    and "length (MultiTreeMetadata_Marshal (metadata_of t)) < 2 ^ 63"
    and "sd_metadata dir = Some (MultiTreeMetadata_Marshal (metadata_of t))"
  shows "readMetadata dir = Inr (metadata_of t)"
proof -
  have "0 \<le> mt_Version t" using assms(1) by (simp add: mt_inv_def ms_inv_def)
  then have v: "int64 (mt_Version t)" using assms(3) by (simp add: int64_def)
  then have i: "info_ok (mt_lastCommitInfo t)" using spec_info_ok assms(2) by (simp add: clean_def)
  have "MultiTreeMetadata_Unmarshal (MultiTreeMetadata_Marshal (metadata_of t)) = Inr (metadata_of t)"
    using i assms(4) int64_u32 by (intro MultiTreeMetadata_decodes) (simp_all add: metadata_of_def del: of_nat_unat)
  moreover have "unat (mt_initialVersion t) \<le> MaxUint32"
    using unat_u32_less [of "mt_initialVersion t"] by simp
  then have "int (unat (mt_initialVersion t)) \<le> int MaxUint32" by linarith
  ultimately show ?thesis
    using assms(3,5) by (simp add: readMetadata_def metadata_of_def mt_Version_def del: of_nat_unat)
qed

lemma mt_setInitialVersion_loaded:
  assumes "\<forall>e \<in> set (mt_trees t). t_version (snd e) > 0"
  shows "mt_setInitialVersion v t = t\<lparr>mt_initialVersion := v\<rparr>"
proof -
  have "map (\<lambda>(name, tree). (name, setInitialVersion v tree)) (mt_trees t) = mt_trees t"
    using assms by (intro map_idI) (auto simp: setInitialVersion_id)
  then show ?thesis by (simp add: mt_setInitialVersion_def Let_def)
qed

lemma mt_write_stores:
  assumes "writable t"
  shows "\<exists>dir es. WriteSnapshotWithContext (\<lambda>_. Some (\<lambda>_. False)) False t = Inr dir \<and>
    sd_metadata dir = Some (MultiTreeMetadata_Marshal (metadata_of t)) \<and> open_stores ops zc n (sd_stores dir) = Inr es \<and>
    map (over tree_state) es = map (over tree_state) (mt_trees t) \<and> (\<forall>e \<in> set es. pred_option wf_node (t_root (snd e)))"
proof -
  have sorted: "sorted (map fst (mt_trees t))" using assms by (simp add: writable_def mt_inv_def ms_inv_def)
  obtain fss es where r: "length fss = length (mt_trees t)"
    "\<forall>i < length (mt_trees t). tree_WriteSnapshot (\<lambda>_. False) (snd (mt_trees t ! i)) = Inr (fss ! i)"
    "open_stores ops zc n (zip (map fst (mt_trees t)) fss) = Inr es"
    "map (over tree_state) es = map (over tree_state) (mt_trees t)"
    "\<forall>e \<in> set es. pred_option wf_node (t_root (snd e))"
    using stores_reload [of "mt_trees t" ops zc n] assms by (auto simp: writable_def)
  have "RunWorkerGroup (\<lambda>_. Some (\<lambda>_. False)) (map fst (mt_trees t))
      (\<lambda>ctx i. tree_WriteSnapshot ctx (snd (mt_trees t ! i))) = Inr fss"
    using r(1,2) by (simp add: RunWorkerGroup_Inr)
  moreover have "sort_key fst (zip (map fst (mt_trees t)) fss) = zip (map fst (mt_trees t)) fss"
    using sorted r(1) by (intro sort_key_id_if_sorted) simp
  ultimately show ?thesis
    using r(3-5) by (auto simp: WriteSnapshotWithContext_def Let_def metadata_of_def)
qed

lemma stores_version:
  assumes "writable t" and "map (over tree_state) es = map (over tree_state) (mt_trees t)" and "e \<in> set es"
  shows "int (unat (t_version (snd e))) = mt_Version t" and "t_version (snd e) > 0"
proof -
  have "mt_trees t \<noteq> []" using assms(2,3) by auto
  then have nz: "mt_Version t \<noteq> 0" using assms(1) by (simp add: writable_def)
  have "over tree_state e \<in> set (ms_trees (mt_state t))"
    using assms(2,3) by (metis image_eqI list.set_map mt_state_simps(4))
  then show v: "int (unat (t_version (snd e))) = mt_Version t"
    using loaded_versions [of "mt_state t" "over tree_state e"] assms(1) nz
    by (simp add: writable_def mt_inv_def tree_state_def del: of_nat_unat)
  then show "t_version (snd e) > 0" using nz by (auto simp: word_neq_0_conv [symmetric] simp del: of_nat_unat)
qed

lemma stores_good:
  assumes "writable t" and "map (over tree_state) es = map (over tree_state) (mt_trees t)"
    and "\<forall>e \<in> set es. pred_option wf_node (t_root (snd e))" and "k \<le> 2 ^ 62"
  shows "\<forall>e \<in> set es. good_tree k (snd e)"
proof
  fix e assume e: "e \<in> set es"
  obtain e' where e': "e' \<in> set (mt_trees t)" "over tree_state e = over tree_state e'"
    using e assms(2) by (metis (no_types, lifting) image_iff list.set_map)
  then have "tree_state (snd e) = tree_state (snd e')" by (simp add: over_def)
  moreover have "storable (t_root (snd e'))" using assms(1) e'(1) by (simp add: writable_def)
  ultimately show "good_tree k (snd e)" using good_tree_storable assms(3,4) e by blast
qed

lemma mt_snapshot_reload:
  assumes "writable t"
  shows "\<exists>dir t'. WriteSnapshotWithContext (\<lambda>_. Some (\<lambda>_. False)) False t = Inr dir \<and>
    sd_metadata dir = Some (MultiTreeMetadata_Marshal (metadata_of t)) \<and>
    LoadMultiTree ops zc n cid dir = Inr t' \<and> mt_state t' = mt_state t \<and>
    mt_lastCommitInfo t' = mt_lastCommitInfo t \<and> mt_metadata t' = metadata_of t \<and> mt_cacheSize t' = n \<and>
    (\<forall>k. k \<le> 2 ^ 62 \<longrightarrow> roomy k t')"
proof -
  have inv: "sorted (map fst (mt_trees t))" "mt_treesByName t = index_map (mt_trees t)" "clean t"
    using assms index_map_fst [of "map (over tree_state) (mt_trees t)" "mt_trees t"]
    by (auto simp: writable_def mt_inv_def ms_inv_def)
  obtain dir es where wr: "WriteSnapshotWithContext (\<lambda>_. Some (\<lambda>_. False)) False t = Inr dir"
    "sd_metadata dir = Some (MultiTreeMetadata_Marshal (metadata_of t))" "open_stores ops zc n (sd_stores dir) = Inr es"
    and es: "map (over tree_state) es = map (over tree_state) (mt_trees t)" "\<forall>e \<in> set es. pred_option wf_node (t_root (snd e))"
    using mt_write_stores [OF assms, of ops zc n] by blast
  have names: "map fst es = map fst (mt_trees t)" using arg_cong [OF es(1), of "map fst"] by simp
  define base where "base = \<lparr>mt_initialVersion = 0, mt_zeroCopy = zc, mt_cacheSize = n, mt_chainId = cid,
    mt_trees = es, mt_treesByName = index_map es, mt_lastCommitInfo = mt_lastCommitInfo t, mt_metadata = metadata_of t\<rparr>"
  define mtree where "mtree = base\<lparr>mt_initialVersion := mt_initialVersion t\<rparr>"
  have set_iv: "mt_setInitialVersion (word_of_int (md_InitialVersion (metadata_of t))) base = mtree"
    using stores_version(2) [OF assms es(1)]
    by (subst mt_setInitialVersion_loaded) (auto simp: mtree_def base_def metadata_of_def)
  have st: "mt_state mtree = mt_state t"
    using inv(2) index_map_fst [OF names] es(1) by (simp add: mtree_def base_def mt_state_def mt_Version_def)
  have room: "roomy k mtree" if "k \<le> 2 ^ 62" for k
    using stores_good [OF assms es that] by (simp add: roomy_iff mtree_def base_def)
  have av: "(case mt_trees mtree of [] \<Rightarrow> ci_Version (mt_lastCommitInfo t) | e # _ \<Rightarrow> tree_Version (snd e)) = mt_Version t"
    using stores_version(1) [OF assms es(1)]
    by (auto simp: mtree_def base_def tree_Version_def mt_Version_def simp del: of_nat_unat split: list.split)
  define t' where "t' = snd (buildCommitInfo (mt_Version t) mtree)"
  have bc: "buildCommitInfo (mt_Version t) mtree = (mt_lastCommitInfo t, t')"
    using buildCommitInfo_spec [OF room [of 0], of "mt_Version t"] inv(3) st by (simp add: t'_def prod_eq_iff clean_def)
  have md: "readMetadata dir = Inr (metadata_of t)"
    using assms wr(2) by (intro readMetadata_of) (auto simp: writable_def)
  have "sort_key fst es = es" using inv(1) names by (intro sort_key_id_if_sorted) simp
  moreover have "md_CommitInfo (metadata_of t) = Some (mt_lastCommitInfo t)" by (simp add: metadata_of_def)
  moreover have "ci_Version (mt_lastCommitInfo t) = mt_Version t" by (simp add: mt_Version_def)
  ultimately have "LoadMultiTree ops zc n cid dir = Inr t'"
    using wr(3) set_iv av bc unfolding LoadMultiTree_def md base_def [symmetric]
    by (simp add: base_def [symmetric] commitInfoEqual_def infos_equal_refl Let_def)
  moreover have "mt_state t' = mt_state t" using st buildCommitInfo_state [of _ mtree] by (simp add: t'_def)
  moreover have "mt_lastCommitInfo t' = mt_lastCommitInfo t" "mt_metadata t' = metadata_of t" "mt_cacheSize t' = n"
    by (simp_all add: t'_def buildCommitInfo_def mtree_def base_def Let_def)
  moreover have "\<forall>k. k \<le> 2 ^ 62 \<longrightarrow> roomy k t'" using room roomy_buildCommitInfo [of _ mtree] by (simp add: t'_def)
  ultimately show ?thesis using wr(1,2) by blast
qed

section \<open>Lemmas: the effect of one upgrade\<close>

text \<open>The names are distinct, so the list is a map; \<open>map_of\<close> does not depend on the order.\<close>

lemma map_of_perm: "distinct (map fst xs) \<Longrightarrow> mset xs = mset ys \<Longrightarrow> map_of xs = map_of ys"
proof -
  assume d: "distinct (map fst xs)" and m: "mset xs = mset ys"
  then have "mset (map fst xs) = mset (map fst ys)" by (metis mset_map)
  then have "distinct (map fst ys)" using d by (metis mset_eq_imp_distinct_iff)
  moreover have "set xs = set ys" using m by (metis set_mset_mset)
  ultimately show ?thesis using d by (metis map_of_inject_set)
qed

lemma swap_delete:
  assumes "i < length xs"
  shows "mset (take (length xs - 1) (xs[i := xs ! (length xs - 1), length xs - 1 := xs ! i])) = mset xs - {#xs ! i#}"
proof -
  let ?n = "length xs - 1"
  have n: "?n < length xs" using assms by simp
  let ?ys = "xs[i := xs ! ?n, ?n := xs ! i]"
  have "mset ?ys = mset xs" by (rule mset_swap [OF n assms])
  moreover have "?ys = take ?n ?ys @ [xs ! i]"
  proof -
    have "drop ?n ?ys = [?ys ! ?n]" using n Cons_nth_drop_Suc [of ?n ?ys] by simp
    then show ?thesis using n append_take_drop_id [of ?n ?ys] by simp
  qed
  then have "mset ?ys = mset (take ?n ?ys) + {#xs ! i#}" by (metis mset_append mset.simps add_mset_add_single)
  ultimately show ?thesis by (metis add_diff_cancel_right')
qed

lemma index_trees_Inl:
  "fst (index_trees i trees m) = Inl e \<Longrightarrow>
     \<exists>n. e = NameConflict n \<and> n \<in> fst ` set trees \<and> (n \<in> dom m \<or> count (mset (map fst trees)) n \<ge> 2)"
proof (induction trees arbitrary: i m)
  case (Cons x trees)
  obtain name y where x: "x = (name, y)" by force
  show ?case
  proof (cases "m name")
    case None
    then have "fst (index_trees (Suc i) trees (m(name \<mapsto> i))) = Inl e"
      using Cons.prems unfolding x by (simp del: fun_upd_apply)
    from Cons.IH [OF this] obtain n where n: "e = NameConflict n" "n \<in> fst ` set trees"
      "n \<in> insert name (dom m) \<or> count (mset (map fst trees)) n \<ge> 2" unfolding dom_fun_upd by auto
    have "count (mset (map fst trees)) n \<ge> 1"
      using n(2) by (metis Suc_leI count_greater_zero_iff set_map set_mset_mset One_nat_def)
    then show ?thesis using n by (auto simp: x)
  next
    case (Some j)
    then show ?thesis using Cons.prems by (auto simp: x)
  qed
qed simp

lemma upgrade_one:
  assumes "upgrade_step fresh u trees = (Inr (), l)"
  shows "upgrade_trees fresh [u] trees =
    (fst (index_trees 0 (sort_key fst l) Map.empty), snd (index_trees 0 (sort_key fst l) Map.empty), sort_key fst l)"
  using assms by (simp add: upgrade_trees_def split_beta Let_def)

lemma sorted_names: "mset (sort_key fst l) = mset l" "map_of (sort_key fst l) = map_of l" if "distinct (map fst l)"
  using map_of_perm [OF that, of "sort_key fst l"] by simp_all

text \<open>The list after a step either has distinct names, or one name twice.\<close>

lemma upgrade_one_ok:
  assumes "upgrade_step fresh u trees = (Inr (), l)" and "distinct (map fst l)"
  shows "\<exists>m trees'. upgrade_trees fresh [u] trees = (Inr (), m, trees') \<and> map_of trees' = map_of l"
proof -
  have "distinct (map fst (sort_key fst l))"
    using assms(2) sorted_names(1) [OF assms(2)] by (metis mset_eq_imp_distinct_iff mset_map)
  then show ?thesis
    using index_trees_distinct [of "sort_key fst l"] sorted_names(2) [OF assms(2)] by (simp add: upgrade_one [OF assms(1)])
qed

lemma upgrade_one_conflict:
  assumes "upgrade_step fresh u trees = (Inr (), l)" and "\<And>n. count (mset (map fst l)) n \<ge> 2 \<Longrightarrow> n = b"
    and "\<not> distinct (map fst l)"
  shows "fst (upgrade_trees fresh [u] trees) = Inl (NameConflict b)"
proof (cases "fst (index_trees 0 (sort_key fst l) Map.empty)")
  case (Inl e)
  from index_trees_Inl [OF Inl] obtain n where "e = NameConflict n" "count (mset (map fst (sort_key fst l))) n \<ge> 2" by auto
  moreover have "mset (map fst (sort_key fst l)) = mset (map fst l)" by (simp add: mset_map)
  ultimately show ?thesis using assms(2) Inl by (simp add: upgrade_one [OF assms(1)])
next
  case (Inr x)
  then have "distinct (map fst (sort_key fst l))" using index_trees_Inr [of 0 "sort_key fst l" Map.empty] by simp
  moreover have "mset (map fst (sort_key fst l)) = mset (map fst l)" by (simp add: mset_map)
  ultimately show ?thesis using assms(3) by (metis mset_eq_imp_distinct_iff)
qed

lemma index_func_name:
  assumes "distinct (map fst trees)"
  shows "index_func (\<lambda>e. fst e = n) trees = None \<longleftrightarrow> map_of trees n = None"
    and "index_func (\<lambda>e. fst e = n) trees = Some i \<Longrightarrow> i < length trees \<and> fst (trees ! i) = n \<and> map_of trees n = Some (snd (trees ! i))"
proof -
  show "index_func (\<lambda>e. fst e = n) trees = None \<longleftrightarrow> map_of trees n = None"
    by (auto simp: index_func_None map_of_eq_None_iff)
  assume "index_func (\<lambda>e. fst e = n) trees = Some i"
  then have i: "i < length trees" "fst (trees ! i) = n" using index_func_Some by blast+
  then have "(n, snd (trees ! i)) \<in> set trees" by (metis nth_mem prod.collapse)
  then show "i < length trees \<and> fst (trees ! i) = n \<and> map_of trees n = Some (snd (trees ! i))"
    using i map_of_is_SomeI [OF assms] by blast
qed

lemma map_of_remove1:
  "distinct (map fst xs) \<Longrightarrow> x \<in> set xs \<Longrightarrow> map_of (remove1 x xs) = (map_of xs)(fst x := None)"
proof (induction xs)
  case (Cons y xs)
  obtain k v where y: "y = (k, v)" by force
  show ?case
  proof (cases "x = y")
    case True
    have "map_of xs k = None" using Cons.prems(1) by (simp add: y map_of_eq_None_iff)
    then show ?thesis by (simp add: True y fun_upd_idem del: fun_upd_apply)
  next
    case False
    then have x: "x \<in> set xs" using Cons.prems(2) by simp
    then have "fst x \<noteq> k" using Cons.prems(1) by (auto simp: y)
    then show ?thesis using Cons.IH Cons.prems(1) x False by (simp add: y fun_upd_twist del: fun_upd_apply)
  qed
qed simp

lemma distinct_remove1_fst: "distinct (map fst xs) \<Longrightarrow> distinct (map fst (remove1 x xs))"
  by (induction xs) (auto dest: notin_set_remove1 simp: image_iff)

lemma map_of_remove:
  assumes "distinct (map fst xs)" and "i < length xs" and "mset l = mset xs - {#xs ! i#}"
  shows "distinct (map fst l) \<and> map_of l = (map_of xs)(fst (xs ! i) := None)"
proof -
  have m: "mset (remove1 (xs ! i) xs) = mset l" using assms(3) by simp
  note d = distinct_remove1_fst [OF assms(1), of "xs ! i"]
  have "mset (map fst (remove1 (xs ! i) xs)) = mset (map fst l)" unfolding mset_map m by (rule refl)
  then have "distinct (map fst l)" using d mset_eq_imp_distinct_iff by blast
  then show ?thesis using map_of_remove1 [OF assms(1) nth_mem [OF assms(2)]] map_of_perm [OF d m] by argo
qed

lemma upgrade_delete:
  assumes "distinct (map fst trees)" and "up_Delete u"
  shows "case map_of trees (up_Name u) of
      None \<Rightarrow> fst (upgrade_trees fresh [u] trees) = Inl (UnknownTree (up_Name u))
    | Some x \<Rightarrow> \<exists>m trees'. upgrade_trees fresh [u] trees = (Inr (), m, trees') \<and>
        map_of trees' = (map_of trees)(up_Name u := None)"
proof (cases "index_func (\<lambda>e. fst e = up_Name u) trees")
  case None
  then show ?thesis using index_func_name(1) [OF assms(1), of "up_Name u"] assms(2)
    by (simp add: upgrade_trees_def upgrade_step_def)
next
  case (Some i)
  note i = index_func_name(2) [OF assms(1) Some]
  let ?l = "take (length trees - 1) (trees[i := trees ! (length trees - 1), length trees - 1 := trees ! i])"
  have "upgrade_step fresh u trees = (Inr (), ?l)" using Some assms(2) by (simp add: upgrade_step_def Let_def)
  moreover have "distinct (map fst ?l) \<and> map_of ?l = (map_of trees)(fst (trees ! i) := None)"
    using i by (intro map_of_remove [OF assms(1) _ swap_delete]) auto
  ultimately show ?thesis using upgrade_one_ok [of fresh u trees ?l] i by auto
qed

lemma count_distinct: "distinct xs \<Longrightarrow> count (mset xs) n \<le> 1"
  by (induction xs) auto

lemma count_names_add:
  assumes "distinct (map fst xs)" and "mset l = add_mset e (mset xs)" and "count (mset (map fst l)) n \<ge> 2"
  shows "n = fst e"
proof (rule ccontr)
  assume "n \<noteq> fst e"
  then have "count (mset (map fst l)) n = count (mset (map fst xs)) n" using assms(2) by (simp add: mset_map)
  then show False using assms(3) count_distinct [OF assms(1), of n] by simp
qed

lemma names_add:
  assumes "distinct (map fst xs)" and "mset l = add_mset e (mset xs)"
  shows "distinct (map fst l) \<longleftrightarrow> map_of xs (fst e) = None"
    and "map_of xs (fst e) = None \<Longrightarrow> map_of l = (map_of xs)(fst e \<mapsto> snd e)"
proof -
  have "mset (map fst l) = mset (map fst (e # xs))" using assms(2) by (simp add: mset_map)
  then have d: "distinct (map fst l) \<longleftrightarrow> distinct (map fst (e # xs))" by (rule mset_eq_imp_distinct_iff)
  then show "distinct (map fst l) \<longleftrightarrow> map_of xs (fst e) = None" using assms(1) by (simp add: map_of_eq_None_iff)
  assume "map_of xs (fst e) = None"
  then have "distinct (map fst (e # xs))" using assms(1) by (simp add: map_of_eq_None_iff)
  then have "map_of (e # xs) = map_of l" using assms(2) by (intro map_of_perm) simp_all
  then show "map_of l = (map_of xs)(fst e \<mapsto> snd e)" by (cases e) simp
qed

lemma upgrade_added:
  assumes "distinct (map fst xs)" and "upgrade_step fresh u trees = (Inr (), l)" and "mset l = add_mset e (mset xs)"
  shows "case map_of xs (fst e) of
      Some _ \<Rightarrow> fst (upgrade_trees fresh [u] trees) = Inl (NameConflict (fst e))
    | None \<Rightarrow> \<exists>m trees'. upgrade_trees fresh [u] trees = (Inr (), m, trees') \<and> map_of trees' = (map_of xs)(fst e \<mapsto> snd e)"
proof (cases "map_of xs (fst e)")
  case None
  then show ?thesis using upgrade_one_ok [OF assms(2)] names_add [OF assms(1,3)] by simp
next
  case (Some x)
  then have "fst (upgrade_trees fresh [u] trees) = Inl (NameConflict (fst e))"
    using names_add(1) [OF assms(1,3)] count_names_add [OF assms(1,3)]
    by (intro upgrade_one_conflict [OF assms(2)]) auto
  then show ?thesis using Some by simp
qed

lemma fresh_tree:
  assumes "1 \<le> v" and "v \<le> int MaxUint32"
  shows "\<exists>tree. NewWithInitialVersion ops (word_of_int v) n = Inr tree \<and> t_root tree = None \<and> tree_Version tree = v - 1"
proof -
  obtain k where k: "v = int k" "k < 2 ^ 32" "1 \<le> k" using assms zero_le_imp_eq_int [of v] by auto
  then have u: "unat (word_of_int v :: u32) = k" by (simp add: unat_of_nat)
  have "\<exists>st. spec_fresh (word_of_int v) = Inr st \<and> snd st = None"
  proof (cases "v = 1")
    case False
    then have gt: "\<not> (word_of_int v :: u32) \<le> 1" using u k by (simp add: word_le_nat_alt)
    then have "unat (word_of_int v - 1 :: u32) = k - 1" using u by (simp add: unat_sub word_le_nat_alt)
    then show ?thesis using gt k by (simp add: spec_fresh_def)
  qed (simp add: spec_fresh_def)
  then obtain st where st: "spec_fresh (word_of_int v) = Inr st" "snd st = None" by blast
  then obtain tree where tree: "NewWithInitialVersion ops (word_of_int v) n = Inr tree" "tree_state tree = st"
    using spec_fresh_New [of ops "word_of_int v" n] by (auto simp: rmap_Inr_iff)
  moreover have "int (unat (fst st)) = v - 1" by (rule spec_fresh_version [OF assms st(1)])
  ultimately show ?thesis using st(2) by (auto simp: tree_state_def tree_Version_def)
qed

lemma upgrade_add:
  assumes "distinct (map fst trees)" and "\<not> up_Delete u" and "up_RenameFrom u = []" and "fresh = Inr x"
  shows "case map_of trees (up_Name u) of
      Some _ \<Rightarrow> fst (upgrade_trees fresh [u] trees) = Inl (NameConflict (up_Name u))
    | None \<Rightarrow> \<exists>m trees'. upgrade_trees fresh [u] trees = (Inr (), m, trees') \<and> map_of trees' = (map_of trees)(up_Name u \<mapsto> x)"
  using upgrade_added [OF assms(1), of fresh u trees "trees @ [(up_Name u, x)]" "(up_Name u, x)"] assms(2-4)
  by (cases "map_of trees (up_Name u)") (simp_all add: upgrade_step_def)

lemma upgrade_rename:
  assumes "distinct (map fst trees)" and "\<not> up_Delete u" and "up_RenameFrom u = a" and "a \<noteq> []" and "b = up_Name u"
  shows "case map_of trees a of
      None \<Rightarrow> fst (upgrade_trees fresh [u] trees) = Inl (UnknownTree a)
    | Some x \<Rightarrow> if b \<noteq> a \<and> map_of trees b \<noteq> None then fst (upgrade_trees fresh [u] trees) = Inl (NameConflict b)
        else \<exists>m trees'. upgrade_trees fresh [u] trees = (Inr (), m, trees') \<and> map_of trees' = (map_of trees)(a := None, b \<mapsto> x)"
proof (cases "index_func (\<lambda>e. fst e = a) trees")
  case None
  then show ?thesis using index_func_name(1) [OF assms(1), of a] assms(2-4)
    by (simp add: upgrade_trees_def upgrade_step_def)
next
  case (Some i)
  note i = index_func_name(2) [OF assms(1) Some]
  let ?x = "snd (trees ! i)"
  let ?l = "trees[i := (b, ?x)]" and ?r = "remove1 (trees ! i) trees"
  have s: "upgrade_step fresh u trees = (Inr (), ?l)" using Some assms(2-5) by (simp add: upgrade_step_def)
  have "mset ?r = mset trees - {#trees ! i#}" by simp
  note r = map_of_remove [OF assms(1) conjunct1 [OF i] this]
  have "mset ?l = add_mset (b, ?x) (mset ?r)" using i by (simp add: mset_update)
  note ad = upgrade_added [OF conjunct1 [OF r] s this, simplified]
  show ?thesis
  proof (cases "b \<noteq> a \<and> map_of trees b \<noteq> None")
    case True
    then have "map_of ?r b = map_of trees b" using r i by simp
    then show ?thesis using ad True i by auto
  next
    case False
    then have "map_of ?r b = None" using r i by auto
    then show ?thesis using ad False i r by (simp, blast)
  qed
qed

text \<open>A done context can only make a write fail.\<close>

lemma writeRecursive_undisturbed: "writeRecursive ctx n w = Inr w' \<Longrightarrow> writeRecursive (\<lambda>_. False) n w = Inr w'"
proof (induction n arbitrary: w w')
  case (Branch rp h s ver k l r)
  then obtain w1 w2 where "writeRecursive ctx l w = Inr w1" "writeRecursive ctx r w1 = Inr w2"
    by (auto simp: Let_def rbind_Inr_iff)
  then show ?case using Branch by (simp add: Let_def)
qed (auto simp: writeLeaf_def Let_def split: if_splits)

lemma tree_WriteSnapshot_undisturbed:
  "tree_WriteSnapshot ctx t = Inr fs \<Longrightarrow> tree_WriteSnapshot (\<lambda>_. False) t = Inr fs"
  using writeRecursive_undisturbed
  by (cases "t_root t")
    (auto simp: tree_WriteSnapshot_def WriteSnapshot_def writeSnapshot_def rbind_Inr_iff rmap_Inr_iff)

lemma WriteSnapshot_undisturbed:
  assumes "WriteSnapshotWithContext sched canceled t = Inr dir"
  shows "WriteSnapshotWithContext (\<lambda>_. Some (\<lambda>_. False)) False t = Inr dir"
proof -
  let ?f = "\<lambda>ctx i. tree_WriteSnapshot ctx (snd (mt_trees t ! i))" and ?names = "map fst (mt_trees t)"
  obtain files where f: "RunWorkerGroup sched ?names ?f = Inr files" and c: "\<not> canceled"
    using assms by (auto simp: WriteSnapshotWithContext_def Let_def rbind_Inr_iff split: if_splits)
  have "RunWorkerGroup (\<lambda>_. Some (\<lambda>_. False)) ?names ?f = Inr files"
    using f tree_WriteSnapshot_undisturbed unfolding RunWorkerGroup_Inr by blast
  then show ?thesis using assms f c by (simp add: WriteSnapshotWithContext_def Let_def)
qed

lemma mt_Copy_state: "mt_inv t \<Longrightarrow> mt_state (fst (mt_Copy ops n t)) = mt_state t \<and> mt_state (snd (mt_Copy ops n t)) = mt_state t"
proof -
  assume inv: "mt_inv t"
  have a: "map (over tree_state) (map (\<lambda>(name, c). (name, fst c)) (map (\<lambda>(name, tree). (name, tree_Copy ops n tree)) (mt_trees t))) =
      map (over tree_state) (mt_trees t)"
    and b: "map (over tree_state) (map (\<lambda>(name, c). (name, snd c)) (map (\<lambda>(name, tree). (name, tree_Copy ops n tree)) (mt_trees t))) =
      map (over tree_state) (mt_trees t)"
    by (auto simp: tree_state_Copy)
  have "map fst (map (\<lambda>(name, c). (name, snd c)) (map (\<lambda>(name, tree). (name, tree_Copy ops n tree)) (mt_trees t))) =
      map fst (map (over tree_state) (mt_trees t))"
    by auto
  from index_map_fst [OF this] show ?thesis
    using inv a b by (simp add: mt_Copy_def Let_def mt_state_def mt_Version_def mt_inv_def ms_inv_def)
qed

lemma TreeByName_iff:
  assumes "mt_inv t"
  shows "TreeByName name t = map_of (mt_trees t) name"
proof -
  have d: "distinct (map fst (mt_trees t))" and i: "mt_treesByName t = index_map (mt_trees t)"
    using assms index_map_fst [of "map (over tree_state) (mt_trees t)" "mt_trees t"] by (auto simp: mt_inv_def ms_inv_def)
  show ?thesis
  proof (cases "mt_treesByName t name")
    case None
    then have "name \<notin> fst ` set (mt_trees t)"
      using index_map_Some [OF d, of name] i by (metis imageE in_set_conv_nth option.distinct(1))
    then show ?thesis using None by (simp add: TreeByName_def map_of_eq_None_iff [THEN iffD2])
  next
    case (Some j)
    then have "j < length (mt_trees t)" "fst (mt_trees t ! j) = name" using index_map_Some [OF d] i by auto
    then have "(name, snd (mt_trees t ! j)) \<in> set (mt_trees t)" by (metis nth_mem prod.collapse)
    then show ?thesis using Some map_of_is_SomeI [OF d] by (simp add: TreeByName_def)
  qed
qed

section \<open>Properties\<close>

text \<open>
  C33: the structure of a multi-tree is kept by everything that changes it. Its trees stay ordered by name without
  duplicates, the index finds exactly the tree of a name, and every tree is at the version before the next
  one: after successful upgrades, after change sets whether they succeed or name an unknown tree, after
  saving a version or failing to, and in both the source and the copy of a copy.
\<close>

theorem multiTree_invariant:
  assumes "mt_inv t"
  shows "(nextVersion (mt_Version t) (mt_initialVersion t) \<le> int MaxUint32 \<and> fst (ApplyUpgrades ops us t) = Inr () \<longrightarrow>
      mt_inv (snd (ApplyUpgrades ops us t))) \<and>
    mt_inv (snd (mt_ApplyChangeSets ops css t)) \<and> mt_inv (snd (mt_SaveVersion u t)) \<and>
    mt_inv (fst (mt_Copy ops n t)) \<and> mt_inv (snd (mt_Copy ops n t)) \<and>
    (TreeByName name t = Some tree \<longleftrightarrow> (name, tree) \<in> set (mt_trees t)) \<and>
    (tree_Version tree = nextVersion (mt_Version t) (mt_initialVersion t) - 1 \<or> (name, tree) \<notin> set (mt_trees t))"
proof (intro conjI impI)
  note ms = assms [unfolded mt_inv_def]
  assume u: "nextVersion (mt_Version t) (mt_initialVersion t) \<le> int MaxUint32 \<and> fst (ApplyUpgrades ops us t) = Inr ()"
  then have "spec_upgrades us (mt_state t) = (Inr (), mt_state (snd (ApplyUpgrades ops us t)))"
    using ApplyUpgrades_spec [of ops us t] by (simp add: prod_eq_iff)
  then show "mt_inv (snd (ApplyUpgrades ops us t))"
    unfolding mt_inv_def using u by (intro spec_upgrades_inv [OF ms]) auto
next
  note ms = assms [unfolded mt_inv_def]
  show "mt_inv (snd (mt_ApplyChangeSets ops css t))"
    using spec_changes_inv [OF ms, of css] mt_ApplyChangeSets_spec [of ops css t] by (simp add: mt_inv_def)
  show "mt_inv (snd (mt_SaveVersion u t))"
    using spec_save_inv [OF ms] mt_SaveVersion_spec(2) [of u t] by (simp add: mt_inv_def)
  show "mt_inv (fst (mt_Copy ops n t))" "mt_inv (snd (mt_Copy ops n t))"
    using mt_Copy_state [OF assms, of ops n] ms by (simp_all add: mt_inv_def)
  have "distinct (map fst (mt_trees t))" using ms by (simp add: ms_inv_def)
  then show "TreeByName name t = Some tree \<longleftrightarrow> (name, tree) \<in> set (mt_trees t)"
    by (simp add: TreeByName_iff [OF assms] map_of_eq_Some_iff)
  show "tree_Version tree = nextVersion (mt_Version t) (mt_initialVersion t) - 1 \<or> (name, tree) \<notin> set (mt_trees t)"
    using ms by (auto simp: ms_inv_def tree_Version_def tree_state_def simp del: of_nat_unat)
qed

definition mt0 :: "lru multiTree" where
  "mt0 = NewEmptyMultiTree 10 0 ''chain''"

definition add_bank :: treeNameUpgrade where
  "add_bank = \<lparr>up_Name = ''bank'', up_RenameFrom = [], up_Delete = False\<rparr>"

lemma mt0_inv: "mt_inv mt0"
  by (simp add: mt_inv_def ms_inv_def mt_state_def mt0_def NewEmptyMultiTree_def mt_Version_def index_map_def)

lemma mt0_versions: "mt_Version mt0 = 0" "mt_initialVersion mt0 = 10" "mt_trees mt0 = []" "nextVersion 0 10 = 10"
  by (simp_all add: mt0_def NewEmptyMultiTree_def mt_Version_def nextVersion_def)

lemma mt0_upgrade: "fst (ApplyUpgrades lru_ops [add_bank] mt0) = Inr ()"
  by (simp add: ApplyUpgrades_spec(1) spec_upgrades_def mt0_versions upgrade_trees_def upgrade_step_def add_bank_def
      spec_fresh_def)

theorem multiTree_invariant_witness:
  "mt_inv mt0 \<and> mt_inv (snd (ApplyUpgrades lru_ops [add_bank] mt0))"
  using multiTree_invariant [OF mt0_inv, of lru_ops "[add_bank]"] mt0_inv mt0_upgrade mt0_versions by simp

text \<open>
  C34: what an upgrade does, and when it is refused. Deleting or renaming a tree that is not there is an
  error that names it. Adding a tree, or renaming one, to a name already in use is a conflict. Otherwise
  exactly the named trees change: a deleted tree is gone, a renamed one is found under its new name only
  with its contents, an added one is empty at the version before the next.
\<close>

theorem ApplyUpgrades_single:
  assumes "mt_inv t" and "nextVersion (mt_Version t) (mt_initialVersion t) \<le> int MaxUint32"
    and "ApplyUpgrades ops [u] t = (r, t')" and "old = (\<lambda>n. TreeByName n t)" and "new = (\<lambda>n. TreeByName n t')"
  shows "if up_Delete u then
      (if old (up_Name u) = None then r = Inl (UnknownTree (up_Name u)) else r = Inr () \<and> new = old(up_Name u := None))
    else if up_RenameFrom u \<noteq> [] then
      (if old (up_RenameFrom u) = None then r = Inl (UnknownTree (up_RenameFrom u))
       else if up_Name u \<noteq> up_RenameFrom u \<and> old (up_Name u) \<noteq> None then r = Inl (NameConflict (up_Name u))
       else r = Inr () \<and> new = old(up_RenameFrom u := None, up_Name u := old (up_RenameFrom u)))
    else
      (if old (up_Name u) \<noteq> None then r = Inl (NameConflict (up_Name u))
       else r = Inr () \<and> (\<exists>tree. new = old(up_Name u \<mapsto> tree) \<and> tree_view tree = [] \<and>
         tree_Version tree = nextVersion (mt_Version t) (mt_initialVersion t) - 1))"
proof -
  let ?v = "nextVersion (mt_Version t) (mt_initialVersion t)"
  define fresh where "fresh = NewWithInitialVersion ops (word_of_int ?v) (mt_cacheSize t)"
  obtain m l where u: "upgrade_trees fresh [u] (mt_trees t) = (r, m, l)"
    and t': "t' = t\<lparr>mt_trees := l, mt_treesByName := m\<rparr>"
    using assms(3) by (auto simp: ApplyUpgrades_def Let_def split_beta fresh_def prod_eq_iff)
  have ms: "ms_inv (mt_state t)" using assms(1) by (simp add: mt_inv_def)
  then have d: "distinct (map fst (mt_trees t))" and v: "1 \<le> ?v" using nextVersion_pos by (auto simp: ms_inv_def)
  have old: "old = map_of (mt_trees t)" using TreeByName_iff [OF assms(1)] assms(4) by auto
  have new: "new = map_of l" if "r = Inr ()"
  proof -
    have "spec_upgrades [u] (mt_state t) = (Inr (), mt_state t')"
      using ApplyUpgrades_spec [of ops "[u]" t] assms(3) that by (simp add: prod_eq_iff)
    then have "mt_inv t'" unfolding mt_inv_def using assms(2) by (intro spec_upgrades_inv [OF ms]) auto
    then have "TreeByName n t' = map_of l n" for n using TreeByName_iff [of t' n] by (simp add: t')
    then show ?thesis using assms(5) by auto
  qed
  show ?thesis
  proof (cases "up_Delete u")
    case True
    then show ?thesis using upgrade_delete [OF d True, of fresh] u old new by (auto split: option.splits)
  next
    case del: False
    show ?thesis
    proof (cases "up_RenameFrom u = []")
      case True
      obtain tree where f: "fresh = Inr tree" "t_root tree = None" "tree_Version tree = ?v - 1"
        using fresh_tree [OF v assms(2)] fresh_def by blast
      then have "tree_view tree = []" "tree_Version tree = ?v - 1" by (simp_all add: tree_view_def)
      then show ?thesis using upgrade_add [OF d del True f(1)] u old new del True by (auto split: option.splits)
    next
      case False
      show ?thesis
        using upgrade_rename [OF d del refl False refl, of fresh] u old new del False
        by (auto split: option.splits if_splits)
    qed
  qed
qed

theorem ApplyUpgrades_single_witness:
  "fst (ApplyUpgrades lru_ops [add_bank] mt0) = Inr () \<and>
   (\<exists>tree. TreeByName ''bank'' (snd (ApplyUpgrades lru_ops [add_bank] mt0)) = Some tree \<and> tree_Version tree = 9)"
proof -
  obtain r t' where u: "ApplyUpgrades lru_ops [add_bank] mt0 = (r, t')" by force
  have "TreeByName ''bank'' mt0 = None" by (simp add: TreeByName_iff [OF mt0_inv] mt0_versions)
  then show ?thesis
    using ApplyUpgrades_single [OF mt0_inv _ u refl refl] mt0_versions u by (auto simp: add_bank_def fun_eq_iff)
qed

text \<open>
  C35: versions and indices of the log correspond. From the initial version on, the index of a version and the
  version of an index are inverse to each other, without wrapping; the first version has index 1 and
  consecutive versions have consecutive indices.
\<close>

theorem walIndex_walVersion:
  assumes "int (unat iv) \<le> v" and "0 < v" and "v < 2 ^ 63"
  shows "walVersion (walIndex v iv) iv = v \<and>
    int (unat (walIndex v iv)) = (if iv > 1 then v - int (unat iv) + 1 else v) \<and>
    walIndex (nextVersion 0 iv) iv = 1 \<and> walIndex (nextVersion v iv) iv = walIndex v iv + 1"
proof (intro conjI)
  have big: "int64 v" using assms(2,3) by (simp add: int64_def)
  show "walVersion (walIndex v iv) iv = v"
    using sint_int64 [OF big] by (simp add: walVersion_def walIndex_def)
  define x where "x = (if iv > 1 then v - int (unat iv) + 1 else v)"
  have "0 \<le> x" "x \<le> v" using assms(1,2) unfolding x_def word_less_nat_alt by (auto simp del: of_nat_unat)
  then obtain n where n: "x = int n" "n < 2 ^ 64" using assms(3) zero_le_imp_eq_int [of x] by auto
  have "walIndex v iv = word_of_int x" by (simp add: walIndex_def x_def)
  then have "int (unat (walIndex v iv)) = x" unfolding n(1) using n(2) by (simp add: unat_u64 del: of_nat_unat)
  then show "int (unat (walIndex v iv)) = (if iv > 1 then v - int (unat iv) + 1 else v)" unfolding x_def .
  show "walIndex (nextVersion 0 iv) iv = 1" by (simp add: walIndex_def nextVersion_def)
  show "walIndex (nextVersion v iv) iv = walIndex v iv + 1" using assms(2) by (simp add: walIndex_def nextVersion_def)
qed

theorem walIndex_walVersion_witness: "walVersion (walIndex 12 10) 10 = 12 \<and> int (unat (walIndex 12 10)) = 3"
  using walIndex_walVersion [of 10 12] by simp

text \<open>
  C11: a snapshot of a committed multi-tree loads back to it. An undisturbed write succeeds; a write that
  succeeds although other tasks were cancelled around it gives the same files, never partial ones; and
  loading them passes the comparison with the metadata and gives a multi-tree with the same visible state,
  that is the same versions, names and nodes, and the same commit info.
\<close>

theorem multiTree_snapshot_roundtrip:
  assumes "writable t"
  shows "\<exists>dir t'. WriteSnapshotWithContext (\<lambda>_. Some (\<lambda>_. False)) False t = Inr dir \<and>
    (\<forall>sched canceled dir'. WriteSnapshotWithContext sched canceled t = Inr dir' \<longrightarrow> dir' = dir) \<and>
    LoadMultiTree ops zeroCopy cacheSize chainId dir = Inr t' \<and> mt_state t' = mt_state t \<and>
    mt_lastCommitInfo t' = mt_lastCommitInfo t"
proof -
  obtain dir t' where r: "WriteSnapshotWithContext (\<lambda>_. Some (\<lambda>_. False)) False t = Inr dir"
    "LoadMultiTree ops zeroCopy cacheSize chainId dir = Inr t'" "mt_state t' = mt_state t"
    "mt_lastCommitInfo t' = mt_lastCommitInfo t"
    using mt_snapshot_reload [OF assms, of ops zeroCopy cacheSize chainId] by blast
  moreover have "dir' = dir" if "WriteSnapshotWithContext sched canceled t = Inr dir'" for sched canceled dir'
    using WriteSnapshot_undisturbed [OF that] r(1) by simp
  ultimately show ?thesis by blast
qed

definition bank_entry :: walEntry where
  "bank_entry = \<lparr>we_Changesets = [\<lparr>ncs_Changeset = [\<lparr>kv_delete = False, kv_key = [1], kv_value = Some [2]\<rparr>],
     ncs_Name = ''bank''\<rparr>], we_Upgrades = [add_bank]\<rparr>"

definition mt1 :: "lru multiTree" where
  "mt1 = snd (commits lru_ops [bank_entry] mt0)"

definition ms1 :: mstate where
  "ms1 = \<lparr>ms_initial = 10, ms_version = 10, ms_index = [''bank'' \<mapsto> 0],
     ms_trees = [(''bank'', (10, Some (Leaf (Mem None) 10 [1] [2])))]\<rparr>"

lemma bank_run: "spec_run [bank_entry] (mt_state mt0) = (Inr (), ms1)"
proof -
  have s0: "mt_state mt0 = \<lparr>ms_initial = 10, ms_version = 0, ms_index = Map.empty, ms_trees = []\<rparr>"
    by (simp add: mt_state_def mt0_def NewEmptyMultiTree_def mt_Version_def)
  have up: "spec_upgrades [add_bank] (mt_state mt0) =
      (Inr (), \<lparr>ms_initial = 10, ms_version = 0, ms_index = [''bank'' \<mapsto> 0], ms_trees = [(''bank'', (9, None))]\<rparr>)"
    by (simp add: s0 spec_upgrades_def upgrade_trees_def upgrade_step_def add_bank_def spec_fresh_def nextVersion_def
        word_le_nat_alt del: fun_upd_apply)
  have "spec_entry bank_entry (mt_state mt0) = (Inr (), \<lparr>ms_initial = 10, ms_version = 0, ms_index = [''bank'' \<mapsto> 0],
      ms_trees = [(''bank'', (9, Some (Leaf (Mem None) 10 [1] [2])))]\<rparr>)"
    by (simp add: spec_entry_def bank_entry_def up spec_change_def state_changes_def state_pair_def nonnil_def newLeafNode_def)
  then show ?thesis by (simp add: spec_save_def nextVersion_def ms1_def)
qed

lemma mt1_commits: "commits lru_ops [bank_entry] mt0 = (Inr (), mt1)" "mt_state mt1 = ms1"
  using commits_spec [of lru_ops "[bank_entry]" mt0] bank_run by (simp_all add: mt1_def prod_eq_iff del: commits.simps)

lemma roomy_mt0: "roomy k mt0"
  by (simp add: roomy_def mt0_versions)

lemma mt1_clean: "clean mt1" "roomy 0 mt1"
  using commits_info [of "[bank_entry]" mt0 lru_ops mt1] roomy_commits [of "[bank_entry]" 0 mt0 lru_ops] mt1_commits roomy_mt0
  by (simp_all add: clean_def entry_size_def bank_entry_def del: commits.simps)

lemma mt1_tree: "\<exists>tree rp. mt_trees mt1 = [(''bank'', tree)] \<and> t_version tree = 10 \<and> t_root tree = Some (Leaf rp 10 [1] [2])"
proof -
  have "map (over tree_state) (mt_trees mt1) = [(''bank'', (10, Some (Leaf (Mem None) 10 [1] [2])))]"
    using arg_cong [OF mt1_commits(2), of ms_trees] by (simp add: ms1_def)
  then obtain tree where t: "mt_trees mt1 = [(''bank'', tree)]" "tree_state tree = (10, Some (Leaf (Mem None) 10 [1] [2]))"
    by (cases "mt_trees mt1") (auto simp: over_def)
  then obtain r where "t_root tree = Some r" "strip r = Leaf (Mem None) 10 [1] [2]" "t_version tree = 10"
    by (auto simp: tree_state_def)
  then show ?thesis using t(1) by (cases r) auto
qed

lemma mt1_versions: "mt_Version mt1 = 10" "mt_initialVersion mt1 = 10"
  using arg_cong [OF mt1_commits(2), of ms_version] arg_cong [OF mt1_commits(2), of ms_initial] by (simp_all add: ms1_def)

lemma mt1_writable: "writable mt1"
proof -
  obtain tree rp where t: "mt_trees mt1 = [(''bank'', tree)]" "t_version tree = 10" "t_root tree = Some (Leaf rp 10 [1] [2])"
    using mt1_tree by blast
  have "mt_inv mt1"
    unfolding mt_inv_def mt1_commits(2) by (simp add: ms1_def ms_inv_def index_map_def nextVersion_def)
  moreover have "storable (t_root tree)"
    using mt1_clean(2) t by (simp add: storable_def roomy_def fits_def kv_size_def)
  moreover have "mt_lastCommitInfo mt1 = \<lparr>ci_Version = 10, ci_StoreInfos = [\<lparr>si_Name = ''bank'',
      si_CommitId = \<lparr>cid_Version = 10, cid_Hash = merkle (Leaf (Mem None) 10 [1] [2])\<rparr>\<rparr>]\<rparr>"
    using mt1_clean(1) unfolding clean_def mt1_commits(2) mt1_versions by (simp add: ms1_def spec_info_def root_merkle_def)
  then have "length (MultiTreeMetadata_Marshal (metadata_of mt1)) < 1000"
    by (simp add: metadata_of_def mt1_versions MultiTreeMetadata_Marshal_def CommitInfo_Marshal_def StoreInfo_Marshal_def
        CommitID_Marshal_def pb_repeated_def pb_msg_def pb_bytes_def pb_int_def PutUvarint_def put_uvarint_small string_bytes_def)
  ultimately show ?thesis using mt1_clean(1) t(1) mt1_versions by (simp add: writable_def)
qed

theorem multiTree_snapshot_roundtrip_witness:
  "\<exists>dir t'. WriteSnapshotWithContext (\<lambda>_. Some (\<lambda>_. False)) False mt1 = Inr dir \<and>
     LoadMultiTree lru_ops True 0 ''chain'' dir = Inr t' \<and> mt_state t' = ms1"
  using multiTree_snapshot_roundtrip [OF mt1_writable, of lru_ops True 0 "''chain''"] mt1_commits(2) by auto

text \<open>
  C5: recovery from the log is exact. A node commits a sequence of entries on a multi-tree and appends each to
  its log; a multi-tree in the old state, for instance loaded from a snapshot, then catches up. It ends in
  the state the node had after these entries, with the same commit info and so the same app hash, for a
  target version as well as for the end of the log. This holds for every log that keeps the laws of a log.
\<close>

theorem catchupWAL_recovers:
  assumes "wal_log rd winv wfirst wentries" and "winv w" and "mt_inv t0"
    and "commits ops es t0 = (Inr (), t1)" and "mt_state t = mt_state t0"
    and "mt_lastCommitInfo t = mt_lastCommitInfo t0"
    and "roomy (sum_list (map entry_size es)) t0" and "roomy (sum_list (map entry_size es)) t"
    and "sum_list (map entry_size es) < 2 ^ 63" and "\<forall>e \<in> set es. length (WALEntry_Marshal e) < 2 ^ 63"
    and "first = unat (walIndex (nextVersion (mt_Version t0) (mt_initialVersion t0)) (mt_initialVersion t0))"
    and "wfirst w \<le> first" and "drop (first - wfirst w) (wentries w) = map WALEntry_Marshal es @ rest"
    and "endVersion = 0 \<and> rest = [] \<or> endVersion = mt_Version t1 \<and> es \<noteq> []"
  shows "\<exists>w' t'. catchupWAL ops rd endVersion w t = (Inr (), w', t') \<and> mt_state t' = mt_state t1 \<and>
    mt_lastCommitInfo t' = mt_lastCommitInfo t1"
proof -
  have eq: "mt_Version t = mt_Version t0" "mt_initialVersion t = mt_initialVersion t0"
    using arg_cong [OF assms(5), of ms_version] arg_cong [OF assms(5), of ms_initial] by simp_all
  have run: "spec_run es (mt_state t) = (Inr (), mt_state t1)"
    using commits_spec [of ops es t0] assms(4,5) by (simp add: prod_eq_iff)
  have "0 \<le> mt_Version t" using assms(3) eq by (simp add: mt_inv_def ms_inv_def)
  then obtain w' t' where c: "catchupWAL ops rd endVersion w t = (Inr (), w', t')" "mt_state t' = mt_state t1"
    "if es = [] then t' = t else mt_lastCommitInfo t' = spec_info (mt_Version t') (mt_state t1)"
    using wal_log.catchupWAL_spec [OF assms(1,2), of t first es rest 0 "mt_state t1" endVersion ops] assms eq run by auto
  have "mt_Version t' = mt_Version t1" using arg_cong [OF c(2), of ms_version] by simp
  then have "mt_lastCommitInfo t' = mt_lastCommitInfo t1"
    using c(3) commits_info [OF assms(7,9,4)] assms(4,6) by (cases "es = []") auto
  then show ?thesis using c by blast
qed

theorem catchupWAL_recovers_witness:
  "\<exists>w' t'. catchupWAL lru_ops log_reader 0 \<lparr>lg_first = 1, lg_entries = [WALEntry_Marshal bank_entry]\<rparr> mt0 = (Inr (), w', t') \<and>
     mt_state t' = ms1 \<and> mt_lastCommitInfo t' = mt_lastCommitInfo mt1"
proof -
  let ?w = "\<lparr>lg_first = 1, lg_entries = [WALEntry_Marshal bank_entry]\<rparr>"
  have first: "1 = unat (walIndex (nextVersion (mt_Version mt0) (mt_initialVersion mt0)) (mt_initialVersion mt0))"
    by (simp add: mt0_versions walIndex_def)
  have small: "length (WALEntry_Marshal bank_entry) < 2 ^ 63"
    by (simp add: bank_entry_def add_bank_def WALEntry_Marshal_def NamedChangeSet_Marshal_def ChangeSet_Marshal_def KVPair_Marshal_def
        TreeNameUpgrade_Marshal_def pb_repeated_def pb_msg_def pb_bytes_def pb_int_def pb_bool_def PutUvarint_def
        put_uvarint_small string_bytes_def nonnil_def)
  have "\<exists>w' t'. catchupWAL lru_ops log_reader 0 ?w mt0 = (Inr (), w', t') \<and> mt_state t' = mt_state mt1 \<and>
      mt_lastCommitInfo t' = mt_lastCommitInfo mt1"
    by (rule catchupWAL_recovers [OF mem.wal_log_axioms _ mt0_inv mt1_commits(1) refl refl roomy_mt0 roomy_mt0 _ _ first, of ?w "[]"])
      (use small in \<open>simp_all add: log_inv_def entry_size_def bank_entry_def\<close>)
  then show ?thesis unfolding mt1_commits(2) .
qed

lemma join_results_Inl: "join_results rs = Inl e \<Longrightarrow> Inl e \<in> set rs"
  by (induction rs) (auto simp: rbind_def rmap_def split: sum.splits)

lemma RunWorkerGroup_Inl:
  assumes "RunWorkerGroup sched labels f = Inl e"
  obtains i where "i < length labels" and "task_result sched f labels i = Inl e"
  using join_results_Inl [OF assms [unfolded RunWorkerGroup_def]] by auto

lemma task_result_Inl:
  assumes "task_result sched f labels i = Inl e"
  shows "e \<noteq> Panic msg"
    and "sched i = None \<and> e = Canceled \<or>
      (\<exists>ctx. sched i = Some ctx \<and> (f ctx i = Inl e \<or>
        (\<exists>msg. f ctx i = Inl (Panic msg) \<and> e = AnyError (''panic in worker task '' @ labels ! i))))"
  using assms by (auto simp: task_result_def runWorkerTask_def split: option.splits sum.splits gerror.splits)

text \<open>
  C36: a group of tasks fails as a whole when any part of it fails, and never blames a task that was fine. If the
  group succeeds, every task ran to its end and its result is in its place. If it fails, its error is that of
  a task that was skipped or failed. A task that panics makes the group fail, and the panic reaches the caller
  only as an error that names the task: the group itself never panics. If the caller does not cancel and no
  task fails on its own, then the group succeeds under every possible schedule.
\<close>

theorem RunWorkerGroup_correct:
  assumes "sched_possible canceled sched f labels order"
  shows "(\<forall>xs. RunWorkerGroup sched labels f = Inr xs \<longrightarrow> length xs = length labels \<and>
      (\<forall>i < length labels. \<exists>ctx. sched i = Some ctx \<and> f ctx i = Inr (xs ! i))) \<and>
    (\<forall>e. RunWorkerGroup sched labels f = Inl e \<longrightarrow> (\<forall>msg. e \<noteq> Panic msg) \<and>
      (\<exists>i < length labels. sched i = None \<and> e = Canceled \<or>
        (\<exists>ctx. sched i = Some ctx \<and> (f ctx i = Inl e \<or>
          (\<exists>msg. f ctx i = Inl (Panic msg) \<and> e = AnyError (''panic in worker task '' @ labels ! i)))))) \<and>
    (\<forall>i ctx msg. i < length labels \<and> sched i = Some ctx \<and> f ctx i = Inl (Panic msg) \<longrightarrow>
      (\<exists>e. RunWorkerGroup sched labels f = Inl e)) \<and>
    (\<not> canceled \<and> (\<forall>i < length labels. \<exists>x. f (\<lambda>_. False) i = Inr x) \<longrightarrow> (\<exists>xs. RunWorkerGroup sched labels f = Inr xs))"
proof (intro conjI allI impI)
  fix e msg
  assume "RunWorkerGroup sched labels f = Inl e"
  then obtain i where "i < length labels" and e: "task_result sched f labels i = Inl e" by (rule RunWorkerGroup_Inl)
  then show "\<exists>i < length labels. sched i = None \<and> e = Canceled \<or>
      (\<exists>ctx. sched i = Some ctx \<and> (f ctx i = Inl e \<or>
        (\<exists>msg. f ctx i = Inl (Panic msg) \<and> e = AnyError (''panic in worker task '' @ labels ! i))))"
    using task_result_Inl(2) [OF e] by blast
  show "e \<noteq> Panic msg" using task_result_Inl(1) [OF e] by blast
next
  fix i ctx msg
  assume i: "i < length labels \<and> sched i = Some ctx \<and> f ctx i = Inl (Panic msg)"
  then have "RunWorkerGroup sched labels f \<noteq> Inr xs" for xs by (auto simp: RunWorkerGroup_Inr)
  then show "\<exists>e. RunWorkerGroup sched labels f = Inl e" by (cases "RunWorkerGroup sched labels f") auto
next
  assume ok: "\<not> canceled \<and> (\<forall>i < length labels. \<exists>x. f (\<lambda>_. False) i = Inr x)"
  have order: "distinct order" "set order = {..<length labels}" using assms by (auto simp: sched_possible_def)
  have calm: "sched (order ! k) = Some (\<lambda>_. False)" if "k < length order" for k
    using that
  proof (induction k rule: less_induct)
    case (less k)
    show ?case
    proof (rule ccontr)
      assume "sched (order ! k) \<noteq> Some (\<lambda>_. False)"
      then obtain j e where j: "j < k" "task_result sched f labels (order ! j) = Inl e"
        using assms ok less.prems unfolding sched_possible_def sees_done_def by blast
      then have "order ! j < length labels" using order(2) less.prems by (metis lessThan_iff less_trans nth_mem)
      then obtain x where "f (\<lambda>_. False) (order ! j) = Inr x" using ok by blast
      then show False using j less.IH [of j] less.prems by (simp add: task_result_def runWorkerTask_def)
    qed
  qed
  have "sched i = Some (\<lambda>_. False)" if "i < length labels" for i
    using that order(2) calm by (metis in_set_conv_nth lessThan_iff)
  then have "\<exists>x. task_result sched f labels i = Inr x" if "i < length labels" for i
    using ok that by (fastforce simp: task_result_def runWorkerTask_def)
  then obtain g where "\<forall>i < length labels. task_result sched f labels i = Inr (g i)" by metis
  then have "RunWorkerGroup sched labels f = Inr (map g [0..<length labels])"
    unfolding RunWorkerGroup_def join_results_Inr by simp
  then show "\<exists>xs. RunWorkerGroup sched labels f = Inr xs" by blast
qed (auto simp: RunWorkerGroup_Inr)

theorem RunWorkerGroup_correct_witness:
  "(\<exists>xs. RunWorkerGroup (\<lambda>_. Some (\<lambda>_. False)) [''a'', ''b''] (\<lambda>ctx i. if ctx 0 then Inl Canceled else Inr i) = Inr (xs :: nat list)) \<and>
   (\<exists>e. RunWorkerGroup (\<lambda>_. Some (\<lambda>_. False)) [''a'', ''b''] (\<lambda>ctx i. if i = 1 then Inl (Panic ''nil map'') else Inr i) =
      (Inl e :: nat list result) \<and> (\<forall>msg. e \<noteq> Panic msg))"
proof -
  have "sched_possible False (\<lambda>_. Some (\<lambda>_. False)) (\<lambda>ctx i. if ctx 0 then Inl Canceled else Inr i) [''a'', ''b''] [1, 0]"
    by (auto simp: sched_possible_def sees_done_def)
  note 1 = RunWorkerGroup_correct [OF this]
  let ?f = "\<lambda>(ctx :: ctx_view) i :: nat. if i = 1 then Inl (Panic ''nil map'') else Inr i"
  have "sched_possible False (\<lambda>_. Some (\<lambda>_. False)) ?f [''a'', ''b''] [1, 0]"
    by (auto simp: sched_possible_def sees_done_def)
  note 2 = RunWorkerGroup_correct [OF this]
  have "\<exists>e. RunWorkerGroup (\<lambda>_. Some (\<lambda>_. False)) [''a'', ''b''] ?f = Inl e"
    using 2 [THEN conjunct2, THEN conjunct2, THEN conjunct1, rule_format, of 1 "\<lambda>_. False" "''nil map''"] by simp
  then show ?thesis using 1 2 [THEN conjunct2, THEN conjunct1] by auto
qed

end
