(* ===== verification/DB.thy ===== *)
theory DB
  imports MultiTreeSpec
begin

text \<open>
  \<^verbatim>\<open>memiavl/db.go\<close>: the database on top of the multi-tree. Its directory holds snapshots, the link \<^verbatim>\<open>current\<close> and the
  write-ahead log. Changes are collected in a pending log entry, a commit saves a version and writes the entry
  to the log, at once or through a queue that a goroutine drains; snapshots are rewritten in the background
  and pruned. The methods run under a mutex, so a method is one step; the goroutines are steps of their own.

  The package \<^verbatim>\<open>tidwall/wal\<close> is an argument. Input/output errors of the disk are not modelled; errors that
  the state of the directory causes are.
\<close>

section \<open>Names\<close>

definition SnapshotPrefix :: string where "SnapshotPrefix = ''snapshot-''"
definition SnapshotDirLen :: nat where "SnapshotDirLen = length SnapshotPrefix + 20"
definition TmpSuffix :: string where "TmpSuffix = ''-tmp''"
definition DefaultSnapshotInterval :: u32 where "DefaultSnapshotInterval = 1000"
definition DefaultSnapshotWriterLimit :: int where "DefaultSnapshotWriterLimit = 4"
definition walCatchupTimeout :: nat where "walCatchupTimeout = 5000000000"

text \<open>The decimal digits of a number, and \<^verbatim>\<open>fmt.Sprintf("%020d", v)\<close>: zeros up to a width of 20, after the sign.\<close>

definition digit :: "nat \<Rightarrow> char" where
  "digit d = char_of (48 + d)"

fun digits :: "nat \<Rightarrow> string" where
  "digits n = (if n < 10 then [digit n] else digits (n div 10) @ [digit (n mod 10)])"

declare digits.simps [simp del]

definition pad_zeros :: "nat \<Rightarrow> string \<Rightarrow> string" where
  "pad_zeros w s = replicate (w - length s) (digit 0) @ s"

definition fmt_020d :: "int \<Rightarrow> string" where
  "fmt_020d v = (if v < 0 then CHR ''-'' # pad_zeros 19 (digits (nat (- v))) else pad_zeros 20 (digits (nat v)))"

definition snapshotName :: "int \<Rightarrow> string" where
  "snapshotName version = SnapshotPrefix @ fmt_020d version"

definition isSnapshotName :: "string \<Rightarrow> bool" where
  "isSnapshotName name \<longleftrightarrow> take (length SnapshotPrefix) name = SnapshotPrefix \<and> length name = SnapshotDirLen"

text \<open>\<^verbatim>\<open>strconv.ParseInt(s, 10, 32)\<close>\<close>

definition ParseInt32 :: "string \<Rightarrow> int option" where
  "ParseInt32 s =
     (let neg = (s \<noteq> [] \<and> hd s = CHR ''-'');
          d = (if s \<noteq> [] \<and> hd s \<in> {CHR ''-'', CHR ''+''} then tl s else s)
      in if d = [] \<or> \<not> list_all is_digit d then None
         else if neg then (if decimal d \<le> 2 ^ 31 then Some (- int (decimal d)) else None)
         else (if decimal d < 2 ^ 31 then Some (int (decimal d)) else None))"

abbreviation SnapshotNameInvalid :: gerror where "SnapshotNameInvalid \<equiv> AnyError ''invalid snapshot name''"
abbreviation SnapshotVersionOverflow :: gerror where "SnapshotVersionOverflow \<equiv> AnyError ''snapshot version overflows''"

definition parseVersion :: "string \<Rightarrow> int result" where
  "parseVersion name =
     (if \<not> isSnapshotName name then Inl SnapshotNameInvalid
      else case ParseInt32 (drop (length SnapshotPrefix) name) of
        None \<Rightarrow> Inl SnapshotVersionOverflow
      | Some v \<Rightarrow> Inr v)"

section \<open>The directory\<close>

text \<open>
  The lock, the target of the link \<^verbatim>\<open>current\<close> and of its temporary predecessor, the subdirectories with what they
  hold, and the files of the log.
\<close>

record db_fs =
  fs_locked :: bool
  fs_current :: "string option"
  fs_currentTmp :: "string option"
  fs_dirs :: "(string \<times> snapshot_dir) list"
  fs_wal :: wal_dir

abbreviation ErrExist :: gerror where "ErrExist \<equiv> AnyError ''file exists''"

definition empty_dir :: snapshot_dir where
  "empty_dir = \<lparr>sd_metadata = None, sd_stores = []\<rparr>"

definition get_dir :: "string \<Rightarrow> db_fs \<Rightarrow> snapshot_dir" where
  "get_dir name fs = (case map_of (fs_dirs fs) name of None \<Rightarrow> empty_dir | Some d \<Rightarrow> d)"

text \<open>The directory that the link leads to; what is not there reads as empty.\<close>

definition current_dir :: "db_fs \<Rightarrow> snapshot_dir" where
  "current_dir fs = (case fs_current fs of None \<Rightarrow> empty_dir | Some name \<Rightarrow> get_dir name fs)"

definition put_dir :: "string \<Rightarrow> snapshot_dir \<Rightarrow> db_fs \<Rightarrow> db_fs" where
  "put_dir name d fs = fs\<lparr>fs_dirs := AList.update name d (fs_dirs fs)\<rparr>"

definition remove_dir :: "string \<Rightarrow> db_fs \<Rightarrow> db_fs" where
  "remove_dir name fs = fs\<lparr>fs_dirs := AList.delete name (fs_dirs fs)\<rparr>"

text \<open>\<^verbatim>\<open>os.Rename\<close> of a directory never replaces another one, not even an empty one.\<close>

definition rename_dir :: "string \<Rightarrow> string \<Rightarrow> db_fs \<Rightarrow> unit result \<times> db_fs" where
  "rename_dir a b fs =
     (case map_of (fs_dirs fs) a of
        None \<Rightarrow> (Inl ErrNotExist, fs)
      | Some d \<Rightarrow> if map_of (fs_dirs fs) b \<noteq> None then (Inl ErrExist, fs) else (Inr (), put_dir b d (remove_dir a fs)))"

text \<open>The names that \<^verbatim>\<open>os.ReadDir\<close> returns, of the subdirectories.\<close>

definition read_dir :: "db_fs \<Rightarrow> string list" where
  "read_dir fs = sort (map fst (fs_dirs fs))"

text \<open>Operations as sequences of steps on the directory; a crash leaves the directory between two steps.\<close>

type_synonym disk_step = "db_fs \<Rightarrow> unit result \<times> db_fs"

fun run_steps :: "disk_step list \<Rightarrow> disk_step" where
  "run_steps [] fs = (Inr (), fs)"
| "run_steps (s # ss) fs = (case s fs of (Inl e, fs') \<Rightarrow> (Inl e, fs') | (Inr _, fs') \<Rightarrow> run_steps ss fs')"

definition symlink_tmp :: "string \<Rightarrow> disk_step" where
  "symlink_tmp snapshot fs =
     (if fs_currentTmp fs \<noteq> None then (Inl ErrExist, fs) else (Inr (), fs\<lparr>fs_currentTmp := Some snapshot\<rparr>))"

definition rename_tmp :: disk_step where
  "rename_tmp fs =
     (if fs_currentTmp fs = None then (Inl ErrNotExist, fs)
      else (Inr (), fs\<lparr>fs_current := fs_currentTmp fs, fs_currentTmp := None\<rparr>))"

definition updateCurrentSymlink :: "string \<Rightarrow> disk_step" where
  "updateCurrentSymlink snapshot = run_steps [symlink_tmp snapshot, rename_tmp]"

definition atomicRemoveDir :: "string \<Rightarrow> disk_step" where
  "atomicRemoveDir name =
     run_steps [rename_dir name (name @ TmpSuffix), \<lambda>fs. (Inr (), remove_dir (name @ TmpSuffix) fs)]"

definition removeTmpDirs :: "db_fs \<Rightarrow> db_fs" where
  "removeTmpDirs fs = fs\<lparr>fs_dirs := filter (\<lambda>(name, d). \<not> has_suffix name TmpSuffix) (fs_dirs fs)\<rparr>"

section \<open>Traversing the snapshots\<close>

text \<open>A callback returns whether to stop, and changes the state it works on.\<close>

fun traverse_names ::
  "(int \<Rightarrow> 's \<Rightarrow> bool result \<times> 's) \<Rightarrow> string list \<Rightarrow> 's \<Rightarrow> unit result \<times> 's" where
  "traverse_names callback [] s = (Inr (), s)"
| "traverse_names callback (name # names) s =
     (if \<not> isSnapshotName name then traverse_names callback names s
      else case parseVersion name of
        Inl e \<Rightarrow> (Inl e, s)
      | Inr version \<Rightarrow>
          (case callback version s of
             (Inl e, s') \<Rightarrow> (Inl e, s')
           | (Inr stop, s') \<Rightarrow> if stop then (Inr (), s') else traverse_names callback names s'))"

definition traverseSnapshots ::
  "db_fs \<Rightarrow> bool \<Rightarrow> (int \<Rightarrow> 's \<Rightarrow> bool result \<times> 's) \<Rightarrow> 's \<Rightarrow> unit result \<times> 's" where
  "traverseSnapshots fs ascending callback s =
     traverse_names callback (if ascending then read_dir fs else rev (read_dir fs)) s"

definition seekSnapshot :: "db_fs \<Rightarrow> u32 \<Rightarrow> int result" where
  "seekSnapshot fs targetVersion =
     (case traverseSnapshots fs False
         (\<lambda>version s. if version \<le> int (unat targetVersion) then (Inr True, Some version) else (Inr False, s)) None of
        (Inl e, _) \<Rightarrow> Inl e
      | (Inr _, None) \<Rightarrow> Inl TargetPruned
      | (Inr _, Some version) \<Rightarrow> Inr version)"

abbreviation ErrEmptyDB :: gerror where "ErrEmptyDB \<equiv> AnyError ''empty memiavl db''"

definition firstSnapshotVersion :: "db_fs \<Rightarrow> int result" where
  "firstSnapshotVersion fs =
     (case traverseSnapshots fs True (\<lambda>version s. (Inr True, Some version)) None of
        (Inl e, _) \<Rightarrow> Inl e
      | (Inr _, None) \<Rightarrow> Inl ErrEmptyDB
      | (Inr _, Some version) \<Rightarrow> Inr version)"

definition currentVersion :: "db_fs \<Rightarrow> int result" where
  "currentVersion fs = (case fs_current fs of None \<Rightarrow> Inl ErrNotExist | Some name \<Rightarrow> parseVersion name)"

section \<open>Writing a snapshot\<close>

text \<open>Writing into a directory that is there keeps what is not overwritten.\<close>

definition overlay :: "snapshot_dir \<Rightarrow> snapshot_dir \<Rightarrow> snapshot_dir" where
  "overlay old new =
     \<lparr>sd_metadata = sd_metadata new,
      sd_stores = sort_key fst (sd_stores new @ filter (\<lambda>e. fst e \<notin> fst ` set (sd_stores new)) (sd_stores old))\<rparr>"

definition writeSnapshotWithLimit ::
  "(nat \<Rightarrow> ctx_view option) \<Rightarrow> bool \<Rightarrow> 'c multiTree \<Rightarrow> string \<Rightarrow> disk_step" where
  "writeSnapshotWithLimit sched canceled mtree name fs =
     (case WriteSnapshotWithContext sched canceled mtree of
        Inl e \<Rightarrow> (Inl e, fs)
      | Inr d \<Rightarrow> (Inr (), put_dir name (overlay (get_dir name fs) d) fs))"

text \<open>A write that fails is followed by \<^verbatim>\<open>os.RemoveAll\<close>.\<close>

definition rewrite_tmp :: "(nat \<Rightarrow> ctx_view option) \<Rightarrow> bool \<Rightarrow> 'c multiTree \<Rightarrow> string \<Rightarrow> disk_step" where
  "rewrite_tmp sched canceled mtree path fs =
     (case writeSnapshotWithLimit sched canceled mtree path fs of
        (Inl e, fs') \<Rightarrow> (Inl e, remove_dir path fs')
      | (Inr _, fs') \<Rightarrow> (Inr (), fs'))"

definition rewrite_steps :: "(nat \<Rightarrow> ctx_view option) \<Rightarrow> bool \<Rightarrow> 'c multiTree \<Rightarrow> disk_step list" where
  "rewrite_steps sched canceled mtree =
     (let snapshotDir = snapshotName (mt_Version mtree); tmpDir = snapshotDir @ TmpSuffix
      in [rewrite_tmp sched canceled mtree tmpDir, rename_dir tmpDir snapshotDir,
          symlink_tmp snapshotDir, rename_tmp])"

definition undisturbed :: "nat \<Rightarrow> ctx_view option" where
  "undisturbed i = Some (\<lambda>_. False)"

definition initEmptyDB :: "u32 \<Rightarrow> string \<Rightarrow> disk_step" where
  "initEmptyDB initialVersion chainId =
     run_steps [writeSnapshotWithLimit undisturbed False (NewEmptyMultiTree initialVersion 0 chainId :: unit multiTree) (snapshotName 0),
       updateCurrentSymlink (snapshotName 0)]"

definition createDBIfNotExist :: "u32 \<Rightarrow> string \<Rightarrow> disk_step" where
  "createDBIfNotExist initialVersion chainId fs =
     (if sd_metadata (current_dir fs) = None then initEmptyDB initialVersion chainId fs else (Inr (), fs))"

section \<open>The log\<close>

text \<open>
  What the code uses of \<^verbatim>\<open>tidwall/wal\<close>: the state of an open log with the files it has in that state.
\<close>

record 'w wal_pkg =
  wp_Open :: "wal_dir \<Rightarrow> 'w result \<times> wal_dir"
  wp_reader :: "'w wal_reader"
  wp_WriteBatch :: "(u64 \<times> bytes) list \<Rightarrow> 'w \<Rightarrow> unit result \<times> 'w"
  wp_TruncateFront :: "u64 \<Rightarrow> 'w \<Rightarrow> unit result \<times> 'w"
  wp_TruncateBack :: "u64 \<Rightarrow> 'w \<Rightarrow> unit result \<times> 'w"
  wp_Close :: "'w \<Rightarrow> unit result \<times> 'w"
  wp_files :: "'w \<Rightarrow> wal_dir"

text \<open>The reader of a database is a log opened for writing, which is then the writer too, or a read-only one.\<close>

datatype 'w wal_handle = ReadOnlyLog readOnlyWAL | WriteLog 'w

definition handle_reader :: "'w wal_pkg \<Rightarrow> wal_dir \<Rightarrow> 'w wal_handle wal_reader" where
  "handle_reader pkg dir =
     \<lparr>wr_FirstIndex = (\<lambda>h. case h of ReadOnlyLog l \<Rightarrow> ro_FirstIndex l | WriteLog w \<Rightarrow> wr_FirstIndex (wp_reader pkg) w),
      wr_LastIndex = (\<lambda>h. case h of ReadOnlyLog l \<Rightarrow> ro_LastIndex l | WriteLog w \<Rightarrow> wr_LastIndex (wp_reader pkg) w),
      wr_Read = (\<lambda>i h. case h of
          ReadOnlyLog l \<Rightarrow> apsnd ReadOnlyLog (ro_Read dir i l)
        | WriteLog w \<Rightarrow> apsnd WriteLog (wr_Read (wp_reader pkg) i w))\<rparr>"

definition handle_Close :: "'w wal_pkg \<Rightarrow> 'w wal_handle \<Rightarrow> unit result \<times> 'w wal_handle" where
  "handle_Close pkg h =
     (case h of ReadOnlyLog l \<Rightarrow> apsnd ReadOnlyLog (ro_Close l) | WriteLog w \<Rightarrow> apsnd WriteLog (wp_Close pkg w))"

section \<open>State\<close>

record options =
  o_CreateIfMissing :: bool
  o_InitialVersion :: u32
  o_ReadOnly :: bool
  o_InitialStores :: "string list"
  o_SnapshotKeepRecent :: u32
  o_SnapshotInterval :: u32
  o_TriggerStateSyncExport :: bool
  o_TargetVersion :: u32
  o_AsyncCommitBuffer :: int
  o_ZeroCopy :: bool
  o_CacheSize :: int
  o_LoadForOverwriting :: bool
  o_SnapshotWriterLimit :: int

text \<open>
  A pending change set is an object that both the pending log and the map of the cached ones point to; it is
  kept with its address.
\<close>

record pendingLog =
  pl_Changesets :: "(nat \<times> namedChangeSet) list"
  pl_Upgrades :: "treeNameUpgrade list"

record 'c snapshotResult =
  sr_mtree :: "'c multiTree option"
  sr_err :: "gerror option"

text \<open>How far a snapshot rewrite in the background is: its copy of the trees to write, written, or its result.\<close>

datatype 'c rewrite = Writing "'c multiTree" | Written "'c multiTree" | Ready "'c snapshotResult"

text \<open>
  The queue of the asynchronous writer holds what was sent and not yet written; \<open>db_walQuit\<close> says that the
  writer has ended. \<open>db_triggered\<close> collects the heights of the state-sync exports that were triggered.
\<close>

record ('c, 'w) db =
  db_MultiTree :: "'c multiTree"
  db_retired :: "'c multiTree option"
  db_dir :: db_fs
  db_fileLock :: bool
  db_readOnly :: bool
  db_rewrite :: "'c rewrite option"
  db_snapshotKeepRecent :: u32
  db_snapshotInterval :: u32
  db_pruning :: bool
  db_trigger :: bool
  db_triggered :: "int list"
  db_wal :: "'w wal_handle option"
  db_walChanSize :: int
  db_walChan :: "(u64 \<times> walEntry) list option"
  db_walQuit :: bool
  db_walErr :: "gerror option"
  db_catchupTimeout :: nat
  db_pendingLog :: pendingLog
  db_cached :: "(string \<rightharpoonup> nat) option"
  db_fresh :: nat
  db_snapshotWriterLimit :: int
  db_earliestSnapshotCache :: int

abbreviation ErrInvalidOptions :: gerror where "ErrInvalidOptions \<equiv> AnyError ''invalid options''"
abbreviation ErrLocked :: gerror where "ErrLocked \<equiv> AnyError ''fail to lock db''"

definition Validate :: "options \<Rightarrow> unit result" where
  "Validate opts =
     (if o_ReadOnly opts \<and> o_CreateIfMissing opts then Inl ErrInvalidOptions
      else if o_ReadOnly opts \<and> o_LoadForOverwriting opts then Inl ErrInvalidOptions
      else Inr ())"

definition FillDefaults :: "options \<Rightarrow> options" where
  "FillDefaults opts =
     opts\<lparr>o_SnapshotInterval := (if o_SnapshotInterval opts = 0 then DefaultSnapshotInterval else o_SnapshotInterval opts),
       o_SnapshotWriterLimit := (if o_SnapshotWriterLimit opts \<le> 0 then DefaultSnapshotWriterLimit else o_SnapshotWriterLimit opts)\<rparr>"

section \<open>The pending log\<close>

definition empty_pending :: pendingLog where
  "empty_pending = \<lparr>pl_Changesets = [], pl_Upgrades = []\<rparr>"

text \<open>The entry that a commit writes.\<close>

definition pending_entry :: "pendingLog \<Rightarrow> walEntry" where
  "pending_entry pl = \<lparr>we_Changesets = map snd (pl_Changesets pl), we_Upgrades = pl_Upgrades pl\<rparr>"

definition clearPendingChangesetMap :: "('c, 'w) db \<Rightarrow> ('c, 'w) db" where
  "clearPendingChangesetMap db =
     (if db_cached db \<noteq> None then db\<lparr>db_cached := Some Map.empty\<rparr> else db)"

definition rebuildPendingChangesetMap :: "(nat \<times> namedChangeSet) list \<Rightarrow> ('c, 'w) db \<Rightarrow> ('c, 'w) db" where
  "rebuildPendingChangesetMap changeSets db =
     db\<lparr>db_cached := Some (foldl (\<lambda>m (a, cs). m(ncs_Name cs \<mapsto> a)) Map.empty changeSets)\<rparr>"

text \<open>The change sets of a caller are objects with addresses of their own.\<close>

definition setPendingChangeSets :: "namedChangeSet list \<Rightarrow> ('c, 'w) db \<Rightarrow> ('c, 'w) db" where
  "setPendingChangeSets changeSets db =
     (let objs = zip [db_fresh db..<db_fresh db + length changeSets] changeSets;
          db1 = db\<lparr>db_pendingLog := (db_pendingLog db)\<lparr>pl_Changesets := objs\<rparr>, db_fresh := db_fresh db + length changeSets\<rparr>
      in if changeSets = [] then clearPendingChangesetMap db1 else rebuildPendingChangesetMap objs db1)"

definition ensurePendingChangesetMap :: "('c, 'w) db \<Rightarrow> ('c, 'w) db" where
  "ensurePendingChangesetMap db =
     (if pl_Changesets (db_pendingLog db) = [] then clearPendingChangesetMap db
      else if db_cached db \<noteq> None then db
      else rebuildPendingChangesetMap (pl_Changesets (db_pendingLog db)) db)"

definition insert_pending :: "nat \<times> namedChangeSet \<Rightarrow> (nat \<times> namedChangeSet) list \<Rightarrow> (nat \<times> namedChangeSet) list" where
  "insert_pending obj css =
     (let oldLen = length css; name = ncs_Name (snd obj) in
      if oldLen = 0 \<or> ncs_Name (snd (css ! (oldLen - 1))) < name then css @ [obj]
      else (let idx = sort_Search oldLen (\<lambda>i. ncs_Name (snd (css ! i)) \<ge> name)
            in take idx css @ [obj] @ drop idx css))"

definition insertPendingChangeSet :: "namedChangeSet \<Rightarrow> ('c, 'w) db \<Rightarrow> ('c, 'w) db" where
  "insertPendingChangeSet cs db =
     (let a = db_fresh db; m = (case db_cached db of None \<Rightarrow> Map.empty | Some m \<Rightarrow> m)
      in db\<lparr>db_cached := Some (m(ncs_Name cs \<mapsto> a)), db_fresh := Suc a,
            db_pendingLog := (db_pendingLog db)\<lparr>pl_Changesets := insert_pending (a, cs) (pl_Changesets (db_pendingLog db))\<rparr>\<rparr>)"

text \<open>\<^verbatim>\<open>existing.Changeset.Pairs = append(existing.Changeset.Pairs, ...)\<close>, through the pointer.\<close>

definition append_pairs :: "nat \<Rightarrow> changeset \<Rightarrow> (nat \<times> namedChangeSet) list \<Rightarrow> (nat \<times> namedChangeSet) list" where
  "append_pairs a pairs css =
     map (\<lambda>(a', cs). (a', if a' = a then cs\<lparr>ncs_Changeset := ncs_Changeset cs @ pairs\<rparr> else cs)) css"

definition merge_pending :: "string \<Rightarrow> changeset \<Rightarrow> ('c, 'w) db \<Rightarrow> ('c, 'w) db" where
  "merge_pending name changeSet db =
     (let db1 = ensurePendingChangesetMap db in
      case (case db_cached db1 of None \<Rightarrow> None | Some m \<Rightarrow> m name) of
        Some a \<Rightarrow> db1\<lparr>db_pendingLog := (db_pendingLog db1)
            \<lparr>pl_Changesets := append_pairs a changeSet (pl_Changesets (db_pendingLog db1))\<rparr>\<rparr>
      | None \<Rightarrow> insertPendingChangeSet \<lparr>ncs_Changeset = changeSet, ncs_Name = name\<rparr> db1)"

definition db_applyChangeSet ::
  "'c cache_ops \<Rightarrow> string \<Rightarrow> changeset \<Rightarrow> ('c, 'w) db \<Rightarrow> unit result \<times> ('c, 'w) db" where
  "db_applyChangeSet ops name changeSet db =
     (if changeSet = [] then (Inr (), db)
      else if db_readOnly db then (Inl ReadOnlyDB, db)
      else
        (let db1 = merge_pending name changeSet db;
             (r, t) = mt_ApplyChangeSet ops name changeSet (db_MultiTree db1)
         in (r, db1\<lparr>db_MultiTree := t\<rparr>)))"

definition db_ApplyChangeSet ::
  "'c cache_ops \<Rightarrow> string \<Rightarrow> changeset \<Rightarrow> ('c, 'w) db \<Rightarrow> unit result \<times> ('c, 'w) db" where
  "db_ApplyChangeSet ops name changeSet db =
     (if changeSet = [] then (Inr (), db) else db_applyChangeSet ops name changeSet db)"

fun apply_each ::
  "'c cache_ops \<Rightarrow> namedChangeSet list \<Rightarrow> ('c, 'w) db \<Rightarrow> unit result \<times> ('c, 'w) db" where
  "apply_each ops [] db = (Inr (), db)"
| "apply_each ops (cs # css) db =
     (case db_applyChangeSet ops (ncs_Name cs) (ncs_Changeset cs) db of
        (Inl e, db') \<Rightarrow> (Inl e, db')
      | (Inr _, db') \<Rightarrow> apply_each ops css db')"

definition db_ApplyChangeSets ::
  "'c cache_ops \<Rightarrow> namedChangeSet list \<Rightarrow> ('c, 'w) db \<Rightarrow> unit result \<times> ('c, 'w) db" where
  "db_ApplyChangeSets ops changeSets db =
     (if changeSets = [] then (Inr (), db)
      else if db_readOnly db then (Inl ReadOnlyDB, db)
      else if pl_Changesets (db_pendingLog db) = [] then
        (let db1 = setPendingChangeSets changeSets db;
             (r, t) = mt_ApplyChangeSets ops changeSets (db_MultiTree db1)
         in (r, db1\<lparr>db_MultiTree := t\<rparr>))
      else apply_each ops changeSets db)"

definition db_ApplyUpgrades ::
  "'c cache_ops \<Rightarrow> treeNameUpgrade list \<Rightarrow> ('c, 'w) db \<Rightarrow> unit result \<times> ('c, 'w) db" where
  "db_ApplyUpgrades ops upgrades db =
     (if db_readOnly db then (Inl ReadOnlyDB, db)
      else
        (case ApplyUpgrades ops upgrades (db_MultiTree db) of
           (Inl e, t) \<Rightarrow> (Inl e, db\<lparr>db_MultiTree := t\<rparr>)
         | (Inr _, t) \<Rightarrow>
             (Inr (), db\<lparr>db_MultiTree := t,
                db_pendingLog := (db_pendingLog db)\<lparr>pl_Upgrades := pl_Upgrades (db_pendingLog db) @ upgrades\<rparr>\<rparr>)))"

abbreviation ErrCommitted :: gerror where "ErrCommitted \<equiv> AnyError ''initial version can only be set before any commit''"

definition db_SetInitialVersion :: "int \<Rightarrow> ('c, 'w) db \<Rightarrow> unit result \<times> ('c, 'w) db" where
  "db_SetInitialVersion initialVersion db =
     (if db_readOnly db then (Inl ReadOnlyDB, db)
      else if mt_Version (db_MultiTree db) > 0 then (Inl ErrCommitted, db)
      else case mt_SetInitialVersion initialVersion (db_MultiTree db) of
        Inl e \<Rightarrow> (Inl e, db)
      | Inr t \<Rightarrow>
          (let (r, fs) = initEmptyDB (mt_initialVersion t) (mt_chainId t) (db_dir db)
           in (r, db\<lparr>db_MultiTree := t, db_dir := fs\<rparr>)))"

section \<open>Writing the log\<close>

abbreviation errAsyncWriterQuit :: gerror where "errAsyncWriterQuit \<equiv> AnyError ''async wal writing goroutine quit unexpectedly''"
abbreviation errSyncWALWrite :: gerror where "errSyncWALWrite \<equiv> AnyError ''sync wal write failed''"

definition latchWalErr :: "gerror \<Rightarrow> ('c, 'w) db \<Rightarrow> ('c, 'w) db" where
  "latchWalErr e db = (if db_walErr db = None then db\<lparr>db_walErr := Some e\<rparr> else db)"

definition walError :: "('c, 'w) db \<Rightarrow> unit result" where
  "walError db = (case db_walErr db of None \<Rightarrow> Inr () | Some e \<Rightarrow> Inl e)"

definition writeEntry :: "u64 \<Rightarrow> u64 \<times> walEntry \<Rightarrow> (u64 \<times> bytes) list \<Rightarrow> (u64 \<times> bytes) list" where
  "writeEntry lastIndex entry batch =
     (if fst entry \<le> lastIndex then batch else batch @ [(fst entry, WALEntry_Marshal (snd entry))])"

definition write_entries :: "'w wal_pkg \<Rightarrow> (u64 \<times> walEntry) list \<Rightarrow> 'w \<Rightarrow> unit result \<times> 'w" where
  "write_entries pkg entries w =
     (case wr_LastIndex (wp_reader pkg) w of
        Inl e \<Rightarrow> (Inl e, w)
      | Inr lastIndex \<Rightarrow> wp_WriteBatch pkg (fold (writeEntry lastIndex) entries []) w)"

definition writeWALSync :: "'w wal_pkg \<Rightarrow> u64 \<times> walEntry \<Rightarrow> 'w \<Rightarrow> unit result \<times> 'w" where
  "writeWALSync pkg entry w = write_entries pkg [entry] w"

text \<open>
  \<^verbatim>\<open>channelBatchRecv\<close> takes the first item and the \<open>remaining\<close> ones that are buffered at that moment.
\<close>

definition channelBatchRecv :: "nat \<Rightarrow> 'a list \<Rightarrow> 'a list \<times> 'a list" where
  "channelBatchRecv remaining ch = (take (Suc remaining) ch, drop (Suc remaining) ch)"

text \<open>One round of \<^verbatim>\<open>writeWALAsync\<close>; a failure ends the writer and is latched.\<close>

definition writeWALAsync :: "'w wal_pkg \<Rightarrow> nat \<Rightarrow> ('c, 'w) db \<Rightarrow> ('c, 'w) db" where
  "writeWALAsync pkg remaining db =
     (case (db_walChan db, db_wal db) of
        (Some (entry # ch), Some (WriteLog w)) \<Rightarrow>
          if db_walQuit db then db
          else
            (let (entries, rest) = channelBatchRecv remaining (entry # ch);
                 (r, w') = write_entries pkg entries w;
                 db1 = db\<lparr>db_walChan := Some rest, db_wal := Some (WriteLog w')\<rparr>
             in case r of
                  Inl e \<Rightarrow> (latchWalErr (Wrapped errAsyncWriterQuit e) db1)\<lparr>db_walQuit := True\<rparr>
                | Inr _ \<Rightarrow> db1)
      | _ \<Rightarrow> db)"

text \<open>The rounds until the queue is empty, \<open>sizes\<close> giving what is buffered at each; the last one takes the rest.\<close>

fun drain :: "'w wal_pkg \<Rightarrow> nat list \<Rightarrow> ('c, 'w) db \<Rightarrow> ('c, 'w) db" where
  "drain pkg [] db = (case db_walChan db of None \<Rightarrow> db | Some ch \<Rightarrow> writeWALAsync pkg (length ch) db)"
| "drain pkg (k # ks) db = drain pkg ks (writeWALAsync pkg k db)"

definition waitAsyncCommit :: "'w wal_pkg \<Rightarrow> nat list \<Rightarrow> ('c, 'w) db \<Rightarrow> unit result \<times> ('c, 'w) db" where
  "waitAsyncCommit pkg sizes db =
     (if db_walChan db = None then (walError db, db)
      else (let db1 = (drain pkg sizes db)\<lparr>db_walChan := None, db_walQuit := False\<rparr> in (walError db1, db1)))"

section \<open>Waiting for the log\<close>

definition committedVersionAt :: "u64 \<Rightarrow> u32 \<Rightarrow> int \<Rightarrow> int" where
  "committedVersionAt lastIndex initialVersion snapshotVersion =
     (if lastIndex = 0 then snapshotVersion else walVersion lastIndex initialVersion)"

definition CommittedVersion :: "'w wal_pkg \<Rightarrow> ('c, 'w) db \<Rightarrow> int result" where
  "CommittedVersion pkg db =
     (case db_wal db of
        None \<Rightarrow> Inl WalClosed
      | Some h \<Rightarrow>
          rbind (wr_LastIndex (handle_reader pkg (fs_wal (db_dir db))) h) (\<lambda>lastIndex.
          rmap (committedVersionAt lastIndex (mt_initialVersion (db_MultiTree db))) (SnapshotVersion (db_MultiTree db))))"

record walTarget =
  wt_initialVersion :: u32
  wt_version :: int
  wt_snapshotVersion :: int

abbreviation ErrWalUninitialized :: gerror where "ErrWalUninitialized \<equiv> AnyError ''wal is not initialized''"
abbreviation ErrWalTimeout :: gerror where "ErrWalTimeout \<equiv> AnyError ''timed out waiting for wal to catch up''"

definition walReaderLocked :: "('c, 'w) db \<Rightarrow> ('w wal_handle \<times> u32) result" where
  "walReaderLocked db =
     (case db_wal db of None \<Rightarrow> Inl ErrWalUninitialized | Some h \<Rightarrow> Inr (h, mt_initialVersion (db_MultiTree db)))"

definition walTargetLocked :: "int \<Rightarrow> ('c, 'w) db \<Rightarrow> walTarget result" where
  "walTargetLocked version db =
     rbind (walReaderLocked db) (\<lambda>(h, iv).
     rmap (\<lambda>sv. \<lparr>wt_initialVersion = iv, wt_version = version, wt_snapshotVersion = sv\<rparr>) (SnapshotVersion (db_MultiTree db)))"

text \<open>
  A poll sees the latched error, the last index, and the clock twice: when it sets the deadline and when it
  compares with it. \<open>None\<close> is the loop still waiting after the polls.
\<close>

type_synonym poll = "gerror option \<times> u64 result \<times> nat \<times> nat"

fun wait_loop :: "walTarget \<Rightarrow> nat \<Rightarrow> nat \<Rightarrow> u64 \<Rightarrow> poll list \<Rightarrow> unit result option" where
  "wait_loop t timeout deadline seenIndex [] = None"
| "wait_loop t timeout deadline seenIndex ((err, logged, now1, now2) # polls) =
     (case err of
        Some e \<Rightarrow> Some (Inl e)
      | None \<Rightarrow>
          (case logged of
             Inl e \<Rightarrow> Some (Inl e)
           | Inr lastIndex \<Rightarrow>
               if committedVersionAt lastIndex (wt_initialVersion t) (wt_snapshotVersion t) \<ge> wt_version t then Some (Inr ())
               else
                 (let seen' = (if lastIndex > seenIndex then lastIndex else seenIndex);
                      deadline' = (if lastIndex > seenIndex then now1 + timeout else deadline)
                  in if now2 > deadline' then Some (Inl ErrWalTimeout)
                     else wait_loop t timeout deadline' seen' polls)))"

definition waitForWAL :: "walTarget \<Rightarrow> nat \<Rightarrow> nat \<Rightarrow> unit result \<Rightarrow> poll list \<Rightarrow> unit result option" where
  "waitForWAL t timeout now latched polls =
     (if wt_version t < int (unat (wt_initialVersion t)) \<or> wt_version t \<le> 0 then Some latched
      else wait_loop t timeout (now + timeout) 0 polls)"

text \<open>
  While a commit waits, the asynchronous writer goes on: before each poll it may write a batch. The result
  is that of the loop over what the polls see.
\<close>

record wait_env =
  we_start :: nat
  we_polls :: "(nat option \<times> nat \<times> nat) list"

fun poll_states :: "'w wal_pkg \<Rightarrow> (nat option \<times> nat \<times> nat) list \<Rightarrow> ('c, 'w) db \<Rightarrow> poll list \<times> ('c, 'w) db" where
  "poll_states pkg [] db = ([], db)"
| "poll_states pkg ((batch, now1, now2) # ps) db =
     (let db1 = (case batch of None \<Rightarrow> db | Some k \<Rightarrow> writeWALAsync pkg k db);
          logged = (case db_wal db1 of None \<Rightarrow> Inl nilPointer | Some h \<Rightarrow> wr_LastIndex (handle_reader pkg (fs_wal (db_dir db1))) h);
          (polls, db2) = poll_states pkg ps db1
      in ((db_walErr db1, logged, now1, now2) # polls, db2))"

definition waitCommittedVersion ::
  "'w wal_pkg \<Rightarrow> wait_env \<Rightarrow> int \<Rightarrow> ('c, 'w) db \<Rightarrow> unit result option \<times> ('c, 'w) db" where
  "waitCommittedVersion pkg env targetVersion db =
     (case walTargetLocked targetVersion db of
        Inl e \<Rightarrow> (Some (Inl e), db)
      | Inr target \<Rightarrow>
          (let (polls, db1) = poll_states pkg (we_polls env) db
           in (waitForWAL target (db_catchupTimeout db) (we_start env) (walError db) polls, db1)))"

section \<open>Rewriting snapshots\<close>

definition RewriteSnapshotWithContext ::
  "(nat \<Rightarrow> ctx_view option) \<Rightarrow> bool \<Rightarrow> ('c, 'w) db \<Rightarrow> unit result \<times> ('c, 'w) db" where
  "RewriteSnapshotWithContext sched canceled db =
     (if db_readOnly db then (Inl ReadOnlyDB, db)
      else (let (r, fs) = run_steps (rewrite_steps sched canceled (db_MultiTree db)) (db_dir db) in (r, db\<lparr>db_dir := fs\<rparr>)))"

definition RewriteSnapshot :: "('c, 'w) db \<Rightarrow> unit result \<times> ('c, 'w) db" where
  "RewriteSnapshot db = RewriteSnapshotWithContext undisturbed False db"

definition reloadMultiTree ::
  "'c cache_ops \<Rightarrow> 'c multiTree \<Rightarrow> ('c, 'w) db \<Rightarrow> unit result \<times> ('c, 'w) db" where
  "reloadMultiTree ops mtree db =
     (case applyWALEntry ops (pending_entry (db_pendingLog db)) mtree of
        (Inl e, _) \<Rightarrow> (Inl e, db)
      | (Inr _, mtree') \<Rightarrow> (Inr (), db\<lparr>db_MultiTree := mtree', db_retired := Some (db_MultiTree db)\<rparr>))"

definition Reload :: "'c cache_ops \<Rightarrow> ('c, 'w) db \<Rightarrow> unit result \<times> ('c, 'w) db" where
  "Reload ops db =
     (let t = db_MultiTree db in
      case LoadMultiTree ops (mt_zeroCopy t) (mt_cacheSize t) (mt_chainId t) (current_dir (db_dir db)) of
        Inl e \<Rightarrow> (Inl e, db)
      | Inr mtree \<Rightarrow> reloadMultiTree ops mtree db)"

abbreviation ErrRewriting :: gerror where "ErrRewriting \<equiv> AnyError ''there is another ongoing snapshot rewriting process''"

text \<open>The goroutine gets a copy of the trees, which the source notes.\<close>

definition rewriteSnapshotBackground :: "'c cache_ops \<Rightarrow> ('c, 'w) db \<Rightarrow> unit result \<times> ('c, 'w) db" where
  "rewriteSnapshotBackground ops db =
     (if db_rewrite db \<noteq> None then (Inl ErrRewriting, db)
      else (let (t, cloned) = mt_Copy ops 0 (db_MultiTree db)
            in (Inr (), db\<lparr>db_MultiTree := t, db_rewrite := Some (Writing cloned)\<rparr>)))"

definition RewriteSnapshotBackground :: "'c cache_ops \<Rightarrow> ('c, 'w) db \<Rightarrow> unit result \<times> ('c, 'w) db" where
  "RewriteSnapshotBackground ops db = (if db_readOnly db then (Inl ReadOnlyDB, db) else rewriteSnapshotBackground ops db)"

text \<open>
  The goroutine: it writes its copy and moves the link; then it loads what \<^verbatim>\<open>current\<close> leads to and catches up.
  A rewrite that fails closes the channel without a result.
\<close>

definition background_write ::
  "(nat \<Rightarrow> ctx_view option) \<Rightarrow> bool \<Rightarrow> ('c, 'w) db \<Rightarrow> ('c, 'w) db" where
  "background_write sched canceled db =
     (case db_rewrite db of
        Some (Writing cloned) \<Rightarrow>
          (case run_steps (rewrite_steps sched canceled cloned) (db_dir db) of
             (Inl e, fs) \<Rightarrow> db\<lparr>db_dir := fs, db_rewrite := Some (Ready \<lparr>sr_mtree = None, sr_err = None\<rparr>)\<rparr>
           | (Inr _, fs) \<Rightarrow> db\<lparr>db_dir := fs, db_rewrite := Some (Written cloned)\<rparr>)
      | _ \<Rightarrow> db)"

definition background_load :: "'c cache_ops \<Rightarrow> 'w wal_pkg \<Rightarrow> ('c, 'w) db \<Rightarrow> ('c, 'w) db" where
  "background_load ops pkg db =
     (case db_rewrite db of
        Some (Written cloned) \<Rightarrow>
          (case LoadMultiTree ops (mt_zeroCopy cloned) (mt_cacheSize cloned) (mt_chainId cloned) (current_dir (db_dir db)) of
             Inl e \<Rightarrow> db\<lparr>db_rewrite := Some (Ready \<lparr>sr_mtree = None, sr_err = Some e\<rparr>)\<rparr>
           | Inr mtree \<Rightarrow>
               (case db_wal db of
                  None \<Rightarrow> db\<lparr>db_rewrite := Some (Ready \<lparr>sr_mtree = None, sr_err = Some nilPointer\<rparr>)\<rparr>
                | Some h \<Rightarrow>
                    (case catchupWAL ops (handle_reader pkg (fs_wal (db_dir db))) 0 h mtree of
                       (Inl e, h', _) \<Rightarrow>
                         db\<lparr>db_wal := Some h', db_rewrite := Some (Ready \<lparr>sr_mtree = None, sr_err = Some e\<rparr>)\<rparr>
                     | (Inr _, h', mtree') \<Rightarrow>
                         db\<lparr>db_wal := Some h', db_rewrite := Some (Ready \<lparr>sr_mtree = Some mtree', sr_err = None\<rparr>)\<rparr>)))
      | _ \<Rightarrow> db)"

section \<open>Pruning\<close>

definition prune_snapshots :: "int \<Rightarrow> u32 \<Rightarrow> db_fs \<Rightarrow> unit result \<times> u32 \<times> db_fs" where
  "prune_snapshots current keepRecent fs =
     traverseSnapshots fs False
       (\<lambda>version (counter, fs').
          if version \<ge> current then (Inr False, counter, fs')
          else if counter > 0 then (Inr False, counter - 1, fs')
          else (Inr False, counter, snd (atomicRemoveDir (snapshotName version) fs')))
       (keepRecent, fs)"

text \<open>The goroutine of \<^verbatim>\<open>pruneSnapshots\<close>; errors are logged only.\<close>

definition prune_run :: "'w wal_pkg \<Rightarrow> ('c, 'w) db \<Rightarrow> ('c, 'w) db" where
  "prune_run pkg db =
     (case (db_pruning db, db_wal db) of
        (True, Some (WriteLog w)) \<Rightarrow>
          (let db0 = db\<lparr>db_pruning := False\<rparr>; iv = mt_initialVersion (db_MultiTree db) in
           case currentVersion (db_dir db0) of
             Inl e \<Rightarrow> db0
           | Inr current \<Rightarrow>
               (case prune_snapshots current (db_snapshotKeepRecent db0) (db_dir db0) of
                  (Inl e, _, fs) \<Rightarrow> db0\<lparr>db_dir := fs\<rparr>
                | (Inr _, _, fs) \<Rightarrow>
                    (case firstSnapshotVersion fs of
                       Inl e \<Rightarrow> db0\<lparr>db_dir := fs\<rparr>
                     | Inr earliestVersion \<Rightarrow>
                         (let db1 = db0\<lparr>db_dir := fs, db_earliestSnapshotCache := earliestVersion\<rparr> in
                          if earliestVersion + 1 < int (unat iv) then db1
                          else db1\<lparr>db_wal := Some (WriteLog (snd (wp_TruncateFront pkg (walIndex (earliestVersion + 1) iv) w)))\<rparr>))))
      | _ \<Rightarrow> db)"

text \<open>Starting it waits for the last one.\<close>

definition pruneSnapshots :: "'w wal_pkg \<Rightarrow> ('c, 'w) db \<Rightarrow> ('c, 'w) db" where
  "pruneSnapshots pkg db =
     (let db1 = prune_run pkg db in
      case db_wal db1 of Some (WriteLog w) \<Rightarrow> db1\<lparr>db_pruning := True\<rparr> | _ \<Rightarrow> db1)"

section \<open>Committing\<close>

definition checkBackgroundSnapshotRewrite ::
  "'c cache_ops \<Rightarrow> 'w wal_pkg \<Rightarrow> wait_env \<Rightarrow> ('c, 'w) db \<Rightarrow> unit result option \<times> ('c, 'w) db" where
  "checkBackgroundSnapshotRewrite ops pkg env db =
     (case db_rewrite db of
        Some (Ready result) \<Rightarrow>
          (let db1 = db\<lparr>db_rewrite := None\<rparr> in
           case sr_mtree result of
             None \<Rightarrow> (Some (case sr_err result of Some e \<Rightarrow> Inl e | None \<Rightarrow> Inr ()), db1)
           | Some mtree \<Rightarrow>
               (case waitCommittedVersion pkg env (mt_Version (db_MultiTree db1)) db1 of
                  (None, db2) \<Rightarrow> (None, db2)
                | (Some (Inl e), db2) \<Rightarrow> (Some (Inl e), db2)
                | (Some (Inr _), db2) \<Rightarrow>
                    (case db_wal db2 of
                       None \<Rightarrow> (Some (Inl nilPointer), db2)
                     | Some h \<Rightarrow>
                         (case catchupWAL ops (handle_reader pkg (fs_wal (db_dir db2))) 0 h mtree of
                            (Inl e, h', _) \<Rightarrow> (Some (Inl e), db2\<lparr>db_wal := Some h'\<rparr>)
                          | (Inr _, h', mtree') \<Rightarrow>
                              (case reloadMultiTree ops mtree' (db2\<lparr>db_wal := Some h'\<rparr>) of
                                 (Inl e, db3) \<Rightarrow> (Some (Inl e), db3)
                               | (Inr _, db3) \<Rightarrow>
                                   (let db4 = pruneSnapshots pkg db3 in
                                    if db_trigger db4 then
                                      (case SnapshotVersion (db_MultiTree db4) of
                                         Inl e \<Rightarrow> (Some (Inl e), db4)
                                       | Inr v \<Rightarrow> (Some (Inr ()), db4\<lparr>db_triggered := db_triggered db4 @ [v]\<rparr>))
                                    else (Some (Inr ()), db4)))))))
      | _ \<Rightarrow> (Some (Inr ()), db))"

text \<open>\<^verbatim>\<open>errors.Join\<close> is represented by the first error.\<close>

definition checkAsyncTasks ::
  "'c cache_ops \<Rightarrow> 'w wal_pkg \<Rightarrow> wait_env \<Rightarrow> ('c, 'w) db \<Rightarrow> unit result option \<times> ('c, 'w) db" where
  "checkAsyncTasks ops pkg env db =
     (let (r, db1) = checkBackgroundSnapshotRewrite ops pkg env db
      in (map_option (\<lambda>r'. rbind (walError db) (\<lambda>_. r')) r, db1))"

text \<open>The remainder of Go's \<^verbatim>\<open>%\<close> is zero exactly when that of \<open>mod\<close> is.\<close>

definition rewriteIfApplicable :: "'c cache_ops \<Rightarrow> int \<Rightarrow> ('c, 'w) db \<Rightarrow> unit result \<times> ('c, 'w) db" where
  "rewriteIfApplicable ops height db =
     (if db_snapshotInterval db = 0 then (Inl (Panic ''integer divide by zero''), db)
      else if height mod int (unat (db_snapshotInterval db)) \<noteq> 0 then (Inr (), db)
      else (Inr (), snd (rewriteSnapshotBackground ops db)))"

text \<open>
  A full buffer only delays the send. What the scheduler decides in a commit: whether the \<^verbatim>\<open>select\<close> takes the send or the closed \<^verbatim>\<open>walQuit\<close> when the
  writer has ended, and the polls of the wait.
\<close>

definition enqueue :: "bool \<Rightarrow> u64 \<times> walEntry \<Rightarrow> ('c, 'w) db \<Rightarrow> unit result \<times> ('c, 'w) db" where
  "enqueue send entry db =
     (let db1 = (if db_walChan db = None then db\<lparr>db_walChan := Some [], db_walQuit := False\<rparr> else db);
          ch = (case db_walChan db1 of None \<Rightarrow> [] | Some ch \<Rightarrow> ch)
      in if db_walQuit db1 \<and> \<not> send then
           (let db2 = latchWalErr errAsyncWriterQuit db1 in (walError db2, db2))
         else (Inr (), db1\<lparr>db_walChan := Some (ch @ [entry])\<rparr>))"

definition log_entry :: "'w wal_pkg \<Rightarrow> bool \<Rightarrow> u64 \<times> walEntry \<Rightarrow> ('c, 'w) db \<Rightarrow> unit result \<times> ('c, 'w) db" where
  "log_entry pkg send entry db =
     (case db_wal db of
        Some (WriteLog w) \<Rightarrow>
          if db_walChanSize db \<ge> 0 then enqueue send entry db
          else
            (case writeWALSync pkg entry w of
               (Inl e, w') \<Rightarrow> (let db1 = latchWalErr (Wrapped errSyncWALWrite e) (db\<lparr>db_wal := Some (WriteLog w')\<rparr>) in (walError db1, db1))
             | (Inr _, w') \<Rightarrow> (Inr (), db\<lparr>db_wal := Some (WriteLog w')\<rparr>))
      | _ \<Rightarrow> (Inr (), db))"

definition clear_pending :: "('c, 'w) db \<Rightarrow> ('c, 'w) db" where
  "clear_pending db = clearPendingChangesetMap (db\<lparr>db_pendingLog := empty_pending\<rparr>)"

definition Commit ::
  "'c cache_ops \<Rightarrow> 'w wal_pkg \<Rightarrow> bool \<Rightarrow> wait_env \<Rightarrow> ('c, 'w) db \<Rightarrow> int result option \<times> ('c, 'w) db" where
  "Commit ops pkg send env db =
     (if db_readOnly db then (Some (Inl ReadOnlyDB), db)
      else case walError db of
        Inl e \<Rightarrow> (Some (Inl e), db)
      | Inr _ \<Rightarrow>
          (case mt_SaveVersion True (db_MultiTree db) of
             (Inl e, t) \<Rightarrow> (Some (Inl e), db\<lparr>db_MultiTree := t\<rparr>)
           | (Inr v, t) \<Rightarrow>
               (case log_entry pkg send (walIndex v (mt_initialVersion t), pending_entry (db_pendingLog db))
                   (db\<lparr>db_MultiTree := t\<rparr>) of
                  (Inl e, db2) \<Rightarrow> (Some (Inl e), db2)
                | (Inr _, db2) \<Rightarrow>
                    (case checkAsyncTasks ops pkg env (clear_pending db2) of
                       (None, db4) \<Rightarrow> (None, db4)
                     | (Some (Inl e), db4) \<Rightarrow> (Some (Inl e), db4)
                     | (Some (Inr _), db4) \<Rightarrow>
                         (let (r, db5) = rewriteIfApplicable ops v db4 in (Some (rmap (\<lambda>_. v) r), db5))))))"

section \<open>Loading\<close>

definition open_log ::
  "'w wal_pkg \<Rightarrow> (bytes \<Rightarrow> bool) \<Rightarrow> bool \<Rightarrow> db_fs \<Rightarrow> 'w wal_handle result \<times> db_fs" where
  "open_log pkg gjson readOnly fs =
     (if readOnly then
        (rmap ReadOnlyLog (openReadOnlyWAL (replicate readOnlyWALOpenAttempts (Some (fs_wal fs), fs_wal fs))), fs)
      else
        (let (r, dir) = OpenWAL (wp_Open pkg) gjson Binary (fs_wal fs) in (rmap WriteLog r, fs\<lparr>fs_wal := dir\<rparr>)))"

definition load_snapshot ::
  "'c cache_ops \<Rightarrow> options \<Rightarrow> string \<Rightarrow> db_fs \<Rightarrow> (string \<times> 'c multiTree) result" where
  "load_snapshot ops opts chainId fs =
     (if o_TargetVersion opts > 0 then
        rbind (seekSnapshot fs (o_TargetVersion opts)) (\<lambda>version.
        rmap (Pair (snapshotName version))
          (LoadMultiTree ops (o_ZeroCopy opts) (o_CacheSize opts) chainId (get_dir (snapshotName version) fs)))
      else rmap (Pair ''current'')
        (LoadMultiTree ops (o_ZeroCopy opts) (o_CacheSize opts) chainId (current_dir fs)))"

definition rollbacks :: "options \<Rightarrow> bool" where
  "rollbacks opts \<longleftrightarrow> o_LoadForOverwriting opts \<and> o_TargetVersion opts > 0"

definition rollback_index :: "'w wal_reader \<Rightarrow> options \<Rightarrow> u32 \<Rightarrow> 'w \<Rightarrow> u64 result" where
  "rollback_index rd opts initialVersion w =
     (if \<not> rollbacks opts then Inr 0
      else
        (let targetIndex = walIndex (int (unat (o_TargetVersion opts))) initialVersion in
         rbind (wr_FirstIndex rd w) (\<lambda>firstIndex.
         rbind (wr_LastIndex rd w) (\<lambda>lastIndex.
         if targetIndex = 0 \<or> targetIndex < firstIndex \<or> targetIndex > lastIndex then Inl WalOutOfRange
         else Inr targetIndex))))"

text \<open>The link first, then the newer snapshots, then the log.\<close>

definition rollback_snapshots :: "string \<Rightarrow> u32 \<Rightarrow> disk_step" where
  "rollback_snapshots snapshot targetVersion fs =
     (case fs_current fs of
        None \<Rightarrow> (Inl ErrNotExist, fs)
      | Some currentSnapshot \<Rightarrow>
          (case (if snapshot \<noteq> currentSnapshot then updateCurrentSymlink snapshot fs else (Inr (), fs)) of
             (Inl e, fs1) \<Rightarrow> (Inl e, fs1)
           | (Inr _, fs1) \<Rightarrow>
               traverseSnapshots fs1 False
                 (\<lambda>version fs'.
                    if version \<le> int (unat targetVersion) then (Inr True, fs')
                    else case atomicRemoveDir (snapshotName version) fs' of
                        (Inl e, fs'') \<Rightarrow> (Inl e, fs'')
                      | (Inr _, fs'') \<Rightarrow> (Inr False, fs''))
                 fs1))"

definition rollback_log :: "'w wal_pkg \<Rightarrow> u64 \<Rightarrow> 'w wal_handle \<Rightarrow> unit result \<times> 'w wal_handle" where
  "rollback_log pkg targetIndex h =
     (case h of
        ReadOnlyLog l \<Rightarrow> (Inl nilPointer, h)
      | WriteLog w \<Rightarrow> apsnd WriteLog (wp_TruncateBack pkg targetIndex w))"

definition new_db :: "options \<Rightarrow> 'c multiTree \<Rightarrow> 'w wal_handle \<Rightarrow> db_fs \<Rightarrow> ('c, 'w) db" where
  "new_db opts mtree h fs =
     \<lparr>db_MultiTree = mtree, db_retired = None, db_dir = fs, db_fileLock = \<not> o_ReadOnly opts, db_readOnly = o_ReadOnly opts,
      db_rewrite = None, db_snapshotKeepRecent = o_SnapshotKeepRecent opts, db_snapshotInterval = o_SnapshotInterval opts,
      db_pruning = False, db_trigger = o_TriggerStateSyncExport opts, db_triggered = [], db_wal = Some h,
      db_walChanSize = o_AsyncCommitBuffer opts, db_walChan = None, db_walQuit = False, db_walErr = None,
      db_catchupTimeout = walCatchupTimeout, db_pendingLog = empty_pending, db_cached = None, db_fresh = 0,
      db_snapshotWriterLimit = o_SnapshotWriterLimit opts, db_earliestSnapshotCache = 0\<rparr>"

definition load_db ::
  "'c cache_ops \<Rightarrow> 'w wal_pkg \<Rightarrow> (bytes \<Rightarrow> bool) \<Rightarrow> options \<Rightarrow> string \<Rightarrow> db_fs \<Rightarrow> ('c, 'w) db result \<times> db_fs" where
  "load_db ops pkg gjson opts chainId fs =
     (case load_snapshot ops opts chainId fs of
        Inl e \<Rightarrow> (Inl e, fs)
      | Inr (snapshot, mtree) \<Rightarrow>
          (case open_log pkg gjson (o_ReadOnly opts) fs of
             (Inl e, fs1) \<Rightarrow> (Inl e, fs1)
           | (Inr h, fs1) \<Rightarrow>
               (let rd = handle_reader pkg (fs_wal fs1); target = int (unat (o_TargetVersion opts)) in
                case rollback_index rd opts (mt_initialVersion mtree) h of
                  Inl e \<Rightarrow> (Inl e, fs1)
                | Inr targetIndex \<Rightarrow>
                    (case (if target = 0 \<or> target > mt_Version mtree then catchupWAL ops rd target h mtree
                           else (Inr (), h, mtree)) of
                       (Inl e, _) \<Rightarrow> (Inl e, fs1)
                     | (Inr _, h', mtree') \<Rightarrow>
                         if rollbacks opts then
                           (case rollback_snapshots snapshot (o_TargetVersion opts) fs1 of
                              (Inl e, fs2) \<Rightarrow> (Inl e, fs2)
                            | (Inr _, fs2) \<Rightarrow>
                                (case rollback_log pkg targetIndex h' of
                                   (Inl e, _) \<Rightarrow> (Inl e, fs2)
                                 | (Inr _, h'') \<Rightarrow> (Inr (new_db opts mtree' h'' fs2), fs2)))
                         else (Inr (new_db opts mtree' h' fs1), fs1)))))"

definition unlock :: "db_fs \<Rightarrow> db_fs" where
  "unlock fs = fs\<lparr>fs_locked := False\<rparr>"

text \<open>Locking the directory and removing what a crash left.\<close>

definition lock_dir :: "bool \<Rightarrow> disk_step" where
  "lock_dir readOnly fs =
     (if readOnly then (Inr (), fs)
      else if fs_locked fs then (Inl ErrLocked, fs)
      else (Inr (), (removeTmpDirs (fs\<lparr>fs_locked := True\<rparr>))\<lparr>fs_currentTmp := None\<rparr>))"

definition initial_upgrades :: "options \<Rightarrow> treeNameUpgrade list" where
  "initial_upgrades opts = map (\<lambda>name. \<lparr>up_Name = name, up_RenameFrom = [], up_Delete = False\<rparr>) (o_InitialStores opts)"

definition Load ::
  "'c cache_ops \<Rightarrow> 'w wal_pkg \<Rightarrow> (bytes \<Rightarrow> bool) \<Rightarrow> options \<Rightarrow> string \<Rightarrow> db_fs \<Rightarrow> ('c, 'w) db result \<times> db_fs" where
  "Load ops pkg gjson opts0 chainId fs =
     (case Validate opts0 of
        Inl e \<Rightarrow> (Inl e, fs)
      | Inr _ \<Rightarrow>
          (let opts = FillDefaults opts0 in
           case (if o_CreateIfMissing opts then createDBIfNotExist (o_InitialVersion opts) chainId fs else (Inr (), fs)) of
             (Inl e, fs1) \<Rightarrow> (Inl e, fs1)
           | (Inr _, fs1) \<Rightarrow>
               (case lock_dir (o_ReadOnly opts) fs1 of
                  (Inl e, fs2) \<Rightarrow> (Inl e, fs2)
                | (Inr _, fs2) \<Rightarrow>
                    (case load_db ops pkg gjson opts chainId fs2 of
                       (Inl e, fs3) \<Rightarrow> (Inl e, if o_ReadOnly opts then fs3 else unlock fs3)
                     | (Inr db, fs3) \<Rightarrow>
                         if \<not> db_readOnly db \<and> mt_Version (db_MultiTree db) = 0 \<and> o_InitialStores opts \<noteq> [] then
                           (case db_ApplyUpgrades ops (initial_upgrades opts) db of
                              (Inl e, _) \<Rightarrow> (Inl e, unlock fs3)
                            | (Inr _, db') \<Rightarrow> (Inr db', fs3))
                         else (Inr db, fs3)))))"

section \<open>Copying and closing\<close>

definition db_copy :: "'c cache_ops \<Rightarrow> int \<Rightarrow> ('c, 'w) db \<Rightarrow> ('c, 'w) db \<times> ('c, 'w) db" where
  "db_copy ops cacheSize db =
     (let (t, mtree) = mt_Copy ops cacheSize (db_MultiTree db) in
      (db\<lparr>db_MultiTree := t\<rparr>,
       \<lparr>db_MultiTree = mtree, db_retired = None, db_dir = db_dir db, db_fileLock = False, db_readOnly = False,
        db_rewrite = None, db_snapshotKeepRecent = 0, db_snapshotInterval = 0,
        db_pruning = False, db_trigger = False, db_triggered = [], db_wal = None,
        db_walChanSize = 0, db_walChan = None, db_walQuit = False, db_walErr = None,
        db_catchupTimeout = 0, db_pendingLog = empty_pending, db_cached = None, db_fresh = 0,
        db_snapshotWriterLimit = db_snapshotWriterLimit db, db_earliestSnapshotCache = 0\<rparr>))"

definition db_Copy :: "'c cache_ops \<Rightarrow> ('c, 'w) db \<Rightarrow> ('c, 'w) db \<times> ('c, 'w) db" where
  "db_Copy ops db = db_copy ops (mt_cacheSize (db_MultiTree db)) db"

text \<open>
  Closing writes the queue, cancels a rewrite and waits for it, and for a prune. The rewrite may have gone
  any distance before it sees the cancellation; \<open>sched\<close> and \<open>canceled\<close> say how its write ends.
\<close>

definition db_Close ::
  "'c cache_ops \<Rightarrow> 'w wal_pkg \<Rightarrow> nat list \<Rightarrow> (nat \<Rightarrow> ctx_view option) \<Rightarrow> bool \<Rightarrow> ('c, 'w) db \<Rightarrow> unit result \<times> ('c, 'w) db" where
  "db_Close ops pkg sizes sched canceled db =
     (let (r1, db1) = waitAsyncCommit pkg sizes db;
          db2 = (if db_rewrite db1 \<noteq> None
                 then (background_load ops pkg (background_write sched canceled db1))\<lparr>db_rewrite := None\<rparr> else db1);
          db3 = prune_run pkg db2;
          db4 = db3\<lparr>db_MultiTree := mt_Close (db_MultiTree db3)\<rparr>;
          (r2, dir) = (case db_wal db4 of
             None \<Rightarrow> (Inr (), db_dir db4)
           | Some h \<Rightarrow>
               (let (r, h') = handle_Close pkg h
                in (r, case h' of WriteLog w \<Rightarrow> (db_dir db4)\<lparr>fs_wal := wp_files pkg w\<rparr> | ReadOnlyLog _ \<Rightarrow> db_dir db4)));
          db5 = db4\<lparr>db_wal := None, db_retired := None, db_fileLock := False,
                  db_dir := (if db_fileLock db4 then unlock dir else dir)\<rparr>
      in (rbind r1 (\<lambda>_. r2), db5))"

section \<open>Wrappers\<close>

definition db_SaveVersion :: "bool \<Rightarrow> ('c, 'w) db \<Rightarrow> int result \<times> ('c, 'w) db" where
  "db_SaveVersion updateCommitInfo db =
     (if db_readOnly db then (Inl ReadOnlyDB, db)
      else (let (r, t) = mt_SaveVersion updateCommitInfo (db_MultiTree db) in (r, db\<lparr>db_MultiTree := t\<rparr>)))"

definition db_UpdateCommitInfo :: "('c, 'w) db \<Rightarrow> unit result \<times> ('c, 'w) db" where
  "db_UpdateCommitInfo db =
     (if db_readOnly db then (Inl (Panic ''can't update commit info in read-only mode''), db)
      else (Inr (), db\<lparr>db_MultiTree := UpdateCommitInfo (db_MultiTree db)\<rparr>))"

definition db_WorkingCommitInfo :: "('c, 'w) db \<Rightarrow> commitInfo \<times> ('c, 'w) db" where
  "db_WorkingCommitInfo db =
     (let (ci, t) = WorkingCommitInfo (db_MultiTree db) in (ci, db\<lparr>db_MultiTree := t\<rparr>))"

section \<open>Reading the log\<close>

definition FirstVersion :: "'w wal_pkg \<Rightarrow> ('c, 'w) db \<Rightarrow> int result" where
  "FirstVersion pkg db =
     rbind (walReaderLocked db) (\<lambda>(h, iv).
     rmap (\<lambda>firstIndex. if firstIndex = 0 then 0 else walVersion firstIndex iv)
       (wr_FirstIndex (handle_reader pkg (fs_wal (db_dir db))) h))"

definition EarliestVersion :: "('c, 'w) db \<Rightarrow> int result \<times> ('c, 'w) db" where
  "EarliestVersion db =
     (if db_earliestSnapshotCache db > 0 then (Inr (db_earliestSnapshotCache db), db)
      else case firstSnapshotVersion (db_dir db) of
        Inl e \<Rightarrow> (Inl e, db)
      | Inr v0 \<Rightarrow>
          (let iv = int (unat (mt_initialVersion (db_MultiTree db)));
               v = (if v0 = 0 then (if iv = 0 then 1 else iv) else v0)
           in (Inr v, db\<lparr>db_earliestSnapshotCache := v\<rparr>)))"

text \<open>Readers wait without the lock: what their polls see is up to the other threads.\<close>

definition waitWALForRead ::
  "int \<Rightarrow> bool \<Rightarrow> nat \<Rightarrow> poll list \<Rightarrow> ('c, 'w) db \<Rightarrow> ('w wal_handle \<times> u32) result option" where
  "waitWALForRead upTo wait now polls db =
     (let version0 = mt_Version (db_MultiTree db);
          version = (if \<not> wait \<or> db_readOnly db then 0 else if upTo > 0 \<and> upTo < version0 then upTo else version0)
      in case walTargetLocked version db of
           Inl e \<Rightarrow> Some (Inl e)
         | Inr target \<Rightarrow>
             map_option (\<lambda>r. rbind r (\<lambda>_. walReaderLocked db))
               (waitForWAL target (db_catchupTimeout db) now (walError db) polls))"

text \<open>Reading the entries of a range of indices, in order, until a visitor stops or fails.\<close>

fun visit_entries ::
  "'w wal_reader \<Rightarrow> (u64 \<Rightarrow> 's \<Rightarrow> bool) \<Rightarrow> (u64 \<Rightarrow> walEntry \<Rightarrow> 's \<Rightarrow> unit result \<times> 's) \<Rightarrow> u64 list \<Rightarrow> 'w \<Rightarrow> 's \<Rightarrow> unit result \<times> 'w \<times> 's" where
  "visit_entries rd stop f [] w s = (Inr (), w, s)"
| "visit_entries rd stop f (i # is) w s =
     (if stop i s then (Inr (), w, s)
      else case wr_Read rd i w of
        (Inl e, w') \<Rightarrow> (Inl e, w', s)
      | (Inr bz, w') \<Rightarrow>
          (case WALEntry_Unmarshal bz of
             Inl e \<Rightarrow> (Inl e, w', s)
           | Inr entry \<Rightarrow>
               (case f i entry s of
                  (Inl e, s') \<Rightarrow> (Inl e, w', s')
                | (Inr _, s') \<Rightarrow> visit_entries rd stop f is w' s')))"

definition index_range :: "u64 \<Rightarrow> u64 \<Rightarrow> u64 list" where
  "index_range a b = map word_of_nat [unat a..<Suc (unat b)]"

definition record_stores ::
  "string list \<Rightarrow> u32 \<Rightarrow> u64 \<Rightarrow> walEntry \<Rightarrow> (string \<rightharpoonup> int) \<Rightarrow> unit result \<times> (string \<rightharpoonup> int)" where
  "record_stores stores iv idx entry found =
     (Inr (), foldl (\<lambda>m cs. if ncs_Name cs \<notin> set stores \<or> m (ncs_Name cs) \<noteq> None then m
        else m(ncs_Name cs \<mapsto> walVersion idx iv)) found (we_Changesets entry))"

definition FirstStoreVersions ::
  "'w wal_pkg \<Rightarrow> nat \<Rightarrow> poll list \<Rightarrow> string list \<Rightarrow> ('c, 'w) db \<Rightarrow> (string \<rightharpoonup> int) result option" where
  "FirstStoreVersions pkg now polls stores db =
     (if stores = [] then Some (rmap (\<lambda>_. Map.empty) (walError db))
      else
        map_option (\<lambda>r. rbind r (\<lambda>(h, iv).
          (let rd = handle_reader pkg (fs_wal (db_dir db)) in
           rbind (wr_FirstIndex rd h) (\<lambda>firstIndex.
           rbind (wr_LastIndex rd h) (\<lambda>lastIndex.
           if firstIndex = 0 \<or> lastIndex = 0 then Inr Map.empty
           else
             (case visit_entries rd (\<lambda>_ m. \<forall>store \<in> set stores. m store \<noteq> None) (record_stores stores iv)
                 (index_range firstIndex lastIndex) h Map.empty of
                (Inl e, _) \<Rightarrow> Inl e
              | (Inr _, _, m) \<Rightarrow> Inr m))))))
          (waitWALForRead 0 True now polls db))"

text \<open>\<^verbatim>\<open>tree.go\<close>: the change sets of one store, handed to a callback version by version.\<close>

definition store_changes :: "string \<Rightarrow> walEntry \<Rightarrow> changeset" where
  "store_changes store entry =
     (case List.find (\<lambda>cs. ncs_Name cs = store) (we_Changesets entry) of None \<Rightarrow> [] | Some cs \<Rightarrow> ncs_Changeset cs)"

definition traverseStateChanges ::
  "'w wal_pkg \<Rightarrow> nat \<Rightarrow> poll list \<Rightarrow> string \<Rightarrow> int \<Rightarrow> int \<Rightarrow> (int \<Rightarrow> changeset \<Rightarrow> 's \<Rightarrow> unit result \<times> 's) \<Rightarrow>
     ('c, 'w) db \<Rightarrow> 's \<Rightarrow> (unit result \<times> 's) option" where
  "traverseStateChanges pkg now polls store startVersion endVersion fn db s =
     (if endVersion < 0 then Some (Inl InvalidEndVersion, s)
      else case waitWALForRead endVersion (\<not> (endVersion > 0 \<and> endVersion < startVersion)) now polls db of
        None \<Rightarrow> None
      | Some (Inl e) \<Rightarrow> Some (Inl e, s)
      | Some (Inr (h, iv)) \<Rightarrow>
          (let rd = handle_reader pkg (fs_wal (db_dir db)) in
           case rbind (wr_FirstIndex rd h) (\<lambda>a. rmap (Pair a) (wr_LastIndex rd h)) of
             Inl e \<Rightarrow> Some (Inl e, s)
           | Inr (firstIndex, lastIndex) \<Rightarrow>
               if firstIndex = 0 \<or> lastIndex = 0 then Some (Inr (), s)
               else
                 (let lastAvailable = walVersion lastIndex iv;
                      end' = (if endVersion = 0 \<or> endVersion > lastAvailable then lastAvailable else endVersion);
                      start = (if startVersion < walVersion firstIndex iv then walVersion firstIndex iv else startVersion)
                  in if end' < start then Some (Inr (), s)
                     else
                       (case visit_entries rd (\<lambda>_ _. False) (\<lambda>idx entry. fn (walVersion idx iv) (store_changes store entry))
                           (index_range (walIndex start iv) (walIndex end' iv)) h s of
                          (r, _, s') \<Rightarrow> Some (r, s')))))"

definition GetLatestVersion :: "db_fs \<Rightarrow> int result" where
  "GetLatestVersion fs =
     (case readMetadata (current_dir fs) of
        Inl e \<Rightarrow> if e = ErrNotExist then Inr 0 else Inl e
      | Inr md \<Rightarrow>
          rbind (openReadOnlyWAL (replicate readOnlyWALOpenAttempts (Some (fs_wal fs), fs_wal fs))) (\<lambda>l.
          rbind (ro_LastIndex l) (\<lambda>lastIndex.
          if lastIndex = 0 then (case md_CommitInfo md of None \<Rightarrow> Inl nilPointer | Some ci \<Rightarrow> Inr (ci_Version ci))
          else Inr (walVersion lastIndex (word_of_int (md_InitialVersion md))))))"

end
