(* ===== verification/DBNames.thy ===== *)
theory DBNames
  imports DB
begin

text \<open>
  Lemmas on the names of snapshots: their order is that of the versions, so that listing the directory in order of
  names and searching it finds the snapshot that is wanted.
\<close>

section \<open>Decimal numbers\<close>

lemma digit_code: "d < 10 \<Longrightarrow> of_char (digit d) = 48 + d"
  by (simp add: digit_def)

lemma is_digit_digit: "d < 10 \<Longrightarrow> is_digit (digit d)"
  by (simp add: is_digit_def digit_code)

lemma decimal_snoc: "decimal (s @ [c]) = 10 * decimal s + (of_char c - 48)"
  by (simp add: decimal_def)

lemma decimal_Nil [simp]: "decimal [] = 0"
  by (simp add: decimal_def)

lemma decimal_digits [simp]: "decimal (digits n) = n"
proof (induction n rule: digits.induct)
  case (1 n)
  then show ?case by (subst digits.simps) (simp add: decimal_snoc digit_code, simp add: decimal_def digit_code)
qed

lemma digits_are_digits: "list_all is_digit (digits n)"
proof (induction n rule: digits.induct)
  case (1 n)
  then show ?case by (subst digits.simps) (simp add: is_digit_digit)
qed

lemma digits_not_Nil [simp]: "digits n \<noteq> []"
  by (subst digits.simps) simp

lemma length_digits: "n < 10 ^ Suc k \<Longrightarrow> length (digits n) \<le> Suc k"
proof (induction k arbitrary: n)
  case (Suc k)
  show ?case
  proof (cases "n < 10")
    case False
    have "n div 10 < 10 ^ Suc k" using Suc.prems by (simp add: less_mult_imp_div_less)
    from Suc.IH [OF this] show ?thesis using False by (subst digits.simps) simp
  qed (subst digits.simps, simp)
qed (subst digits.simps, simp)

text \<open>The value digit by digit from the left, and the order of numbers of the same length.\<close>

lemma decimal_Cons: "decimal (c # s) = (of_char c - 48) * 10 ^ length s + decimal s"
proof (induction s rule: rev_induct)
  case (snoc d s)
  have "decimal (c # s @ [d]) = 10 * decimal (c # s) + (of_char d - 48)" using decimal_snoc [of "c # s" d] by simp
  then show ?case unfolding snoc.IH by (simp add: decimal_snoc algebra_simps)
qed (simp add: decimal_def)

lemma decimal_zeros: "decimal (replicate k (digit 0) @ s) = decimal s"
  by (induction k) (simp_all add: decimal_Cons digit_code)

lemma decimal_bound: "list_all is_digit s \<Longrightarrow> decimal s < 10 ^ length s"
proof (induction s)
  case (Cons c s)
  let ?d = "of_char c - 48 :: nat"
  have "(of_char c :: nat) \<le> 57" using Cons.prems by (simp add: is_digit_def)
  then have "?d \<le> 9" by simp
  then have "?d * 10 ^ length s \<le> 9 * 10 ^ length s" by simp
  moreover have "decimal s < 10 ^ length s" using Cons by simp
  ultimately have "?d * 10 ^ length s + decimal s < 10 * 10 ^ length s" by linarith
  then show ?case by (simp add: decimal_Cons)
qed simp

lemma of_char_less: "(of_char c :: nat) < of_char d \<longleftrightarrow> c < d"
  by (simp add: less_char_def)

lemma decimal_less:
  "length s = length t \<Longrightarrow> list_all is_digit s \<Longrightarrow> list_all is_digit t \<Longrightarrow> s < t \<longleftrightarrow> decimal s < decimal t"
proof (induction s t rule: list_induct2)
  case (Cons c s d t)
  let ?c = "of_char c :: nat" and ?d = "of_char d :: nat" and ?p = "10 ^ length s :: nat"
  have b: "decimal s < ?p" "decimal t < ?p" using Cons.prems Cons.hyps decimal_bound [of s] decimal_bound [of t] by simp_all
  have k: "48 \<le> ?c" "48 \<le> ?d" using Cons.prems by (simp_all add: is_digit_def)
  have ih: "s < t \<longleftrightarrow> decimal s < decimal t" using Cons.IH Cons.prems by simp
  have val: "decimal (c # s) = (?c - 48) * ?p + decimal s" "decimal (d # t) = (?d - 48) * ?p + decimal t"
    using Cons.hyps by (simp_all add: decimal_Cons)
  consider "c < d" | "d < c" | "c = d" by fastforce
  then show ?case
  proof cases
    case 1
    then have "Suc (?c - 48) \<le> ?d - 48" using k of_char_less [of c d] by linarith
    then have "Suc (?c - 48) * ?p \<le> (?d - 48) * ?p" by (rule mult_le_mono1)
    then have "decimal (c # s) < decimal (d # t)" unfolding val using b by simp
    then show ?thesis using 1 by simp
  next
    case 2
    then have "Suc (?d - 48) \<le> ?c - 48" using k of_char_less [of d c] by linarith
    then have "Suc (?d - 48) * ?p \<le> (?c - 48) * ?p" by (rule mult_le_mono1)
    then have "decimal (d # t) < decimal (c # s)" unfolding val using b by simp
    then show ?thesis using 2 by auto
  next
    case 3
    then show ?thesis unfolding val using ih by simp
  qed
qed simp

section \<open>Names of snapshots\<close>

lemma pad_zeros_simps:
  assumes "n < 10 ^ 20"
  shows "length (pad_zeros 20 (digits n)) = 20" "decimal (pad_zeros 20 (digits n)) = n"
    "list_all is_digit (pad_zeros 20 (digits n))"
proof -
  have "length (digits n) \<le> 20" using length_digits [of n 19] assms by simp
  then show "length (pad_zeros 20 (digits n)) = 20" by (simp add: pad_zeros_def)
  show "decimal (pad_zeros 20 (digits n)) = n" by (simp add: pad_zeros_def decimal_zeros)
  show "list_all is_digit (pad_zeros 20 (digits n))"
    using digits_are_digits [of n] is_digit_digit [of 0] by (auto simp: pad_zeros_def list_all_iff)
qed

lemma snapshotName_form: "0 \<le> v \<Longrightarrow> snapshotName v = SnapshotPrefix @ pad_zeros 20 (digits (nat v))"
  by (simp add: snapshotName_def fmt_020d_def)

lemma isSnapshotName_name: "0 \<le> v \<Longrightarrow> v < 10 ^ 20 \<Longrightarrow> isSnapshotName (snapshotName v)"
  by (simp add: isSnapshotName_def snapshotName_form SnapshotDirLen_def pad_zeros_simps nat_less_iff)

lemma is_digit_no_sign: "is_digit c \<Longrightarrow> c \<noteq> CHR ''-'' \<and> c \<noteq> CHR ''+''"
  by (auto simp: is_digit_def)

lemma parseVersion_name:
  assumes "0 \<le> v" and "v < 10 ^ 20"
  shows "parseVersion (snapshotName v) = (if v < 2 ^ 31 then Inr v else Inl SnapshotVersionOverflow)"
proof -
  let ?s = "pad_zeros 20 (digits (nat v))"
  have n: "nat v < 10 ^ 20" using assms by (simp add: nat_less_iff)
  note p = pad_zeros_simps [OF n]
  have ne: "?s \<noteq> []" using p(1) by auto
  then have "is_digit (hd ?s)" using p(3) by (cases ?s) simp_all
  then have "ParseInt32 ?s = (if nat v < 2 ^ 31 then Some (int (nat v)) else None)"
    using is_digit_no_sign p(2,3) ne by (simp add: ParseInt32_def Let_def)
  then show ?thesis
    using assms isSnapshotName_name [OF assms] by (simp add: parseVersion_def snapshotName_form nat_less_iff)
qed

lemma append_less_iff: "xs @ ys < xs @ zs \<longleftrightarrow> ys < (zs :: 'a :: order list)"
  by (induction xs) simp_all

lemma snapshotName_less:
  assumes "0 \<le> v" and "v < 10 ^ 20" and "0 \<le> w" and "w < 10 ^ 20"
  shows "snapshotName v < snapshotName w \<longleftrightarrow> v < w"
proof -
  have n: "nat v < 10 ^ 20" "nat w < 10 ^ 20" using assms by (simp_all add: nat_less_iff)
  show ?thesis
    using decimal_less [of "pad_zeros 20 (digits (nat v))" "pad_zeros 20 (digits (nat w))"]
      pad_zeros_simps [OF n(1)] pad_zeros_simps [OF n(2)] assms
    by (auto simp: snapshotName_form append_less_iff)
qed

lemma snapshotName_inj:
  assumes "0 \<le> v" and "v < 10 ^ 20" and "0 \<le> w" and "w < 10 ^ 20"
  shows "snapshotName v = snapshotName w \<longleftrightarrow> v = w"
  using snapshotName_less [OF assms] snapshotName_less [OF assms(3,4,1,2)] by (metis less_irrefl linorder_neqE)

lemma no_tmp_snapshot: "isSnapshotName (name @ TmpSuffix) \<Longrightarrow> isSnapshotName name \<Longrightarrow> False"
  by (simp add: isSnapshotName_def TmpSuffix_def)

section \<open>Listing the snapshots\<close>

text \<open>
  A directory whose snapshots have the names the code gives them, with versions that can be read back; the
  versions in it in ascending order.
\<close>

definition small_version :: "int \<Rightarrow> bool" where
  "small_version v \<longleftrightarrow> 0 \<le> v \<and> v < 2 ^ 31"

definition canonical :: "db_fs \<Rightarrow> bool" where
  "canonical fs \<longleftrightarrow> distinct (map fst (fs_dirs fs)) \<and>
     (\<forall>name \<in> fst ` set (fs_dirs fs). isSnapshotName name \<longrightarrow> (\<exists>v. small_version v \<and> name = snapshotName v))"

definition name_version :: "string \<Rightarrow> int" where
  "name_version name = (case parseVersion name of Inl e \<Rightarrow> 0 | Inr v \<Rightarrow> v)"

definition versions :: "db_fs \<Rightarrow> int list" where
  "versions fs = map name_version (filter isSnapshotName (read_dir fs))"

fun traverse_versions ::
  "(int \<Rightarrow> 's \<Rightarrow> bool result \<times> 's) \<Rightarrow> int list \<Rightarrow> 's \<Rightarrow> unit result \<times> 's" where
  "traverse_versions callback [] s = (Inr (), s)"
| "traverse_versions callback (v # vs) s =
     (case callback v s of
        (Inl e, s') \<Rightarrow> (Inl e, s')
      | (Inr stop, s') \<Rightarrow> if stop then (Inr (), s') else traverse_versions callback vs s')"

lemma small_version_name:
  assumes "small_version v"
  shows "isSnapshotName (snapshotName v)" "parseVersion (snapshotName v) = Inr v" "name_version (snapshotName v) = v"
    "small_version w \<Longrightarrow> snapshotName v = snapshotName w \<longleftrightarrow> v = w"
    "small_version w \<Longrightarrow> snapshotName v < snapshotName w \<longleftrightarrow> v < w"
proof -
  have v: "0 \<le> v" "v < 10 ^ 20" using assms by (simp_all add: small_version_def)
  show "isSnapshotName (snapshotName v)" by (rule isSnapshotName_name [OF v])
  show "parseVersion (snapshotName v) = Inr v" using parseVersion_name [OF v] assms by (simp add: small_version_def)
  then show "name_version (snapshotName v) = v" by (simp add: name_version_def)
  assume "small_version w"
  then have w: "0 \<le> w" "w < 10 ^ 20" by (simp_all add: small_version_def)
  show "snapshotName v = snapshotName w \<longleftrightarrow> v = w" by (rule snapshotName_inj [OF v w])
  show "snapshotName v < snapshotName w \<longleftrightarrow> v < w" by (rule snapshotName_less [OF v w])
qed

lemma traverse_names_versions:
  assumes "\<forall>name \<in> set names. isSnapshotName name \<longrightarrow> (\<exists>v. small_version v \<and> name = snapshotName v)"
  shows "traverse_names callback names s = traverse_versions callback (map name_version (filter isSnapshotName names)) s"
  using assms
proof (induction names arbitrary: s)
  case (Cons name names)
  show ?case
  proof (cases "isSnapshotName name")
    case True
    then obtain v where v: "small_version v" "name = snapshotName v" using Cons.prems by auto
    obtain r s' where c: "callback v s = (r, s')" by force
    have "traverse_names callback names s' = traverse_versions callback (map name_version (filter isSnapshotName names)) s'"
      by (rule Cons.IH) (use Cons.prems in simp)
    then show ?thesis using v c small_version_name [OF v(1)] by (cases r) simp_all
  qed (use Cons in simp)
qed simp

lemma traverseSnapshots_versions:
  assumes "canonical fs"
  shows "traverseSnapshots fs ascending callback s =
    traverse_versions callback (if ascending then versions fs else rev (versions fs)) s"
proof -
  have "\<forall>name \<in> set (read_dir fs). isSnapshotName name \<longrightarrow> (\<exists>v. small_version v \<and> name = snapshotName v)"
    using assms by (simp add: canonical_def read_dir_def)
  then show ?thesis
    unfolding traverseSnapshots_def versions_def
    using traverse_names_versions [of "read_dir fs" callback s] traverse_names_versions [of "rev (read_dir fs)" callback s]
    by (simp add: rev_map rev_filter)
qed

lemma versions_names:
  assumes "canonical fs"
  shows "map snapshotName (versions fs) = filter isSnapshotName (read_dir fs)"
proof -
  have "snapshotName (name_version name) = name" if n: "name \<in> set (filter isSnapshotName (read_dir fs))" for name
  proof -
    obtain v where v: "small_version v" "name = snapshotName v"
      using assms n by (auto simp: canonical_def read_dir_def)
    then show ?thesis by (simp add: small_version_name)
  qed
  then show ?thesis unfolding versions_def map_map by (intro map_idI) simp
qed

lemma versions_small:
  assumes "canonical fs" and "v \<in> set (versions fs)"
  shows "small_version v"
proof -
  obtain name where n: "name \<in> fst ` set (fs_dirs fs)" "isSnapshotName name" "v = name_version name"
    using assms(2) by (auto simp: versions_def read_dir_def)
  then obtain w where w: "small_version w" "name = snapshotName w" using assms(1) by (auto simp: canonical_def)
  then show ?thesis using n(3) by (simp add: small_version_name)
qed

lemma versions_iff:
  assumes "canonical fs" and "small_version v"
  shows "v \<in> set (versions fs) \<longleftrightarrow> snapshotName v \<in> fst ` set (fs_dirs fs)"
proof
  assume "v \<in> set (versions fs)"
  then have "snapshotName v \<in> set (filter isSnapshotName (read_dir fs))"
    unfolding versions_names [OF assms(1), symmetric] by simp
  then show "snapshotName v \<in> fst ` set (fs_dirs fs)" by (simp add: read_dir_def)
next
  assume "snapshotName v \<in> fst ` set (fs_dirs fs)"
  then have "snapshotName v \<in> set (filter isSnapshotName (read_dir fs))"
    using small_version_name(1) [OF assms(2)] by (simp add: read_dir_def)
  then have "snapshotName v \<in> snapshotName ` set (versions fs)"
    unfolding versions_names [OF assms(1), symmetric] by simp
  then obtain w where "w \<in> set (versions fs)" "snapshotName v = snapshotName w" by blast
  then show "v \<in> set (versions fs)" using small_version_name(4) [OF assms(2), of w] versions_small [OF assms(1)] by auto
qed

lemma versions_sorted:
  assumes "canonical fs"
  shows "sorted_wrt (<) (versions fs)"
proof -
  have "sorted_wrt (<) (filter isSnapshotName (read_dir fs))"
    using assms by (simp add: read_dir_def canonical_def strict_sorted_iff sorted_filter [of id, simplified])
  then have "sorted_wrt (<) (map snapshotName (versions fs))" unfolding versions_names [OF assms] .
  then have lt: "sorted_wrt (\<lambda>v w. snapshotName v < snapshotName w) (versions fs)" by (simp add: sorted_wrt_map)
  show ?thesis
  proof (rule sorted_wrt_mono_rel [OF _ lt])
    fix v w assume "v \<in> set (versions fs)" "w \<in> set (versions fs)" "snapshotName v < snapshotName w"
    then show "v < w" using small_version_name(5) [of v w] versions_small [OF assms] by simp
  qed
qed

section \<open>Seeking\<close>

lemma traverse_find:
  "traverse_versions (\<lambda>v s. if P v then (Inr True, Some v) else (Inr False, s)) vs s =
     (Inr (), case List.find P vs of None \<Rightarrow> s | Some v \<Rightarrow> Some v)"
  by (induction vs arbitrary: s) simp_all

lemma seekSnapshot_spec:
  assumes "canonical fs"
  shows "seekSnapshot fs t =
    (case List.find (\<lambda>v. v \<le> int (unat t)) (rev (versions fs)) of None \<Rightarrow> Inl TargetPruned | Some v \<Rightarrow> Inr v)"
  unfolding seekSnapshot_def traverseSnapshots_versions [OF assms] traverse_find by (simp split: option.split)

lemma firstSnapshotVersion_spec:
  assumes "canonical fs"
  shows "firstSnapshotVersion fs = (if versions fs = [] then Inl ErrEmptyDB else Inr (hd (versions fs)))"
  unfolding firstSnapshotVersion_def traverseSnapshots_versions [OF assms]
  by (cases "versions fs") simp_all

text \<open>The greatest version of a sorted list up to a bound.\<close>

lemma find_rev_greatest:
  fixes t :: int
  assumes "sorted_wrt (<) vs"
  shows "(case List.find (\<lambda>v. v \<le> t) (rev vs) of None \<Rightarrow> \<forall>v \<in> set vs. t < v
    | Some v \<Rightarrow> v \<in> set vs \<and> v \<le> t \<and> (\<forall>w \<in> set vs. w \<le> t \<longrightarrow> w \<le> v))"
  using assms
proof (induction vs rule: rev_induct)
  case (snoc v vs)
  have s: "sorted_wrt (<) vs" "\<forall>w \<in> set vs. w < v" using snoc.prems by (simp_all add: sorted_wrt_append)
  show ?case using snoc.IH [OF s(1)] s(2) by (auto split: option.splits)
qed simp

lemma hd_least: "sorted_wrt (<) vs \<Longrightarrow> v \<in> set vs \<Longrightarrow> hd vs \<le> (v :: int)"
  by (cases vs) auto

end
