(* ===== verification/DBLog.thy ===== *)
theory DBLog
  imports DBNames
begin

text \<open>
  The contract of the package \<^verbatim>\<open>tidwall/wal\<close> that the database relies on: an append-only list of entries with
  consecutive indices that can be cut at both ends, and whose files, in the documented format of segments, open
  to the same list again. A log with a single segment file keeps the contract.
\<close>

section \<open>The contract\<close>

locale wal_package = wal_log "wp_reader pkg" winv wfirst wentries
  for pkg :: "'w wal_pkg" and winv :: "'w \<Rightarrow> bool" and wfirst :: "'w \<Rightarrow> nat" and wentries :: "'w \<Rightarrow> bytes list" +
  assumes WriteBatch: "winv w \<Longrightarrow> wfirst w + length (wentries w) + length bs < 2 ^ 63 \<Longrightarrow> \<forall>b \<in> set bs. length b < 2 ^ 63 \<Longrightarrow>
      \<exists>w'. wp_WriteBatch pkg
          (zip (map word_of_nat [wfirst w + length (wentries w)..<wfirst w + length (wentries w) + length bs]) bs) w = (Inr (), w') \<and>
        winv w' \<and> wfirst w' = wfirst w \<and> wentries w' = wentries w @ bs"
    and TruncateFront: "winv w \<Longrightarrow> wfirst w \<le> i \<Longrightarrow> i < wfirst w + length (wentries w) \<Longrightarrow>
      \<exists>w'. wp_TruncateFront pkg (word_of_nat i) w = (Inr (), w') \<and> winv w' \<and> wfirst w' = i \<and>
        wentries w' = drop (i - wfirst w) (wentries w)"
    and TruncateFront_range: "winv w \<Longrightarrow> unat x < wfirst w \<or> wfirst w + length (wentries w) \<le> unat x \<Longrightarrow>
      wp_TruncateFront pkg x w = (Inl WalOutOfRange, w)"
    and TruncateBack: "winv w \<Longrightarrow> wfirst w \<le> i \<Longrightarrow> i < wfirst w + length (wentries w) \<Longrightarrow>
      \<exists>w'. wp_TruncateBack pkg (word_of_nat i) w = (Inr (), w') \<and> winv w' \<and> wfirst w' = wfirst w \<and>
        wentries w' = take (Suc i - wfirst w) (wentries w)"
    and Close: "winv w \<Longrightarrow> \<exists>w'. wp_Close pkg w = (Inr (), w') \<and> wp_files pkg w' = wp_files pkg w"
    and Open: "winv w \<Longrightarrow> \<exists>w'. wp_Open pkg (wp_files pkg w) = (Inr w', wp_files pkg w') \<and> winv w' \<and>
        wfirst w' = wfirst w \<and> wentries w' = wentries w"
    and Open_new: "\<exists>w'. wp_Open pkg [] = (Inr w', wp_files pkg w') \<and> winv w' \<and> wfirst w' = 1 \<and> wentries w' = []"
    and files: "winv w \<Longrightarrow> \<exists>l. tryOpenReadOnlyWAL (Some (wp_files pkg w)) (wp_files pkg w) = Inr l \<and>
        ro_inv (wp_files pkg w) l \<and> ro_first l = wfirst w \<and> ro_entries (wp_files pkg w) l = wentries w"

section \<open>The log of a database is a log\<close>

definition handle_inv :: "('w \<Rightarrow> bool) \<Rightarrow> wal_dir \<Rightarrow> bool \<Rightarrow> 'w wal_handle \<Rightarrow> bool" where
  "handle_inv winv dir ro h = (case h of ReadOnlyLog l \<Rightarrow> ro \<and> ro_inv dir l | WriteLog w \<Rightarrow> \<not> ro \<and> winv w)"

definition handle_first :: "('w \<Rightarrow> nat) \<Rightarrow> 'w wal_handle \<Rightarrow> nat" where
  "handle_first wfirst h = (case h of ReadOnlyLog l \<Rightarrow> ro_first l | WriteLog w \<Rightarrow> wfirst w)"

definition handle_entries :: "('w \<Rightarrow> bytes list) \<Rightarrow> wal_dir \<Rightarrow> 'w wal_handle \<Rightarrow> bytes list" where
  "handle_entries wentries dir h = (case h of ReadOnlyLog l \<Rightarrow> ro_entries dir l | WriteLog w \<Rightarrow> wentries w)"

lemmas handle_defs = handle_inv_def handle_first_def handle_entries_def handle_reader_def

context wal_package
begin

lemma handle_log:
  "wal_log (handle_reader pkg dir) (handle_inv winv dir ro) (handle_first wfirst) (handle_entries wentries dir)"
proof (unfold_locales, goal_cases)
  case (1 h)
  then show ?case using bounds ro.bounds [of dir] by (cases h) (auto simp: handle_defs)
next
  case (2 h)
  then show ?case using FirstIndex ro.FirstIndex [of dir] by (cases h) (auto simp: handle_defs ro_reader_def)
next
  case (3 h)
  then show ?case using LastIndex ro.LastIndex [of dir] by (cases h) (auto simp: handle_defs ro_reader_def)
next
  case (4 h i)
  then show ?case using Read ro.Read [of dir] by (cases h) (auto simp: handle_defs ro_reader_def)
next
  case (5 h x)
  then show ?case using Read_state ro.Read_state [of dir] by (cases h) (auto simp: handle_defs ro_reader_def)
qed

end

sublocale wal_package < handle: wal_log "handle_reader pkg dir" "handle_inv winv dir ro" "handle_first wfirst" "handle_entries wentries dir" for dir ro
  by (rule handle_log)

section \<open>A log in one file\<close>

text \<open>
  A log that keeps all entries in one segment file, named by the index of its first entry, in the binary format. A torn
  end of the file is reported as corruption.
\<close>

definition log_file :: "mem_log \<Rightarrow> string" where
  "log_file l = pad_zeros 20 (digits (lg_first l))"

definition log_files :: "mem_log \<Rightarrow> wal_dir" where
  "log_files l = [(log_file l, Some (concat (map encode_entry (lg_entries l))))]"

fun load_segments :: "wal_dir \<Rightarrow> walSegment list \<Rightarrow> bytes list result" where
  "load_segments dir [] = Inr []"
| "load_segments dir (seg # segs) =
     rbind (readWALEntries dir (sg_path seg)) (\<lambda>(es, torn).
     if torn then Inl WalCorrupt else rmap (append es) (load_segments dir segs))"

definition log_Open :: "wal_dir \<Rightarrow> mem_log result \<times> wal_dir" where
  "log_Open dir =
     (case rbind (listWALSegments (Some dir)) (\<lambda>segs. rmap (Pair segs) (load_segments dir segs)) of
        Inl e \<Rightarrow> (Inl e, dir)
      | Inr (segs, es) \<Rightarrow>
          (let l = \<lparr>lg_first = (case segs of [] \<Rightarrow> 1 | seg # _ \<Rightarrow> unat (sg_index seg)), lg_entries = es\<rparr>
           in (Inr l, log_files l)))"

definition log_WriteBatch :: "(u64 \<times> bytes) list \<Rightarrow> mem_log \<Rightarrow> unit result \<times> mem_log" where
  "log_WriteBatch batch l =
     (let next_index = lg_first l + length (lg_entries l) in
      if map fst batch = map word_of_nat [next_index..<next_index + length batch] \<and> (\<forall>e \<in> set batch. length (snd e) < 2 ^ 63)
      then (Inr (), l\<lparr>lg_entries := lg_entries l @ map snd batch\<rparr>)
      else (Inl (AnyError ''out of order''), l))"

definition in_log :: "u64 \<Rightarrow> mem_log \<Rightarrow> bool" where
  "in_log i l \<longleftrightarrow> lg_first l \<le> unat i \<and> unat i < lg_first l + length (lg_entries l)"

definition one_file_log :: "mem_log wal_pkg" where
  "one_file_log =
     \<lparr>wp_Open = log_Open, wp_reader = log_reader, wp_WriteBatch = log_WriteBatch,
      wp_TruncateFront = (\<lambda>i l. if in_log i l
        then (Inr (), \<lparr>lg_first = unat i, lg_entries = drop (unat i - lg_first l) (lg_entries l)\<rparr>) else (Inl WalOutOfRange, l)),
      wp_TruncateBack = (\<lambda>i l. if in_log i l
        then (Inr (), l\<lparr>lg_entries := take (Suc (unat i) - lg_first l) (lg_entries l)\<rparr>) else (Inl WalOutOfRange, l)),
      wp_Close = (\<lambda>l. (Inr (), l)), wp_files = log_files\<rparr>"

definition file_inv :: "mem_log \<Rightarrow> bool" where
  "file_inv l \<longleftrightarrow> log_inv l \<and> (\<forall>e \<in> set (lg_entries l). length e < 2 ^ 63)"

lemma log_file_segment:
  assumes "log_inv l"
  shows "listWALSegments (Some (log_files l)) =
    Inr [\<lparr>sg_index = word_of_nat (lg_first l), sg_path = log_file l, sg_entries = None\<rparr>]"
proof -
  have f: "1 \<le> lg_first l" "lg_first l < 2 ^ 63" using assms by (simp_all add: log_inv_def)
  then have "lg_first l < 10 ^ 20" by simp
  note p = pad_zeros_simps [OF this]
  have "log_file l \<noteq> []" using p(1) by (auto simp: log_file_def)
  then have "ParseUint (log_file l) = Some (lg_first l)"
    using p f by (simp add: ParseUint_def log_file_def)
  then have "segment_of (log_file l, Some data) =
      Some (PlainSeg, \<lparr>sg_index = word_of_nat (lg_first l), sg_path = log_file l, sg_entries = None\<rparr>)" for data
    using p(1) f by (simp add: segment_of_def log_file_def Let_def)
  then show ?thesis by (simp add: listWALSegments_def log_files_def List.map_filter_def)
qed

lemma log_file_entries:
  assumes "file_inv l"
  shows "readWALEntries (log_files l) (log_file l) = Inr (lg_entries l, False)"
proof -
  have "\<forall>e \<in> set (lg_entries l). length e < 2 ^ 64" using assms by (force simp: file_inv_def)
  from split_entries_whole [OF this, of "[]"] show ?thesis by (simp add: readWALEntries_def read_file_def log_files_def)
qed

lemma unat_first: "log_inv l \<Longrightarrow> unat (word_of_nat (lg_first l) :: u64) = lg_first l"
  by (intro unat_u64) (simp add: log_inv_def)

lemma log_Open_files: "file_inv l \<Longrightarrow> log_Open (log_files l) = (Inr l, log_files l)"
proof -
  assume l: "file_inv l"
  then have "log_inv l" by (simp add: file_inv_def)
  then show ?thesis
    using log_file_segment [of l] log_file_entries [OF l] unat_first [of l] by (cases l) (simp add: log_Open_def Let_def)
qed

lemma log_read_only:
  assumes "file_inv l"
  shows "\<exists>ro. tryOpenReadOnlyWAL (Some (log_files l)) (log_files l) = Inr ro \<and> ro_inv (log_files l) ro \<and>
    ro_first ro = lg_first l \<and> ro_entries (log_files l) ro = lg_entries l"
proof -
  let ?seg = "\<lparr>sg_index = word_of_nat (lg_first l), sg_path = log_file l, sg_entries = None\<rparr>"
  have l: "log_inv l" using assms by (simp add: file_inv_def)
  note e = log_file_entries [OF assms]
  have d: "seg_data (log_files l) ?seg = lg_entries l" by (simp add: seg_data_def e)
  have "\<exists>ro. tryOpenReadOnlyWAL (Some (log_files l)) (log_files l) = Inr ro \<and> ro_inv (log_files l) ro \<and>
      ro_first ro = lg_first l \<and> ro_entries (log_files l) ro = concat (map (seg_data (log_files l)) [?seg])"
    by (rule tryOpen_inv [OF log_file_segment [OF l], of _ "lg_entries l" False])
      (use l d e in \<open>simp_all add: log_inv_def\<close>)
  then show ?thesis by (simp add: d)
qed

lemma log_truncates:
  assumes "file_inv l" and "lg_first l \<le> i" and "i < lg_first l + length (lg_entries l)"
  shows "in_log (word_of_nat i) l" "unat (word_of_nat i :: u64) = i"
    "file_inv \<lparr>lg_first = i, lg_entries = drop (i - lg_first l) (lg_entries l)\<rparr>"
    "file_inv (l\<lparr>lg_entries := take (Suc i - lg_first l) (lg_entries l)\<rparr>)"
proof -
  have b: "i < 2 ^ 63" using assms by (simp add: file_inv_def log_inv_def)
  then show u: "unat (word_of_nat i :: u64) = i" by (intro unat_u64) simp
  then show "in_log (word_of_nat i) l" using assms by (simp add: in_log_def)
  have s: "\<forall>e \<in> set (lg_entries l). length e < 2 ^ 63" using assms(1) by (simp add: file_inv_def)
  show "file_inv \<lparr>lg_first = i, lg_entries = drop (i - lg_first l) (lg_entries l)\<rparr>"
    "file_inv (l\<lparr>lg_entries := take (Suc i - lg_first l) (lg_entries l)\<rparr>)"
    using assms s by (auto simp: file_inv_def log_inv_def dest: in_set_dropD in_set_takeD)
qed

interpretation one_file: wal_package one_file_log file_inv lg_first lg_entries
proof (unfold_locales, goal_cases)
  case (1 w)
  then show ?case using mem.bounds by (simp add: file_inv_def)
next
  case (2 w)
  then show ?case using mem.FirstIndex by (simp add: file_inv_def one_file_log_def)
next
  case (3 w)
  then show ?case using mem.LastIndex by (simp add: file_inv_def one_file_log_def)
next
  case (4 w i)
  then show ?case using mem.Read by (simp add: file_inv_def one_file_log_def)
next
  case (5 w x)
  then show ?case using mem.Read_state [of w x] by (simp add: file_inv_def one_file_log_def)
next
  case (6 w bs)
  let ?n = "lg_first w + length (lg_entries w)"
  let ?batch = "zip (map word_of_nat [?n..<?n + length bs]) bs"
  have "map fst ?batch = map word_of_nat [?n..<?n + length ?batch]" "map snd ?batch = bs" by simp_all
  moreover have "\<forall>e \<in> set ?batch. length (snd e) < 2 ^ 63" using 6(3) by (auto dest: set_zip_rightD)
  ultimately have "wp_WriteBatch one_file_log ?batch w = (Inr (), w\<lparr>lg_entries := lg_entries w @ bs\<rparr>)"
    by (simp add: one_file_log_def log_WriteBatch_def Let_def)
  moreover have "file_inv (w\<lparr>lg_entries := lg_entries w @ bs\<rparr>)" using 6 by (auto simp: file_inv_def log_inv_def)
  ultimately show ?case by simp
next
  case (7 w i)
  then show ?case using log_truncates [of w i] by (simp add: one_file_log_def)
next
  case (8 w x)
  then show ?case by (auto simp: one_file_log_def in_log_def)
next
  case (9 w i)
  then show ?case using log_truncates [of w i] by (simp add: one_file_log_def)
next
  case (10 w)
  then show ?case by (simp add: one_file_log_def)
next
  case (11 w)
  then show ?case using log_Open_files [of w] by (simp add: one_file_log_def)
next
  case 12
  show ?case by (simp add: one_file_log_def log_Open_def Let_def listWALSegments_def List.map_filter_def file_inv_def log_inv_def)
next
  case (13 w)
  then show ?case using log_read_only [of w] by (simp add: one_file_log_def)
qed

end
