(* ===== verification/DBPending.thy ===== *)
theory DBPending
  imports DB
begin

text \<open>
  The pending log of a block: change sets that come in several calls are merged store by store, in order of
  names, through pointers that a map caches. The merged entry has the effect of the calls.
\<close>

section \<open>Change sets of different stores commute\<close>

lemma state_changes_append: "state_changes st (a @ b) = state_changes (state_changes st a) b"
  by (simp add: state_changes_def)

lemma spec_change_append:
  "spec_change name (cs1 @ cs2) s =
     (case spec_change name cs1 s of (Inl e, s') \<Rightarrow> (Inl e, s') | (Inr _, s') \<Rightarrow> spec_change name cs2 s')"
  by (auto simp: spec_change_def state_changes_append over_def split: option.split)

lemma spec_change_Inr:
  "spec_change name cs s = (Inr (), s') \<longleftrightarrow>
     (\<exists>i. ms_index s name = Some i \<and> i < length (ms_trees s) \<and>
       s' = s\<lparr>ms_trees := (ms_trees s)[i := over (\<lambda>st. state_changes st cs) (ms_trees s ! i)]\<rparr>)"
  by (auto simp: spec_change_def split: option.splits if_splits)

lemma index_inj:
  assumes "ms_inv s" and "ms_index s a = Some i" and "ms_index s b = Some i"
  shows "a = b"
proof -
  have "distinct (map fst (ms_trees s))" "ms_index s = index_map (ms_trees s)" using assms(1) by (simp_all add: ms_inv_def)
  then show ?thesis using assms(2,3) index_map_Some [of "ms_trees s"] by auto
qed

lemma spec_change_commute:
  assumes "ms_inv s" and "a \<noteq> b" and "spec_change a cs s = (Inr (), s1)" and "spec_change b cs' s1 = (Inr (), s2)"
  shows "\<exists>s1'. spec_change b cs' s = (Inr (), s1') \<and> spec_change a cs s1' = (Inr (), s2)"
proof -
  obtain i where i: "ms_index s a = Some i" "i < length (ms_trees s)"
    "s1 = s\<lparr>ms_trees := (ms_trees s)[i := over (\<lambda>st. state_changes st cs) (ms_trees s ! i)]\<rparr>"
    using assms(3) unfolding spec_change_Inr by blast
  obtain j where j: "ms_index s b = Some j" "j < length (ms_trees s)"
    "s2 = s1\<lparr>ms_trees := (ms_trees s1)[j := over (\<lambda>st. state_changes st cs') (ms_trees s1 ! j)]\<rparr>"
    using assms(4) i(3) unfolding spec_change_Inr by auto
  have "i \<noteq> j" using index_inj [OF assms(1) i(1), of b] j(1) assms(2) by auto
  then show ?thesis
    using i j by (simp add: spec_change_def list_update_swap)
qed

lemma spec_changes_append:
  "spec_changes (xs @ ys) s = (case spec_changes xs s of (Inl e, s') \<Rightarrow> (Inl e, s') | (Inr _, s') \<Rightarrow> spec_changes ys s')"
proof (induction xs arbitrary: s)
  case (Cons c xs)
  obtain r s1 where "spec_change (ncs_Name c) (ncs_Changeset c) s = (r, s1)" by force
  then show ?case using Cons.IH by (cases r) simp_all
qed simp

text \<open>A change set may move before those of other stores.\<close>

lemma spec_changes_move:
  assumes "ms_inv s" and "ncs_Name c \<notin> ncs_Name ` set xs" and "spec_changes (xs @ [c]) s = (Inr (), s')"
  shows "spec_changes (c # xs) s = (Inr (), s')"
  using assms
proof (induction xs arbitrary: s)
  case (Cons d xs)
  let ?n = "ncs_Name c" and ?c = "ncs_Changeset c"
  obtain r s1 where d: "spec_change (ncs_Name d) (ncs_Changeset d) s = (r, s1)" by force
  have d': "spec_change (ncs_Name d) (ncs_Changeset d) s = (Inr (), s1)" "spec_changes (xs @ [c]) s1 = (Inr (), s')"
    using Cons.prems(3) d by (cases r; simp)+
  have "ms_inv s1" using spec_change_inv [OF Cons.prems(1)] d by (metis snd_conv)
  then have "spec_changes (c # xs) s1 = (Inr (), s')" using Cons.IH Cons.prems(2) d'(2) by simp
  then obtain s2 where c: "spec_change ?n ?c s1 = (Inr (), s2)" "spec_changes xs s2 = (Inr (), s')"
    by (cases "spec_change ?n ?c s1") (auto split: sum.splits)
  have "ncs_Name d \<noteq> ?n" using Cons.prems(2) by auto
  from spec_change_commute [OF Cons.prems(1) this d'(1) c(1)] obtain s1' where
    "spec_change ?n ?c s = (Inr (), s1')" "spec_change (ncs_Name d) (ncs_Changeset d) s1' = (Inr (), s2)" by blast
  then show ?case using c(2) by simp
qed simp

lemma spec_changes_insert:
  assumes "ms_inv s" and "ncs_Name c \<notin> ncs_Name ` set ys" and "spec_changes (xs @ ys @ [c]) s = (Inr (), s')"
  shows "spec_changes (xs @ c # ys) s = (Inr (), s')"
proof -
  obtain s1 where x: "spec_changes xs s = (Inr (), s1)" "spec_changes (ys @ [c]) s1 = (Inr (), s')"
    using assms(3) unfolding spec_changes_append [of xs] by (cases "spec_changes xs s") (auto split: sum.splits)
  have "ms_inv s1" using spec_changes_inv [OF assms(1), of xs] x(1) by simp
  then show ?thesis using spec_changes_move [OF _ assms(2) x(2)] x(1) by (simp only: spec_changes_append [of xs]) simp
qed

text \<open>Appending the pairs to the last change set of a store.\<close>

lemma spec_changes_extend:
  assumes "ms_inv s" and "ncs_Name c \<notin> ncs_Name ` set ys"
    and "spec_changes (xs @ c # ys @ [\<lparr>ncs_Changeset = pairs, ncs_Name = ncs_Name c\<rparr>]) s = (Inr (), s')"
  shows "spec_changes (xs @ c\<lparr>ncs_Changeset := ncs_Changeset c @ pairs\<rparr> # ys) s = (Inr (), s')"
proof -
  let ?p = "\<lparr>ncs_Changeset = pairs, ncs_Name = ncs_Name c\<rparr>"
  have "spec_changes ((xs @ [c]) @ ?p # ys) s = (Inr (), s')"
    by (rule spec_changes_insert [OF assms(1)]) (use assms(2,3) in simp_all)
  then have "spec_changes (xs @ (c # ?p # ys)) s = (Inr (), s')" by simp
  moreover have eq: "spec_changes (c\<lparr>ncs_Changeset := ncs_Changeset c @ pairs\<rparr> # ys) s1 = spec_changes (c # ?p # ys) s1" for s1
    by (auto simp: spec_change_append split: prod.split sum.split)
  ultimately show ?thesis unfolding spec_changes_append [of xs] eq by simp
qed

section \<open>The cached map and the list\<close>

text \<open>The map that \<^verbatim>\<open>rebuildPendingChangesetMap\<close> builds: the last object of every name.\<close>

definition last_objects :: "(nat \<times> namedChangeSet) list \<Rightarrow> string \<rightharpoonup> nat" where
  "last_objects css = foldl (\<lambda>m (a, cs). m(ncs_Name cs \<mapsto> a)) Map.empty css"

definition pending_inv :: "('c, 'w) db \<Rightarrow> bool" where
  "pending_inv db \<longleftrightarrow>
     (let css = pl_Changesets (db_pendingLog db) in
      distinct (map fst css) \<and> (\<forall>a \<in> fst ` set css. a < db_fresh db) \<and>
      (css \<noteq> [] \<longrightarrow> db_cached db = Some (last_objects css)))"

lemma last_objects_snoc: "last_objects (css @ [(a, cs)]) = (last_objects css)(ncs_Name cs \<mapsto> a)"
  by (simp add: last_objects_def)

lemma last_objects_None: "last_objects css name = None \<longleftrightarrow> name \<notin> (ncs_Name \<circ> snd) ` set css"
proof (induction css rule: rev_induct)
  case (snoc e css)
  then show ?case by (cases e) (auto simp: last_objects_snoc)
qed (simp add: last_objects_def)

lemma last_objects_Some:
  assumes "last_objects css name = Some a"
  shows "\<exists>xs cs ys. css = xs @ (a, cs) # ys \<and> ncs_Name cs = name \<and> name \<notin> (ncs_Name \<circ> snd) ` set ys"
  using assms
proof (induction css rule: rev_induct)
  case (snoc e css)
  obtain b cs where e: "e = (b, cs)" by force
  show ?case
  proof (cases "ncs_Name cs = name")
    case True
    then show ?thesis
      using snoc.prems e by (intro exI [of _ css] exI [of _ cs] exI [of _ "[]"]) (simp add: last_objects_snoc)
  next
    case False
    then have "last_objects css name = Some a" using snoc.prems e by (simp add: last_objects_snoc)
    from snoc.IH [OF this] obtain xs c ys where
      "css = xs @ (a, c) # ys" "ncs_Name c = name" "name \<notin> (ncs_Name \<circ> snd) ` set ys" by blast
    then show ?thesis using False e by (intro exI [of _ xs] exI [of _ c] exI [of _ "ys @ [e]"]) simp
  qed
qed (simp add: last_objects_def)

lemma last_objects_keys: "map (\<lambda>(a, cs). (a, ncs_Name cs)) css = map (\<lambda>(a, cs). (a, ncs_Name cs)) css' \<Longrightarrow>
    last_objects css = last_objects css'"
proof (induction css arbitrary: css' rule: rev_induct)
  case (snoc e css)
  then obtain e' css'' where "css' = css'' @ [e']" "map (\<lambda>(a, cs). (a, ncs_Name cs)) css = map (\<lambda>(a, cs). (a, ncs_Name cs)) css''"
    "(\<lambda>(a, cs). (a, ncs_Name cs)) e = (\<lambda>(a, cs). (a, ncs_Name cs)) e'"
    by (cases css' rule: rev_cases) auto
  then show ?case using snoc.IH [of css''] by (cases e; cases e') (simp add: last_objects_snoc del: fun_upd_apply)
qed (simp add: last_objects_def)

text \<open>An object with a new name can stand anywhere.\<close>

lemma last_objects_insert:
  assumes "ncs_Name cs \<notin> (ncs_Name \<circ> snd) ` set (xs @ ys)"
  shows "last_objects (xs @ (a, cs) # ys) = (last_objects (xs @ ys))(ncs_Name cs \<mapsto> a)"
  using assms
proof (induction ys rule: rev_induct)
  case (snoc e ys)
  obtain b d where e: "e = (b, d)" by force
  have "last_objects ((xs @ (a, cs) # ys) @ [(b, d)]) = (last_objects (xs @ (a, cs) # ys))(ncs_Name d \<mapsto> b)"
    by (rule last_objects_snoc)
  moreover have "last_objects ((xs @ ys) @ [(b, d)]) = (last_objects (xs @ ys))(ncs_Name d \<mapsto> b)" by (rule last_objects_snoc)
  moreover have "ncs_Name d \<noteq> ncs_Name cs" using snoc.prems e by auto
  moreover have "last_objects (xs @ (a, cs) # ys) = (last_objects (xs @ ys))(ncs_Name cs \<mapsto> a)"
    by (rule snoc.IH) (use snoc.prems in simp)
  ultimately show ?case using e by (simp add: fun_upd_twist del: fun_upd_apply)
qed (simp add: last_objects_snoc)

section \<open>What the operations leave of the commit info and the metadata\<close>

lemma upgrades_metadata: "mt_metadata (snd (ApplyUpgrades ops us t)) = mt_metadata t"
  by (simp add: ApplyUpgrades_def Let_def split: prod.split)

lemma change_metadata: "mt_metadata (snd (mt_ApplyChangeSet ops name cs t)) = mt_metadata t"
  by (simp add: mt_ApplyChangeSet_def split: option.split)

lemma changes_metadata: "mt_metadata (snd (mt_ApplyChangeSets ops css t)) = mt_metadata t"
proof (induction css arbitrary: t)
  case (Cons cs css)
  obtain r t1 where "mt_ApplyChangeSet ops (ncs_Name cs) (ncs_Changeset cs) t = (r, t1)" by force
  then show ?case using Cons.IH [of t1] change_metadata [of ops "ncs_Name cs" "ncs_Changeset cs" t] by (cases r) simp_all
qed simp

lemma upgrades_info: "mt_lastCommitInfo (snd (ApplyUpgrades ops us t)) = mt_lastCommitInfo t"
  by (simp add: ApplyUpgrades_def Let_def split: prod.split)

lemma change_info: "mt_lastCommitInfo (snd (mt_ApplyChangeSet ops name cs t)) = mt_lastCommitInfo t"
  by (simp add: mt_ApplyChangeSet_def split: option.split)

lemma changes_info: "mt_lastCommitInfo (snd (mt_ApplyChangeSets ops css t)) = mt_lastCommitInfo t"
proof (induction css arbitrary: t)
  case (Cons cs css)
  obtain r t1 where "mt_ApplyChangeSet ops (ncs_Name cs) (ncs_Changeset cs) t = (r, t1)" by force
  then show ?case using Cons.IH [of t1] change_info [of ops "ncs_Name cs" "ncs_Changeset cs" t] by (cases r) simp_all
qed simp

lemma entry_metadata: "mt_metadata (snd (applyWALEntry ops e t)) = mt_metadata t"
proof -
  obtain r t1 where "ApplyUpgrades ops (we_Upgrades e) t = (r, t1)" by force
  then show ?thesis
    using upgrades_metadata [of ops "we_Upgrades e" t] changes_metadata [of ops "we_Changesets e" t1]
    by (cases r) (simp_all add: applyWALEntry_def)
qed

lemma UpdateCommitInfo_metadata: "mt_metadata (UpdateCommitInfo t) = mt_metadata t"
  by (simp add: UpdateCommitInfo_def buildCommitInfo_def Let_def)

lemma SaveVersion_metadata: "mt_metadata (snd (mt_SaveVersion u t)) = mt_metadata t"
  by (auto simp: mt_SaveVersion_def Let_def UpdateCommitInfo_metadata split: sum.split prod.split)

lemma replay_metadata: "replay ops rd is w t = (r, w', t') \<Longrightarrow> mt_metadata t' = mt_metadata t"
proof (induction "is" arbitrary: w t)
  case (Cons i "is")
  obtain r1 w1 where a: "wr_Read rd i w = (r1, w1)" by force
  show ?case
  proof (cases "rbind r1 WALEntry_Unmarshal")
    case (Inl x)
    then show ?thesis using Cons.prems a by (auto simp: rbind_def split: sum.splits)
  next
    case (Inr e)
    then obtain bz where bz: "r1 = Inr bz" "WALEntry_Unmarshal bz = Inr e" by (auto simp: rbind_def split: sum.splits)
    obtain r2 t1 where b: "applyWALEntry ops e t = (r2, t1)" by force
    obtain r3 t2 where c: "mt_SaveVersion False t1 = (r3, t2)" by force
    have m: "mt_metadata t1 = mt_metadata t" "mt_metadata t2 = mt_metadata t1"
      using entry_metadata [of ops e t] SaveVersion_metadata [of False t1] b c by simp_all
    show ?thesis using Cons.prems Cons.IH a bz b c m by (cases r2; cases r3) auto
  qed
qed simp

lemma catchup_metadata: "catchupWAL ops rd ev w t = (r, w', t') \<Longrightarrow> mt_metadata t' = mt_metadata t"
  by (auto simp: catchupWAL_def Let_def UpdateCommitInfo_metadata dest: replay_metadata split: if_splits sum.splits prod.splits)

lemma Copy_metadata: "mt_metadata (fst (mt_Copy ops n t)) = mt_metadata t" "mt_metadata (snd (mt_Copy ops n t)) = mt_metadata t"
  by (simp_all add: mt_Copy_def Let_def)

section \<open>Merging\<close>

lemma insert_pending_split: "\<exists>xs ys. css = xs @ ys \<and> insert_pending obj css = xs @ obj # ys"
proof (cases "length css = 0 \<or> ncs_Name (snd (css ! (length css - 1))) < ncs_Name (snd obj)")
  case True
  then show ?thesis by (intro exI [of _ css] exI [of _ "[]"]) (simp add: insert_pending_def)
next
  case False
  then show ?thesis
    by (intro exI [of _ "take (sort_Search (length css) (\<lambda>i. ncs_Name (snd (css ! i)) \<ge> ncs_Name (snd obj))) css"]
        exI [of _ "drop (sort_Search (length css) (\<lambda>i. ncs_Name (snd (css ! i)) \<ge> ncs_Name (snd obj))) css"])
      (simp add: insert_pending_def Let_def)
qed

lemma append_pairs_split:
  assumes "distinct (map fst (xs @ (a, cs) # ys))"
  shows "append_pairs a pairs (xs @ (a, cs) # ys) = xs @ (a, cs\<lparr>ncs_Changeset := ncs_Changeset cs @ pairs\<rparr>) # ys"
proof -
  have "append_pairs a pairs zs = zs" if "a \<notin> fst ` set zs" for zs
    unfolding append_pairs_def by (rule map_idI) (use that in \<open>auto simp: rev_image_eqI\<close>)
  then show ?thesis using assms by (auto simp: append_pairs_def)
qed

lemma ensure_map:
  assumes "pending_inv db"
  shows "\<exists>c. ensurePendingChangesetMap db = db\<lparr>db_cached := c\<rparr> \<and>
    (c = Some (last_objects (pl_Changesets (db_pendingLog db))) \<or> c = None \<and> pl_Changesets (db_pendingLog db) = [])"
proof (cases "pl_Changesets (db_pendingLog db) = []")
  case True
  then have "ensurePendingChangesetMap db = db\<lparr>db_cached := map_option (\<lambda>_. Map.empty) (db_cached db)\<rparr>"
    by (cases db; cases "db_cached db") (simp_all add: ensurePendingChangesetMap_def clearPendingChangesetMap_def)
  then show ?thesis
    using True by (intro exI [of _ "map_option (\<lambda>_. Map.empty) (db_cached db)"]) (auto simp: last_objects_def)
next
  case False
  then show ?thesis
    using assms by (intro exI [of _ "db_cached db"]) (simp add: pending_inv_def Let_def ensurePendingChangesetMap_def)
qed

text \<open>The merged list: the pairs are in the last change set of the store, or in a new one.\<close>

lemma merge_pending_cases:
  assumes "pending_inv db"
  defines "css \<equiv> pl_Changesets (db_pendingLog db)"
  obtains (extended) xs a cs ys where
      "css = xs @ (a, cs) # ys" "ncs_Name cs = name" "name \<notin> (ncs_Name \<circ> snd) ` set ys"
      "merge_pending name pairs db = db\<lparr>db_cached := Some (last_objects css),
         db_pendingLog := (db_pendingLog db)\<lparr>pl_Changesets := xs @ (a, cs\<lparr>ncs_Changeset := ncs_Changeset cs @ pairs\<rparr>) # ys\<rparr>\<rparr>"
    | (inserted) xs ys where "css = xs @ ys" "name \<notin> (ncs_Name \<circ> snd) ` set css"
      "insert_pending (db_fresh db, \<lparr>ncs_Changeset = pairs, ncs_Name = name\<rparr>) css =
         xs @ (db_fresh db, \<lparr>ncs_Changeset = pairs, ncs_Name = name\<rparr>) # ys"
      "merge_pending name pairs db = db\<lparr>db_cached := Some ((last_objects css)(name \<mapsto> db_fresh db)), db_fresh := Suc (db_fresh db),
         db_pendingLog := (db_pendingLog db)\<lparr>pl_Changesets :=
           xs @ (db_fresh db, \<lparr>ncs_Changeset = pairs, ncs_Name = name\<rparr>) # ys\<rparr>\<rparr>"
proof -
  obtain c where c: "ensurePendingChangesetMap db = db\<lparr>db_cached := c\<rparr>" "c = Some (last_objects css) \<or> c = None \<and> css = []"
    using ensure_map [OF assms(1)] by (auto simp: css_def)
  have d: "distinct (map fst css)" using assms(1) by (simp add: pending_inv_def Let_def css_def)
  show ?thesis
  proof (cases "last_objects css name")
    case (Some a)
    then obtain xs cs ys where css: "css = xs @ (a, cs) # ys" "ncs_Name cs = name" "name \<notin> (ncs_Name \<circ> snd) ` set ys"
      using last_objects_Some by blast
    have "c = Some (last_objects css)" using c(2) css(1) by auto
    then have "merge_pending name pairs db = db\<lparr>db_cached := Some (last_objects css),
        db_pendingLog := (db_pendingLog db)\<lparr>pl_Changesets := append_pairs a pairs css\<rparr>\<rparr>"
      using c(1) Some by (simp add: merge_pending_def Let_def css_def [symmetric])
    then show ?thesis
      using extended [OF css] append_pairs_split [of xs a cs ys pairs] d unfolding css(1) by simp
  next
    case None
    let ?obj = "(db_fresh db, \<lparr>ncs_Changeset = pairs, ncs_Name = name\<rparr>)"
    obtain xs ys where x: "css = xs @ ys" "insert_pending ?obj css = xs @ ?obj # ys"
      using insert_pending_split [of css ?obj] by blast
    have "(case c of None \<Rightarrow> None | Some m \<Rightarrow> m name) = None" "(case c of None \<Rightarrow> Map.empty | Some m \<Rightarrow> m) = last_objects css"
      using c(2) None by (auto simp: last_objects_def)
    then have "merge_pending name pairs db = db\<lparr>db_cached := Some ((last_objects css)(name \<mapsto> db_fresh db)), db_fresh := Suc (db_fresh db),
         db_pendingLog := (db_pendingLog db)\<lparr>pl_Changesets := insert_pending ?obj css\<rparr>\<rparr>"
      using c(1) by (simp add: merge_pending_def insertPendingChangeSet_def Let_def css_def [symmetric] del: fun_upd_apply)
    then show ?thesis using inserted [OF x(1) _ x(2)] last_objects_None [of css name] None x(2) by simp
  qed
qed

lemma merge_pending_inv:
  assumes "pending_inv db"
  shows "pending_inv (merge_pending name pairs db)"
proof (rule merge_pending_cases [OF assms, of name pairs], goal_cases)
  case (1 xs a cs ys)
  have "last_objects (xs @ (a, cs) # ys) = last_objects (xs @ (a, cs\<lparr>ncs_Changeset := ncs_Changeset cs @ pairs\<rparr>) # ys)"
    by (rule last_objects_keys) simp
  then show ?case using assms unfolding 1(4) 1(1) pending_inv_def Let_def by (simp add: 1(1))
next
  case (2 xs ys)
  have "last_objects (xs @ (db_fresh db, \<lparr>ncs_Changeset = pairs, ncs_Name = name\<rparr>) # ys) = (last_objects (xs @ ys))(name \<mapsto> db_fresh db)"
    using last_objects_insert [of "\<lparr>ncs_Changeset = pairs, ncs_Name = name\<rparr>" xs ys] 2(1,2) by simp
  moreover have fresh: "\<forall>a \<in> fst ` set (xs @ ys). a < db_fresh db" "distinct (map fst (xs @ ys))"
    using assms 2(1) by (simp_all add: pending_inv_def Let_def)
  moreover have "db_fresh db \<notin> fst ` set (xs @ ys)" using fresh(1) by (meson less_irrefl)
  ultimately show ?case
    using fresh unfolding 2(4) 2(1) pending_inv_def Let_def by (simp del: fun_upd_apply add: less_Suc_eq image_Un)
qed

lemma merge_pending_effect:
  assumes "pending_inv db" and "ms_inv s"
    and "spec_changes (map snd (pl_Changesets (db_pendingLog db)) @ [\<lparr>ncs_Changeset = pairs, ncs_Name = name\<rparr>]) s = (Inr (), s')"
  shows "spec_changes (map snd (pl_Changesets (db_pendingLog (merge_pending name pairs db)))) s = (Inr (), s')"
proof (rule merge_pending_cases [OF assms(1), of name pairs], goal_cases)
  case (1 xs a cs ys)
  have "ncs_Name cs \<notin> ncs_Name ` set (map snd ys)" using 1(2,3) by (auto simp: image_comp)
  then show ?case
    using spec_changes_extend [OF assms(2), of cs "map snd ys" "map snd xs" pairs s'] assms(3) 1(2) unfolding 1(1) 1(4) by simp
next
  case (2 xs ys)
  have "name \<notin> ncs_Name ` set (map snd ys)" using 2(1,2) by (auto simp: image_comp)
  then show ?case
    using spec_changes_insert [OF assms(2), of "\<lparr>ncs_Changeset = pairs, ncs_Name = name\<rparr>" "map snd ys" "map snd xs" s'] assms(3)
    unfolding 2(1) 2(4) by simp
qed

lemma merge_pending_frame:
  assumes "pending_inv db"
  shows "\<exists>c n css. merge_pending name pairs db = db\<lparr>db_cached := c, db_fresh := n, db_pendingLog := (db_pendingLog db)\<lparr>pl_Changesets := css\<rparr>\<rparr> \<and>
    sum_list (map (\<lambda>cs. length (ncs_Changeset cs)) (map snd css)) =
      sum_list (map (\<lambda>cs. length (ncs_Changeset cs)) (map snd (pl_Changesets (db_pendingLog db)))) + length pairs"
proof (rule merge_pending_cases [OF assms, of name pairs], goal_cases)
  case (1 xs a cs ys)
  then show ?case
    by (intro exI [of _ "Some (last_objects (pl_Changesets (db_pendingLog db)))"] exI [of _ "db_fresh db"]
        exI [of _ "xs @ (a, cs\<lparr>ncs_Changeset := ncs_Changeset cs @ pairs\<rparr>) # ys"]) simp
next
  case (2 xs ys)
  then show ?case
    by (intro exI [of _ "Some ((last_objects (pl_Changesets (db_pendingLog db)))(name \<mapsto> db_fresh db))"] exI [of _ "Suc (db_fresh db)"]
        exI [of _ "xs @ (db_fresh db, \<lparr>ncs_Changeset = pairs, ncs_Name = name\<rparr>) # ys"]) (simp del: fun_upd_apply)
qed

section \<open>The operations\<close>

text \<open>
  A block that began in the visible state \<open>s0\<close>: replaying its pending entry there gives the present state.
\<close>

definition pend_ok :: "mstate \<Rightarrow> ('c, 'w) db \<Rightarrow> bool" where
  "pend_ok s0 db \<longleftrightarrow> pending_inv db \<and> spec_entry (pending_entry (db_pendingLog db)) s0 = (Inr (), mt_state (db_MultiTree db))"

definition startable :: "mstate \<Rightarrow> bool" where
  "startable s \<longleftrightarrow> ms_inv s \<and> nextVersion (ms_version s) (ms_initial s) \<le> int MaxUint32"

lemma spec_entry_Inr:
  "spec_entry e s = (Inr (), s') \<longleftrightarrow>
     (\<exists>s1. spec_upgrades (we_Upgrades e) s = (Inr (), s1) \<and> spec_changes (we_Changesets e) s1 = (Inr (), s'))"
  by (cases "spec_upgrades (we_Upgrades e) s") (auto simp: spec_entry_def split: sum.splits)

lemma applyChangeSet_Inr:
  assumes "pending_inv db" and "db_applyChangeSet ops name pairs db = (Inr (), db')" and "pairs \<noteq> []"
  obtains t where "mt_ApplyChangeSet ops name pairs (db_MultiTree db) = (Inr (), t)"
    "db' = (merge_pending name pairs db)\<lparr>db_MultiTree := t\<rparr>"
proof -
  have m: "db_MultiTree (merge_pending name pairs db) = db_MultiTree db" using merge_pending_frame [OF assms(1), of name pairs] by auto
  obtain r t where "mt_ApplyChangeSet ops name pairs (db_MultiTree db) = (r, t)" by force
  then show ?thesis
    using that [of t] assms(2,3) m by (cases "db_readOnly db") (simp_all add: db_applyChangeSet_def)
qed

lemma applyChangeSet_effect:
  assumes "startable s0" and "pend_ok s0 db" and "db_applyChangeSet ops name pairs db = (Inr (), db')"
  shows "pend_ok s0 db'"
proof (cases "pairs = []")
  case True
  then show ?thesis using assms(2,3) by (simp add: db_applyChangeSet_def)
next
  case False
  have inv: "pending_inv db" using assms(2) by (simp add: pend_ok_def)
  obtain s1 where u: "spec_upgrades (pl_Upgrades (db_pendingLog db)) s0 = (Inr (), s1)"
    "spec_changes (map snd (pl_Changesets (db_pendingLog db))) s1 = (Inr (), mt_state (db_MultiTree db))"
    using assms(2) unfolding pend_ok_def spec_entry_Inr by (auto simp: pending_entry_def)
  have s1: "ms_inv s1" using spec_upgrades_inv [OF _ _ u(1)] assms(1) by (simp add: startable_def)
  obtain t where t: "mt_ApplyChangeSet ops name pairs (db_MultiTree db) = (Inr (), t)"
    "db' = (merge_pending name pairs db)\<lparr>db_MultiTree := t\<rparr>"
    by (rule applyChangeSet_Inr [OF inv assms(3) False])
  have m: "pl_Upgrades (db_pendingLog (merge_pending name pairs db)) = pl_Upgrades (db_pendingLog db)"
    using merge_pending_frame [OF inv, of name pairs] by auto
  have "spec_change name pairs (mt_state (db_MultiTree db)) = (Inr (), mt_state t)"
    using mt_ApplyChangeSet_spec [of ops name pairs "db_MultiTree db"] t(1) by (simp add: prod_eq_iff)
  then have "spec_changes (map snd (pl_Changesets (db_pendingLog db)) @ [\<lparr>ncs_Changeset = pairs, ncs_Name = name\<rparr>]) s1 = (Inr (), mt_state t)"
    using u(2) by (simp add: spec_changes_append)
  from merge_pending_effect [OF inv s1 this]
  have "spec_entry (pending_entry (db_pendingLog (merge_pending name pairs db))) s0 = (Inr (), mt_state t)"
    unfolding spec_entry_Inr using u(1) m by (auto simp: pending_entry_def)
  moreover have "pending_inv db'" using merge_pending_inv [OF inv, of name pairs] t(2) by (simp add: pending_inv_def)
  ultimately show ?thesis using t(2) by (simp add: pend_ok_def)
qed

text \<open>What an operation on the pending changes leaves alone, and the room it takes.\<close>

definition pend_frame :: "nat \<Rightarrow> ('c, 'w) db \<Rightarrow> ('c, 'w) db \<Rightarrow> bool" where
  "pend_frame n db db' \<longleftrightarrow>
     (\<exists>c f pl t. db' = db\<lparr>db_cached := c, db_fresh := f, db_pendingLog := pl, db_MultiTree := t\<rparr> \<and>
        entry_size (pending_entry pl) = entry_size (pending_entry (db_pendingLog db)) + n \<and>
        (\<forall>k. n + k < 2 ^ 63 \<and> roomy (n + k) (db_MultiTree db) \<longrightarrow> roomy k t) \<and> mt_metadata t = mt_metadata (db_MultiTree db) \<and>
        mt_lastCommitInfo t = mt_lastCommitInfo (db_MultiTree db))"

lemma pend_frame_refl: "pend_frame 0 db db"
  unfolding pend_frame_def
  by (intro exI [of _ "db_cached db"] exI [of _ "db_fresh db"] exI [of _ "db_pendingLog db"] exI [of _ "db_MultiTree db"]) simp

lemma pend_frame_trans: "pend_frame n db db1 \<Longrightarrow> pend_frame m db1 db2 \<Longrightarrow> pend_frame (n + m) db db2"
proof -
  assume "pend_frame n db db1" "pend_frame m db1 db2"
  then obtain c f pl t c' f' pl' t' where
    a: "db1 = db\<lparr>db_cached := c, db_fresh := f, db_pendingLog := pl, db_MultiTree := t\<rparr>"
      "entry_size (pending_entry pl) = entry_size (pending_entry (db_pendingLog db)) + n"
      "\<forall>k. n + k < 2 ^ 63 \<and> roomy (n + k) (db_MultiTree db) \<longrightarrow> roomy k t" "mt_metadata t = mt_metadata (db_MultiTree db)"
      "mt_lastCommitInfo t = mt_lastCommitInfo (db_MultiTree db)"
    and b: "db2 = db1\<lparr>db_cached := c', db_fresh := f', db_pendingLog := pl', db_MultiTree := t'\<rparr>"
      "entry_size (pending_entry pl') = entry_size (pending_entry (db_pendingLog db1)) + m"
      "\<forall>k. m + k < 2 ^ 63 \<and> roomy (m + k) (db_MultiTree db1) \<longrightarrow> roomy k t'" "mt_metadata t' = mt_metadata (db_MultiTree db1)"
      "mt_lastCommitInfo t' = mt_lastCommitInfo (db_MultiTree db1)"
    unfolding pend_frame_def by blast
  have "roomy k t'" if k: "n + m + k < 2 ^ 63" "roomy (n + m + k) (db_MultiTree db)" for k
  proof -
    have "roomy (m + k) t" using a(3) k by (simp add: add.assoc)
    then show ?thesis using b(3) a(1) k by simp
  qed
  then show ?thesis
    unfolding pend_frame_def using a b
    by (intro exI [of _ c'] exI [of _ f'] exI [of _ pl'] exI [of _ t']) simp
qed

lemma applyChangeSet_frame:
  assumes "pending_inv db" and "db_applyChangeSet ops name pairs db = (Inr (), db')"
  shows "pend_frame (length pairs) db db'"
proof (cases "pairs = []")
  case True
  then show ?thesis using assms(2) pend_frame_refl [of db] by (simp add: db_applyChangeSet_def)
next
  case False
  obtain c n css where f: "merge_pending name pairs db = db\<lparr>db_cached := c, db_fresh := n, db_pendingLog := (db_pendingLog db)\<lparr>pl_Changesets := css\<rparr>\<rparr>"
    "sum_list (map (\<lambda>cs. length (ncs_Changeset cs)) (map snd css)) =
      sum_list (map (\<lambda>cs. length (ncs_Changeset cs)) (map snd (pl_Changesets (db_pendingLog db)))) + length pairs"
    using merge_pending_frame [OF assms(1), of name pairs] by blast
  obtain t where t: "mt_ApplyChangeSet ops name pairs (db_MultiTree db) = (Inr (), t)"
    "db' = (merge_pending name pairs db)\<lparr>db_MultiTree := t\<rparr>"
    by (rule applyChangeSet_Inr [OF assms False])
  have "roomy k t" if "roomy (length pairs + k) (db_MultiTree db)" for k
    using roomy_change [OF that, of ops name] t(1) by simp
  moreover have "mt_metadata t = mt_metadata (db_MultiTree db)" "mt_lastCommitInfo t = mt_lastCommitInfo (db_MultiTree db)"
    using change_metadata [of ops name pairs "db_MultiTree db"] change_info [of ops name pairs "db_MultiTree db"] t(1) by simp_all
  ultimately show ?thesis
    unfolding pend_frame_def using f t(2)
    by (intro exI [of _ c] exI [of _ n] exI [of _ "(db_pendingLog db)\<lparr>pl_Changesets := css\<rparr>"] exI [of _ t])
      (simp add: entry_size_def pending_entry_def)
qed

lemma apply_each_effect:
  "startable s0 \<Longrightarrow> pend_ok s0 db \<Longrightarrow> apply_each ops css db = (Inr (), db') \<Longrightarrow>
     pend_ok s0 db' \<and> pend_frame (sum_list (map (\<lambda>cs. length (ncs_Changeset cs)) css)) db db'"
proof (induction css arbitrary: db)
  case (Cons cs css)
  obtain r db1 where a: "db_applyChangeSet ops (ncs_Name cs) (ncs_Changeset cs) db = (r, db1)" by force
  then have b: "db_applyChangeSet ops (ncs_Name cs) (ncs_Changeset cs) db = (Inr (), db1)" "apply_each ops css db1 = (Inr (), db')"
    using Cons.prems(3) by (cases r; simp)+
  have 1: "pend_ok s0 db1" by (rule applyChangeSet_effect [OF Cons.prems(1,2) b(1)])
  have "pending_inv db" using Cons.prems(2) by (simp add: pend_ok_def)
  from applyChangeSet_frame [OF this b(1)] Cons.IH [OF Cons.prems(1) 1 b(2)] show ?case
    using pend_frame_trans by (simp add: pend_frame_trans)
qed (simp add: pend_frame_refl)

lemma zip_addresses: "map snd (zip [f..<f + length css] css) = css" "map fst (zip [f..<f + length css] css) = [f..<f + length css]"
  by simp_all

lemma setPending_fields:
  assumes "css \<noteq> []"
  shows "setPendingChangeSets css db =
    db\<lparr>db_pendingLog := (db_pendingLog db)\<lparr>pl_Changesets := zip [db_fresh db..<db_fresh db + length css] css\<rparr>,
       db_fresh := db_fresh db + length css, db_cached := Some (last_objects (zip [db_fresh db..<db_fresh db + length css] css))\<rparr>"
  using assms by (simp add: setPendingChangeSets_def rebuildPendingChangesetMap_def last_objects_def Let_def)

lemma setPending_inv:
  assumes "css \<noteq> []"
  shows "pending_inv (setPendingChangeSets css db)"
proof -
  have "a < db_fresh db + length css" if "a \<in> fst ` set (zip [db_fresh db..<db_fresh db + length css] css)" for a
    using that unfolding set_map [symmetric] zip_addresses by simp
  then show ?thesis
    unfolding setPending_fields [OF assms] pending_inv_def Let_def by (simp add: zip_addresses)
qed

lemma ApplyChangeSets_effect:
  assumes "startable s0" and "pend_ok s0 db" and "db_ApplyChangeSets ops css db = (Inr (), db')"
  shows "pend_ok s0 db' \<and> pend_frame (sum_list (map (\<lambda>cs. length (ncs_Changeset cs)) css)) db db'"
proof (cases "css = [] \<or> pl_Changesets (db_pendingLog db) \<noteq> []")
  case True
  then show ?thesis
    using assms apply_each_effect [OF assms(1,2), of ops css db'] pend_frame_refl [of db]
    by (auto simp: db_ApplyChangeSets_def split: if_splits)
next
  case False
  then have e: "css \<noteq> []" "pl_Changesets (db_pendingLog db) = []" by auto
  let ?objs = "zip [db_fresh db..<db_fresh db + length css] css"
  note sp = setPending_fields [OF e(1), of db]
  obtain r t where "mt_ApplyChangeSets ops css (db_MultiTree db) = (r, t)" by force
  then have t: "mt_ApplyChangeSets ops css (db_MultiTree db) = (Inr (), t)" "db' = (setPendingChangeSets css db)\<lparr>db_MultiTree := t\<rparr>"
    using assms(3) e sp by (simp_all add: db_ApplyChangeSets_def split: if_splits)
  have u: "spec_upgrades (pl_Upgrades (db_pendingLog db)) s0 = (Inr (), mt_state (db_MultiTree db))"
    using assms(2) e(2) unfolding pend_ok_def spec_entry_Inr by (simp add: pending_entry_def)
  have "spec_changes css (mt_state (db_MultiTree db)) = (Inr (), mt_state t)"
    using mt_ApplyChangeSets_spec [of ops css "db_MultiTree db"] t(1) by (simp add: prod_eq_iff)
  then have "spec_entry (pending_entry (db_pendingLog db')) s0 = (Inr (), mt_state t)"
    unfolding spec_entry_Inr using u t(2) sp by (simp add: pending_entry_def zip_addresses)
  moreover have "pending_inv db'" using setPending_inv [OF e(1), of db] t(2) by (simp add: pending_inv_def)
  ultimately have "pend_ok s0 db'" using t(2) by (simp add: pend_ok_def)
  moreover have "roomy k t" if "roomy (sum_list (map (\<lambda>cs. length (ncs_Changeset cs)) css) + k) (db_MultiTree db)" for k
    using roomy_changes [OF that, of ops] t(1) by simp
  moreover have "mt_metadata t = mt_metadata (db_MultiTree db)" "mt_lastCommitInfo t = mt_lastCommitInfo (db_MultiTree db)"
    using changes_metadata [of ops css "db_MultiTree db"] changes_info [of ops css "db_MultiTree db"] t(1) by simp_all
  ultimately show ?thesis
    unfolding pend_frame_def using t(2) sp e(2)
    by (intro conjI exI [of _ "Some (last_objects ?objs)"] exI [of _ "db_fresh db + length css"]
        exI [of _ "(db_pendingLog db)\<lparr>pl_Changesets := ?objs\<rparr>"] exI [of _ t]) (simp_all add: entry_size_def pending_entry_def zip_addresses)
qed

lemma ApplyUpgrades_effect:
  assumes "pend_ok s0 db" and "db_pendingLog db = empty_pending" and "db_ApplyUpgrades ops us db = (Inr (), db')"
  shows "pend_ok s0 db' \<and> pend_frame 0 db db'"
proof -
  obtain r t where "ApplyUpgrades ops us (db_MultiTree db) = (r, t)" by force
  then have t: "ApplyUpgrades ops us (db_MultiTree db) = (Inr (), t)"
    "db' = db\<lparr>db_MultiTree := t, db_pendingLog := \<lparr>pl_Changesets = [], pl_Upgrades = us\<rparr>\<rparr>"
    using assms(2,3) by (cases r; simp add: db_ApplyUpgrades_def empty_pending_def split: if_splits)+
  have "mt_state (db_MultiTree db) = s0"
    using assms(1,2) unfolding pend_ok_def spec_entry_Inr by (simp add: pending_entry_def empty_pending_def spec_upgrades_def)
  then have "spec_upgrades us s0 = (Inr (), mt_state t)"
    using ApplyUpgrades_spec [of ops us "db_MultiTree db"] t(1) by (simp add: prod_eq_iff)
  then have "pend_ok s0 db'" using t(2) unfolding pend_ok_def spec_entry_Inr by (simp add: pending_entry_def pending_inv_def)
  moreover have "roomy k t" if "k < 2 ^ 63" "roomy k (db_MultiTree db)" for k
    using roomy_upgrades [OF that(2,1), of ops us] t(1) by simp
  moreover have "mt_metadata t = mt_metadata (db_MultiTree db)" "mt_lastCommitInfo t = mt_lastCommitInfo (db_MultiTree db)"
    using upgrades_metadata [of ops us "db_MultiTree db"] upgrades_info [of ops us "db_MultiTree db"] t(1) by simp_all
  ultimately show ?thesis
    unfolding pend_frame_def using t(2) assms(2)
    by (intro conjI exI [of _ "db_cached db"] exI [of _ "db_fresh db"] exI [of _ "\<lparr>pl_Changesets = [], pl_Upgrades = us\<rparr>"] exI [of _ t])
      (simp_all add: entry_size_def pending_entry_def empty_pending_def)
qed

section \<open>The order of the stores\<close>

definition names_sorted :: "namedChangeSet list \<Rightarrow> bool" where
  "names_sorted css \<longleftrightarrow> sorted_wrt (<) (map ncs_Name css)"

lemma insert_pending_sorted:
  assumes "names_sorted (map snd css)" and "ncs_Name (snd obj) \<notin> (ncs_Name \<circ> snd) ` set css"
  shows "names_sorted (map snd (insert_pending obj css))"
proof -
  let ?n = "length css" and ?name = "ncs_Name (snd obj)" and ?f = "ncs_Name \<circ> snd"
  have so: "sorted_wrt (<) (map ?f css)" using assms(1) by (simp add: names_sorted_def)
  have lt: "?f (css ! i) < ?f (css ! j)" if "i < j" "j < ?n" for i j using sorted_wrt_nth_less [OF so, of i j] that by simp
  have ne: "?f (css ! i) \<noteq> ?name" if "i < ?n" for i using assms(2) that by (metis image_eqI nth_mem)
  show ?thesis
  proof (cases "?n = 0 \<or> ?f (css ! (?n - 1)) < ?name")
    case True
    have "?f x < ?name" if x: "x \<in> set css" for x
    proof -
      obtain i where i: "i < ?n" "x = css ! i" using x by (metis in_set_conv_nth)
      show ?thesis
      proof (cases "i < ?n - 1")
        case t: True
        have "?f (css ! i) < ?f (css ! (?n - 1))" by (rule lt) (use t in simp_all)
        then show ?thesis using True i by (auto intro: less_trans)
      next
        case False
        then have "i = ?n - 1" using i(1) by simp
        then show ?thesis using True i by auto
      qed
    qed
    then show ?thesis
      using True so by (simp add: insert_pending_def names_sorted_def sorted_wrt_append)
  next
    case False
    let ?idx = "sort_Search ?n (\<lambda>i. ?f (css ! i) \<ge> ?name)"
    have mono: "?name \<le> ?f (css ! b)" if "a \<le> b" "b < ?n" "?name \<le> ?f (css ! a)" for a b
      using that lt [of a b] by (cases "a = b") auto
    have idx: "?idx \<le> ?n" "k < ?idx \<Longrightarrow> \<not> ?name \<le> ?f (css ! k)" "?idx \<le> k \<Longrightarrow> k < ?n \<Longrightarrow> ?name \<le> ?f (css ! k)" for k
      using sort_Search_spec [of ?n "\<lambda>i. ?f (css ! i) \<ge> ?name"] mono by blast+
    have before: "?f x < ?name" if "x \<in> set (take ?idx css)" for x
      using that idx(1,2) by (auto simp: in_set_conv_nth not_le)
    have after: "?name < ?f x" if x: "x \<in> set (drop ?idx css)" for x
    proof -
      obtain k where k: "k < length (drop ?idx css)" "x = drop ?idx css ! k" using x by (metis in_set_conv_nth)
      then obtain i where i: "?idx \<le> i" "i < ?n" "x = css ! i" using idx(1) by (intro that [of "?idx + k"]) simp_all
      then show ?thesis using idx(3) [of i] ne [of i] by auto
    qed
    have "sorted_wrt (<) (map ?f (take ?idx css @ drop ?idx css))" using so by simp
    then have "sorted_wrt (<) (map ?f (take ?idx css @ [obj] @ drop ?idx css))"
      using before after unfolding map_append sorted_wrt_append by auto
    moreover have "insert_pending obj css = take ?idx css @ [obj] @ drop ?idx css"
      using False by (simp add: insert_pending_def Let_def)
    ultimately show ?thesis by (simp add: names_sorted_def)
  qed
qed

lemma merge_pending_sorted:
  assumes "pending_inv db" and "names_sorted (map snd (pl_Changesets (db_pendingLog db)))"
  shows "names_sorted (map snd (pl_Changesets (db_pendingLog (merge_pending name pairs db))))"
proof (rule merge_pending_cases [OF assms(1), of name pairs], goal_cases)
  case (1 xs a cs ys)
  show ?case using assms(2) unfolding 1(1) 1(4) by (simp add: names_sorted_def)
next
  case (2 xs ys)
  show ?case using insert_pending_sorted [OF assms(2), of "(db_fresh db, \<lparr>ncs_Changeset = pairs, ncs_Name = name\<rparr>)"] 2(2)
    unfolding 2(3) 2(4) by simp
qed

section \<open>A block of calls\<close>

datatype change_call = Change string changeset | Changes "namedChangeSet list"

fun run_calls :: "'c cache_ops \<Rightarrow> change_call list \<Rightarrow> ('c, 'w) db \<Rightarrow> unit result \<times> ('c, 'w) db" where
  "run_calls ops [] db = (Inr (), db)"
| "run_calls ops (call # calls) db =
     (case (case call of Change name cs \<Rightarrow> db_ApplyChangeSet ops name cs db | Changes css \<Rightarrow> db_ApplyChangeSets ops css db) of
        (Inl e, db') \<Rightarrow> (Inl e, db')
      | (Inr _, db') \<Rightarrow> run_calls ops calls db')"

lemma ApplyChangeSet_effect:
  assumes "startable s0" and "pend_ok s0 db" and "db_ApplyChangeSet ops name cs db = (Inr (), db')"
  shows "pend_ok s0 db' \<and> pend_frame (length cs) db db'"
proof -
  have "db_applyChangeSet ops name cs db = (Inr (), db')"
    using assms(3) by (auto simp: db_ApplyChangeSet_def db_applyChangeSet_def split: if_splits)
  then show ?thesis using applyChangeSet_effect applyChangeSet_frame assms(1,2) unfolding pend_ok_def by blast
qed

lemma applyChangeSet_sorted:
  assumes "pending_inv db" and "names_sorted (map snd (pl_Changesets (db_pendingLog db)))"
    and "db_applyChangeSet ops name cs db = (Inr (), db')"
  shows "names_sorted (map snd (pl_Changesets (db_pendingLog db')))"
proof (cases "cs = []")
  case True
  then show ?thesis using assms by (simp add: db_applyChangeSet_def)
next
  case False
  show ?thesis
    by (rule applyChangeSet_Inr [OF assms(1,3) False]) (use merge_pending_sorted [OF assms(1,2)] in simp)
qed

lemma apply_each_sorted:
  "startable s0 \<Longrightarrow> pend_ok s0 db \<Longrightarrow> names_sorted (map snd (pl_Changesets (db_pendingLog db))) \<Longrightarrow>
     apply_each ops css db = (Inr (), db') \<Longrightarrow> names_sorted (map snd (pl_Changesets (db_pendingLog db')))"
proof (induction css arbitrary: db)
  case (Cons cs css)
  obtain r db1 where a: "db_applyChangeSet ops (ncs_Name cs) (ncs_Changeset cs) db = (r, db1)" by force
  then have b: "db_applyChangeSet ops (ncs_Name cs) (ncs_Changeset cs) db = (Inr (), db1)" "apply_each ops css db1 = (Inr (), db')"
    using Cons.prems(4) by (cases r; simp)+
  have "pend_ok s0 db1" by (rule applyChangeSet_effect [OF Cons.prems(1,2) b(1)])
  moreover have "names_sorted (map snd (pl_Changesets (db_pendingLog db1)))"
    using applyChangeSet_sorted [OF _ Cons.prems(3) b(1)] Cons.prems(2) by (simp add: pend_ok_def)
  ultimately show ?case using Cons.IH [OF Cons.prems(1)] b(2) by blast
qed simp

lemma ApplyChangeSets_sorted:
  assumes "startable s0" and "pend_ok s0 db" and "names_sorted (map snd (pl_Changesets (db_pendingLog db)))" and "names_sorted css"
    and "db_ApplyChangeSets ops css db = (Inr (), db')"
  shows "names_sorted (map snd (pl_Changesets (db_pendingLog db')))"
proof (cases "css = [] \<or> pl_Changesets (db_pendingLog db) \<noteq> []")
  case True
  then show ?thesis using assms apply_each_sorted [OF assms(1-3), of ops css db']
    by (auto simp: db_ApplyChangeSets_def split: if_splits)
next
  case False
  then have "db_pendingLog db' = (db_pendingLog db)\<lparr>pl_Changesets := zip [db_fresh db..<db_fresh db + length css] css\<rparr>"
    using assms(5) setPending_fields [of css db] by (auto simp: db_ApplyChangeSets_def Let_def split: if_splits prod.splits)
  then show ?thesis using assms(4) by (simp add: zip_addresses)
qed

lemma run_calls_effect:
  "startable s0 \<Longrightarrow> pend_ok s0 db \<Longrightarrow> run_calls ops calls db = (Inr (), db') \<Longrightarrow>
     pend_ok s0 db' \<and>
     ((\<forall>css. Changes css \<in> set calls \<longrightarrow> names_sorted css) \<and> names_sorted (map snd (pl_Changesets (db_pendingLog db))) \<longrightarrow>
      names_sorted (map snd (pl_Changesets (db_pendingLog db'))))"
proof (induction calls arbitrary: db)
  case (Cons call calls)
  obtain r db1 where a: "(case call of Change name cs \<Rightarrow> db_ApplyChangeSet ops name cs db | Changes css \<Rightarrow> db_ApplyChangeSets ops css db) = (r, db1)"
    by force
  then have r: "r = Inr ()" "run_calls ops calls db1 = (Inr (), db')" using Cons.prems(3) by (cases r; simp)+
  have inv: "pending_inv db" using Cons.prems(2) by (simp add: pend_ok_def)
  have 1: "pend_ok s0 db1"
    using a r(1) ApplyChangeSet_effect [OF Cons.prems(1,2)] ApplyChangeSets_effect [OF Cons.prems(1,2)] by (cases call) auto
  have 2: "names_sorted (map snd (pl_Changesets (db_pendingLog db1)))"
    if "\<forall>css. Changes css \<in> set (call # calls) \<longrightarrow> names_sorted css" "names_sorted (map snd (pl_Changesets (db_pendingLog db)))"
  proof (cases call)
    case (Change name cs)
    then have "db_applyChangeSet ops name cs db = (Inr (), db1)"
      using a r(1) by (auto simp: db_ApplyChangeSet_def db_applyChangeSet_def split: if_splits)
    then show ?thesis using applyChangeSet_sorted [OF inv that(2)] by blast
  next
    case (Changes css)
    then show ?thesis using a r(1) ApplyChangeSets_sorted [OF Cons.prems(1,2) that(2)] that(1) by auto
  qed
  show ?case using Cons.IH [OF Cons.prems(1) 1 r(2)] 2 by auto
qed simp

section \<open>Properties\<close>

text \<open>
  C10: the entry that a block leaves in the log has the effect of the block, when its upgrades come first. One
  call with upgrades (there may be none in it) at the start of a block and then any sequence of calls with
  change sets, for one store or for several, repeated for the same stores and in any order, are merged into
  one entry; replaying that entry on any multi-tree in the state
  before the block succeeds and gives the state the calls have produced. If the lists that the calls pass
  are ordered by name, as they come from the stores, the entry names each store once, in order.
\<close>

theorem pending_log_faithful:
  assumes "startable (mt_state (db_MultiTree db))" and "db_pendingLog db = empty_pending"
    and "db_ApplyUpgrades ops us db = (Inr (), db1)" and "run_calls ops calls db1 = (Inr (), db2)"
  shows "(\<forall>t. mt_state t = mt_state (db_MultiTree db) \<longrightarrow>
      (\<exists>t'. applyWALEntry ops' (pending_entry (db_pendingLog db2)) t = (Inr (), t') \<and> mt_state t' = mt_state (db_MultiTree db2))) \<and>
    ((\<forall>css. Changes css \<in> set calls \<longrightarrow> names_sorted css) \<longrightarrow> names_sorted (we_Changesets (pending_entry (db_pendingLog db2))))"
proof -
  let ?s0 = "mt_state (db_MultiTree db)"
  have "pend_ok ?s0 db"
    using assms(2) by (simp add: pend_ok_def pending_inv_def pending_entry_def empty_pending_def spec_entry_def spec_upgrades_def)
  then have 1: "pend_ok ?s0 db1" using ApplyUpgrades_effect [OF _ assms(2,3)] by blast
  have "db_pendingLog db1 = \<lparr>pl_Changesets = [], pl_Upgrades = us\<rparr>"
    using assms(2,3) by (auto simp: db_ApplyUpgrades_def empty_pending_def split: if_splits sum.splits prod.splits)
  then have "names_sorted (map snd (pl_Changesets (db_pendingLog db1)))" by (simp add: names_sorted_def)
  then have 2: "spec_entry (pending_entry (db_pendingLog db2)) ?s0 = (Inr (), mt_state (db_MultiTree db2))"
    "(\<forall>css. Changes css \<in> set calls \<longrightarrow> names_sorted css) \<longrightarrow> names_sorted (map snd (pl_Changesets (db_pendingLog db2)))"
    using run_calls_effect [OF assms(1) 1 assms(4)] by (auto simp: pend_ok_def)
  have "\<exists>t'. applyWALEntry ops' (pending_entry (db_pendingLog db2)) t = (Inr (), t') \<and> mt_state t' = mt_state (db_MultiTree db2)"
    if "mt_state t = ?s0" for t
    using applyWALEntry_spec [of ops' "pending_entry (db_pendingLog db2)" t] 2(1) that by (simp add: prod_eq_iff)
  then show ?thesis using 2(2) by (simp add: pending_entry_def)
qed

definition no_files :: db_fs where
  "no_files = \<lparr>fs_locked = True, fs_current = None, fs_currentTmp = None, fs_dirs = [], fs_wal = []\<rparr>"

definition plain_options :: options where
  "plain_options = \<lparr>o_CreateIfMissing = False, o_InitialVersion = 0, o_ReadOnly = False, o_InitialStores = [],
     o_SnapshotKeepRecent = 0, o_SnapshotInterval = 1000, o_TriggerStateSyncExport = False, o_TargetVersion = 0,
     o_AsyncCommitBuffer = -1, o_ZeroCopy = False, o_CacheSize = 0, o_LoadForOverwriting = False, o_SnapshotWriterLimit = 1\<rparr>"

definition db0 :: "(lru, unit) db" where
  "db0 = new_db plain_options mt0 (WriteLog ()) no_files"

definition pair1 :: kvpair where "pair1 = \<lparr>kv_delete = False, kv_key = [1], kv_value = Some [2]\<rparr>"
definition pair2 :: kvpair where "pair2 = \<lparr>kv_delete = True, kv_key = [1], kv_value = None\<rparr>"

lemma run_bank_calls:
  "\<exists>db1 db2. db_ApplyUpgrades lru_ops [add_bank] db0 = (Inr (), db1) \<and>
     run_calls lru_ops [Change ''bank'' [pair1], Change ''bank'' [pair2]] db1 = (Inr (), db2) \<and>
     pending_entry (db_pendingLog db2) =
       \<lparr>we_Changesets = [\<lparr>ncs_Changeset = [pair1, pair2], ncs_Name = ''bank''\<rparr>], we_Upgrades = [add_bank]\<rparr>"
proof -
  define t where "t = snd (ApplyUpgrades lru_ops [add_bank] mt0)"
  define db1 where "db1 = db0\<lparr>db_MultiTree := t, db_pendingLog := \<lparr>pl_Changesets = [], pl_Upgrades = [add_bank]\<rparr>\<rparr>"
  have u: "db_ApplyUpgrades lru_ops [add_bank] db0 = (Inr (), db1)"
  proof -
    have "ApplyUpgrades lru_ops [add_bank] mt0 = (Inr (), t)" using mt0_upgrade by (simp add: t_def prod_eq_iff)
    then show ?thesis by (simp add: db_ApplyUpgrades_def db0_def new_db_def plain_options_def db1_def empty_pending_def)
  qed
  have bank: "mt_treesByName t ''bank'' = Some 0" "0 < length (mt_trees t)"
  proof -
    have "ms_index (mt_state t) = [''bank'' \<mapsto> 0]" "length (ms_trees (mt_state t)) = 1"
      unfolding t_def ApplyUpgrades_spec
      by (simp_all add: spec_upgrades_def mt0_versions mt_state_def upgrade_trees_def upgrade_step_def add_bank_def spec_fresh_def)
    then show "mt_treesByName t ''bank'' = Some 0" "0 < length (mt_trees t)" by simp_all
  qed
  obtain t1 where t1: "mt_ApplyChangeSet lru_ops ''bank'' [pair1] t = (Inr (), t1)" "mt_treesByName t1 = mt_treesByName t"
    "length (mt_trees t1) = length (mt_trees t)"
    using bank by (simp add: mt_ApplyChangeSet_def)
  obtain t2 where t2: "mt_ApplyChangeSet lru_ops ''bank'' [pair2] t1 = (Inr (), t2)"
    using bank t1 by (simp add: mt_ApplyChangeSet_def)
  define db1' where "db1' = db1\<lparr>db_cached := Some [''bank'' \<mapsto> 0], db_fresh := 1, db_MultiTree := t1,
    db_pendingLog := \<lparr>pl_Changesets = [(0, \<lparr>ncs_Changeset = [pair1], ncs_Name = ''bank''\<rparr>)], pl_Upgrades = [add_bank]\<rparr>\<rparr>"
  have a: "db_ApplyChangeSet lru_ops ''bank'' [pair1] db1 = (Inr (), db1')"
    using t1(1) by (simp add: db_ApplyChangeSet_def db_applyChangeSet_def merge_pending_def ensurePendingChangesetMap_def
        clearPendingChangesetMap_def insertPendingChangeSet_def insert_pending_def db1_def db1'_def db0_def new_db_def plain_options_def Let_def)
  define db2 where "db2 = db1'\<lparr>db_MultiTree := t2,
    db_pendingLog := \<lparr>pl_Changesets = [(0, \<lparr>ncs_Changeset = [pair1, pair2], ncs_Name = ''bank''\<rparr>)], pl_Upgrades = [add_bank]\<rparr>\<rparr>"
  have b: "db_ApplyChangeSet lru_ops ''bank'' [pair2] db1' = (Inr (), db2)"
    using t2 by (simp add: db_ApplyChangeSet_def db_applyChangeSet_def merge_pending_def ensurePendingChangesetMap_def
        append_pairs_def db1_def db1'_def db0_def new_db_def plain_options_def Let_def db2_def)
  show ?thesis using u a b by (intro exI [of _ db1] exI [of _ db2]) (simp add: db2_def pending_entry_def)
qed

theorem pending_log_faithful_witness:
  "\<exists>(db1 :: (lru, unit) db) db2. run_calls lru_ops [Change ''bank'' [pair1], Change ''bank'' [pair2]] db1 = (Inr (), db2) \<and>
     (\<exists>t'. applyWALEntry lru_ops \<lparr>we_Changesets = [\<lparr>ncs_Changeset = [pair1, pair2], ncs_Name = ''bank''\<rparr>], we_Upgrades = [add_bank]\<rparr> mt0 =
        (Inr (), t') \<and> mt_state t' = mt_state (db_MultiTree db2))"
proof -
  obtain db1 db2 where r: "db_ApplyUpgrades lru_ops [add_bank] db0 = (Inr (), db1)"
    "run_calls lru_ops [Change ''bank'' [pair1], Change ''bank'' [pair2]] db1 = (Inr (), db2)"
    "pending_entry (db_pendingLog db2) =
       \<lparr>we_Changesets = [\<lparr>ncs_Changeset = [pair1, pair2], ncs_Name = ''bank''\<rparr>], we_Upgrades = [add_bank]\<rparr>"
    using run_bank_calls by blast
  have m: "db_MultiTree db0 = mt0" "db_pendingLog db0 = empty_pending" by (simp_all add: db0_def new_db_def)
  have "startable (mt_state (db_MultiTree db0))"
    using mt0_inv mt0_versions by (simp add: startable_def m mt_inv_def)
  from conjunct1 [OF pending_log_faithful [OF this m(2) r(1,2), of lru_ops], rule_format, of mt0]
  show ?thesis using r(2) unfolding r(3) m(1) by blast
qed

lemma pending_after_change:
  assumes "db_pendingLog db = empty_pending" and "cs \<noteq> []" and "db_ApplyChangeSet ops name cs db = (Inr (), db1)"
  shows "pending_entry (db_pendingLog db1) = \<lparr>we_Changesets = [\<lparr>ncs_Changeset = cs, ncs_Name = name\<rparr>], we_Upgrades = []\<rparr>"
    and "spec_change name cs (mt_state (db_MultiTree db)) = (Inr (), mt_state (db_MultiTree db1))"
    and "\<not> db_readOnly db1"
proof -
  have inv: "pending_inv db" using assms(1) by (simp add: pending_inv_def empty_pending_def)
  have call: "db_applyChangeSet ops name cs db = (Inr (), db1)" using assms(2,3) by (simp add: db_ApplyChangeSet_def)
  obtain t where t: "mt_ApplyChangeSet ops name cs (db_MultiTree db) = (Inr (), t)"
    "db1 = (merge_pending name cs db)\<lparr>db_MultiTree := t\<rparr>"
    by (rule applyChangeSet_Inr [OF inv call assms(2)])
  show "spec_change name cs (mt_state (db_MultiTree db)) = (Inr (), mt_state (db_MultiTree db1))"
    using mt_ApplyChangeSet_spec [of ops name cs "db_MultiTree db"] t by (simp add: prod_eq_iff)
  have "\<not> db_readOnly db" using call assms(2) by (auto simp: db_applyChangeSet_def split: if_splits)
  then show "\<not> db_readOnly db1" using merge_pending_frame [OF inv, of name cs] t(2) by auto
  have "db_pendingLog (merge_pending name cs db) =
      \<lparr>pl_Changesets = [(db_fresh db, \<lparr>ncs_Changeset = cs, ncs_Name = name\<rparr>)], pl_Upgrades = []\<rparr>"
    using assms(1) by (rule_tac merge_pending_cases [OF inv, of name cs]) (simp_all add: empty_pending_def)
  then show "pending_entry (db_pendingLog db1) = \<lparr>we_Changesets = [\<lparr>ncs_Changeset = cs, ncs_Name = name\<rparr>], we_Upgrades = []\<rparr>"
    using t(2) by (simp add: pending_entry_def)
qed

lemma spec_change_frame:
  "spec_change name cs s = (Inr (), s') \<Longrightarrow> ms_index s name \<noteq> None \<and> ms_index s' = ms_index s \<and>
     ms_version s' = ms_version s \<and> ms_initial s' = ms_initial s"
  by (auto simp: spec_change_def split: option.splits if_splits)

lemma spec_upgrades_frame:
  "spec_upgrades us s = (r, s') \<Longrightarrow> ms_version s' = ms_version s \<and> ms_initial s' = ms_initial s"
  by (auto simp: spec_upgrades_def Let_def split_beta split: if_splits)

lemma spec_delete:
  assumes "startable s" and "ms_index s (up_Name u) \<noteq> None" and "up_Delete u"
  shows "\<exists>s'. spec_upgrades [u] s = (Inr (), s') \<and> ms_index s' (up_Name u) = None"
proof -
  let ?v = "word_of_int (nextVersion (ms_version s) (ms_initial s)) :: u32"
  have inv: "distinct (map fst (ms_trees s))" "ms_index s = index_map (ms_trees s)"
    using assms(1) by (auto simp: startable_def ms_inv_def)
  then obtain i where "i < length (ms_trees s)" "fst (ms_trees s ! i) = up_Name u"
    using assms(2) index_map_Some [OF inv(1)] by auto
  then have "up_Name u \<in> fst ` set (ms_trees s)" using nth_mem by force
  then obtain x where "map_of (ms_trees s) (up_Name u) = Some x" by (metis map_of_eq_None_iff not_None_eq)
  then obtain m trees where u: "upgrade_trees (spec_fresh ?v) [u] (ms_trees s) = (Inr (), m, trees)"
    "map_of trees (up_Name u) = None"
    using upgrade_delete [OF inv(1) assms(3), of "spec_fresh ?v"] by fastforce
  then have sp: "spec_upgrades [u] s = (Inr (), s\<lparr>ms_trees := trees, ms_index := m\<rparr>)" by (simp add: spec_upgrades_def)
  have "ms_inv (s\<lparr>ms_trees := trees, ms_index := m\<rparr>)"
    using spec_upgrades_inv [OF _ _ sp] assms(1) by (simp add: startable_def)
  then have d: "distinct (map fst trees)" "m = index_map trees" by (auto simp: ms_inv_def)
  have "m (up_Name u) = None"
  proof (rule ccontr)
    assume "m (up_Name u) \<noteq> None"
    then obtain j where "j < length trees" "fst (trees ! j) = up_Name u" using index_map_Some [OF d(1)] d(2) by auto
    then have "up_Name u \<in> fst ` set trees" using nth_mem by force
    then show False using u(2) by (simp add: map_of_eq_None_iff)
  qed
  then show ?thesis using sp by simp
qed

text \<open>
  C40: why the upgrades must come first. The entry keeps upgrades and change sets apart, and replaying applies the
  upgrades first. If a block changes a store and then deletes it, both calls succeed on the live trees,
  but the entry they leave cannot be replayed: on any multi-tree in the state before the block it fails with an
  unknown store.
\<close>

theorem late_delete_not_replayable:
  assumes "startable (mt_state (db_MultiTree db))" and "db_pendingLog db = empty_pending" and "cs \<noteq> []"
    and "db_ApplyChangeSet ops name cs db = (Inr (), db1)" and "up_Delete u" and "up_Name u = name"
  shows "\<exists>db2. db_ApplyUpgrades ops [u] db1 = (Inr (), db2) \<and>
    (\<forall>t. mt_state t = mt_state (db_MultiTree db) \<longrightarrow>
      fst (applyWALEntry ops' (pending_entry (db_pendingLog db2)) t) = Inl (UnknownTree name))"
proof -
  let ?s0 = "mt_state (db_MultiTree db)" and ?s1 = "mt_state (db_MultiTree db1)"
  note p = pending_after_change [OF assms(2-4)]
  have ix: "ms_index ?s0 name \<noteq> None" "ms_index ?s1 = ms_index ?s0"
    using spec_change_frame [OF p(2)] by auto
  have "startable ?s1"
    using spec_change_inv [of ?s0 name cs] spec_change_frame [OF p(2)] p(2) assms(1) by (simp only: startable_def snd_conv)
  then obtain s2 where "spec_upgrades [u] ?s1 = (Inr (), s2)" using spec_delete [of ?s1 u] ix assms(5,6) by auto
  then obtain t2 where "ApplyUpgrades ops [u] (db_MultiTree db1) = (Inr (), t2)"
    using ApplyUpgrades_spec(1) [of ops "[u]" "db_MultiTree db1"] by (metis fst_conv prod.collapse)
  then have up: "db_ApplyUpgrades ops [u] db1 = (Inr (), db1\<lparr>db_MultiTree := t2,
      db_pendingLog := (db_pendingLog db1)\<lparr>pl_Upgrades := pl_Upgrades (db_pendingLog db1) @ [u]\<rparr>\<rparr>)" (is "_ = (_, ?db2)")
    using p(3) by (simp add: db_ApplyUpgrades_def)
  have e: "pending_entry (db_pendingLog ?db2) = \<lparr>we_Changesets = [\<lparr>ncs_Changeset = cs, ncs_Name = name\<rparr>], we_Upgrades = [u]\<rparr>"
    using p(1) by (simp add: pending_entry_def)
  obtain s' where "spec_upgrades [u] ?s0 = (Inr (), s')" "ms_index s' name = None"
    using spec_delete [OF assms(1), of u] ix(1) assms(5,6) by auto
  then have "fst (spec_entry (pending_entry (db_pendingLog ?db2)) ?s0) = Inl (UnknownTree name)"
    unfolding e by (simp add: spec_entry_def spec_change_def)
  then have "\<forall>t. mt_state t = ?s0 \<longrightarrow> fst (applyWALEntry ops' (pending_entry (db_pendingLog ?db2)) t) = Inl (UnknownTree name)"
    using applyWALEntry_spec by metis
  then show ?thesis using up by blast
qed

definition drop_bank :: treeNameUpgrade where
  "drop_bank = \<lparr>up_Name = ''bank'', up_RenameFrom = [], up_Delete = True\<rparr>"

theorem late_delete_not_replayable_witness:
  "\<exists>(db :: (lru, unit) db) db1 db2. db_ApplyChangeSet lru_ops ''bank'' [pair1] db = (Inr (), db1) \<and>
     db_ApplyUpgrades lru_ops [drop_bank] db1 = (Inr (), db2) \<and>
     fst (applyWALEntry lru_ops (pending_entry (db_pendingLog db2)) (db_MultiTree db)) = Inl (UnknownTree ''bank'')"
proof -
  define t where "t = snd (ApplyUpgrades lru_ops [add_bank] mt0)"
  define db where "db = db0\<lparr>db_MultiTree := t\<rparr>"
  have up: "spec_upgrades [add_bank] (mt_state mt0) = (Inr (), mt_state t)"
    using mt0_upgrade ApplyUpgrades_spec [of lru_ops "[add_bank]" mt0] by (simp add: t_def prod_eq_iff)
  then have "startable (mt_state (db_MultiTree db))"
    using spec_upgrades_inv [OF _ _ up] spec_upgrades_frame [OF up] mt0_inv mt0_versions
    by (simp add: startable_def mt_inv_def db_def)
  moreover have st: "ms_index (mt_state t) = [''bank'' \<mapsto> 0]" "length (ms_trees (mt_state t)) = 1"
    unfolding t_def ApplyUpgrades_spec
    by (simp_all add: spec_upgrades_def mt0_versions mt_state_def upgrade_trees_def upgrade_step_def add_bank_def spec_fresh_def)
  then have "mt_treesByName t ''bank'' = Some 0" "0 < length (mt_trees t)" by simp_all
  then obtain t1 where "mt_ApplyChangeSet lru_ops ''bank'' [pair1] t = (Inr (), t1)" by (simp add: mt_ApplyChangeSet_def)
  then obtain db1 where "db_ApplyChangeSet lru_ops ''bank'' [pair1] db = (Inr (), db1)"
    by (simp add: db_ApplyChangeSet_def db_applyChangeSet_def merge_pending_def ensurePendingChangesetMap_def
        clearPendingChangesetMap_def insertPendingChangeSet_def insert_pending_def empty_pending_def db_def db0_def new_db_def plain_options_def Let_def)
  moreover have "db_pendingLog db = empty_pending" by (simp add: db_def db0_def new_db_def)
  ultimately show ?thesis
    using late_delete_not_replayable [of db "[pair1]" lru_ops "''bank''" db1 drop_bank lru_ops]
    by (auto simp: drop_bank_def)
qed

end
