(* ===== verification/DBSpec.thy ===== *)
theory DBSpec
  imports DBLog DBPending
begin

text \<open>
  The correctness of the database. A history is the list of the entries committed since a base state; every
  snapshot is the state after a prefix of the history and the log holds a segment of it, so that a directory can be
  loaded at any version from its first snapshot on. The operations keep this, at every point of a crash.
\<close>

section \<open>Histories\<close>

definition state_at :: "mstate \<Rightarrow> walEntry list \<Rightarrow> nat \<Rightarrow> mstate" where
  "state_at g h n = snd (spec_run (take n h) g)"

definition version_at :: "mstate \<Rightarrow> nat \<Rightarrow> int" where
  "version_at g n = (if n = 0 then ms_version g else nextVersion (ms_version g) (ms_initial g) + int n - 1)"

text \<open>
  The base is an empty database before its first version, or what a state sync has restored; in both cases the
  next version has index 1 in the log. The bounds are far beyond what a chain reaches; the one on versions is that of
  the names of snapshots.
\<close>

definition base_ok :: "mstate \<Rightarrow> bool" where
  "base_ok g \<longleftrightarrow> ms_inv g \<and> (ms_trees g \<noteq> [] \<longrightarrow> ms_version g \<noteq> 0) \<and>
     walIndex (nextVersion (ms_version g) (ms_initial g)) (ms_initial g) = 1"

definition total_size :: "walEntry list \<Rightarrow> nat" where
  "total_size h = sum_list (map entry_size h)"

definition hist_ok :: "mstate \<Rightarrow> walEntry list \<Rightarrow> bool" where
  "hist_ok g h \<longleftrightarrow> base_ok g \<and> fst (spec_run h g) = Inr () \<and> total_size h \<le> 2 ^ 61 \<and>
     (\<forall>e \<in> set h. length (WALEntry_Marshal e) < 2 ^ 63) \<and> small_version (version_at g (length h))"

lemma spec_run_append:
  "spec_run (xs @ ys) s = (case spec_run xs s of (Inl e, s') \<Rightarrow> (Inl e, s') | (Inr _, s') \<Rightarrow> spec_run ys s')"
proof (induction xs arbitrary: s)
  case (Cons e xs)
  obtain r s1 where a: "spec_entry e s = (r, s1)" by force
  show ?case
  proof (cases r)
    case (Inr u)
    obtain r2 s2 where b: "spec_save s1 = (r2, s2)" by force
    show ?thesis using a Inr b Cons.IH by (cases r2) simp_all
  qed (use a in simp)
qed simp

lemma spec_run_take:
  assumes "fst (spec_run h g) = Inr ()"
  shows "spec_run (take n h) g = (Inr (), state_at g h n)"
proof -
  obtain r s where rs: "spec_run (take n h) g = (r, s)" by force
  have "spec_run h g = (case spec_run (take n h) g of (Inl e, s') \<Rightarrow> (Inl e, s') | (Inr _, s') \<Rightarrow> spec_run (drop n h) s')"
    using spec_run_append [of "take n h" "drop n h" g] by simp
  then show ?thesis using assms rs by (cases r) (simp_all add: state_at_def)
qed

lemma spec_run_between:
  assumes "fst (spec_run h g) = Inr ()"
  shows "spec_run (drop n (take m h)) (state_at g h n) = (Inr (), state_at g h (max n m))"
proof (cases "n \<le> m")
  case True
  have "take n (take m h) @ drop n (take m h) = take m h" by (rule append_take_drop_id)
  then have "take n h @ drop n (take m h) = take m h" using True by (simp add: min_def)
  then have "spec_run (take m h) g = (case spec_run (take n h) g of (Inl e, s') \<Rightarrow> (Inl e, s')
      | (Inr _, s') \<Rightarrow> spec_run (drop n (take m h)) s')"
    using spec_run_append [of "take n h" "drop n (take m h)" g] by simp
  then show ?thesis using spec_run_take [OF assms, of n] spec_run_take [OF assms, of m] True by (simp add: max_def)
qed (simp add: max_def)

lemma spec_run_initial: "spec_run es s = (r, s') \<Longrightarrow> ms_initial s' = ms_initial s"
proof (induction es arbitrary: s)
  case (Cons e es)
  obtain r1 s1 where a: "spec_entry e s = (r1, s1)" by force
  obtain r2 s2 where b: "spec_save s1 = (r2, s2)" by force
  have "ms_initial s1 = ms_initial s" "ms_initial s2 = ms_initial s1"
    using mem.spec_entry_versions [OF a] b
    by (auto simp: spec_save_def Let_def split: if_splits)
  then show ?case using Cons a b by (cases r1; cases r2) auto
qed simp

lemma state_versions:
  assumes "hist_ok g h" and "n \<le> length h"
  shows "ms_version (state_at g h n) = version_at g n" "ms_initial (state_at g h n) = ms_initial g"
proof -
  have run: "spec_run (take n h) g = (Inr (), state_at g h n)"
    using spec_run_take assms(1) by (simp add: hist_ok_def)
  show "ms_initial (state_at g h n) = ms_initial g" by (rule spec_run_initial [OF run])
  have g: "0 \<le> ms_version g" using assms(1) by (simp add: hist_ok_def base_ok_def ms_inv_def)
  show "ms_version (state_at g h n) = version_at g n"
  proof (cases "n = 0")
    case False
    then have "take n h \<noteq> []" using assms(2) by auto
    from mem.spec_run_version [OF run g this] show ?thesis
      using False assms(2) by (simp add: version_at_def of_nat_diff)
  qed (simp add: state_at_def version_at_def)
qed

lemma version_at_0 [simp]: "version_at g 0 = ms_version g"
  by (simp add: version_at_def)

lemma version_at_Suc: "0 \<le> ms_version g \<Longrightarrow> version_at g (Suc n) = nextVersion (version_at g n) (ms_initial g)"
proof (cases n)
  case (Suc k)
  assume g: "0 \<le> ms_version g"
  then have "nextVersion (ms_version g) (ms_initial g) \<ge> 1" by (rule nextVersion_pos)
  then show ?thesis using Suc by (simp add: version_at_def nextVersion_def)
qed (simp add: version_at_def)

lemma version_at_mono:
  assumes "0 \<le> ms_version g"
  shows "n < m \<Longrightarrow> version_at g n < version_at g m" "version_at g n < version_at g m \<longleftrightarrow> n < m"
    "version_at g n \<le> version_at g m \<longleftrightarrow> n \<le> m" "version_at g n = version_at g m \<longleftrightarrow> n = m" "0 \<le> version_at g n"
proof -
  have step: "version_at g k < version_at g (Suc k) \<and> 0 \<le> version_at g k" for k
  proof (induction k)
    case 0
    then show ?case using assms by (auto simp: version_at_def nextVersion_def word_less_nat_alt simp del: of_nat_unat)
  next
    case (Suc k)
    then have "0 \<le> version_at g (Suc k)" by linarith
    moreover have "version_at g (Suc k) \<noteq> 0" using Suc by linarith
    ultimately show ?case using version_at_Suc [OF assms, of "Suc k"] by (simp add: nextVersion_def)
  qed
  then show "0 \<le> version_at g n" by blast
  have lt: "i < j \<Longrightarrow> version_at g i < version_at g j" for i j
    by (rule lift_Suc_mono_less [of "version_at g"]) (use step in auto)
  show "n < m \<Longrightarrow> version_at g n < version_at g m" by (rule lt)
  show "version_at g n < version_at g m \<longleftrightarrow> n < m" "version_at g n \<le> version_at g m \<longleftrightarrow> n \<le> m"
    "version_at g n = version_at g m \<longleftrightarrow> n = m"
    using lt [of n m] lt [of m n] by (cases n m rule: linorder_cases; simp)+
qed

lemma walIndex_next:
  assumes "base_ok g"
  shows "walIndex (nextVersion (version_at g n) (ms_initial g)) (ms_initial g) = word_of_nat (Suc n)"
proof -
  have g: "0 \<le> ms_version g" using assms by (simp add: base_ok_def ms_inv_def)
  have "nextVersion (version_at g n) (ms_initial g) = nextVersion (ms_version g) (ms_initial g) + int n"
    using version_at_Suc [OF g, of n] by (simp add: version_at_def)
  then show ?thesis
    using assms mem.walIndex_add [of "nextVersion (ms_version g) (ms_initial g)" n "ms_initial g"]
    by (simp add: base_ok_def)
qed

lemma walIndex_at: "base_ok g \<Longrightarrow> 0 < n \<Longrightarrow> walIndex (version_at g n) (ms_initial g) = word_of_nat n"
  using walIndex_next [of g "n - 1"] version_at_Suc [of g "n - 1"] by (simp add: base_ok_def ms_inv_def)

section \<open>Directories\<close>

text \<open>
  A multi-tree in the state after \<open>n\<close> entries, with its commit info and room for the keys that may still come;
  what a snapshot of that state gives.
\<close>

definition loaded :: "mstate \<Rightarrow> walEntry list \<Rightarrow> nat \<Rightarrow> 'c multiTree \<Rightarrow> bool" where
  "loaded g h n t \<longleftrightarrow> mt_state t = state_at g h n \<and> mt_lastCommitInfo t = spec_info (version_at g n) (state_at g h n) \<and>
     roomy (2 ^ 62 - total_size (take n h)) t"

definition snapshot_ok :: "'c cache_ops \<Rightarrow> mstate \<Rightarrow> walEntry list \<Rightarrow> nat \<Rightarrow> snapshot_dir \<Rightarrow> bool" where
  "snapshot_ok ops g h n d \<longleftrightarrow> (\<forall>zc size cid. \<exists>t. LoadMultiTree ops zc size cid d = Inr t \<and> loaded g h n t \<and>
     SnapshotVersion t = Inr (version_at g n))"

definition dir_names :: "db_fs \<Rightarrow> string set" where
  "dir_names fs = fst ` set (fs_dirs fs)"

definition has_snapshot :: "mstate \<Rightarrow> db_fs \<Rightarrow> nat \<Rightarrow> bool" where
  "has_snapshot g fs n \<longleftrightarrow> snapshotName (version_at g n) \<in> dir_names fs"

text \<open>Every snapshot is that of a prefix, and the link leads to one.\<close>

definition dirs_ok :: "'c cache_ops \<Rightarrow> mstate \<Rightarrow> walEntry list \<Rightarrow> db_fs \<Rightarrow> bool" where
  "dirs_ok ops g h fs \<longleftrightarrow> distinct (map fst (fs_dirs fs)) \<and>
     (\<forall>name d. (name, d) \<in> set (fs_dirs fs) \<and> isSnapshotName name \<longrightarrow>
        (\<exists>n \<le> length h. name = snapshotName (version_at g n) \<and> snapshot_ok ops g h n d))"

definition link_ok :: "mstate \<Rightarrow> walEntry list \<Rightarrow> db_fs \<Rightarrow> nat \<Rightarrow> bool" where
  "link_ok g h fs n \<longleftrightarrow> n \<le> length h \<and> fs_current fs = Some (snapshotName (version_at g n)) \<and> has_snapshot g fs n"

text \<open>The log: \<open>first\<close> is the index of its first entry, and it reaches up to the \<open>m\<close>-th entry of the history.\<close>

definition log_ok :: "nat \<Rightarrow> bytes list \<Rightarrow> mstate \<Rightarrow> walEntry list \<Rightarrow> nat \<Rightarrow> db_fs \<Rightarrow> bool" where
  "log_ok first entries g h m fs \<longleftrightarrow> 1 \<le> first \<and> first \<le> Suc m \<and> m \<le> length h \<and>
     entries = map WALEntry_Marshal (drop (first - 1) (take m h)) \<and>
     (\<forall>n \<le> length h. has_snapshot g fs n \<longrightarrow> first \<le> Suc n)"

lemma small_versions: "hist_ok g h \<Longrightarrow> n \<le> length h \<Longrightarrow> small_version (version_at g n)"
proof -
  assume h: "hist_ok g h" and n: "n \<le> length h"
  have g: "0 \<le> ms_version g" using h by (simp add: hist_ok_def base_ok_def ms_inv_def)
  show ?thesis using h n version_at_mono(3) [OF g, of n "length h"] version_at_mono(5) [OF g, of n] by (simp add: hist_ok_def small_version_def)
qed

lemma dirs_canonical: "hist_ok g h \<Longrightarrow> dirs_ok ops g h fs \<Longrightarrow> canonical fs"
proof -
  assume h: "hist_ok g h" and d: "dirs_ok ops g h fs"
  have "\<exists>v. small_version v \<and> name = snapshotName v" if nm: "name \<in> fst ` set (fs_dirs fs)" "isSnapshotName name" for name
  proof -
    obtain sd where "(name, sd) \<in> set (fs_dirs fs)" using nm(1) by auto
    then obtain n where "n \<le> length h" "name = snapshotName (version_at g n)" using d nm(2) by (auto simp: dirs_ok_def)
    then show ?thesis using small_versions [OF h] by blast
  qed
  then show ?thesis using d by (simp add: canonical_def dirs_ok_def)
qed

lemma name_at_inj:
  assumes "hist_ok g h" and "n \<le> length h" and "m \<le> length h"
  shows "snapshotName (version_at g n) = snapshotName (version_at g m) \<longleftrightarrow> n = m"
proof -
  have g: "0 \<le> ms_version g" using assms(1) by (simp add: hist_ok_def base_ok_def ms_inv_def)
  show ?thesis
    using small_version_name(4) [OF small_versions [OF assms(1,2)] small_versions [OF assms(1,3)]] version_at_mono(4) [OF g]
    by simp
qed

lemma snapshot_at:
  assumes "hist_ok g h" and "dirs_ok ops g h fs" and "n \<le> length h" and "has_snapshot g fs n"
  shows "snapshot_ok ops g h n (get_dir (snapshotName (version_at g n)) fs)"
proof -
  let ?name = "snapshotName (version_at g n)"
  obtain d where d: "(?name, d) \<in> set (fs_dirs fs)" using assms(4) by (auto simp: has_snapshot_def dir_names_def)
  have "isSnapshotName ?name" by (rule small_version_name(1) [OF small_versions [OF assms(1,3)]])
  then obtain m where m: "m \<le> length h" "?name = snapshotName (version_at g m)" "snapshot_ok ops g h m d"
    using assms(2) d unfolding dirs_ok_def by blast
  have "map_of (fs_dirs fs) ?name = Some d" using assms(2) d by (simp add: dirs_ok_def)
  then show ?thesis using m name_at_inj [OF assms(1,3) m(1)] by (simp add: get_dir_def)
qed

text \<open>The versions in the directory are those of the snapshots, and seeking finds the last one before the target.\<close>

lemma versions_at:
  assumes "hist_ok g h" and "dirs_ok ops g h fs"
  shows "v \<in> set (versions fs) \<longleftrightarrow> (\<exists>n \<le> length h. v = version_at g n \<and> has_snapshot g fs n)"
proof
  note c = dirs_canonical [OF assms]
  assume v: "v \<in> set (versions fs)"
  then have sv: "small_version v" by (rule versions_small [OF c])
  then have "snapshotName v \<in> fst ` set (fs_dirs fs)" using versions_iff [OF c sv] v by simp
  then obtain d where d: "(snapshotName v, d) \<in> set (fs_dirs fs)" by auto
  then obtain n where n: "n \<le> length h" "snapshotName v = snapshotName (version_at g n)"
    using assms(2) small_version_name(1) [OF sv] unfolding dirs_ok_def by blast
  then have "v = version_at g n" using small_version_name(4) [OF sv small_versions [OF assms(1) n(1)]] by simp
  then show "\<exists>n \<le> length h. v = version_at g n \<and> has_snapshot g fs n"
    using n(1) d unfolding has_snapshot_def dir_names_def by force
next
  assume "\<exists>n \<le> length h. v = version_at g n \<and> has_snapshot g fs n"
  then show "v \<in> set (versions fs)"
    using versions_iff [OF dirs_canonical [OF assms] small_versions [OF assms(1)]] by (auto simp: has_snapshot_def dir_names_def)
qed

lemma seek_at:
  assumes "hist_ok g h" and "dirs_ok ops g h fs" and "p \<le> length h" and "int (unat t) = version_at g p"
  shows "(\<forall>n \<le> p. \<not> has_snapshot g fs n) \<and> seekSnapshot fs t = Inl TargetPruned \<or>
    (\<exists>n \<le> p. has_snapshot g fs n \<and> seekSnapshot fs t = Inr (version_at g n) \<and> (\<forall>k \<le> p. has_snapshot g fs k \<longrightarrow> k \<le> n))"
proof -
  note c = dirs_canonical [OF assms(1,2)]
  have g: "0 \<le> ms_version g" using assms(1) by (simp add: hist_ok_def base_ok_def ms_inv_def)
  note mono = version_at_mono [OF g]
  note f = find_rev_greatest [OF versions_sorted [OF c], of "version_at g p"]
  show ?thesis
  proof (cases "List.find (\<lambda>v. v \<le> version_at g p) (rev (versions fs))")
    case None
    then have "\<forall>v \<in> set (versions fs). version_at g p < v" using f by simp
    then have "\<not> has_snapshot g fs n" if "n \<le> p" for n
      using that versions_at [OF assms(1,2), of "version_at g n"] mono(3) [of n p] assms(3) by force
    then show ?thesis using None seekSnapshot_spec [OF c, of t] assms(4) by simp
  next
    case (Some v)
    then have v: "v \<in> set (versions fs)" "v \<le> version_at g p" "\<forall>w \<in> set (versions fs). w \<le> version_at g p \<longrightarrow> w \<le> v"
      using f by simp_all
    then obtain n where n: "n \<le> length h" "v = version_at g n" "has_snapshot g fs n"
      using versions_at [OF assms(1,2)] by blast
    have "k \<le> n" if "k \<le> p" "has_snapshot g fs k" for k
      using that v(3) versions_at [OF assms(1,2), of "version_at g k"] mono(3) [of k p] mono(3) [of k n] n(2) assms(3) by force
    then show ?thesis using Some seekSnapshot_spec [OF c, of t] assms(4) n v(2) mono(3) [of n p] by auto
  qed
qed

section \<open>Loading\<close>

text \<open>
  A directory on disk, with the files of a log that holds the entries up to the \<open>m\<close>-th; the log of a new
  database has no files yet.
\<close>

definition disk_ok ::
  "'c cache_ops \<Rightarrow> 'w wal_pkg \<Rightarrow> ('w \<Rightarrow> bool) \<Rightarrow> ('w \<Rightarrow> nat) \<Rightarrow> ('w \<Rightarrow> bytes list) \<Rightarrow> mstate \<Rightarrow> walEntry list \<Rightarrow> nat \<Rightarrow> db_fs \<Rightarrow> bool" where
  "disk_ok ops pkg winv wfirst wentries g h m fs \<longleftrightarrow> dirs_ok ops g h fs \<and>
     (fs_wal fs = [] \<and> log_ok 1 [] g h m fs \<or>
      (\<exists>w. winv w \<and> fs_wal fs = wp_files pkg w \<and> log_ok (wfirst w) (wentries w) g h m fs))"

lemma has_snapshot_cong: "fs_dirs fs' = fs_dirs fs \<Longrightarrow> has_snapshot g fs' n = has_snapshot g fs n"
  by (simp add: has_snapshot_def dir_names_def)

lemma log_ok_cong: "fs_dirs fs' = fs_dirs fs \<Longrightarrow> log_ok first es g h m fs' = log_ok first es g h m fs"
  using has_snapshot_cong [of fs' fs g] by (simp add: log_ok_def)

lemma dirs_ok_cong: "fs_dirs fs' = fs_dirs fs \<Longrightarrow> dirs_ok ops g h fs' = dirs_ok ops g h fs"
  by (simp add: dirs_ok_def)

lemma loaded_versions_at:
  assumes "hist_ok g h" and "n \<le> length h" and "loaded g h n t"
  shows "mt_Version t = version_at g n" "mt_initialVersion t = ms_initial g" "0 \<le> mt_Version t"
proof -
  have "ms_version (mt_state t) = version_at g n" "ms_initial (mt_state t) = ms_initial g"
    using assms(3) state_versions [OF assms(1,2)] by (simp_all add: loaded_def)
  then show "mt_Version t = version_at g n" "mt_initialVersion t = ms_initial g" by simp_all
  moreover have "0 \<le> version_at g n" using small_versions [OF assms(1,2)] by (simp add: small_version_def)
  ultimately show "0 \<le> mt_Version t" by simp
qed

lemma total_size_parts:
  assumes "hist_ok g h"
  shows "total_size (take (max n p) h) = total_size (take n h) + total_size (drop n (take p h))" "total_size (take m h) \<le> 2 ^ 61"
proof -
  show "total_size (take (max n p) h) = total_size (take n h) + total_size (drop n (take p h))"
  proof (cases "n \<le> p")
    case True
    have "take n (take p h) = take n h" using True by (simp add: min_def)
    then have "take p h = take n h @ drop n (take p h)" using append_take_drop_id [of n "take p h"] by argo
    then have "total_size (take p h) = total_size (take n h @ drop n (take p h))" by (rule arg_cong)
    then show ?thesis using True by (simp add: total_size_def max_def)
  next
    case False
    then show ?thesis by (simp add: total_size_def max_def)
  qed
  have "total_size h = total_size (take m h @ drop m h)" by simp
  then have "total_size (take m h) \<le> total_size h" unfolding total_size_def map_append sum_list_append by linarith
  then show "total_size (take m h) \<le> 2 ^ 61" using assms by (simp add: hist_ok_def)
qed

lemma length_index_bound: "hist_ok g h \<Longrightarrow> n \<le> length h \<Longrightarrow> int n \<le> version_at g n"
proof -
  assume h: "hist_ok g h" and n: "n \<le> length h"
  have g: "0 \<le> ms_version g" using h by (simp add: hist_ok_def base_ok_def ms_inv_def)
  have "1 \<le> nextVersion (ms_version g) (ms_initial g)" by (rule nextVersion_pos [OF g])
  then show ?thesis using g by (simp add: version_at_def)
qed

lemma history_short: "hist_ok g h \<Longrightarrow> length h < 2 ^ 31"
  using length_index_bound [of g h "length h"] small_versions [of g h "length h"] by (simp add: small_version_def)

context wal_package
begin

lemma catchup_at:
  assumes "hist_ok g h" and "handle_inv winv dir ro hl"
    and "log_ok (handle_first wfirst hl) (handle_entries wentries dir hl) g h m fs"
    and "n \<le> length h" and "handle_first wfirst hl \<le> Suc n" and "loaded g h n t"
    and "ev = 0 \<and> p = m \<or> ev = version_at g p \<and> n < p \<and> p \<le> m"
  shows "\<exists>hl' t'. catchupWAL ops (handle_reader pkg dir) ev hl t = (Inr (), hl', t') \<and> loaded g h (max n p) t' \<and>
    mt_metadata t' = mt_metadata t \<and> handle_inv winv dir ro hl' \<and> handle_first wfirst hl' = handle_first wfirst hl \<and>
    handle_entries wentries dir hl' = handle_entries wentries dir hl \<and> (m \<le> n \<and> ev = 0 \<longrightarrow> t' = t)"
proof -
  let ?first = "handle_first wfirst hl" and ?es = "drop n (take p h)" and ?rest = "map WALEntry_Marshal (drop (max n p) (take m h))"
  have base: "base_ok g" and run0: "fst (spec_run h g) = Inr ()" using assms(1) by (simp_all add: hist_ok_def)
  have m: "m \<le> length h" and p: "p \<le> m" and f1: "1 \<le> ?first" using assms(3,7) by (auto simp: log_ok_def)
  note v = loaded_versions_at [OF assms(1,4,6)]
  have n: "Suc n < 2 ^ 64" using history_short [OF assms(1)] assms(4) by simp
  have first: "Suc n = unat (walIndex (nextVersion (mt_Version t) (mt_initialVersion t)) (mt_initialVersion t))"
    unfolding v walIndex_next [OF base] using n by (simp only: unat_u64)
  have part: "drop n (take m h) = ?es @ drop (max n p) (take m h)"
  proof (cases "n \<le> p")
    case True
    have "take p (take m h) = take p h" using p by (simp add: min_def)
    then have "take m h = take p h @ drop p (take m h)" using append_take_drop_id [of p "take m h"] by argo
    then have "drop n (take m h) = drop n (take p h @ drop p (take m h))" by simp
    also have "\<dots> = ?es @ drop p (take m h)" using True p m by simp
    finally show ?thesis using True by (simp add: max_def)
  next
    case False
    then show ?thesis by (simp add: max_def)
  qed
  have ents: "drop (Suc n - ?first) (handle_entries wentries dir hl) = map WALEntry_Marshal ?es @ ?rest"
    using assms(3,5) f1 unfolding map_append [symmetric] part [symmetric] by (simp add: log_ok_def drop_map)
  let ?k = "2 ^ 62 - total_size (take (max n p) h)"
  note sz = total_size_parts(1) [OF assms(1), of n p] total_size_parts(2) [OF assms(1), of "max n p"]
  have run: "spec_run ?es (mt_state t) = (Inr (), state_at g h (max n p))"
    using spec_run_between [OF run0, of n p] assms(6) by (simp add: loaded_def)
  have mx: "max n p \<le> length h" using assms(4) m p by simp
  note sv = state_versions [OF assms(1) mx]
  have sum: "sum_list (map entry_size ?es) + ?k = 2 ^ 62 - total_size (take n h)"
    using sz by (simp add: total_size_def)
  have roomy: "roomy (sum_list (map entry_size ?es) + ?k) t" unfolding sum using assms(6) by (simp add: loaded_def)
  have bound: "sum_list (map entry_size ?es) + ?k < 2 ^ 63" unfolding sum by simp
  have small: "\<forall>e \<in> set ?es. length (WALEntry_Marshal e) < 2 ^ 63"
    using assms(1) by (auto simp: hist_ok_def dest!: in_set_dropD in_set_takeD)
  have ev: "ev = 0 \<and> ?rest = [] \<or> ev = ms_version (state_at g h (max n p)) \<and> ?es \<noteq> []"
    using assms(7) sv p m by (auto simp: max_def)
  obtain hl' t' where c: "catchupWAL ops (handle_reader pkg dir) ev hl t = (Inr (), hl', t')"
    "mt_state t' = state_at g h (max n p)" "roomy ?k t'" "handle_inv winv dir ro hl'"
    "handle_first wfirst hl' = ?first" "handle_entries wentries dir hl' = handle_entries wentries dir hl"
    "if ?es = [] then t' = t else mt_lastCommitInfo t' = spec_info (mt_Version t') (state_at g h (max n p))"
    using handle.catchupWAL_spec [OF assms(2) v(3) first assms(5) ents small roomy bound run ev, of ops] by blast
  have "mt_Version t' = version_at g (max n p)" using arg_cong [OF c(2), of ms_version] sv by simp
  moreover have "?es = [] \<Longrightarrow> max n p = n" using p m assms(4) by (auto simp: max_def)
  ultimately have "loaded g h (max n p) t'" using c(2,3,7) assms(6) by (cases "?es = []") (simp_all add: loaded_def)
  moreover have "m \<le> n \<and> ev = 0 \<longrightarrow> t' = t" using c(7) assms(7) v(3) by auto
  moreover have "mt_metadata t' = mt_metadata t" by (rule catchup_metadata [OF c(1)])
  ultimately show ?thesis using c(1,4-6) by blast
qed

lemma open_log_at:
  assumes "disk_ok ops pkg winv wfirst wentries g h m fs"
  shows "\<exists>hl dir. open_log pkg gjson ro fs = (Inr hl, fs\<lparr>fs_wal := dir\<rparr>) \<and> handle_inv winv dir ro hl \<and>
    log_ok (handle_first wfirst hl) (handle_entries wentries dir hl) g h m fs \<and>
    (if ro then dir = fs_wal fs else \<exists>w. hl = WriteLog w \<and> dir = wp_files pkg w)"
proof (cases ro)
  case True
  obtain l where l: "tryOpenReadOnlyWAL (Some (fs_wal fs)) (fs_wal fs) = Inr l" "ro_inv (fs_wal fs) l"
    "log_ok (ro_first l) (ro_entries (fs_wal fs) l) g h m fs"
  proof -
    consider "fs_wal fs = []" "log_ok 1 [] g h m fs"
      | w where "winv w" "fs_wal fs = wp_files pkg w" "log_ok (wfirst w) (wentries w) g h m fs"
      using assms by (auto simp: disk_ok_def)
    then show ?thesis
    proof cases
      case 1
      let ?l = "\<lparr>ro_segments = [], ro_firstIndex = 0, ro_lastIndex = 0, ro_closed = False, ro_cached = None\<rparr>"
      show ?thesis
        by (rule that [of ?l])
          (use 1 in \<open>simp_all add: tryOpenReadOnlyWAL_def listWALSegments_def List.map_filter_def ro_inv_def ro_first_def ro_entries_def\<close>)
    next
      case 2
      from files [OF 2(1)] show ?thesis using 2 that by auto
    qed
  qed
  have "openReadOnlyWAL (replicate readOnlyWALOpenAttempts (Some (fs_wal fs), fs_wal fs)) = Inr l"
    using l(1) by (simp add: openReadOnlyWAL_def readOnlyWALOpenAttempts_def numeral_3_eq_3)
  then show ?thesis
    using True l by (intro exI [of _ "ReadOnlyLog l"] exI [of _ "fs_wal fs"]) (simp add: open_log_def handle_defs)
next
  case False
  obtain w where w: "wp_Open pkg (fs_wal fs) = (Inr w, wp_files pkg w)" "winv w" "log_ok (wfirst w) (wentries w) g h m fs"
  proof -
    consider "fs_wal fs = []" "log_ok 1 [] g h m fs"
      | w where "winv w" "fs_wal fs = wp_files pkg w" "log_ok (wfirst w) (wentries w) g h m fs"
      using assms by (auto simp: disk_ok_def)
    then show ?thesis
    proof cases
      case 1
      then show ?thesis using Open_new that by auto
    next
      case 2
      then show ?thesis using Open [OF 2(1)] that by auto
    qed
  qed
  have "OpenWAL (wp_Open pkg) gjson Binary (fs_wal fs) = (Inr w, wp_files pkg w)" using w(1) by (simp add: OpenWAL_def)
  then show ?thesis
    using False w by (intro exI [of _ "WriteLog w"] exI [of _ "wp_files pkg w"]) (simp add: open_log_def handle_defs)
qed

end

text \<open>What a load gives: a database at the state after \<open>n\<close> entries, whose log reaches up to the \<open>m\<close>-th.\<close>

definition opened ::
  "('w \<Rightarrow> bool) \<Rightarrow> ('w \<Rightarrow> nat) \<Rightarrow> ('w \<Rightarrow> bytes list) \<Rightarrow> mstate \<Rightarrow> walEntry list \<Rightarrow> nat \<Rightarrow> nat \<Rightarrow> options \<Rightarrow> db_fs \<Rightarrow> ('c, 'w) db \<Rightarrow> bool" where
  "opened winv wfirst wentries g h n m opts fs db \<longleftrightarrow>
     (\<exists>t hl k. db = new_db opts t hl fs \<and> loaded g h n t \<and> k \<le> n \<and> SnapshotVersion t = Inr (version_at g k) \<and>
        handle_inv winv (fs_wal fs) (o_ReadOnly opts) hl \<and>
        log_ok (handle_first wfirst hl) (handle_entries wentries (fs_wal fs) hl) g h m fs)"

lemma SnapshotVersion_cong: "mt_metadata t' = mt_metadata t \<Longrightarrow> SnapshotVersion t' = SnapshotVersion t"
  by (simp add: SnapshotVersion_def)

context wal_package
begin

lemma load_db_latest:
  assumes "hist_ok g h" and "disk_ok ops pkg winv wfirst wentries g h m fs" and "link_ok g h fs n" and "o_TargetVersion opts = 0"
  shows "\<exists>db dir. load_db ops pkg gjson opts cid fs = (Inr db, fs\<lparr>fs_wal := dir\<rparr>) \<and>
    opened winv wfirst wentries g h (max n m) m opts (fs\<lparr>fs_wal := dir\<rparr>) db"
proof -
  let ?name = "snapshotName (version_at g n)"
  have d: "dirs_ok ops g h fs" using assms(2) by (simp add: disk_ok_def)
  have l: "n \<le> length h" "has_snapshot g fs n" "fs_current fs = Some ?name" using assms(3) by (simp_all add: link_ok_def)
  have r: "\<not> rollbacks opts" using assms(4) by (simp add: rollbacks_def)
  from snapshot_at [OF assms(1) d l(1,2)] obtain t where
    t: "LoadMultiTree ops (o_ZeroCopy opts) (o_CacheSize opts) cid (current_dir fs) = Inr t" "loaded g h n t"
      "SnapshotVersion t = Inr (version_at g n)"
    using l(3) unfolding snapshot_ok_def current_dir_def by fastforce
  obtain hl dir where o: "open_log pkg gjson (o_ReadOnly opts) fs = (Inr hl, fs\<lparr>fs_wal := dir\<rparr>)"
    "handle_inv winv dir (o_ReadOnly opts) hl" "log_ok (handle_first wfirst hl) (handle_entries wentries dir hl) g h m fs"
    using open_log_at [OF assms(2)] by blast
  have first: "handle_first wfirst hl \<le> Suc n" using o(3) l by (simp add: log_ok_def)
  obtain hl' t' where c: "catchupWAL ops (handle_reader pkg dir) 0 hl t = (Inr (), hl', t')" "loaded g h (max n m) t'"
    "mt_metadata t' = mt_metadata t" "handle_inv winv dir (o_ReadOnly opts) hl'" "handle_first wfirst hl' = handle_first wfirst hl"
    "handle_entries wentries dir hl' = handle_entries wentries dir hl"
    using catchup_at [OF assms(1) o(2,3) l(1) first t(2), of 0 m ops] by blast
  have "load_db ops pkg gjson opts cid fs = (Inr (new_db opts t' hl' (fs\<lparr>fs_wal := dir\<rparr>)), fs\<lparr>fs_wal := dir\<rparr>)"
    using t(1) o(1) c(1) r assms(4) by (simp add: load_db_def load_snapshot_def rollback_index_def)
  moreover have "opened winv wfirst wentries g h (max n m) m opts (fs\<lparr>fs_wal := dir\<rparr>) (new_db opts t' hl' (fs\<lparr>fs_wal := dir\<rparr>))"
    unfolding opened_def using c o(3) t(3) SnapshotVersion_cong [OF c(3)] log_ok_cong [of "fs\<lparr>fs_wal := dir\<rparr>" fs]
    by (intro exI [of _ t'] exI [of _ hl'] exI [of _ n]) simp
  ultimately show ?thesis by blast
qed

lemma load_db_target:
  assumes "hist_ok g h" and "disk_ok ops pkg winv wfirst wentries g h m fs" and "p \<le> m"
    and "int (unat (o_TargetVersion opts)) = version_at g p" and "o_TargetVersion opts > 0" and "has_snapshot g fs n" and "n \<le> p"
  shows "\<exists>n' t hl dir hl' t'. n' \<le> p \<and> has_snapshot g fs n' \<and> load_snapshot ops opts cid fs = Inr (snapshotName (version_at g n'), t) \<and>
    open_log pkg gjson (o_ReadOnly opts) fs = (Inr hl, fs\<lparr>fs_wal := dir\<rparr>) \<and> mt_initialVersion t = ms_initial g \<and>
    (if version_at g p > mt_Version t then catchupWAL ops (handle_reader pkg dir) (version_at g p) hl t else (Inr (), hl, t)) = (Inr (), hl', t') \<and>
    loaded g h p t' \<and> SnapshotVersion t' = Inr (version_at g n') \<and> handle_inv winv dir (o_ReadOnly opts) hl \<and> handle_inv winv dir (o_ReadOnly opts) hl' \<and>
    handle_first wfirst hl' = handle_first wfirst hl \<and> handle_entries wentries dir hl' = handle_entries wentries dir hl \<and>
    log_ok (handle_first wfirst hl) (handle_entries wentries dir hl) g h m fs"
proof -
  have d: "dirs_ok ops g h fs" and m: "m \<le> length h" using assms(2) by (auto simp: disk_ok_def log_ok_def)
  have p: "p \<le> length h" using assms(3) m by simp
  obtain n' where n': "n' \<le> p" "has_snapshot g fs n'" "seekSnapshot fs (o_TargetVersion opts) = Inr (version_at g n')"
    using seek_at [OF assms(1) d p assms(4)] assms(6,7) by blast
  have nl: "n' \<le> length h" using n'(1) p by simp
  from snapshot_at [OF assms(1) d nl n'(2)] obtain t where
    t: "LoadMultiTree ops (o_ZeroCopy opts) (o_CacheSize opts) cid (get_dir (snapshotName (version_at g n')) fs) = Inr t" "loaded g h n' t"
      "SnapshotVersion t = Inr (version_at g n')"
    unfolding snapshot_ok_def by blast
  note v = loaded_versions_at [OF assms(1) nl t(2)]
  have g: "0 \<le> ms_version g" using assms(1) by (simp add: hist_ok_def base_ok_def ms_inv_def)
  obtain hl dir where o: "open_log pkg gjson (o_ReadOnly opts) fs = (Inr hl, fs\<lparr>fs_wal := dir\<rparr>)"
    "handle_inv winv dir (o_ReadOnly opts) hl" "log_ok (handle_first wfirst hl) (handle_entries wentries dir hl) g h m fs"
    using open_log_at [OF assms(2)] by blast
  have first: "handle_first wfirst hl \<le> Suc n'" using o(3) nl n'(2) by (simp add: log_ok_def)
  have "\<exists>hl' t'. (if version_at g p > mt_Version t then catchupWAL ops (handle_reader pkg dir) (version_at g p) hl t else (Inr (), hl, t)) = (Inr (), hl', t') \<and>
    loaded g h p t' \<and> mt_metadata t' = mt_metadata t \<and> handle_inv winv dir (o_ReadOnly opts) hl' \<and>
    handle_first wfirst hl' = handle_first wfirst hl \<and> handle_entries wentries dir hl' = handle_entries wentries dir hl"
  proof (cases "n' < p")
    case True
    then have "version_at g p > mt_Version t" "max n' p = p" using v(1) version_at_mono(2) [OF g] by simp_all
    then show ?thesis using catchup_at [OF assms(1) o(2,3) nl first t(2), of "version_at g p" p ops] True assms(3) by auto
  next
    case False
    then show ?thesis using n'(1) v(1) t(2) o(2) by simp
  qed
  moreover have "load_snapshot ops opts cid fs = Inr (snapshotName (version_at g n'), t)"
    using n'(3) t(1) assms(5) by (simp add: load_snapshot_def)
  ultimately show ?thesis using n' o v(2) t(3) SnapshotVersion_cong by metis
qed

end

section \<open>Locking and cleaning up\<close>

lemma snapshot_name_no_tmp:
  assumes "isSnapshotName name" and "small_version v" and "name = snapshotName v"
  shows "\<not> has_suffix name TmpSuffix"
proof -
  have v: "0 \<le> v" "nat v < 10 ^ 20" using assms(2) by (simp_all add: small_version_def nat_less_iff)
  note p = pad_zeros_simps [OF v(2)]
  let ?s = "pad_zeros 20 (digits (nat v))"
  have n: "name = SnapshotPrefix @ ?s" using assms(3) v(1) by (simp add: snapshotName_form)
  have "drop (length name - 4) name = drop 16 ?s" using p(1) by (simp add: n)
  moreover have "list_all is_digit (drop 16 ?s)" using p(3) by (auto simp: list_all_iff dest: in_set_dropD)
  moreover have "\<not> list_all is_digit TmpSuffix" by (simp add: TmpSuffix_def is_digit_def)
  moreover have "length TmpSuffix = 4" by (simp add: TmpSuffix_def)
  ultimately show ?thesis by (auto simp: has_suffix_def)
qed

text \<open>Removing directories that are not snapshots changes nothing that matters.\<close>

definition same_snapshots :: "db_fs \<Rightarrow> db_fs \<Rightarrow> bool" where
  "same_snapshots fs fs' \<longleftrightarrow> distinct (map fst (fs_dirs fs')) \<and>
     (\<forall>name d. isSnapshotName name \<longrightarrow> (name, d) \<in> set (fs_dirs fs') \<longleftrightarrow> (name, d) \<in> set (fs_dirs fs))"

lemma same_snapshots_has:
  assumes "same_snapshots fs fs'" and "hist_ok g h" and "n \<le> length h"
  shows "has_snapshot g fs' n = has_snapshot g fs n"
proof -
  have "isSnapshotName (snapshotName (version_at g n))" by (rule small_version_name(1) [OF small_versions [OF assms(2,3)]])
  then show ?thesis using assms(1) by (auto simp: same_snapshots_def has_snapshot_def dir_names_def image_iff Bex_def)
qed

lemma same_snapshots_ok:
  assumes "same_snapshots fs fs'" and "hist_ok g h"
  shows "dirs_ok ops g h fs \<Longrightarrow> dirs_ok ops g h fs'" "log_ok first es g h m fs' = log_ok first es g h m fs"
    "fs_current fs' = fs_current fs \<Longrightarrow> link_ok g h fs' n = link_ok g h fs n"
  using assms(1) same_snapshots_has [OF assms]
  by (auto simp: dirs_ok_def same_snapshots_def log_ok_def link_ok_def)

definition cleaned :: "db_fs \<Rightarrow> db_fs" where
  "cleaned fs = (removeTmpDirs (fs\<lparr>fs_locked := True\<rparr>))\<lparr>fs_currentTmp := None\<rparr>"

lemma cleaned_same:
  assumes "hist_ok g h" and "dirs_ok ops g h fs"
  shows "same_snapshots fs (cleaned fs)"
proof -
  have "\<not> has_suffix name TmpSuffix" if nm: "(name, d) \<in> set (fs_dirs fs)" "isSnapshotName name" for name d
  proof -
    obtain n where "n \<le> length h" "name = snapshotName (version_at g n)" using assms(2) nm unfolding dirs_ok_def by blast
    then show ?thesis using snapshot_name_no_tmp [OF nm(2) small_versions [OF assms(1)]] by blast
  qed
  moreover have "distinct (map fst (fs_dirs fs))" using assms(2) by (simp add: dirs_ok_def)
  ultimately show ?thesis
    by (auto simp: same_snapshots_def cleaned_def removeTmpDirs_def distinct_map_filter)
qed

definition no_tmp :: "db_fs \<Rightarrow> bool" where
  "no_tmp fs \<longleftrightarrow> fs_currentTmp fs = None \<and> (\<forall>name \<in> dir_names fs. \<not> has_suffix name TmpSuffix)"

lemma cleaned_no_tmp: "no_tmp (cleaned fs)"
  by (auto simp: no_tmp_def cleaned_def removeTmpDirs_def dir_names_def)

lemma metadata_there: "snapshot_ok ops g h n d \<Longrightarrow> sd_metadata d \<noteq> None"
proof
  assume "snapshot_ok ops g h n d" "sd_metadata d = None"
  then have "\<exists>t. LoadMultiTree ops False 0 [] d = Inr t" "readMetadata d = Inl ErrNotExist"
    unfolding snapshot_ok_def by (blast, simp add: readMetadata_def)
  then show False by (auto simp: LoadMultiTree_def)
qed

lemma create_skipped:
  assumes "hist_ok g h" and "dirs_ok ops g h fs" and "link_ok g h fs n"
  shows "createDBIfNotExist iv cid fs = (Inr (), fs)"
proof -
  have "snapshot_ok ops g h n (current_dir fs)"
    using snapshot_at [OF assms(1,2), of n] assms(3) by (simp add: link_ok_def current_dir_def)
  from metadata_there [OF this] show ?thesis unfolding createDBIfNotExist_def by argo
qed

section \<open>Removing snapshots\<close>

lemma update_new: "k \<notin> fst ` set al \<Longrightarrow> AList.update k v al = al @ [(k, v)]"
  by (induction al) auto

lemma delete_absent: "k \<notin> fst ` set al \<Longrightarrow> AList.delete k al = al"
  by (induction al) auto

lemma atomicRemoveDir_removes:
  assumes "name \<in> dir_names fs" and "name @ TmpSuffix \<notin> dir_names fs"
  shows "atomicRemoveDir name fs = (Inr (), remove_dir name fs)"
proof -
  let ?tmp = "name @ TmpSuffix"
  obtain d where d: "map_of (fs_dirs fs) name = Some d"
    using assms(1) by (metis dir_names_def domIff dom_map_of_conv_image_fst not_Some_eq)
  have t: "map_of (fs_dirs fs) ?tmp = None" using assms(2) by (simp add: dir_names_def map_of_eq_None_iff)
  have nt: "?tmp \<notin> fst ` set (AList.delete name (fs_dirs fs))"
    using assms(2) by (auto simp: dir_names_def AList.delete_eq)
  have "rename_dir name ?tmp fs = (Inr (), put_dir ?tmp d (remove_dir name fs))"
    using d t by (simp add: rename_dir_def get_dir_def)
  moreover have "remove_dir ?tmp (put_dir ?tmp d (remove_dir name fs)) = remove_dir name fs"
  proof -
    have "AList.delete ?tmp (AList.update ?tmp d (AList.delete name (fs_dirs fs))) = AList.delete name (fs_dirs fs)"
      unfolding update_new [OF nt] using delete_absent [OF nt] by (simp add: AList.delete_eq)
    then show ?thesis by (simp add: remove_dir_def put_dir_def)
  qed
  ultimately show ?thesis by (simp add: atomicRemoveDir_def)
qed

definition without :: "string set \<Rightarrow> db_fs \<Rightarrow> db_fs" where
  "without names fs = fs\<lparr>fs_dirs := filter (\<lambda>e. fst e \<notin> names) (fs_dirs fs)\<rparr>"

lemma remove_dir_without: "remove_dir name fs = without {name} fs"
proof -
  have "(\<lambda>(k', v :: snapshot_dir). name \<noteq> k') = (\<lambda>e. fst e \<notin> {name})" by auto
  then show ?thesis by (simp add: remove_dir_def without_def AList.delete_eq)
qed

lemma without_without: "without a (without b fs) = without (a \<union> b) fs"
  by (simp add: without_def conj_commute)

lemma without_empty: "without {} fs = fs"
  by (simp add: without_def)

lemma names_without: "dir_names (without a fs) = dir_names fs - a"
  by (auto simp: without_def dir_names_def)

text \<open>The loops that remove snapshots: what they remove, when nothing is in the way.\<close>

lemma dir_without_tmp:
  assumes "no_tmp fs" and "a \<subseteq> names"
  shows "name @ TmpSuffix \<notin> dir_names (without a fs)"
proof -
  have "has_suffix (name @ TmpSuffix) TmpSuffix" by (simp add: has_suffix_def)
  then show ?thesis using assms(1) by (auto simp: no_tmp_def names_without)
qed

lemma rollback_loop:
  assumes "no_tmp fs" and "sorted_wrt (>) vs" and "\<forall>v \<in> set vs. small_version v \<and> snapshotName v \<in> dir_names fs \<and> snapshotName v \<notin> a"
  shows "traverse_versions
      (\<lambda>version fs'.
         if version \<le> t then (Inr True, fs')
         else case atomicRemoveDir (snapshotName version) fs' of
             (Inl e, fs'') \<Rightarrow> (Inl e, fs'')
           | (Inr _, fs'') \<Rightarrow> (Inr False, fs''))
      vs (without a fs) = (Inr (), without (a \<union> snapshotName ` {v \<in> set vs. t < v}) fs)"
  using assms(2,3)
proof (induction vs arbitrary: a)
  case (Cons v vs)
  show ?case
  proof (cases "v \<le> t")
    case True
    then have e: "{w \<in> set (v # vs). t < w} = {}" using Cons.prems(1) by auto
    show ?thesis unfolding e using True by simp
  next
    case False
    have rm: "atomicRemoveDir (snapshotName v) (without a fs) = (Inr (), without ({snapshotName v} \<union> a) fs)"
      using atomicRemoveDir_removes [of "snapshotName v" "without a fs"] dir_without_tmp [OF assms(1) order_refl] Cons.prems(2)
      by (simp add: names_without remove_dir_without without_without)
    have "\<forall>w \<in> set vs. small_version w \<and> snapshotName w \<in> dir_names fs \<and> snapshotName w \<notin> {snapshotName v} \<union> a"
    proof
      fix w assume w: "w \<in> set vs"
      then have "w \<noteq> v" using Cons.prems(1) by auto
      then have "snapshotName w \<noteq> snapshotName v" using small_version_name(4) [of w v] Cons.prems(2) w by auto
      then show "small_version w \<and> snapshotName w \<in> dir_names fs \<and> snapshotName w \<notin> {snapshotName v} \<union> a"
        using Cons.prems(2) w by simp
    qed
    moreover have "{snapshotName v} \<union> a \<union> snapshotName ` {w \<in> set vs. t < w} = a \<union> snapshotName ` {w \<in> set (v # vs). t < w}"
      using False by auto
    ultimately show ?thesis using False rm Cons.IH [of "{snapshotName v} \<union> a"] Cons.prems(1) by simp
  qed
qed simp

lemma versions_dir:
  assumes "canonical fs" and "v \<in> set (versions fs)"
  shows "small_version v \<and> snapshotName v \<in> dir_names fs"
  using versions_small [OF assms] versions_iff [OF assms(1) versions_small [OF assms]] assms(2) by (simp add: dir_names_def)

lemma rollback_snapshots_spec:
  assumes "canonical fs" and "no_tmp fs" and "fs_current fs \<noteq> None"
  shows "rollback_snapshots snapshot t fs =
    (Inr (), without (snapshotName ` {v \<in> set (versions fs). int (unat t) < v}) (fs\<lparr>fs_current := Some snapshot\<rparr>))"
proof -
  let ?fs = "fs\<lparr>fs_current := Some snapshot\<rparr>"
  obtain c where c: "fs_current fs = Some c" using assms(3) by auto
  have up: "(if snapshot \<noteq> c then updateCurrentSymlink snapshot fs else (Inr (), fs)) = (Inr (), ?fs)"
    using c assms(2) by (cases fs) (simp add: updateCurrentSymlink_def symlink_tmp_def rename_tmp_def no_tmp_def)
  have same: "canonical ?fs" "no_tmp ?fs" "versions ?fs = versions fs" "dir_names ?fs = dir_names fs"
    using assms by (simp_all add: canonical_def no_tmp_def versions_def read_dir_def dir_names_def)
  have "sorted_wrt (>) (rev (versions fs))" using versions_sorted [OF assms(1)] by (simp add: sorted_wrt_rev)
  then have "traverse_versions
      (\<lambda>version fs'. if version \<le> int (unat t) then (Inr True, fs')
         else case atomicRemoveDir (snapshotName version) fs' of (Inl e, fs'') \<Rightarrow> (Inl e, fs'') | (Inr _, fs'') \<Rightarrow> (Inr False, fs''))
      (rev (versions fs)) (without {} ?fs) = (Inr (), without ({} \<union> snapshotName ` {v \<in> set (rev (versions fs)). int (unat t) < v}) ?fs)"
    by (intro rollback_loop [OF same(2)]) (use versions_dir [OF assms(1)] same(4) in auto)
  then show ?thesis
    unfolding rollback_snapshots_def c option.case up prod.case sum.case traverseSnapshots_versions [OF same(1)]
    by (simp add: same(3) without_empty)
qed

section \<open>Loading a directory\<close>

definition prepared :: "bool \<Rightarrow> db_fs \<Rightarrow> db_fs" where
  "prepared ro fs = (if ro then fs else cleaned fs)"

lemma prepare:
  assumes "hist_ok g h" and "disk_ok ops pkg winv wfirst wentries g h m fs" and "link_ok g h fs n" and "ro \<or> \<not> fs_locked fs"
  shows "lock_dir ro fs = (Inr (), prepared ro fs)" "disk_ok ops pkg winv wfirst wentries g h m (prepared ro fs)"
    "link_ok g h (prepared ro fs) n" "k \<le> length h \<Longrightarrow> has_snapshot g (prepared ro fs) k = has_snapshot g fs k"
proof -
  have d: "dirs_ok ops g h fs" using assms(2) by (simp add: disk_ok_def)
  note same = cleaned_same [OF assms(1) d]
  have f: "fs_wal (cleaned fs) = fs_wal fs" "fs_current (cleaned fs) = fs_current fs" by (simp_all add: cleaned_def removeTmpDirs_def)
  show "lock_dir ro fs = (Inr (), prepared ro fs)" using assms(4) by (auto simp: lock_dir_def prepared_def cleaned_def)
  show "disk_ok ops pkg winv wfirst wentries g h m (prepared ro fs)"
    using assms(2) same_snapshots_ok(1) [OF same assms(1) d] same_snapshots_ok(2) [OF same assms(1)] f(1) by (simp add: disk_ok_def prepared_def)
  show "link_ok g h (prepared ro fs) n" using assms(3) same_snapshots_ok(3) [OF same assms(1) f(2)] by (simp add: prepared_def)
  show "k \<le> length h \<Longrightarrow> has_snapshot g (prepared ro fs) k = has_snapshot g fs k"
    using same_snapshots_has [OF same assms(1)] by (simp add: prepared_def)
qed

text \<open>Histories cut off at \<open>p\<close>.\<close>

lemma state_at_take: "n \<le> p \<Longrightarrow> state_at g (take p h) n = state_at g h n"
  by (simp add: state_at_def min_def)

lemma loaded_take: "n \<le> p \<Longrightarrow> loaded g (take p h) n t = loaded g h n t"
  by (simp add: loaded_def state_at_take min_def)

lemma snapshot_ok_take: "n \<le> p \<Longrightarrow> snapshot_ok ops g (take p h) n d = snapshot_ok ops g h n d"
  by (simp add: snapshot_ok_def loaded_take)

lemma hist_ok_take:
  assumes "hist_ok g h" and "p \<le> length h"
  shows "hist_ok g (take p h)"
proof -
  have "spec_run (take p h) g = (Inr (), state_at g h p)" using assms(1) by (intro spec_run_take) (simp add: hist_ok_def)
  then show ?thesis
    using assms total_size_parts(2) [OF assms(1), of p] small_versions [OF assms]
    by (auto simp: hist_ok_def dest: in_set_takeD)
qed

lemma FillDefaults_fields [simp]:
  "o_ReadOnly (FillDefaults opts) = o_ReadOnly opts" "o_CreateIfMissing (FillDefaults opts) = o_CreateIfMissing opts"
  "o_TargetVersion (FillDefaults opts) = o_TargetVersion opts" "o_InitialStores (FillDefaults opts) = o_InitialStores opts"
  "o_LoadForOverwriting (FillDefaults opts) = o_LoadForOverwriting opts" "rollbacks (FillDefaults opts) = rollbacks opts"
  by (simp_all add: FillDefaults_def rollbacks_def)

lemma Load_from_load_db:
  assumes "hist_ok g h" and "disk_ok ops pkg winv wfirst wentries g h m fs" and "link_ok g h fs n"
    and "o_ReadOnly opts \<or> \<not> fs_locked fs" and "Validate opts = Inr ()"
    and "load_db ops pkg gjson (FillDefaults opts) cid (prepared (o_ReadOnly opts) fs) = (Inr db, fs')"
    and "db_readOnly db \<or> mt_Version (db_MultiTree db) \<noteq> 0 \<or> o_InitialStores opts = []"
  shows "Load ops pkg gjson opts cid fs = (Inr db, fs')"
proof -
  have d: "dirs_ok ops g h fs" using assms(2) by (simp add: disk_ok_def)
  note c = create_skipped [OF assms(1) d assms(3)] and p = prepare(1) [OF assms(1-4)]
  show ?thesis using assms(5-7) c p by (auto simp: Load_def Let_def)
qed

context wal_package
begin

lemma Load_latest:
  assumes "hist_ok g h" and "disk_ok ops pkg winv wfirst wentries g h m fs" and "link_ok g h fs n"
    and "o_ReadOnly opts \<or> \<not> fs_locked fs" and "Validate opts = Inr ()" and "o_TargetVersion opts = 0" and "o_InitialStores opts = []"
  shows "\<exists>db dir fs'. Load ops pkg gjson opts cid fs = (Inr db, fs') \<and> fs' = (prepared (o_ReadOnly opts) fs)\<lparr>fs_wal := dir\<rparr> \<and>
    opened winv wfirst wentries g h (max n m) m (FillDefaults opts) fs' db"
proof -
  note p = prepare [OF assms(1-4)]
  have t: "o_TargetVersion (FillDefaults opts) = 0" using assms(6) by simp
  obtain db dir where l: "load_db ops pkg gjson (FillDefaults opts) cid (prepared (o_ReadOnly opts) fs) =
      (Inr db, (prepared (o_ReadOnly opts) fs)\<lparr>fs_wal := dir\<rparr>)"
    "opened winv wfirst wentries g h (max n m) m (FillDefaults opts) ((prepared (o_ReadOnly opts) fs)\<lparr>fs_wal := dir\<rparr>) db"
    using load_db_latest [OF assms(1) p(2,3) t] by blast
  then show ?thesis using Load_from_load_db [OF assms(1-5) l(1)] assms(7) by blast
qed

lemma Load_at_target:
  assumes "hist_ok g h" and "disk_ok ops pkg winv wfirst wentries g h m fs" and "link_ok g h fs n0"
    and "o_ReadOnly opts \<or> \<not> fs_locked fs" and "Validate opts = Inr ()" and "\<not> o_LoadForOverwriting opts"
    and "p \<le> m" and "int (unat (o_TargetVersion opts)) = version_at g p" and "o_TargetVersion opts > 0"
    and "has_snapshot g fs n" and "n \<le> p"
  shows "\<exists>db dir fs'. Load ops pkg gjson opts cid fs = (Inr db, fs') \<and> fs' = (prepared (o_ReadOnly opts) fs)\<lparr>fs_wal := dir\<rparr> \<and>
    opened winv wfirst wentries g h p m (FillDefaults opts) fs' db"
proof -
  let ?fs = "prepared (o_ReadOnly opts) fs" and ?opts = "FillDefaults opts"
  note pr = prepare [OF assms(1-4)]
  have m: "m \<le> length h" using assms(2) by (auto simp: disk_ok_def log_ok_def)
  have t: "int (unat (o_TargetVersion ?opts)) = version_at g p" "o_TargetVersion ?opts > 0" "\<not> rollbacks ?opts"
    using assms(6,8,9) by (simp_all add: rollbacks_def del: of_nat_unat)
  have "has_snapshot g ?fs n" using pr(4) [of n] assms(7,10,11) m by simp
  from load_db_target [OF assms(1) pr(2) assms(7) t(1,2) this assms(11), of cid gjson] obtain n' t hl dir hl' t' where
    l: "n' \<le> p" "load_snapshot ops ?opts cid ?fs = Inr (snapshotName (version_at g n'), t)"
      "open_log pkg gjson (o_ReadOnly ?opts) ?fs = (Inr hl, ?fs\<lparr>fs_wal := dir\<rparr>)"
      "(if version_at g p > mt_Version t then catchupWAL ops (handle_reader pkg dir) (version_at g p) hl t else (Inr (), hl, t)) = (Inr (), hl', t')"
      "loaded g h p t'" "SnapshotVersion t' = Inr (version_at g n')" "handle_inv winv dir (o_ReadOnly ?opts) hl'"
      "handle_first wfirst hl' = handle_first wfirst hl" "handle_entries wentries dir hl' = handle_entries wentries dir hl"
      "log_ok (handle_first wfirst hl) (handle_entries wentries dir hl) g h m ?fs" by blast
  have "unat (o_TargetVersion ?opts) \<noteq> 0" using t(2) by (simp add: word_less_nat_alt)
  then have v0: "version_at g p \<noteq> 0" using t(1) by linarith
  have "load_db ops pkg gjson ?opts cid ?fs = (Inr (new_db ?opts t' hl' (?fs\<lparr>fs_wal := dir\<rparr>)), ?fs\<lparr>fs_wal := dir\<rparr>)"
    unfolding load_db_def l(2) l(3) t(1) Let_def rollback_index_def using l(4) t(3) v0
    by (cases "mt_Version t < version_at g p") simp_all
  moreover have "mt_Version t' \<noteq> 0" using loaded_versions_at(1) [OF assms(1) _ l(5)] assms(7) m v0 by simp
  moreover have "opened winv wfirst wentries g h p m ?opts (?fs\<lparr>fs_wal := dir\<rparr>) (new_db ?opts t' hl' (?fs\<lparr>fs_wal := dir\<rparr>))"
    unfolding opened_def using l(1,5-10) log_ok_cong [of "?fs\<lparr>fs_wal := dir\<rparr>" ?fs]
    by (intro exI [of _ t'] exI [of _ hl'] exI [of _ n']) simp
  ultimately show ?thesis using Load_from_load_db [OF assms(1-5)] by (simp add: new_db_def) blast
qed

text \<open>Cutting the log back to the \<open>p\<close>-th entry.\<close>

lemma log_indices:
  assumes "hist_ok g h" and "handle_inv winv dir ro hl" and "log_ok (handle_first wfirst hl) (handle_entries wentries dir hl) g h m fs"
    and "handle_first wfirst hl \<le> m"
  shows "wr_FirstIndex (handle_reader pkg dir) hl = Inr (word_of_nat (handle_first wfirst hl))"
    "wr_LastIndex (handle_reader pkg dir) hl = Inr (word_of_nat m)"
    "handle_first wfirst hl + length (handle_entries wentries dir hl) = Suc m"
proof -
  have f: "1 \<le> handle_first wfirst hl" "m \<le> length h"
    "handle_entries wentries dir hl = map WALEntry_Marshal (drop (handle_first wfirst hl - 1) (take m h))"
    using assms(3) by (simp_all add: log_ok_def)
  then show len: "handle_first wfirst hl + length (handle_entries wentries dir hl) = Suc m" using assms(4) by simp
  show "wr_FirstIndex (handle_reader pkg dir) hl = Inr (word_of_nat (handle_first wfirst hl))"
    using handle.FirstIndex [OF assms(2)] len f assms(4) by simp
  show "wr_LastIndex (handle_reader pkg dir) hl = Inr (word_of_nat m)"
    using handle.LastIndex [OF assms(2)] len by simp
qed

lemma rollback_index_at:
  assumes "hist_ok g h" and "handle_inv winv dir ro hl" and "log_ok (handle_first wfirst hl) (handle_entries wentries dir hl) g h m fs"
    and "rollbacks opts" and "int (unat (o_TargetVersion opts)) = version_at g p" and "0 < p" and "p \<le> length h"
  shows "rollback_index (handle_reader pkg dir) opts (ms_initial g) hl =
    (if handle_first wfirst hl \<le> p \<and> p \<le> m then Inr (word_of_nat p) else Inl WalOutOfRange)"
proof -
  let ?f = "handle_first wfirst hl"
  have base: "base_ok g" using assms(1) by (simp add: hist_ok_def)
  have f: "1 \<le> ?f" "?f \<le> Suc m" "m \<le> length h"
    "handle_entries wentries dir hl = map WALEntry_Marshal (drop (?f - 1) (take m h))"
    using assms(3) by (simp_all add: log_ok_def)
  have b: "length h < 2 ^ 31" by (rule history_short [OF assms(1)])
  have u: "unat (word_of_nat p :: u64) = p" "unat (word_of_nat ?f :: u64) = ?f" "unat (word_of_nat m :: u64) = m"
    using b f assms(7) by (simp_all add: unat_u64)
  have i: "walIndex (int (unat (o_TargetVersion opts))) (ms_initial g) = word_of_nat p"
    unfolding assms(5) by (rule walIndex_at [OF base assms(6)])
  have nz: "(word_of_nat p :: u64) \<noteq> 0" using u(1) assms(6) by (metis unat_0 less_irrefl)
  show ?thesis
  proof (cases "?f \<le> m")
    case True
    note li = log_indices [OF assms(1-3) True]
    show ?thesis
      unfolding rollback_index_def i Let_def li using assms(4) nz u by (auto simp: word_less_nat_alt)
  next
    case False
    then have "handle_entries wentries dir hl = []" "?f = Suc m" using f by simp_all
    then have "wr_LastIndex (handle_reader pkg dir) hl = Inr (word_of_nat m)"
      "wr_FirstIndex (handle_reader pkg dir) hl = Inr (if m = 0 then 0 else word_of_nat ?f)"
      using handle.LastIndex [OF assms(2)] handle.FirstIndex [OF assms(2)] by simp_all
    then show ?thesis
      unfolding rollback_index_def i Let_def using assms(4,6) False nz u f by (auto simp: word_less_nat_alt)
  qed
qed

lemma TruncateBack_at:
  assumes "hist_ok g h" and "winv w" and "log_ok (wfirst w) (wentries w) g h m fs" and "wfirst w \<le> p" and "p \<le> m"
  shows "\<exists>w'. wp_TruncateBack pkg (word_of_nat p) w = (Inr (), w') \<and> winv w' \<and> wfirst w' = wfirst w \<and>
    wentries w' = map WALEntry_Marshal (drop (wfirst w - 1) (take p h))"
proof -
  have f: "1 \<le> wfirst w" "m \<le> length h" "wentries w = map WALEntry_Marshal (drop (wfirst w - 1) (take m h))"
    using assms(3) by (simp_all add: log_ok_def)
  have len: "p < wfirst w + length (wentries w)" using f assms(4,5) by simp
  have "take (Suc p - wfirst w) (drop (wfirst w - 1) (take m h)) = drop (wfirst w - 1) (take p h)"
    using f(1) assms(4,5) by (simp add: take_drop min_def)
  then have "take (Suc p - wfirst w) (wentries w) = map WALEntry_Marshal (drop (wfirst w - 1) (take p h))"
    unfolding f(3) take_map by simp
  then show ?thesis using TruncateBack [OF assms(2,4) len] by auto
qed

lemma rolled_back_dirs:
  assumes "hist_ok g h" and "dirs_ok ops g h fs" and "p \<le> length h" and "n \<le> p" and "has_snapshot g fs n"
  defines "fs' \<equiv> without (snapshotName ` {v \<in> set (versions fs). version_at g p < v}) (fs\<lparr>fs_current := Some (snapshotName (version_at g n))\<rparr>)"
  shows "dirs_ok ops g (take p h) fs'" "link_ok g (take p h) fs' n" "k \<le> length h \<Longrightarrow> has_snapshot g fs' k \<longleftrightarrow> has_snapshot g fs k \<and> k \<le> p"
proof -
  have g: "0 \<le> ms_version g" using assms(1) by (simp add: hist_ok_def base_ok_def ms_inv_def)
  note mono = version_at_mono(2,3) [OF g]
  have gone: "snapshotName (version_at g k) \<in> snapshotName ` {v \<in> set (versions fs). version_at g p < v} \<longleftrightarrow> has_snapshot g fs k \<and> p < k"
    if k: "k \<le> length h" for k
  proof
    assume "snapshotName (version_at g k) \<in> snapshotName ` {v \<in> set (versions fs). version_at g p < v}"
    then obtain v where v: "v \<in> set (versions fs)" "version_at g p < v" "snapshotName (version_at g k) = snapshotName v" by auto
    then obtain j where j: "j \<le> length h" "v = version_at g j" "has_snapshot g fs j" using versions_at [OF assms(1,2)] by blast
    then have "k = j" using name_at_inj [OF assms(1) k j(1)] v(3) by simp
    then show "has_snapshot g fs k \<and> p < k" using j v(2) mono(1) by simp
  next
    assume "has_snapshot g fs k \<and> p < k"
    then show "snapshotName (version_at g k) \<in> snapshotName ` {v \<in> set (versions fs). version_at g p < v}"
      using versions_at [OF assms(1,2), of "version_at g k"] k mono(1) by blast
  qed
  show has: "has_snapshot g fs' k \<longleftrightarrow> has_snapshot g fs k \<and> k \<le> p" if "k \<le> length h" for k
    using gone [OF that] unfolding fs'_def has_snapshot_def names_without by (auto simp: dir_names_def)
  have "\<exists>k \<le> length (take p h). name = snapshotName (version_at g k) \<and> snapshot_ok ops g (take p h) k d"
    if nm: "(name, d) \<in> set (fs_dirs fs')" "isSnapshotName name" for name d
  proof -
    have "(name, d) \<in> set (fs_dirs fs)" using nm(1) by (simp add: fs'_def without_def)
    then obtain k where k: "k \<le> length h" "name = snapshotName (version_at g k)" "snapshot_ok ops g h k d"
      using assms(2) nm(2) unfolding dirs_ok_def by blast
    have "has_snapshot g fs' k" using nm(1) k(2) by (force simp: has_snapshot_def dir_names_def)
    then have kp: "k \<le> p" using has [OF k(1)] by simp
    then have "snapshot_ok ops g (take p h) k d" using k(3) by (simp add: snapshot_ok_take)
    then show ?thesis using k(2) kp assms(3) by (intro exI [of _ k]) simp
  qed
  moreover have "distinct (map fst (fs_dirs fs'))" using assms(2) by (simp add: fs'_def without_def dirs_ok_def distinct_map_filter)
  ultimately show "dirs_ok ops g (take p h) fs'" by (simp add: dirs_ok_def)
  show "link_ok g (take p h) fs' n"
    using has [of n] assms(3-5) by (simp add: link_ok_def fs'_def without_def has_snapshot_def dir_names_def)
qed

lemma open_log_disk:
  assumes "winv w0" and "fs_wal fs = wp_files pkg w0" and "open_log pkg gjson False fs = (Inr hl, fs\<lparr>fs_wal := dir\<rparr>)"
  shows "\<exists>w. hl = WriteLog w \<and> dir = wp_files pkg w \<and> winv w \<and> wfirst w = wfirst w0 \<and> wentries w = wentries w0"
proof -
  obtain w where w: "wp_Open pkg (fs_wal fs) = (Inr w, wp_files pkg w)" "winv w" "wfirst w = wfirst w0" "wentries w = wentries w0"
    using Open [OF assms(1)] assms(2) by auto
  then have "hl = WriteLog w" "fs\<lparr>fs_wal := dir\<rparr> = fs\<lparr>fs_wal := wp_files pkg w\<rparr>"
    using assms(3) by (simp_all add: open_log_def OpenWAL_def)
  moreover have "dir = wp_files pkg w" using arg_cong [OF calculation(2), of fs_wal] by simp
  ultimately show ?thesis using w(2-4) by blast
qed

text \<open>The log on disk is the one the directory is described with.\<close>

lemma disk_log:
  assumes "disk_ok ops pkg winv wfirst wentries g h m fs" and "0 < p" and "p \<le> m" and "winv w0" and "fs_wal fs = wp_files pkg w0"
  shows "log_ok (wfirst w0) (wentries w0) g h m fs"
proof -
  obtain w1 where w1: "wp_Open pkg (fs_wal fs) = (Inr w1, wp_files pkg w1)" "wfirst w1 = wfirst w0" "wentries w1 = wentries w0"
    using Open [OF assms(4)] assms(5) by auto
  consider "fs_wal fs = []" "log_ok 1 [] g h m fs"
    | w where "winv w" "fs_wal fs = wp_files pkg w" "log_ok (wfirst w) (wentries w) g h m fs"
    using assms(1) by (auto simp: disk_ok_def)
  then show ?thesis
  proof cases
    case 1
    then show ?thesis using assms(2,3) by (auto simp: log_ok_def)
  next
    case (2 w)
    then obtain w2 where "wp_Open pkg (fs_wal fs) = (Inr w2, wp_files pkg w2)" "wfirst w2 = wfirst w" "wentries w2 = wentries w"
      using Open [OF 2(1)] by auto
    then show ?thesis using w1 2(3) by simp
  qed
qed

lemma Load_rollback:
  assumes "hist_ok g h" and "disk_ok ops pkg winv wfirst wentries g h m fs" and "link_ok g h fs n0"
    and "\<not> fs_locked fs" and "\<not> o_ReadOnly opts" and "o_LoadForOverwriting opts"
    and "0 < p" and "p \<le> m" and "int (unat (o_TargetVersion opts)) = version_at g p" and "has_snapshot g fs n" and "n \<le> p"
    and "winv w0" and "fs_wal fs = wp_files pkg w0"
  shows "if wfirst w0 \<le> p then
      (\<exists>db w fs' k. Load ops pkg gjson opts cid fs = (Inr db, fs') \<and> db_wal db = Some (WriteLog w) \<and>
        opened winv wfirst wentries g (take p h) p p (FillDefaults opts) fs' db \<and>
        dirs_ok ops g (take p h) fs' \<and> link_ok g (take p h) fs' k)
    else (\<exists>w. winv w \<and> wfirst w = wfirst w0 \<and> wentries w = wentries w0 \<and>
      Load ops pkg gjson opts cid fs = (Inl WalOutOfRange, unlock ((prepared False fs)\<lparr>fs_wal := wp_files pkg w\<rparr>)))"
proof -
  let ?fs = "prepared False fs" and ?opts = "FillDefaults opts"
  have lk: "False \<or> \<not> fs_locked fs" using assms(4) by simp
  note pr = prepare [OF assms(1-3) lk]
  have m: "m \<le> length h" using assms(2) by (auto simp: disk_ok_def log_ok_def)
  have pl: "p \<le> length h" using assms(8) m by simp
  have g: "0 \<le> ms_version g" using assms(1) by (simp add: hist_ok_def base_ok_def ms_inv_def)
  have pos: "0 < version_at g p" using version_at_mono(1) [OF g, of 0 p] g assms(7) by simp
  have t: "int (unat (o_TargetVersion ?opts)) = version_at g p" "o_TargetVersion ?opts > 0"
    using assms(9) pos by (simp_all add: word_less_nat_alt del: of_nat_unat)
  have rb: "rollbacks ?opts" "o_ReadOnly ?opts = False" using t(2) assms(5,6) by (simp_all add: rollbacks_def)
  have hs: "has_snapshot g ?fs n" using pr(4) [of n] assms(10,11) pl by simp
  have d: "dirs_ok ops g h ?fs" using pr(2) by (simp add: disk_ok_def)
  from load_db_target [OF assms(1) pr(2) assms(8) t(1,2) hs assms(11), of cid gjson, unfolded rb(2)] obtain n' t hl dir hl' t' where
    l: "n' \<le> p" "has_snapshot g ?fs n'" "load_snapshot ops ?opts cid ?fs = Inr (snapshotName (version_at g n'), t)"
      "open_log pkg gjson False ?fs = (Inr hl, ?fs\<lparr>fs_wal := dir\<rparr>)" "mt_initialVersion t = ms_initial g"
      "(if version_at g p > mt_Version t then catchupWAL ops (handle_reader pkg dir) (version_at g p) hl t else (Inr (), hl, t)) = (Inr (), hl', t')"
      "loaded g h p t'" "SnapshotVersion t' = Inr (version_at g n')" "handle_inv winv dir False hl" "handle_inv winv dir False hl'"
      "handle_first wfirst hl' = handle_first wfirst hl" "handle_entries wentries dir hl' = handle_entries wentries dir hl"
      "log_ok (handle_first wfirst hl) (handle_entries wentries dir hl) g h m ?fs" by blast
  have va: "Validate opts = Inr ()" using assms(5) by (simp add: Validate_def)
  note ri = rollback_index_at [OF assms(1) l(9,13) rb(1) t(1) assms(7) pl]
  obtain w where w: "hl' = WriteLog w" "winv w" using l(10) by (cases hl') (simp_all add: handle_inv_def)
  then have first: "handle_first wfirst hl = wfirst w" "handle_entries wentries dir hl = wentries w"
    using l(11,12) by (simp_all add: handle_defs)
  have "fs_wal ?fs = wp_files pkg w0" using assms(13) by (simp add: prepared_def cleaned_def removeTmpDirs_def)
  from open_log_disk [OF assms(12) this l(4)] obtain w1 where w1: "hl = WriteLog w1" "dir = wp_files pkg w1" "winv w1"
    "wfirst w1 = wfirst w0" "wentries w1 = wentries w0" by blast
  have ww: "wfirst w = wfirst w0" using first(1) w1(1,4) by (simp add: handle_defs)
  show ?thesis
  proof (cases "wfirst w \<le> p")
    case False
    then have "load_db ops pkg gjson ?opts cid ?fs = (Inl WalOutOfRange, ?fs\<lparr>fs_wal := dir\<rparr>)"
      using ri first unfolding load_db_def by (simp add: l(3) l(4) l(5) assms(5) Let_def)
    then have "Load ops pkg gjson opts cid fs = (Inl WalOutOfRange, unlock (?fs\<lparr>fs_wal := dir\<rparr>))"
      using va pr(1) create_skipped [OF assms(1) _ assms(3), of ops] assms(2,5) by (simp add: Load_def Let_def disk_ok_def)
    then show ?thesis using False ww w1 by auto
  next
    case True
    let ?gone = "snapshotName ` {v \<in> set (versions ?fs). version_at g p < v}"
    let ?fs2 = "without ?gone (?fs\<lparr>fs_current := Some (snapshotName (version_at g n'))\<rparr>)\<lparr>fs_wal := dir\<rparr>"
    obtain w' where w': "wp_TruncateBack pkg (word_of_nat p) w = (Inr (), w')" "winv w'" "wfirst w' = wfirst w"
      "wentries w' = map WALEntry_Marshal (drop (wfirst w - 1) (take p h))"
      using TruncateBack_at [OF assms(1) w(2) l(13) [unfolded first] True assms(8)] by blast
    have rs: "rollback_snapshots (snapshotName (version_at g n')) (o_TargetVersion ?opts) (?fs\<lparr>fs_wal := dir\<rparr>) = (Inr (), ?fs2)"
    proof -
      have "canonical (?fs\<lparr>fs_wal := dir\<rparr>)" using dirs_canonical [OF assms(1) d] by (simp add: canonical_def)
      moreover have "no_tmp (?fs\<lparr>fs_wal := dir\<rparr>)" using cleaned_no_tmp [of fs] by (simp add: no_tmp_def dir_names_def prepared_def)
      moreover have "fs_current (?fs\<lparr>fs_wal := dir\<rparr>) \<noteq> None" using pr(3) by (simp add: link_ok_def)
      moreover have "versions (?fs\<lparr>fs_wal := dir\<rparr>) = versions ?fs" by (simp add: versions_def read_dir_def)
      ultimately show ?thesis using rollback_snapshots_spec [of "?fs\<lparr>fs_wal := dir\<rparr>"] t(1) by (simp add: without_def)
    qed
    have ld: "load_db ops pkg gjson ?opts cid ?fs = (Inr (new_db ?opts t' (WriteLog w') ?fs2), ?fs2)"
    proof -
      have step: "(if version_at g p = 0 \<or> version_at g p > mt_Version t then catchupWAL ops (handle_reader pkg dir) (version_at g p) hl t
          else (Inr (), hl, t)) = (Inr (), hl', t')" using l(6) pos by simp
      have fw: "fs_wal (?fs\<lparr>fs_wal := dir\<rparr>) = dir" by simp
      have "rollback_index (handle_reader pkg dir) ?opts (mt_initialVersion t) hl = Inr (word_of_nat p)"
        using ri first True assms(8) l(5) by simp
      then show ?thesis
        unfolding load_db_def l(3) sum.case prod.case rb(2) l(4) Let_def t(1) fw using rs w'(1) step rb(1) w(1)
        by (simp add: rollback_log_def split del: if_split)
    qed
    have v: "mt_Version t' \<noteq> 0" using loaded_versions_at(1) [OF assms(1) pl l(7)] pos by simp
    have "Load ops pkg gjson opts cid fs = (Inr (new_db ?opts t' (WriteLog w') ?fs2), ?fs2)"
      by (rule Load_from_load_db [OF assms(1-3) _ va]) (use assms(4,5) ld v in \<open>simp_all add: new_db_def\<close>)
    moreover note rd = rolled_back_dirs [OF assms(1) d pl l(1,2)]
    have "dirs_ok ops g (take p h) ?fs2" "link_ok g (take p h) ?fs2 n'"
      using rd(1,2) by (simp_all add: dirs_ok_def link_ok_def has_snapshot_def dir_names_def)
    moreover have "opened winv wfirst wentries g (take p h) p p ?opts ?fs2 (new_db ?opts t' (WriteLog w') ?fs2)"
    proof -
      have "has_snapshot g ?fs2 k \<Longrightarrow> k \<le> length (take p h) \<Longrightarrow> wfirst w \<le> Suc k" for k
        using rd(3) [of k] l(13) pl unfolding first log_ok_def has_snapshot_def dir_names_def by simp
      then have "log_ok (wfirst w') (wentries w') g (take p h) p ?fs2"
        using w'(3,4) l(13) True pl unfolding first by (simp add: log_ok_def)
      then show ?thesis
        unfolding opened_def using l(1,7,8) w'(2) assms(5) loaded_take [of p p g h t']
        by (intro exI [of _ t'] exI [of _ "WriteLog w'"] exI [of _ n']) (simp add: handle_defs)
    qed
    ultimately have "\<exists>db w fs' k. Load ops pkg gjson opts cid fs = (Inr db, fs') \<and> db_wal db = Some (WriteLog w) \<and>
        opened winv wfirst wentries g (take p h) p p (FillDefaults opts) fs' db \<and>
        dirs_ok ops g (take p h) fs' \<and> link_ok g (take p h) fs' k"
      by (intro exI [of _ "new_db ?opts t' (WriteLog w') ?fs2"] exI [of _ w'] exI [of _ ?fs2] exI [of _ n']) (simp add: new_db_def)
    then show ?thesis using True ww by simp
  qed
qed

end

end
