(* ===== verification/DBInv.thy ===== *)
theory DBInv
  imports DBSpec
begin

text \<open>
  The invariant of a running database and the steps that keep it: the methods, the asynchronous writer, the background
  rewrite of a snapshot and the prune, in any order.
\<close>

section \<open>The invariant\<close>

definition tmp_name :: "mstate \<Rightarrow> nat \<Rightarrow> string" where
  "tmp_name g n = snapshotName (version_at g n) @ TmpSuffix"

text \<open>A temporary directory is left only by a rewrite of a version that has a snapshot already.\<close>

definition tmp_ok :: "mstate \<Rightarrow> walEntry list \<Rightarrow> db_fs \<Rightarrow> bool" where
  "tmp_ok g h fs \<longleftrightarrow> fs_currentTmp fs = None \<and>
     (\<forall>name \<in> dir_names fs. has_suffix name TmpSuffix \<longrightarrow>
        (\<exists>n \<le> length h. name = tmp_name g n \<and> has_snapshot g fs n \<and> get_dir name fs \<noteq> empty_dir))"

text \<open>The entries that are committed but not yet in the log, with their indices.\<close>

definition unwritten :: "walEntry list \<Rightarrow> nat \<Rightarrow> nat \<Rightarrow> (u64 \<times> walEntry) list" where
  "unwritten h m k = map (\<lambda>i. (word_of_nat (Suc i), h ! i)) [m..<k]"

definition queue_ok :: "walEntry list \<Rightarrow> nat \<Rightarrow> (u64 \<times> walEntry) list option \<Rightarrow> bool" where
  "queue_ok h m ch = (case ch of None \<Rightarrow> m = length h | Some q \<Rightarrow> q = unwritten h m (length h))"

text \<open>The live trees: the pending entry applied to the state after the history.\<close>

definition live_ok :: "mstate \<Rightarrow> walEntry list \<Rightarrow> nat \<Rightarrow> ('c, 'w) db \<Rightarrow> bool" where
  "live_ok g h m db \<longleftrightarrow>
     pend_ok (state_at g h (length h)) db \<and>
     mt_lastCommitInfo (db_MultiTree db) = spec_info (version_at g (length h)) (state_at g h (length h)) \<and>
     entry_size (pending_entry (db_pendingLog db)) \<le> 2 ^ 60 \<and>
     roomy (2 ^ 62 - (total_size h + entry_size (pending_entry (db_pendingLog db)))) (db_MultiTree db) \<and>
     (\<exists>k \<le> m. SnapshotVersion (db_MultiTree db) = Inr (version_at g k))"

text \<open>A rewrite in the background: its trees are those of a version that is not older than the current snapshot.\<close>

definition behind :: "mstate \<Rightarrow> walEntry list \<Rightarrow> db_fs \<Rightarrow> nat \<Rightarrow> bool" where
  "behind g h fs n \<longleftrightarrow> (\<forall>c. link_ok g h fs c \<longrightarrow> c \<le> n)"

definition rewrite_ok :: "mstate \<Rightarrow> walEntry list \<Rightarrow> ('c, 'w) db \<Rightarrow> bool" where
  "rewrite_ok g h db =
     (case db_rewrite db of
        Some (Writing t) \<Rightarrow> (\<exists>n \<le> length h. loaded g h n t \<and> behind g h (db_dir db) n)
      | Some (Ready result) \<Rightarrow>
          (case sr_mtree result of
             None \<Rightarrow> sr_err result = None
           | Some t \<Rightarrow> (\<exists>n \<le> length h. loaded g h n t \<and> (\<exists>k \<le> n. SnapshotVersion t = Inr (version_at g k)) \<and> behind g h (db_dir db) n))
      | _ \<Rightarrow> True)"

definition files_ok :: "'c cache_ops \<Rightarrow> mstate \<Rightarrow> walEntry list \<Rightarrow> db_fs \<Rightarrow> bool" where
  "files_ok ops g h fs \<longleftrightarrow> dirs_ok ops g h fs \<and> (\<exists>c. link_ok g h fs c) \<and> tmp_ok g h fs"

definition db_ok ::
  "'c cache_ops \<Rightarrow> ('w \<Rightarrow> bool) \<Rightarrow> ('w \<Rightarrow> nat) \<Rightarrow> ('w \<Rightarrow> bytes list) \<Rightarrow> mstate \<Rightarrow> walEntry list \<Rightarrow> nat \<Rightarrow> ('c, 'w) db \<Rightarrow> bool" where
  "db_ok ops winv wfirst wentries g h m db \<longleftrightarrow>
     hist_ok g h \<and> \<not> db_readOnly db \<and> db_walErr db = None \<and> \<not> db_walQuit db \<and> db_snapshotInterval db \<noteq> 0 \<and>
     (\<exists>w. db_wal db = Some (WriteLog w) \<and> winv w \<and> log_ok (wfirst w) (wentries w) g h m (db_dir db)) \<and>
     queue_ok h m (db_walChan db) \<and> (db_walChanSize db < 0 \<longrightarrow> db_walChan db = None) \<and>
     files_ok ops g h (db_dir db) \<and> live_ok g h m db \<and> rewrite_ok g h db"

section \<open>The states of a history\<close>

lemma spec_entry_keeps_inv:
  assumes "startable s" and "spec_entry e s = (Inr (), s')"
  shows "ms_inv s'"
proof -
  obtain s1 where u: "spec_upgrades (we_Upgrades e) s = (Inr (), s1)" "spec_changes (we_Changesets e) s1 = (Inr (), s')"
    using assms(2) unfolding spec_entry_Inr by blast
  have "ms_inv s1" using spec_upgrades_inv [OF _ _ u(1)] assms(1) by (simp add: startable_def)
  then show ?thesis using spec_changes_inv [of s1 "we_Changesets e"] u(2) by simp
qed

lemma spec_run_one: "spec_run [e] s = (Inr (), s') \<longleftrightarrow> (\<exists>s1 v. spec_entry e s = (Inr (), s1) \<and> spec_save s1 = (Inr v, s'))"
  by (cases "spec_entry e s"; cases "spec_save (snd (spec_entry e s))") (auto split: sum.splits)

lemma state_at_Suc:
  assumes "hist_ok g h" and "n < length h"
  shows "spec_run [h ! n] (state_at g h n) = (Inr (), state_at g h (Suc n))"
proof -
  have run: "fst (spec_run h g) = Inr ()" using assms(1) by (simp add: hist_ok_def)
  have "drop n (take (Suc n) h) = [h ! n]" using assms(2) by (simp add: take_Suc_conv_app_nth)
  then show ?thesis using spec_run_between [OF run, of n "Suc n"] by (simp add: max_def)
qed

lemma next_version_at: "hist_ok g h \<Longrightarrow> n \<le> length h \<Longrightarrow>
    nextVersion (ms_version (state_at g h n)) (ms_initial (state_at g h n)) = version_at g (Suc n)"
  using state_versions [of g h n] version_at_Suc [of g n] by (simp add: hist_ok_def base_ok_def ms_inv_def)

lemma version_at_step:
  assumes "hist_ok g h" and "n \<le> length h"
  shows "version_at g (Suc n) \<le> int MaxUint32"
proof -
  have s: "small_version (version_at g n)" by (rule small_versions [OF assms])
  have g: "0 \<le> ms_version g" using assms(1) by (simp add: hist_ok_def base_ok_def ms_inv_def)
  have "version_at g (Suc n) \<le> int (unat (ms_initial g)) \<or> version_at g (Suc n) \<le> version_at g n + 1"
    unfolding version_at_Suc [OF g] by (simp add: nextVersion_def del: of_nat_unat)
  moreover have "int (unat (ms_initial g)) \<le> int MaxUint32" using unat_u32_less [of "ms_initial g"] by (simp del: of_nat_unat)
  moreover have "version_at g n + 1 \<le> int MaxUint32" using s by (simp add: small_version_def)
  ultimately show ?thesis by linarith
qed

lemma state_startable:
  assumes "hist_ok g h" and "n \<le> length h"
  shows "startable (state_at g h n)"
proof -
  have "ms_inv (state_at g h n)" using assms(2)
  proof (induction n)
    case 0
    then show ?case using assms(1) by (simp add: state_at_def hist_ok_def base_ok_def)
  next
    case (Suc n)
    obtain s1 v where s: "spec_entry (h ! n) (state_at g h n) = (Inr (), s1)" "spec_save s1 = (Inr v, state_at g h (Suc n))"
      using state_at_Suc [OF assms(1), of n] Suc.prems unfolding spec_run_one by auto
    have "startable (state_at g h n)"
      using Suc version_at_step [OF assms(1), of n] next_version_at [OF assms(1), of n] by (simp add: startable_def)
    then have "ms_inv s1" using spec_entry_keeps_inv s(1) by blast
    then show ?case using spec_save_inv [of s1] s(2) by simp
  qed
  then show ?thesis using version_at_step [OF assms] next_version_at [OF assms] by (simp add: startable_def)
qed

section \<open>Extending the history\<close>

definition extends :: "walEntry list \<Rightarrow> walEntry list \<Rightarrow> bool" where
  "extends h h' \<longleftrightarrow> length h \<le> length h' \<and> take (length h) h' = h"

lemma extends_refl [simp]: "extends h h"
  by (simp add: extends_def)

lemma extends_snoc [simp]: "extends h (h @ [e])"
  by (simp add: extends_def)

lemma extends_take: "extends h h' \<Longrightarrow> n \<le> length h \<Longrightarrow> take n h' = take n h"
  unfolding extends_def by (metis min.absorb1 take_take)

lemma extends_state: "extends h h' \<Longrightarrow> n \<le> length h \<Longrightarrow> state_at g h' n = state_at g h n"
  by (simp add: state_at_def extends_take)

lemma extends_loaded: "extends h h' \<Longrightarrow> n \<le> length h \<Longrightarrow> loaded g h' n t = loaded g h n t"
  by (simp add: loaded_def extends_state extends_take)

lemma extends_snapshot: "extends h h' \<Longrightarrow> n \<le> length h \<Longrightarrow> snapshot_ok ops g h' n d = snapshot_ok ops g h n d"
  by (simp add: snapshot_ok_def extends_loaded)

lemma extends_dirs:
  assumes "extends h h'" and "dirs_ok ops g h fs"
  shows "dirs_ok ops g h' fs"
proof -
  have "\<exists>n \<le> length h'. name = snapshotName (version_at g n) \<and> snapshot_ok ops g h' n d"
    if nm: "(name, d) \<in> set (fs_dirs fs)" "isSnapshotName name" for name d
  proof -
    obtain n where n: "n \<le> length h" "name = snapshotName (version_at g n)" "snapshot_ok ops g h n d"
      using assms(2) nm unfolding dirs_ok_def by blast
    then have "snapshot_ok ops g h' n d" using extends_snapshot [OF assms(1) n(1), of ops g d] by simp
    moreover have "n \<le> length h'" using n(1) assms(1) by (simp add: extends_def)
    ultimately show ?thesis using n(2) by blast
  qed
  then show ?thesis using assms(2) by (simp add: dirs_ok_def)
qed

lemma snapshots_of_history:
  assumes "hist_ok g h'" and "extends h h'" and "dirs_ok ops g h fs" and "n \<le> length h'" and "has_snapshot g fs n"
  shows "n \<le> length h"
proof -
  obtain d where d: "(snapshotName (version_at g n), d) \<in> set (fs_dirs fs)" using assms(5) by (auto simp: has_snapshot_def dir_names_def)
  have "isSnapshotName (snapshotName (version_at g n))" by (rule small_version_name(1) [OF small_versions [OF assms(1,4)]])
  then obtain k where k: "k \<le> length h" "snapshotName (version_at g n) = snapshotName (version_at g k)"
    using assms(3) d unfolding dirs_ok_def by blast
  then have "n = k" using name_at_inj [OF assms(1,4), of k] assms(2) by (simp add: extends_def)
  then show ?thesis using k(1) by simp
qed

lemma extends_link:
  assumes "hist_ok g h'" and "extends h h'" and "dirs_ok ops g h fs"
  shows "link_ok g h' fs c = link_ok g h fs c"
  using snapshots_of_history [OF assms, of c] assms(2) by (auto simp: link_ok_def extends_def)

lemma extends_tmp: "extends h h' \<Longrightarrow> tmp_ok g h fs \<Longrightarrow> tmp_ok g h' fs"
  unfolding tmp_ok_def extends_def by (meson order_trans)

lemma extends_behind:
  assumes "hist_ok g h'" and "extends h h'" and "dirs_ok ops g h fs"
  shows "behind g h' fs n = behind g h fs n"
  using extends_link [OF assms] by (simp add: behind_def)

lemma extends_log:
  assumes "extends h h'" and "log_ok first es g h m fs" and "\<forall>n \<le> length h'. has_snapshot g fs n \<longrightarrow> n \<le> length h"
  shows "log_ok first es g h' m fs"
  using assms extends_take [OF assms(1), of m] by (auto simp: log_ok_def extends_def)

section \<open>Writing to the log\<close>

lemma writeEntry_all:
  assumes "\<forall>e \<in> set es. lastIndex < fst e"
  shows "fold (writeEntry lastIndex) es batch = batch @ map (\<lambda>e. (fst e, WALEntry_Marshal (snd e))) es"
  using assms by (induction es arbitrary: batch) (auto simp: writeEntry_def)

lemma unwritten_bounds:
  assumes "hist_ok g h" and "k \<le> length h" and "e \<in> set (unwritten h m k)"
  shows "word_of_nat m < fst e"
proof -
  obtain i where i: "m \<le> i" "i < k" "fst e = word_of_nat (Suc i)" using assms(3) by (auto simp: unwritten_def)
  have "Suc i < 2 ^ 64" "m < 2 ^ 64" using i(1,2) assms(2) history_short [OF assms(1)] by simp_all
  then show ?thesis using i(1) unfolding i(3) by (simp add: word_less_nat_alt unat_u64 del: of_nat_Suc)
qed

context wal_package
begin

lemma write_entries_at:
  assumes "hist_ok g h" and "winv w" and "log_ok (wfirst w) (wentries w) g h m fs" and "m \<le> k" and "k \<le> length h"
  shows "\<exists>w'. write_entries pkg (unwritten h m k) w = (Inr (), w') \<and> winv w' \<and> wfirst w' = wfirst w \<and> log_ok (wfirst w') (wentries w') g h k fs"
proof -
  have f: "1 \<le> wfirst w" "wfirst w \<le> Suc m" "m \<le> length h" "wentries w = map WALEntry_Marshal (drop (wfirst w - 1) (take m h))"
    using assms(3) by (simp_all add: log_ok_def)
  have len: "wfirst w + length (wentries w) = Suc m" using f by simp
  have last: "wr_LastIndex (wp_reader pkg) w = Inr (word_of_nat m)" using LastIndex [OF assms(2)] len by simp
  let ?bs = "map WALEntry_Marshal (drop m (take k h))"
  have bs: "drop m (take k h) = map (\<lambda>i. h ! i) [m..<k]"
    by (rule nth_equalityI) (use assms(4,5) in simp_all)
  have "fold (writeEntry (word_of_nat m)) (unwritten h m k) [] = map (\<lambda>e. (fst e, WALEntry_Marshal (snd e))) (unwritten h m k)"
    using writeEntry_all [of "unwritten h m k" "word_of_nat m" "[]"] unwritten_bounds [OF assms(1,5)] by simp
  also have "\<dots> = zip (map word_of_nat [Suc m..<Suc m + length ?bs]) ?bs"
    by (rule nth_equalityI) (use assms(4,5) in \<open>simp_all add: unwritten_def bs del: upt_Suc\<close>)
  finally have batch: "fold (writeEntry (word_of_nat m)) (unwritten h m k) [] =
      zip (map word_of_nat [wfirst w + length (wentries w)..<wfirst w + length (wentries w) + length ?bs]) ?bs" unfolding len .
  have small: "\<forall>b \<in> set ?bs. length b < 2 ^ 63" using assms(1) by (auto simp: hist_ok_def dest!: in_set_dropD in_set_takeD)
  have bound: "wfirst w + length (wentries w) + length ?bs < 2 ^ 63"
    unfolding len using assms(4,5) history_short [OF assms(1)] by simp
  obtain w' where w': "write_entries pkg (unwritten h m k) w = (Inr (), w')" "winv w'" "wfirst w' = wfirst w" "wentries w' = wentries w @ ?bs"
    using WriteBatch [OF assms(2) bound small] unfolding write_entries_def last sum.case batch by blast
  have "drop (wfirst w - 1) (take k h) = drop (wfirst w - 1) (take m h) @ drop m (take k h)"
  proof -
    have "take m (take k h) = take m h" using assms(4) by (simp add: min_def)
    then have "take k h = take m h @ drop m (take k h)" using append_take_drop_id [of m "take k h"] by argo
    then have "drop (wfirst w - 1) (take k h) = drop (wfirst w - 1) (take m h @ drop m (take k h))" by simp
    then show ?thesis using f by simp
  qed
  then have "wentries w' = map WALEntry_Marshal (drop (wfirst w' - 1) (take k h))" using w'(3,4) f(4) by simp
  then have "log_ok (wfirst w') (wentries w') g h k fs" using assms(3-5) w'(3) by (simp add: log_ok_def)
  then show ?thesis using w' by blast
qed

end

end
