(* ===== verification/DBSteps.thy ===== *)
theory DBSteps
  imports DBInv
begin

text \<open>
  Every operation of a running database keeps the invariant: the methods that change it, the rounds of the
  asynchronous writer, the steps of a background rewrite and the prune.
\<close>

section \<open>A commit extends the history\<close>

definition limits :: "mstate \<Rightarrow> walEntry list \<Rightarrow> bool" where
  "limits g h \<longleftrightarrow> total_size h \<le> 2 ^ 61 \<and> (\<forall>e \<in> set h. length (WALEntry_Marshal e) < 2 ^ 63) \<and>
     small_version (version_at g (length h))"

lemma hist_ok_limits: "hist_ok g h \<longleftrightarrow> base_ok g \<and> fst (spec_run h g) = Inr () \<and> limits g h"
  by (simp add: hist_ok_def limits_def)

lemma commit_extends:
  assumes h: "hist_ok g h" and e: "spec_entry e (state_at g h (length h)) = (Inr (), s)" and l: "limits g (h @ [e])"
  shows "spec_save s = (Inr (version_at g (Suc (length h))), state_at g (h @ [e]) (Suc (length h)))" "hist_ok g (h @ [e])"
proof -
  let ?v = "version_at g (Suc (length h))"
  have inv: "ms_inv s" by (rule spec_entry_keeps_inv [OF state_startable [OF h order_refl] e])
  have g: "0 \<le> ms_version g" using h by (simp add: hist_ok_def base_ok_def ms_inv_def)
  have nx: "nextVersion (ms_version s) (ms_initial s) = ?v"
    using mem.spec_entry_versions [OF e] state_versions [OF h order_refl] version_at_Suc [OF g] by simp
  have sm: "?v < 2 ^ 31" using l by (simp add: limits_def small_version_def)
  have "fst (snd t) \<noteq> word_of_nat MaxUint32" if "t \<in> set (ms_trees s)" for t
  proof
    assume "fst (snd t) = word_of_nat MaxUint32"
    moreover have "int (unat (fst (snd t))) = ?v - 1" using inv that nx by (simp add: ms_inv_def del: of_nat_unat)
    ultimately show False using sm by simp
  qed
  then obtain s' where s': "spec_save s = (Inr ?v, s')" by (simp add: spec_save_def nx Let_def)
  have "spec_run (take (length h) h) g = (Inr (), state_at g h (length h))"
    using h by (intro spec_run_take) (simp add: hist_ok_def)
  then have run: "spec_run (h @ [e]) g = (Inr (), s')" using spec_run_append [of h "[e]" g] e s' by simp
  then show "spec_save s = (Inr ?v, state_at g (h @ [e]) (Suc (length h)))" using s' by (simp add: state_at_def)
  show "hist_ok g (h @ [e])" using h l run by (simp add: hist_ok_limits)
qed

section \<open>Pending changes\<close>

lemma db_ok_frame:
  assumes "db_ok ops winv wfirst wentries g h m db" and "live_ok g h m db'"
    and "db_dir db' = db_dir db" "db_readOnly db' = db_readOnly db" "db_rewrite db' = db_rewrite db"
      "db_snapshotInterval db' = db_snapshotInterval db" "db_wal db' = db_wal db" "db_walChanSize db' = db_walChanSize db"
      "db_walChan db' = db_walChan db" "db_walQuit db' = db_walQuit db" "db_walErr db' = db_walErr db"
  shows "db_ok ops winv wfirst wentries g h m db'"
  using assms(1,2) unfolding db_ok_def rewrite_ok_def assms(3-11) by blast

lemma change_keeps:
  assumes "db_ok ops winv wfirst wentries g h m db" and "pend_ok (state_at g h (length h)) db'" and "pend_frame n db db'"
    and "entry_size (pending_entry (db_pendingLog db')) \<le> 2 ^ 60"
  shows "db_ok ops winv wfirst wentries g h m db'"
proof -
  let ?size = "entry_size (pending_entry (db_pendingLog db))" and ?size' = "entry_size (pending_entry (db_pendingLog db'))"
  have h: "hist_ok g h" and l: "live_ok g h m db" using assms(1) by (simp_all add: db_ok_def)
  obtain c f pl t where d: "db' = db\<lparr>db_cached := c, db_fresh := f, db_pendingLog := pl, db_MultiTree := t\<rparr>"
    "?size' = ?size + n" "\<And>k. n + k < 2 ^ 63 \<Longrightarrow> roomy (n + k) (db_MultiTree db) \<Longrightarrow> roomy k t"
    "mt_metadata t = mt_metadata (db_MultiTree db)" "mt_lastCommitInfo t = mt_lastCommitInfo (db_MultiTree db)"
    using assms(3) by (auto simp: pend_frame_def)
  let ?k = "2 ^ 62 - (total_size h + ?size')"
  have "total_size h \<le> 2 ^ 61" using h by (simp add: hist_ok_def)
  then have nk: "n + ?k = 2 ^ 62 - (total_size h + ?size)" using d(2) assms(4) by simp
  have "roomy (n + ?k) (db_MultiTree db)" unfolding nk using l by (simp add: live_ok_def)
  moreover have "n + ?k < 2 ^ 63" unfolding nk by simp
  ultimately have "roomy ?k t" by (intro d(3))
  then have "live_ok g h m db'"
    using l assms(2,4) d(1,4,5) SnapshotVersion_cong [OF d(4)] by (simp add: live_ok_def)
  then show ?thesis using db_ok_frame [OF assms(1)] d(1) by simp
qed

section \<open>The asynchronous writer\<close>

lemma live_ok_later: "live_ok g h m db \<Longrightarrow> m \<le> m' \<Longrightarrow> live_ok g h m' db"
  unfolding live_ok_def using order_trans by blast

lemma live_ok_frame:
  assumes "db_MultiTree db' = db_MultiTree db" "db_pendingLog db' = db_pendingLog db" "db_cached db' = db_cached db" "db_fresh db' = db_fresh db"
  shows "live_ok g h m db' = live_ok g h m db"
  using assms by (simp add: live_ok_def pend_ok_def pending_inv_def)

lemma rewrite_ok_frame:
  assumes "db_rewrite db' = db_rewrite db" "db_dir db' = db_dir db"
  shows "rewrite_ok g h db' = rewrite_ok g h db"
  unfolding rewrite_ok_def assms ..

lemma take_unwritten: "m \<le> n \<Longrightarrow> take j (unwritten h m n) = unwritten h m (min (m + j) n)"
  by (cases "m + j \<le> n") (simp_all add: unwritten_def take_map min_def)

lemma drop_unwritten: "drop j (unwritten h m n) = unwritten h (min (m + j) n) n"
  by (cases "m + j \<le> n") (simp_all add: unwritten_def drop_map min_def)

lemma unwritten_snoc: "m \<le> length h \<Longrightarrow>
    unwritten (h @ [e]) m (Suc (length h)) = unwritten h m (length h) @ [(word_of_nat (Suc (length h)), e)]"
  by (simp add: unwritten_def nth_append)

lemma unwritten_done: "m \<le> length h \<Longrightarrow> unwritten h m (length h) = [] \<Longrightarrow> m = length h"
  by (auto simp: unwritten_def)

context wal_package
begin

lemma async_round:
  assumes "db_ok ops winv wfirst wentries g h m db" and "db_walChan db = Some q"
  shows "db_ok ops winv wfirst wentries g h (min (m + Suc k) (length h)) (writeWALAsync pkg k db)"
    "db_walChan (writeWALAsync pkg k db) = Some (unwritten h (min (m + Suc k) (length h)) (length h))"
proof -
  let ?m = "min (m + Suc k) (length h)"
  obtain w where w: "db_wal db = Some (WriteLog w)" "winv w" "log_ok (wfirst w) (wentries w) g h m (db_dir db)"
    and h: "hist_ok g h" and quit: "\<not> db_walQuit db" using assms(1) by (auto simp: db_ok_def)
  have q: "q = unwritten h m (length h)" and m: "m \<le> length h" using assms w(3) by (auto simp: db_ok_def queue_ok_def log_ok_def)
  have mm: "m \<le> ?m" "?m \<le> length h" using m by simp_all
  obtain w' where w': "write_entries pkg (unwritten h m ?m) w = (Inr (), w')" "winv w'" "log_ok (wfirst w') (wentries w') g h ?m (db_dir db)"
    using write_entries_at [OF h w(2,3) mm] by blast
  have "db_ok ops winv wfirst wentries g h ?m (writeWALAsync pkg k db) \<and> db_walChan (writeWALAsync pkg k db) = Some (unwritten h ?m (length h))"
  proof (cases "q = []")
    case True
    then have "m = length h" using unwritten_done [OF m] q by simp
    then show ?thesis using assms q True by (simp add: writeWALAsync_def)
  next
    case False
    then obtain e ch where ec: "q = e # ch" by (cases q) auto
    have rec: "channelBatchRecv k (e # ch) = (unwritten h m ?m, unwritten h ?m (length h))"
      using q ec m by (simp only: channelBatchRecv_def take_unwritten [symmetric] drop_unwritten [symmetric])
    have eq: "writeWALAsync pkg k db = db\<lparr>db_walChan := Some (unwritten h ?m (length h)), db_wal := Some (WriteLog w')\<rparr>"
      using assms(2) ec w(1) quit rec w'(1) by (simp add: writeWALAsync_def)
    have "live_ok g h m db" using assms(1) by (simp add: db_ok_def)
    then have "live_ok g h ?m db" using mm(1) by (rule live_ok_later)
    then have "live_ok g h ?m (writeWALAsync pkg k db)" unfolding eq by (subst live_ok_frame [of _ db]) simp_all
    moreover have "rewrite_ok g h (writeWALAsync pkg k db)"
      unfolding eq using assms(1) by (subst rewrite_ok_frame [of _ db]) (simp_all add: db_ok_def)
    ultimately show ?thesis using assms w'(2,3) unfolding eq by (simp add: db_ok_def queue_ok_def)
  qed
  then show "db_ok ops winv wfirst wentries g h ?m (writeWALAsync pkg k db)"
    "db_walChan (writeWALAsync pkg k db) = Some (unwritten h ?m (length h))" by blast+
qed

lemma async_keeps:
  assumes "db_ok ops winv wfirst wentries g h m db"
  obtains m' where "m \<le> m'" "db_ok ops winv wfirst wentries g h m' (writeWALAsync pkg k db)"
proof (cases "db_walChan db")
  case None
  then have "writeWALAsync pkg k db = db" by (simp add: writeWALAsync_def)
  then show ?thesis using that [OF order_refl] assms by simp
next
  case (Some q)
  have "m \<le> length h" using assms by (auto simp: db_ok_def log_ok_def)
  then show ?thesis using that [OF _ async_round(1) [OF assms Some, of k]] by simp
qed

end

text \<open>What a round leaves alone.\<close>

definition log_frame :: "('c, 'w) db \<Rightarrow> ('c, 'w) db \<Rightarrow> bool" where
  "log_frame db db' \<longleftrightarrow> (\<exists>ch w q e. db' = db\<lparr>db_walChan := ch, db_wal := w, db_walQuit := q, db_walErr := e\<rparr>)"

lemma log_frame_refl: "log_frame db db"
  unfolding log_frame_def by (intro exI [of _ "db_walChan db"] exI [of _ "db_wal db"] exI [of _ "db_walQuit db"] exI [of _ "db_walErr db"]) simp

lemma log_frame_trans: "log_frame db db1 \<Longrightarrow> log_frame db1 db2 \<Longrightarrow> log_frame db db2"
  by (fastforce simp: log_frame_def)

lemma log_frame_fields:
  "log_frame db db' \<Longrightarrow> db_MultiTree db' = db_MultiTree db \<and> db_pendingLog db' = db_pendingLog db \<and> db_dir db' = db_dir db \<and>
     db_rewrite db' = db_rewrite db \<and> db_snapshotInterval db' = db_snapshotInterval db"
  by (auto simp: log_frame_def)

lemma async_frame: "log_frame db (writeWALAsync pkg k db)"
proof -
  have "\<exists>ch w q e. writeWALAsync pkg k db = db\<lparr>db_walChan := ch, db_wal := w, db_walQuit := q, db_walErr := e\<rparr>"
    if c: "db_walChan db = Some (entry # ch)" "db_wal db = Some (WriteLog w)" "\<not> db_walQuit db" for entry ch w
  proof -
    obtain r w' where w': "write_entries pkg (take (Suc k) (entry # ch)) w = (r, w')" by force
    have "writeWALAsync pkg k db = (case r of
        Inl e \<Rightarrow> (latchWalErr (Wrapped errAsyncWriterQuit e) (db\<lparr>db_walChan := Some (drop k ch), db_wal := Some (WriteLog w')\<rparr>))\<lparr>db_walQuit := True\<rparr>
      | Inr _ \<Rightarrow> db\<lparr>db_walChan := Some (drop k ch), db_wal := Some (WriteLog w')\<rparr>)"
      using c w' by (simp add: writeWALAsync_def channelBatchRecv_def Let_def)
    also have "\<dots> = db\<lparr>db_walChan := Some (drop k ch), db_wal := Some (WriteLog w'), db_walQuit := (case r of Inl _ \<Rightarrow> True | Inr _ \<Rightarrow> False),
        db_walErr := (case r of Inl e \<Rightarrow> (if db_walErr db = None then Some (Wrapped errAsyncWriterQuit e) else db_walErr db) | Inr _ \<Rightarrow> db_walErr db)\<rparr>"
      using c(3) by (cases r) (simp_all add: latchWalErr_def)
    finally show ?thesis by blast
  qed
  then have "log_frame db (writeWALAsync pkg k db)"
    if "\<exists>entry ch w. db_walChan db = Some (entry # ch) \<and> db_wal db = Some (WriteLog w) \<and> \<not> db_walQuit db"
    using that unfolding log_frame_def by blast
  moreover have "writeWALAsync pkg k db = db"
    if "\<not> (\<exists>entry ch w. db_walChan db = Some (entry # ch) \<and> db_wal db = Some (WriteLog w) \<and> \<not> db_walQuit db)"
    using that by (auto simp: writeWALAsync_def split: option.split list.split wal_handle.split)
  ultimately show ?thesis using log_frame_refl [of db] by metis
qed

section \<open>Waiting for the log\<close>

text \<open>A wait whose polls see no error ends with success, or by the timeout, or goes on.\<close>

lemma wait_loop_cases:
  assumes "\<forall>p \<in> set polls. fst p = None \<and> (\<exists>i. fst (snd p) = Inr i)"
  shows "wait_loop t timeout deadline seen polls \<in> {None, Some (Inr ()), Some (Inl ErrWalTimeout)} \<and>
    (wait_loop t timeout deadline seen polls = Some (Inr ()) \<longrightarrow>
      (\<exists>p \<in> set polls. \<exists>i. fst (snd p) = Inr i \<and> wt_version t \<le> committedVersionAt i (wt_initialVersion t) (wt_snapshotVersion t)))"
  using assms
proof (induction polls arbitrary: deadline seen)
  case (Cons p polls)
  obtain i now1 now2 where p: "p = (None, Inr i, now1, now2)" using Cons.prems by (cases p) auto
  show ?case
    using Cons.IH Cons.prems unfolding p by (auto simp: Let_def)
qed simp

lemma walVersion_at:
  assumes "hist_ok g h" and "0 < n" and "n \<le> length h"
  shows "walVersion (word_of_nat n) (ms_initial g) = version_at g n"
proof -
  have "int64 (version_at g n)" using small_versions [OF assms(1,3)] by (simp add: small_version_def int64_def)
  then have "walVersion (walIndex (version_at g n) (ms_initial g)) (ms_initial g) = version_at g n"
    using sint_int64 by (simp add: walVersion_def walIndex_def)
  then show ?thesis using walIndex_at [of g n] assms by (simp add: hist_ok_def)
qed

lemma committed_at:
  assumes "hist_ok g h" and "k \<le> n" and "n \<le> length h"
    and "version_at g (length h) \<le> committedVersionAt (word_of_nat n) (ms_initial g) (version_at g k)"
  shows "n = length h"
proof -
  have g: "0 \<le> ms_version g" using assms(1) by (simp add: hist_ok_def base_ok_def ms_inv_def)
  have "committedVersionAt (word_of_nat n) (ms_initial g) (version_at g k) = version_at g n"
  proof (cases "n = 0")
    case False
    have "unat (word_of_nat n :: u64) = n" using history_short [OF assms(1)] assms(3) by (intro unat_u64) simp
    then have "(word_of_nat n :: u64) \<noteq> 0" using False by auto
    then show ?thesis using walVersion_at [OF assms(1) _ assms(3)] False by (simp add: committedVersionAt_def)
  qed (use assms(2) in \<open>simp add: committedVersionAt_def\<close>)
  then show ?thesis using assms(3,4) version_at_mono(3) [OF g, of "length h" n] by simp
qed

lemma uint_u32_64: "uint (ucast (x :: u32) :: u64) = int (unat x)"
proof -
  have "uint x < 2 ^ 64" using uint_lt2p [of x] by simp
  then show ?thesis by (simp add: unsigned_ucast_eq take_bit_int_eq_self)
qed

lemma versions_from_initial:
  assumes "hist_ok g h" and "0 < n" and "n \<le> length h"
  shows "int (unat (ms_initial g)) \<le> version_at g n" "0 < version_at g n"
proof -
  let ?v = "version_at g 1"
  have g: "0 \<le> ms_version g" and i: "walIndex ?v (ms_initial g) = 1"
    using assms(1) walIndex_at [of g 1] by (simp_all add: hist_ok_def base_ok_def ms_inv_def)
  have s: "0 \<le> ?v" "?v < 2 ^ 31" using small_versions [OF assms(1), of 1] assms(2,3) by (simp_all add: small_version_def)
  have mono: "?v \<le> version_at g n" using version_at_mono(3) [OF g, of 1 n] assms(2) by simp
  show pos: "0 < version_at g n" using version_at_mono(1) [OF g assms(2)] g by simp
  show "int (unat (ms_initial g)) \<le> version_at g n"
  proof (cases "ms_initial g > 1")
    case True
    then have "(word_of_int ?v :: u64) = ucast (ms_initial g)" using i by (simp add: walIndex_def)
    then have "uint (word_of_int ?v :: u64) = int (unat (ms_initial g))" 
      using uint_u32_64 by simp
    moreover have "uint (word_of_int ?v :: u64) = ?v" using s by (simp add: uint_word_of_int)
    ultimately show ?thesis using mono by simp
  next
    case False
    then have "unat (ms_initial g) \<le> 1" by (simp add: word_less_nat_alt)
    then show ?thesis using pos by linarith
  qed
qed

lemma live_versions:
  assumes "hist_ok g h" and "live_ok g h m db"
  shows "mt_Version (db_MultiTree db) = version_at g (length h)" "mt_initialVersion (db_MultiTree db) = ms_initial g"
proof -
  show "mt_Version (db_MultiTree db) = version_at g (length h)" using assms(2) by (simp add: live_ok_def mt_Version_def spec_info_def)
  have "spec_entry (pending_entry (db_pendingLog db)) (state_at g h (length h)) = (Inr (), mt_state (db_MultiTree db))"
    using assms(2) by (simp add: live_ok_def pend_ok_def)
  from mem.spec_entry_versions [OF this] show "mt_initialVersion (db_MultiTree db) = ms_initial g"
    using state_versions(2) [OF assms(1) order_refl] by simp
qed

context wal_package
begin

lemma last_at:
  assumes "db_ok ops winv wfirst wentries g h m db"
  obtains hl where "db_wal db = Some hl" "wr_LastIndex (handle_reader pkg (fs_wal (db_dir db))) hl = Inr (word_of_nat m)"
proof -
  obtain w where w: "db_wal db = Some (WriteLog w)" "winv w" "log_ok (wfirst w) (wentries w) g h m (db_dir db)"
    using assms by (auto simp: db_ok_def)
  have "wfirst w + length (wentries w) - 1 = m" using w(3) by (auto simp: log_ok_def)
  then show ?thesis using that [OF w(1)] LastIndex [OF w(2)] by (simp add: handle_reader_def)
qed

lemma poll_keeps:
  assumes "db_ok ops winv wfirst wentries g h m db" and "poll_states pkg ps db = (polls, db')"
  shows "\<exists>m'. m \<le> m' \<and> db_ok ops winv wfirst wentries g h m' db' \<and> log_frame db db' \<and>
    (\<forall>p \<in> set polls. fst p = None \<and> (\<exists>i. m \<le> i \<and> i \<le> m' \<and> fst (snd p) = Inr (word_of_nat i)))"
  using assms
proof (induction ps arbitrary: db m polls db')
  case Nil
  then show ?case using log_frame_refl by fastforce
next
  case (Cons p ps)
  obtain batch now1 now2 where p: "p = (batch, now1, now2)" by (cases p)
  define db1 where "db1 = (case batch of None \<Rightarrow> db | Some k \<Rightarrow> writeWALAsync pkg k db)"
  obtain m1 where m1: "m \<le> m1" "db_ok ops winv wfirst wentries g h m1 db1"
  proof (cases batch)
    case None
    then show ?thesis using that [of m] Cons.prems(1) by (simp add: db1_def)
  next
    case (Some k)
    show ?thesis by (rule async_keeps [OF Cons.prems(1), of k]) (use that Some in \<open>simp add: db1_def\<close>)
  qed
  have f1: "log_frame db db1" using async_frame [of db pkg] log_frame_refl by (cases batch) (simp_all add: db1_def)
  obtain polls' db2 where q: "poll_states pkg ps db1 = (polls', db2)" by force
  obtain hl where hl: "db_wal db1 = Some hl" "wr_LastIndex (handle_reader pkg (fs_wal (db_dir db1))) hl = Inr (word_of_nat m1)"
    by (rule last_at [OF m1(2)])
  have err: "db_walErr db1 = None" using m1(2) by (simp add: db_ok_def)
  have eq: "polls = (None, Inr (word_of_nat m1), now1, now2) # polls'" "db' = db2"
    using Cons.prems(2) q hl err by (simp_all add: p Let_def flip: db1_def)
  obtain m' where m': "m1 \<le> m'" "db_ok ops winv wfirst wentries g h m' db2" "log_frame db1 db2"
    "\<forall>p \<in> set polls'. fst p = None \<and> (\<exists>i. m1 \<le> i \<and> i \<le> m' \<and> fst (snd p) = Inr (word_of_nat i))"
    using Cons.IH [OF m1(2) q] by blast
  have "\<exists>i. m \<le> i \<and> i \<le> m' \<and> x = Inr (word_of_nat i)" if "\<exists>i. m1 \<le> i \<and> i \<le> m' \<and> x = Inr (word_of_nat i)" for x :: "u64 result"
    using that m1(1) order_trans by blast
  then show ?case
    using m1(1) m' log_frame_trans [OF f1 m'(3)] unfolding eq by (intro exI [of _ m']) auto
qed

lemma waited:
  assumes "db_ok ops winv wfirst wentries g h m db" and "waitCommittedVersion pkg env (mt_Version (db_MultiTree db)) db = (r, db')"
  shows "\<exists>m'. m \<le> m' \<and> db_ok ops winv wfirst wentries g h m' db' \<and> log_frame db db' \<and>
    r \<in> {None, Some (Inr ()), Some (Inl ErrWalTimeout)} \<and> (r = Some (Inr ()) \<longrightarrow> m' = length h)"
proof -
  have h: "hist_ok g h" and l: "live_ok g h m db" and e: "db_walErr db = None" using assms(1) by (simp_all add: db_ok_def)
  note v = live_versions [OF h l]
  obtain k where k: "k \<le> m" "SnapshotVersion (db_MultiTree db) = Inr (version_at g k)" using l by (auto simp: live_ok_def)
  obtain hl where hl: "db_wal db = Some hl" by (rule last_at [OF assms(1)])
  obtain polls db1 where p: "poll_states pkg (we_polls env) db = (polls, db1)" by force
  obtain m' where m': "m \<le> m'" "db_ok ops winv wfirst wentries g h m' db1" "log_frame db db1"
    "\<forall>p \<in> set polls. fst p = None \<and> (\<exists>i. m \<le> i \<and> i \<le> m' \<and> fst (snd p) = Inr (word_of_nat i))"
    using poll_keeps [OF assms(1) p] by blast
  have ml: "m' \<le> length h" using m'(2) by (auto simp: db_ok_def log_ok_def)
  define t where "t = \<lparr>wt_initialVersion = ms_initial g, wt_version = version_at g (length h), wt_snapshotVersion = version_at g k\<rparr>"
  have r: "r = waitForWAL t (db_catchupTimeout db) (we_start env) (Inr ()) polls" "db' = db1"
    using assms(2) hl k(2) p v e by (simp_all add: waitCommittedVersion_def walTargetLocked_def walReaderLocked_def rbind_def rmap_def t_def walError_def)
  show ?thesis
  proof (cases "version_at g (length h) < int (unat (ms_initial g)) \<or> version_at g (length h) \<le> 0")
    case True
    then have "length h = 0" using versions_from_initial [OF h, of "length h"] by (cases "length h = 0") (auto simp del: of_nat_unat)
    then show ?thesis using True m'(1-3) ml r by (intro exI [of _ m']) (simp add: waitForWAL_def t_def del: of_nat_unat)
  next
    case False
    then have w: "r = wait_loop t (db_catchupTimeout db) (we_start env + db_catchupTimeout db) 0 polls"
      using r(1) by (simp add: waitForWAL_def t_def del: of_nat_unat)
    have ps: "\<forall>p \<in> set polls. fst p = None \<and> (\<exists>i. fst (snd p) = Inr i)" using m'(4) by blast
    note c = wait_loop_cases [OF ps, of t "db_catchupTimeout db" "we_start env + db_catchupTimeout db" 0, folded w]
    have "m' = length h" if rr: "r = Some (Inr ())"
    proof -
      obtain i where i: "m \<le> i" "i \<le> m'" "version_at g (length h) \<le> committedVersionAt (word_of_nat i) (ms_initial g) (version_at g k)"
        using c rr m'(4) by (fastforce simp: t_def)
      then have "i = length h" using committed_at [OF h, of k i] k(1) ml by simp
      then show ?thesis using i(2) ml by simp
    qed
    then show ?thesis using m'(1-3) r(2) c by blast
  qed
qed

end

end
