(* ===== verification/DBFiles.thy ===== *)
theory DBFiles
  imports DBSteps
begin

text \<open>
  The directory under the prune and under a rewrite: removing old snapshots never takes the current one and the
  log keeps what the remaining snapshots need; a rewrite adds a snapshot and moves the link, or leaves both alone,
  and after each of its steps the directory can be loaded.
\<close>

section \<open>Removing a snapshot\<close>

lemma delete_update: "AList.delete k (AList.update k v al) = AList.delete k al"
  by (induction al) auto

lemma atomicRemoveDir_cases:
  "snd (atomicRemoveDir name fs) = fs \<or>
   get_dir (name @ TmpSuffix) fs = empty_dir \<and> snd (atomicRemoveDir name fs) = without {name, name @ TmpSuffix} fs"
proof (cases "map_of (fs_dirs fs) name")
  case None
  then show ?thesis by (simp add: atomicRemoveDir_def rename_dir_def)
next
  case (Some d)
  let ?tmp = "name @ TmpSuffix"
  have "remove_dir ?tmp (put_dir ?tmp d (remove_dir name fs)) = remove_dir ?tmp (remove_dir name fs)"
    by (simp add: remove_dir_def put_dir_def delete_update)
  then have "remove_dir ?tmp (put_dir ?tmp d (remove_dir name fs)) = without {name, ?tmp} fs"
    by (simp add: remove_dir_without without_without insert_commute)
  then show ?thesis
    using Some by (cases "map_of (fs_dirs fs) ?tmp") (simp_all add: atomicRemoveDir_def rename_dir_def get_dir_def)
qed

lemma map_of_without: "map_of (filter (\<lambda>e. fst e \<notin> a) xs) k = (if k \<in> a then None else map_of xs k)"
  by (induction xs) auto

lemma get_dir_without: "name \<notin> a \<Longrightarrow> get_dir name (without a fs) = get_dir name fs"
  by (simp add: get_dir_def without_def map_of_without)

lemma dirs_ok_without: "dirs_ok ops g h fs \<Longrightarrow> dirs_ok ops g h (without a fs)"
  by (simp add: dirs_ok_def without_def distinct_map_filter)

lemma tmp_name_inj:
  assumes "hist_ok g h" and "n \<le> length h" and "k \<le> length h"
  shows "tmp_name g n = tmp_name g k \<longleftrightarrow> n = k"
  using name_at_inj [OF assms] by (simp add: tmp_name_def)

lemma tmp_name_suffix [simp]: "has_suffix (tmp_name g n) TmpSuffix"
  by (simp add: tmp_name_def has_suffix_def)

lemma tmp_name_not_snapshot:
  assumes "hist_ok g h" and "n \<le> length h"
  shows "snapshotName (version_at g n) \<noteq> tmp_name g k"
  using snapshot_name_no_tmp [OF small_version_name(1) [OF small_versions [OF assms]] small_versions [OF assms] refl] tmp_name_suffix
  by metis

text \<open>What a change of the directory keeps: the current snapshot, and no snapshot comes up.\<close>

definition shrunk :: "mstate \<Rightarrow> db_fs \<Rightarrow> db_fs \<Rightarrow> bool" where
  "shrunk g fs fs' \<longleftrightarrow> fs_current fs' = fs_current fs \<and> (\<forall>k. has_snapshot g fs' k \<longrightarrow> has_snapshot g fs k)"

lemma remove_keeps:
  assumes h: "hist_ok g h" and f: "dirs_ok ops g h fs" "tmp_ok g h fs" "link_ok g h fs c" and n: "n \<le> length h" "n \<noteq> c"
  defines "fs' \<equiv> snd (atomicRemoveDir (snapshotName (version_at g n)) fs)"
  shows "dirs_ok ops g h fs' \<and> tmp_ok g h fs' \<and> link_ok g h fs' c \<and> shrunk g fs fs'"
proof -
  let ?name = "snapshotName (version_at g n)"
  have c: "c \<le> length h" using f(3) by (simp add: link_ok_def)
  consider "fs' = fs" | "get_dir (tmp_name g n) fs = empty_dir" "fs' = without {?name, tmp_name g n} fs"
    using atomicRemoveDir_cases [of ?name fs] by (auto simp: fs'_def tmp_name_def)
  then show ?thesis
  proof cases
    case 1
    then show ?thesis using f by (simp add: shrunk_def)
  next
    case 2
    have gone: "tmp_name g n \<notin> dir_names fs"
    proof
      assume "tmp_name g n \<in> dir_names fs"
      then have "get_dir (tmp_name g n) fs \<noteq> empty_dir" using f(2) tmp_name_suffix unfolding tmp_ok_def by blast
      then show False using 2(1) by simp
    qed
    have has: "has_snapshot g fs' k \<longleftrightarrow> has_snapshot g fs k \<and> k \<noteq> n" if "k \<le> length h" for k
      using name_at_inj [OF h that n(1)] tmp_name_not_snapshot [OF h that, of n] by (simp add: 2(2) has_snapshot_def names_without)
    have tmp: "\<exists>k \<le> length h. name = tmp_name g k \<and> has_snapshot g fs' k \<and> get_dir name fs' \<noteq> empty_dir"
      if nm: "name \<in> dir_names fs'" "has_suffix name TmpSuffix" for name
    proof -
      have "name \<in> dir_names fs" "name \<notin> {?name, tmp_name g n}" using nm(1) by (simp_all add: 2(2) names_without)
      moreover from this obtain k where "k \<le> length h" "name = tmp_name g k" "has_snapshot g fs k" "get_dir name fs \<noteq> empty_dir"
        using f(2) nm(2) unfolding tmp_ok_def by blast
      ultimately show ?thesis using has [of k] get_dir_without [of name "{?name, tmp_name g n}" fs] by (auto simp: 2(2))
    qed
    have "fs_current fs' = fs_current fs" "fs_currentTmp fs' = fs_currentTmp fs" by (simp_all add: 2(2) without_def)
    moreover have "has_snapshot g fs k" if "has_snapshot g fs' k" for k using that by (simp add: 2(2) has_snapshot_def names_without)
    ultimately show ?thesis
      using f n c has [OF c] tmp dirs_ok_without [OF f(1), of "{?name, tmp_name g n}"]
      by (simp add: shrunk_def link_ok_def tmp_ok_def flip: 2(2))
  qed
qed

section \<open>The prune\<close>

lemma shrunk_trans: "shrunk g fs fs1 \<Longrightarrow> shrunk g fs1 fs2 \<Longrightarrow> shrunk g fs fs2"
  by (simp add: shrunk_def)

lemma prune_loop:
  assumes "hist_ok g h" and "dirs_ok ops g h fs" "tmp_ok g h fs" "link_ok g h fs c" and "\<forall>v \<in> set vs. \<exists>n \<le> length h. v = version_at g n"
  shows "\<exists>counter' fs'. traverse_versions
      (\<lambda>version (counter, fs').
          if version \<ge> version_at g c then (Inr False, counter, fs')
          else if counter > 0 then (Inr False, counter - 1, fs')
          else (Inr False, counter, snd (atomicRemoveDir (snapshotName version) fs')))
      vs (counter :: u32, fs) = (Inr (), counter', fs') \<and>
    dirs_ok ops g h fs' \<and> tmp_ok g h fs' \<and> link_ok g h fs' c \<and> shrunk g fs fs'"
  using assms(2-5)
proof (induction vs arbitrary: counter fs)
  case Nil
  then show ?case by (simp add: shrunk_def)
next
  case (Cons v vs)
  obtain n where n: "n \<le> length h" "v = version_at g n" using Cons.prems(4) by auto
  show ?case
  proof (cases "v \<ge> version_at g c \<or> counter > 0")
    case True
    then show ?thesis
      using Cons.IH [OF Cons.prems(1-3), of counter] Cons.IH [OF Cons.prems(1-3), of "counter - 1"] Cons.prems(4)
      by (cases "v \<ge> version_at g c") simp_all
  next
    case False
    then have nc: "n \<noteq> c" using n(2) by auto
    let ?fs = "snd (atomicRemoveDir (snapshotName v) fs)"
    have k: "dirs_ok ops g h ?fs" "tmp_ok g h ?fs" "link_ok g h ?fs c" "shrunk g fs ?fs"
      using remove_keeps [OF assms(1) Cons.prems(1-3) n(1) nc] n(2) by simp_all
    show ?thesis
      using Cons.IH [OF k(1-3), of counter] Cons.prems(4) False shrunk_trans [OF k(4)] by auto
  qed
qed

lemma first_version_at:
  assumes "hist_ok g h" and "dirs_ok ops g h fs" and "link_ok g h fs c"
  obtains e where "e \<le> length h" "has_snapshot g fs e" "firstSnapshotVersion fs = Inr (version_at g e)"
    "\<forall>n \<le> length h. has_snapshot g fs n \<longrightarrow> e \<le> n"
proof -
  note cn = dirs_canonical [OF assms(1,2)]
  have g: "0 \<le> ms_version g" using assms(1) by (simp add: hist_ok_def base_ok_def ms_inv_def)
  have "version_at g c \<in> set (versions fs)" using versions_at [OF assms(1,2)] assms(3) by (auto simp: link_ok_def)
  then obtain v vs where vs: "versions fs = v # vs" by (cases "versions fs") auto
  have "v \<in> set (versions fs)" using vs by simp
  then obtain e where e: "e \<le> length h" "v = version_at g e" "has_snapshot g fs e" using versions_at [OF assms(1,2)] by blast
  have "e \<le> n" if "n \<le> length h" "has_snapshot g fs n" for n
  proof -
    have "version_at g n \<in> set (v # vs)" using versions_at [OF assms(1,2)] that vs by auto
    then have "v \<le> version_at g n" using versions_sorted [OF cn] vs by auto
    then show ?thesis using version_at_mono(3) [OF g] e(2) by simp
  qed
  then show ?thesis using that e firstSnapshotVersion_spec [OF cn] vs by simp
qed

context wal_package
begin

lemma TruncateFront_at:
  assumes "hist_ok g h" and "winv w" and "log_ok (wfirst w) (wentries w) g h m fs" and "\<forall>n \<le> length h. has_snapshot g fs n \<longrightarrow> e \<le> n"
    and "e \<le> length h"
  shows "winv (snd (wp_TruncateFront pkg (word_of_nat (Suc e)) w)) \<and>
    log_ok (wfirst (snd (wp_TruncateFront pkg (word_of_nat (Suc e)) w))) (wentries (snd (wp_TruncateFront pkg (word_of_nat (Suc e)) w))) g h m fs"
proof -
  have f: "1 \<le> wfirst w" "wfirst w \<le> Suc m" "m \<le> length h" "wentries w = map WALEntry_Marshal (drop (wfirst w - 1) (take m h))"
    using assms(3) by (simp_all add: log_ok_def)
  have len: "wfirst w + length (wentries w) = Suc m" using f by simp
  have u: "unat (word_of_nat (Suc e) :: u64) = Suc e" using history_short [OF assms(1)] assms(5) by (intro unat_u64) simp
  show ?thesis
  proof (cases "wfirst w \<le> Suc e \<and> Suc e < Suc m")
    case True
    then obtain w' where w': "wp_TruncateFront pkg (word_of_nat (Suc e)) w = (Inr (), w')" "winv w'" "wfirst w' = Suc e"
      "wentries w' = drop (Suc e - wfirst w) (wentries w)"
      using TruncateFront [OF assms(2), of "Suc e"] len by auto
    have "Suc e - wfirst w + (wfirst w - 1) = e" using True f(1) by simp
    then have "wentries w' = map WALEntry_Marshal (drop e (take m h))" unfolding w'(4) f(4) by (simp add: drop_map)
    then show ?thesis using w' True f(3) assms(4) by (simp add: log_ok_def)
  next
    case False
    then have "wp_TruncateFront pkg (word_of_nat (Suc e)) w = (Inl WalOutOfRange, w)"
      using TruncateFront_range [OF assms(2), of "word_of_nat (Suc e)"] u len by auto
    then show ?thesis using assms(2,3) by simp
  qed
qed

end

lemma log_ok_shrunk: "log_ok first es g h m fs \<Longrightarrow> shrunk g fs fs' \<Longrightarrow> log_ok first es g h m fs'"
  by (simp add: log_ok_def shrunk_def)

lemma rewrite_ok_links:
  assumes "rewrite_ok g h db" and "db_rewrite db' = db_rewrite db" and "\<And>c. link_ok g h (db_dir db') c \<Longrightarrow> link_ok g h (db_dir db) c"
  shows "rewrite_ok g h db'"
proof -
  have b: "behind g h (db_dir db) n \<Longrightarrow> behind g h (db_dir db') n" for n using assms(3) by (simp add: behind_def)
  show ?thesis
  proof (cases "db_rewrite db")
    case None
    then show ?thesis using assms(2) by (simp add: rewrite_ok_def)
  next
    case (Some rw)
    show ?thesis
    proof (cases rw)
      case (Ready r)
      then show ?thesis using assms(1,2) Some b by (cases "sr_mtree r") (auto simp: rewrite_ok_def)
    qed (use assms(1,2) Some b in \<open>auto simp: rewrite_ok_def\<close>)
  qed
qed

lemma link_ok_shrunk: "shrunk g fs fs' \<Longrightarrow> link_ok g h fs' c \<Longrightarrow> link_ok g h fs c"
  by (simp add: shrunk_def link_ok_def)

context wal_package
begin

lemma prune_keeps:
  assumes "db_ok ops winv wfirst wentries g h m db"
  shows "db_ok ops winv wfirst wentries g h m (prune_run pkg db)"
proof (cases "db_pruning db")
  case False
  then show ?thesis using assms by (simp add: prune_run_def)
next
  case True
  have h: "hist_ok g h" and l: "live_ok g h m db" and rw: "rewrite_ok g h db" using assms by (simp_all add: db_ok_def)
  obtain w where w: "db_wal db = Some (WriteLog w)" "winv w" "log_ok (wfirst w) (wentries w) g h m (db_dir db)"
    using assms by (auto simp: db_ok_def)
  obtain c where f: "dirs_ok ops g h (db_dir db)" "tmp_ok g h (db_dir db)" "link_ok g h (db_dir db) c"
    using assms by (auto simp: db_ok_def files_ok_def)
  have g: "0 \<le> ms_version g" using h by (simp add: hist_ok_def base_ok_def ms_inv_def)
  have cur: "currentVersion (db_dir db) = Inr (version_at g c)"
    using f(3) small_version_name(2) [OF small_versions [OF h]] by (simp add: currentVersion_def link_ok_def)
  have "\<forall>v \<in> set (rev (versions (db_dir db))). \<exists>n \<le> length h. v = version_at g n" using versions_at [OF h f(1)] by auto
  from prune_loop [OF h f this, of "db_snapshotKeepRecent db"]
  have "\<exists>counter fs'. prune_snapshots (version_at g c) (db_snapshotKeepRecent db) (db_dir db) = (Inr (), counter, fs') \<and>
      dirs_ok ops g h fs' \<and> tmp_ok g h fs' \<and> link_ok g h fs' c \<and> shrunk g (db_dir db) fs'"
    by (simp only: prune_snapshots_def traverseSnapshots_versions [OF dirs_canonical [OF h f(1)]] if_False)
  then obtain counter fs' where
    p: "prune_snapshots (version_at g c) (db_snapshotKeepRecent db) (db_dir db) = (Inr (), counter, fs')"
    "dirs_ok ops g h fs'" "tmp_ok g h fs'" "link_ok g h fs' c" "shrunk g (db_dir db) fs'" by blast
  obtain e where e: "e \<le> length h" "has_snapshot g fs' e" "firstSnapshotVersion fs' = Inr (version_at g e)"
    "\<forall>n \<le> length h. has_snapshot g fs' n \<longrightarrow> e \<le> n"
    by (rule first_version_at [OF h p(2,4)])
  note lg = log_ok_shrunk [OF w(3) p(5)]
  define skip where "skip = (version_at g e + 1 < int (unat (ms_initial g)))"
  define w' where "w' = (if skip then w else snd (wp_TruncateFront pkg (walIndex (version_at g e + 1) (ms_initial g)) w))"
  have w': "winv w' \<and> log_ok (wfirst w') (wentries w') g h m fs'"
  proof (cases skip)
    case True
    then show ?thesis using w(2) lg by (simp add: w'_def)
  next
    case False
    have "nextVersion (version_at g e) (ms_initial g) = version_at g e + 1"
      using False version_at_mono(5) [OF g, of e] unfolding skip_def nextVersion_def by (auto simp: word_less_nat_alt simp del: of_nat_unat)
    then have "walIndex (version_at g e + 1) (ms_initial g) = word_of_nat (Suc e)" using walIndex_next [of g e] h by (simp add: hist_ok_def)
    then show ?thesis using TruncateFront_at [OF h w(2) lg e(4,1)] False by (simp add: w'_def)
  qed
  have eq: "prune_run pkg db = db\<lparr>db_pruning := False, db_dir := fs', db_earliestSnapshotCache := version_at g e, db_wal := Some (WriteLog w')\<rparr>"
    using True w(1) cur p(1) e(3) live_versions(2) [OF h l]
    by (simp add: prune_run_def Let_def skip_def w'_def del: of_nat_unat)
  have "live_ok g h m (prune_run pkg db)" unfolding eq using l by (subst live_ok_frame [of _ db]) simp_all
  moreover have "rewrite_ok g h (prune_run pkg db)"
    by (rule rewrite_ok_links [OF rw]) (use link_ok_shrunk [OF p(5)] in \<open>simp_all add: eq\<close>)
  ultimately show ?thesis using assms p(2-4) w' unfolding eq db_ok_def files_ok_def by simp blast
qed

end

section \<open>A rewrite\<close>

definition sizes_ok :: "'c multiTree \<Rightarrow> bool" where
  "sizes_ok t \<longleftrightarrow> (\<forall>e \<in> set (mt_trees t). storable (t_root (snd e))) \<and> length (MultiTreeMetadata_Marshal (metadata_of t)) < 2 ^ 63"

lemma loaded_writable:
  assumes "hist_ok g h" and "n \<le> length h" and "loaded g h n t" and "sizes_ok t"
  shows "writable t"
proof -
  note v = loaded_versions_at [OF assms(1-3)]
  have st: "mt_state t = state_at g h n" using assms(3) by (simp add: loaded_def)
  have "mt_inv t" using state_startable [OF assms(1,2)] st by (simp add: mt_inv_def startable_def)
  moreover have "clean t" using assms(3) v(1) by (simp add: clean_def loaded_def)
  moreover have "mt_Version t \<noteq> 0" if "mt_trees t \<noteq> []"
  proof (cases "n = 0")
    case True
    then have "ms_trees g \<noteq> []" using that arg_cong [OF st, of ms_trees] by (auto simp: state_at_def)
    then show ?thesis using True v(1) assms(1) by (simp add: hist_ok_def base_ok_def)
  next
    case False
    then show ?thesis using versions_from_initial(2) [OF assms(1) _ assms(2)] v(1) by simp
  qed
  moreover have "mt_Version t \<le> int MaxUint32" using small_versions [OF assms(1,2)] v(1) by (simp add: small_version_def)
  ultimately show ?thesis using assms(4) by (simp add: writable_def sizes_ok_def)
qed

lemma snapshot_written:
  assumes "hist_ok g h" and "n \<le> length h" and "loaded g h n t" and "sizes_ok t"
  shows "\<exists>d. (\<forall>sched canceled d'. WriteSnapshotWithContext sched canceled t = Inr d' \<longrightarrow> d' = d) \<and>
    WriteSnapshotWithContext undisturbed False t = Inr d \<and> snapshot_ok ops g h n d"
proof -
  note w = loaded_writable [OF assms]
  have und: "undisturbed = (\<lambda>_. Some (\<lambda>_. False))" by (simp add: fun_eq_iff undisturbed_def)
  obtain d where d: "WriteSnapshotWithContext (\<lambda>_. Some (\<lambda>_. False)) False t = Inr d"
    using mt_snapshot_reload [OF w] by blast
  have "\<exists>t'. LoadMultiTree ops zc size cid d = Inr t' \<and> loaded g h n t' \<and> SnapshotVersion t' = Inr (version_at g n)" for zc size cid
  proof -
    obtain t' where t': "LoadMultiTree ops zc size cid d = Inr t'" "mt_state t' = mt_state t" "mt_lastCommitInfo t' = mt_lastCommitInfo t"
      "mt_metadata t' = metadata_of t" "\<forall>k. k \<le> 2 ^ 62 \<longrightarrow> roomy k t'"
      using mt_snapshot_reload [OF w, of ops zc size cid] d by auto
    moreover have "SnapshotVersion t' = Inr (version_at g n)"
      using t'(4) loaded_versions_at(1) [OF assms(1-3)] by (simp add: SnapshotVersion_def metadata_of_def mt_Version_def)
    ultimately show ?thesis using assms(3) by (simp add: loaded_def)
  qed
  then show ?thesis
    using d WriteSnapshot_undisturbed [of _ _ t] unfolding snapshot_ok_def und by (metis sum.inject(2))
qed

lemma overlay_new:
  assumes "WriteSnapshotWithContext sched canceled t = Inr d"
  shows "overlay empty_dir d = d" "sd_metadata d \<noteq> None"
proof -
  have s: "sort_key fst (sd_stores d) = sd_stores d" and m: "sd_metadata d \<noteq> None"
    using assms by (auto simp: WriteSnapshotWithContext_def rbind_def Let_def sort_key_id_if_sorted split: sum.splits if_splits)
  show "overlay empty_dir d = d" using s by (cases d) (simp add: overlay_def empty_dir_def)
  show "sd_metadata d \<noteq> None" by (rule m)
qed

lemma update_other: "k' \<noteq> k \<Longrightarrow> (k', v') \<in> set (AList.update k v al) \<longleftrightarrow> (k', v') \<in> set al"
  by (induction al) auto

lemma tmp_not_snapshot: "hist_ok g h \<Longrightarrow> n \<le> length h \<Longrightarrow> \<not> isSnapshotName (tmp_name g n)"
  using small_version_name(1) [OF small_versions, of g h n] by (simp add: isSnapshotName_def tmp_name_def TmpSuffix_def)

text \<open>Directories that are not snapshots may come and go.\<close>

lemma same_tmp:
  assumes "hist_ok g h" and "n \<le> length h" and "dirs_ok ops g h fs"
  shows "same_snapshots fs (put_dir (tmp_name g n) d fs)" "same_snapshots fs (without {tmp_name g n} fs)"
proof -
  have dist: "distinct (map fst (fs_dirs fs))" using assms(3) by (simp add: dirs_ok_def)
  have "(name, d') \<in> set (AList.update (tmp_name g n) d (fs_dirs fs)) \<longleftrightarrow> (name, d') \<in> set (fs_dirs fs)" if "isSnapshotName name" for name d'
    by (rule update_other) (use that tmp_not_snapshot [OF assms(1,2)] in auto)
  then show "same_snapshots fs (put_dir (tmp_name g n) d fs)"
    using dist by (simp add: same_snapshots_def put_dir_def distinct_update)
  show "same_snapshots fs (without {tmp_name g n} fs)"
    using dist tmp_not_snapshot [OF assms(1,2)] by (auto simp: same_snapshots_def without_def distinct_map_filter)
qed

definition added :: "mstate \<Rightarrow> nat \<Rightarrow> snapshot_dir \<Rightarrow> db_fs \<Rightarrow> db_fs" where
  "added g n d fs = fs\<lparr>fs_dirs := fs_dirs fs @ [(snapshotName (version_at g n), d)]\<rparr>"

lemma added_ok:
  assumes "hist_ok g h" and "n \<le> length h" and "dirs_ok ops g h fs" and "\<not> has_snapshot g fs n" and "snapshot_ok ops g h n d"
  shows "dirs_ok ops g h (added g n d fs)" "k \<le> length h \<Longrightarrow> has_snapshot g (added g n d fs) k \<longleftrightarrow> has_snapshot g fs k \<or> k = n"
  using assms name_at_inj [OF assms(1) _ assms(2), of k]
  by (auto simp: dirs_ok_def added_def has_snapshot_def dir_names_def)

text \<open>The steps of a rewrite of a version that has no snapshot yet, and when it has one.\<close>

lemma rewrite_tmp_cases:
  assumes "\<And>d'. WriteSnapshotWithContext sched canceled t = Inr d' \<Longrightarrow> d' = d"
  shows "(\<exists>e. WriteSnapshotWithContext sched canceled t = Inl e \<and> rewrite_tmp sched canceled t name fs = (Inl e, without {name} fs)) \<or>
    WriteSnapshotWithContext sched canceled t = Inr d \<and>
    rewrite_tmp sched canceled t name fs = (Inr (), put_dir name (overlay (get_dir name fs) d) fs)"
  using assms by (cases "WriteSnapshotWithContext sched canceled t")
    (simp_all add: rewrite_tmp_def writeSnapshotWithLimit_def remove_dir_without)

lemma rename_new:
  assumes "hist_ok g h" and "n \<le> length h" and "tmp_name g n \<notin> dir_names fs" and "\<not> has_snapshot g fs n"
  shows "rename_dir (tmp_name g n) (snapshotName (version_at g n)) (put_dir (tmp_name g n) d fs) = (Inr (), added g n d fs)"
proof -
  let ?name = "snapshotName (version_at g n)"
  have n: "?name \<notin> fst ` set (fs_dirs fs)" "tmp_name g n \<notin> fst ` set (fs_dirs fs)" "?name \<noteq> tmp_name g n"
    using assms(3,4) tmp_name_not_snapshot [OF assms(1,2), of n] by (simp_all add: has_snapshot_def dir_names_def)
  have "map_of (fs_dirs fs @ [(tmp_name g n, d)]) (tmp_name g n) = Some d" "map_of (fs_dirs fs @ [(tmp_name g n, d)]) ?name = None"
    using n by (simp_all add: map_add_def map_of_eq_None_iff split: option.split) (metis domI dom_map_of_conv_image_fst)+
  then show ?thesis
    using n delete_absent [OF n(2)]
    by (simp add: rename_dir_def put_dir_def update_new get_dir_def remove_dir_def AList.delete_eq added_def image_iff map_add_def)
qed

lemma tmp_ok_same:
  assumes "hist_ok g h" and "tmp_ok g h fs" and "same_snapshots fs fs'" and "fs_currentTmp fs' = None"
    and "\<And>name. name \<in> dir_names fs' \<Longrightarrow> has_suffix name TmpSuffix \<Longrightarrow>
      name \<in> dir_names fs \<and> get_dir name fs' = get_dir name fs \<or>
      (\<exists>n \<le> length h. name = tmp_name g n \<and> has_snapshot g fs n \<and> get_dir name fs' \<noteq> empty_dir)"
  shows "tmp_ok g h fs'"
proof -
  have "\<exists>n \<le> length h. name = tmp_name g n \<and> has_snapshot g fs' n \<and> get_dir name fs' \<noteq> empty_dir"
    if "name \<in> dir_names fs'" "has_suffix name TmpSuffix" for name
  proof -
    have "\<exists>n \<le> length h. name = tmp_name g n \<and> has_snapshot g fs n \<and> get_dir name fs' \<noteq> empty_dir"
      using assms(2) assms(5) [OF that] that(2) by (auto simp: tmp_ok_def)
    then show ?thesis using same_snapshots_has [OF assms(3,1)] by blast
  qed
  then show ?thesis using assms(4) by (simp add: tmp_ok_def)
qed

lemma tmp_ok_put:
  assumes "hist_ok g h" and "n \<le> length h" and "dirs_ok ops g h fs" and "tmp_ok g h fs" and "has_snapshot g fs n" and "d \<noteq> empty_dir"
  shows "tmp_ok g h (put_dir (tmp_name g n) d fs)"
proof (rule tmp_ok_same [OF assms(1,4) same_tmp(1) [OF assms(1-3)]])
  show "fs_currentTmp (put_dir (tmp_name g n) d fs) = None" using assms(4) by (simp add: put_dir_def tmp_ok_def)
  fix name assume nm: "name \<in> dir_names (put_dir (tmp_name g n) d fs)" "has_suffix name TmpSuffix"
  have "get_dir name (put_dir (tmp_name g n) d fs) = (if name = tmp_name g n then d else get_dir name fs)"
    by (simp add: get_dir_def put_dir_def update_conv)
  moreover have "name = tmp_name g n \<or> name \<in> dir_names fs"
    using nm(1) by (auto simp: dir_names_def put_dir_def dest: update_other [THEN iffD1, rotated])
  ultimately show "name \<in> dir_names fs \<and> get_dir name (put_dir (tmp_name g n) d fs) = get_dir name fs \<or>
      (\<exists>k \<le> length h. name = tmp_name g k \<and> has_snapshot g fs k \<and> get_dir name (put_dir (tmp_name g n) d fs) \<noteq> empty_dir)"
    using assms(2,5,6) by auto
qed

lemma tmp_ok_without:
  assumes "hist_ok g h" and "n \<le> length h" and "dirs_ok ops g h fs" and "tmp_ok g h fs"
  shows "tmp_ok g h (without {tmp_name g n} fs)"
proof (rule tmp_ok_same [OF assms(1,4) same_tmp(2) [OF assms(1-3)]])
  show "fs_currentTmp (without {tmp_name g n} fs) = None" using assms(4) by (simp add: without_def tmp_ok_def)
  fix name assume nm: "name \<in> dir_names (without {tmp_name g n} fs)"
  then show "name \<in> dir_names fs \<and> get_dir name (without {tmp_name g n} fs) = get_dir name fs \<or>
      (\<exists>k \<le> length h. name = tmp_name g k \<and> has_snapshot g fs k \<and> get_dir name (without {tmp_name g n} fs) \<noteq> empty_dir)"
    using get_dir_without [of name "{tmp_name g n}" fs] by (simp add: names_without)
qed

lemma run_four:
  "snd (run_steps (take k [a, b, c, d]) fs) \<in> {fs, snd (run_steps [a] fs), snd (run_steps [a, b] fs), snd (run_steps [a, b, c] fs), snd (run_steps [a, b, c, d] fs)}"
proof -
  consider "k = 0" | "k = 1" | "k = 2" | "k = 3" | "k \<ge> 4" by linarith
  then show ?thesis by cases (simp_all add: numeral_2_eq_2 numeral_3_eq_3)
qed

text \<open>What a rewrite does, and what a crash in the middle of it leaves.\<close>

lemma rewrite_run:
  fixes sched :: "nat \<Rightarrow> ctx_view option" and canceled :: bool
  assumes h: "hist_ok g h" "n \<le> length h" and f: "dirs_ok ops g h fs" "tmp_ok g h fs" and t: "loaded g h n t" "sizes_ok t"
  defines "steps \<equiv> rewrite_steps sched canceled t" and "name \<equiv> snapshotName (version_at g n)"
  shows "(\<exists>e fs1. run_steps steps fs = (Inl e, fs1) \<and> same_snapshots fs fs1 \<and> fs_current fs1 = fs_current fs \<and> tmp_ok g h fs1 \<and>
      (\<forall>k. snd (run_steps (take k steps) fs) \<in> {fs, fs1})) \<or>
    (\<exists>d. \<not> has_snapshot g fs n \<and> snapshot_ok ops g h n d \<and> run_steps steps fs = (Inr (), (added g n d fs)\<lparr>fs_current := Some name\<rparr>) \<and>
      (\<forall>k. snd (run_steps (take k steps) fs) \<in> {fs, put_dir (tmp_name g n) d fs, added g n d fs,
        (added g n d fs)\<lparr>fs_currentTmp := Some name\<rparr>, (added g n d fs)\<lparr>fs_current := Some name\<rparr>}))"
proof -
  have st: "steps = [rewrite_tmp sched canceled t (tmp_name g n), rename_dir (tmp_name g n) name, symlink_tmp name, rename_tmp]"
    using loaded_versions_at(1) [OF h t(1)] by (simp add: steps_def rewrite_steps_def name_def tmp_name_def Let_def)
  note pts = run_four [of _ "rewrite_tmp sched canceled t (tmp_name g n)" "rename_dir (tmp_name g n) name" "symlink_tmp name" rename_tmp fs, folded st]
  obtain d where d: "\<And>d'. WriteSnapshotWithContext sched canceled t = Inr d' \<Longrightarrow> d' = d" "snapshot_ok ops g h n d"
    using snapshot_written [OF h t, of ops] by blast
  consider (failed) e where "rewrite_tmp sched canceled t (tmp_name g n) fs = (Inl e, without {tmp_name g n} fs)"
    | (wrote) "WriteSnapshotWithContext sched canceled t = Inr d"
      "rewrite_tmp sched canceled t (tmp_name g n) fs = (Inr (), put_dir (tmp_name g n) (overlay (get_dir (tmp_name g n) fs) d) fs)"
    using rewrite_tmp_cases [OF d(1)] by blast
  then show ?thesis
  proof cases
    case failed
    then show ?thesis
      using pts same_tmp(2) [OF h f(1)] tmp_ok_without [OF h f] by (intro disjI1 exI [of _ e] exI [of _ "without {tmp_name g n} fs"])
        (simp add: st without_def)
  next
    case wrote
    let ?fs = "put_dir (tmp_name g n) (overlay (get_dir (tmp_name g n) fs) d) fs"
    show ?thesis
    proof (cases "has_snapshot g fs n")
      case True
      have "name \<noteq> tmp_name g n" using tmp_name_not_snapshot [OF h, of n] by (simp add: name_def)
      moreover have "map_of (fs_dirs fs) name \<noteq> None"
        using True by (simp add: has_snapshot_def dir_names_def name_def map_of_eq_None_iff)
      ultimately have rn: "rename_dir (tmp_name g n) name ?fs = (Inl ErrExist, ?fs)"
        by (simp add: rename_dir_def put_dir_def update_conv)
      have "overlay (get_dir (tmp_name g n) fs) d \<noteq> empty_dir"
        using overlay_new(2) [OF wrote(1)] by (auto simp: overlay_def empty_dir_def)
      then have "tmp_ok g h ?fs" by (rule tmp_ok_put [OF h f True])
      then show ?thesis
        using pts wrote(2) rn same_tmp(1) [OF h f(1), of "overlay (get_dir (tmp_name g n) fs) d"]
        by (intro disjI1 exI [of _ ErrExist] exI [of _ ?fs]) (simp add: st put_dir_def)
    next
      case False
      have no: "tmp_name g n \<notin> dir_names fs"
      proof
        assume "tmp_name g n \<in> dir_names fs"
        then obtain k where "k \<le> length h" "tmp_name g n = tmp_name g k" "has_snapshot g fs k" using f(2) unfolding tmp_ok_def by auto
        then show False using tmp_name_inj [OF h(1,2), of k] False by simp
      qed
      then have "get_dir (tmp_name g n) fs = empty_dir" by (simp add: get_dir_def dir_names_def map_of_eq_None_iff [THEN iffD2])
      then have w: "rewrite_tmp sched canceled t (tmp_name g n) fs = (Inr (), put_dir (tmp_name g n) d fs)"
        using wrote(2) overlay_new(1) [OF wrote(1)] by simp
      have "fs_currentTmp (added g n d fs) = None" using f(2) by (simp add: tmp_ok_def added_def)
      then have l: "symlink_tmp name (added g n d fs) = (Inr (), (added g n d fs)\<lparr>fs_currentTmp := Some name\<rparr>)"
        "rename_tmp ((added g n d fs)\<lparr>fs_currentTmp := Some name\<rparr>) = (Inr (), (added g n d fs)\<lparr>fs_current := Some name\<rparr>)"
        by (simp_all add: symlink_tmp_def rename_tmp_def)
      show ?thesis
        using pts w rename_new [OF h no False, of d] l d(2) False by (intro disjI2 exI [of _ d]) (simp add: st name_def)
    qed
  qed
qed

end
