(* ===== verification/DBRun.thy ===== *)
theory DBRun
  imports DBFiles
begin

text \<open>
  Runs of a database: the steps of its methods and goroutines in any order. Every step keeps the invariant, so a
  directory that is left at any point, also in the middle of a rewrite or a prune, loads again with every entry that
  was written to the log.
\<close>

section \<open>The live trees between blocks\<close>

lemma empty_entry [simp]: "pl_Changesets empty_pending = []" "entry_size (pending_entry empty_pending) = 0"
  "spec_entry (pending_entry empty_pending) s = (Inr (), s)"
  by (simp_all add: entry_size_def pending_entry_def empty_pending_def spec_entry_def spec_upgrades_def)

lemma live_loaded: "live_ok g h m db \<Longrightarrow> db_pendingLog db = empty_pending \<Longrightarrow> loaded g h (length h) (db_MultiTree db)"
  by (simp add: live_ok_def loaded_def pend_ok_def)

lemma loaded_live:
  assumes "loaded g h (length h) t" and "k \<le> m" and "SnapshotVersion t = Inr (version_at g k)"
    and "db_MultiTree db = t" and "db_pendingLog db = empty_pending"
  shows "live_ok g h m db"
  using assms by (auto simp: live_ok_def loaded_def pend_ok_def pending_inv_def Let_def)

lemma Copy_roomy: "roomy k t \<Longrightarrow> roomy k (fst (mt_Copy ops n t)) \<and> roomy k (snd (mt_Copy ops n t))"
  by (auto simp: roomy_iff mt_Copy_def Let_def tree_Copy_def good_tree_def tree_view_def)

lemma Copy_loaded:
  assumes "hist_ok g h" and "n \<le> length h" and "loaded g h n t"
  shows "loaded g h n (fst (mt_Copy ops cs t))" "loaded g h n (snd (mt_Copy ops cs t))"
proof -
  have "mt_inv t" using state_startable [OF assms(1,2)] assms(3) by (simp add: mt_inv_def startable_def loaded_def)
  note s = mt_Copy_state [OF this, of ops cs]
  have i: "mt_lastCommitInfo (fst (mt_Copy ops cs t)) = mt_lastCommitInfo t" "mt_lastCommitInfo (snd (mt_Copy ops cs t)) = mt_lastCommitInfo t"
    by (simp_all add: mt_Copy_def Let_def)
  show "loaded g h n (fst (mt_Copy ops cs t))" "loaded g h n (snd (mt_Copy ops cs t))"
    using assms(3) s i Copy_roomy [of "2 ^ 62 - total_size (take n h)" t ops cs] by (simp_all add: loaded_def)
qed

section \<open>Rewrites\<close>

lemma added_tmp:
  assumes "hist_ok g h" and "n \<le> length h" and "tmp_ok g h fs" and "\<not> has_snapshot g fs n"
  shows "tmp_ok g h (added g n d fs)"
proof -
  let ?name = "snapshotName (version_at g n)"
  have "\<exists>k \<le> length h. name = tmp_name g k \<and> has_snapshot g (added g n d fs) k \<and> get_dir name (added g n d fs) \<noteq> empty_dir"
    if nm: "name \<in> dir_names (added g n d fs)" "has_suffix name TmpSuffix" for name
  proof -
    have "name \<noteq> ?name" using snapshot_name_no_tmp [OF small_version_name(1) [OF small_versions [OF assms(1,2)]] small_versions [OF assms(1,2)] refl] nm(2) by auto
    moreover from this have "name \<in> dir_names fs" using nm(1) by (simp add: added_def dir_names_def)
    moreover from this obtain k where k: "k \<le> length h" "name = tmp_name g k" "has_snapshot g fs k" "get_dir name fs \<noteq> empty_dir"
      using assms(3) nm(2) unfolding tmp_ok_def by blast
    moreover have "get_dir name (added g n d fs) = get_dir name fs"
      using \<open>name \<noteq> ?name\<close> by (simp add: get_dir_def added_def map_add_def split: option.split)
    ultimately show ?thesis by (auto simp: added_def has_snapshot_def dir_names_def)
  qed
  then show ?thesis using assms(3) by (simp add: tmp_ok_def added_def)
qed

text \<open>A directory after a rewrite of the \<open>n\<close>-th version, done or not.\<close>

lemma rewrite_keeps:
  assumes h: "hist_ok g h" "n \<le> length h" and f: "dirs_ok ops g h fs" "tmp_ok g h fs" "link_ok g h fs c" "c \<le> n"
    and t: "loaded g h n t" "sizes_ok t" and lg: "log_ok first es g h m fs"
    and run: "run_steps (rewrite_steps sched canceled t) fs = (r, fs')"
  shows "files_ok ops g h fs'" "log_ok first es g h m fs'" "r = Inr () \<Longrightarrow> link_ok g h fs' n" "\<And>e. r = Inl e \<Longrightarrow> link_ok g h fs' c"
proof -
  have "files_ok ops g h fs' \<and> log_ok first es g h m fs' \<and> (case r of Inr _ \<Rightarrow> link_ok g h fs' n | Inl _ \<Rightarrow> link_ok g h fs' c)"
    using rewrite_run [OF h f(1,2) t, of sched canceled]
  proof (elim disjE exE conjE)
    fix e fs1
    assume a: "run_steps (rewrite_steps sched canceled t) fs = (Inl e, fs1)" "same_snapshots fs fs1"
      "fs_current fs1 = fs_current fs" "tmp_ok g h fs1"
    note ok = same_snapshots_ok [OF a(2) h(1)]
    show ?thesis using a(1,4) run ok(1) [OF f(1)] ok(2) lg ok(3) [OF a(3)] f(3) by (auto simp: files_ok_def)
  next
    fix d
    let ?fs = "(added g n d fs)\<lparr>fs_current := Some (snapshotName (version_at g n))\<rparr>"
    assume a: "\<not> has_snapshot g fs n" "snapshot_ok ops g h n d" "run_steps (rewrite_steps sched canceled t) fs = (Inr (), ?fs)"
    note ad = added_ok [OF h f(1) a(1,2)]
    have has: "has_snapshot g ?fs k = has_snapshot g (added g n d fs) k" for k by (rule has_snapshot_cong) simp
    have "link_ok g h ?fs n" using ad(2) [OF h(2)] has h(2) by (simp add: link_ok_def)
    moreover have "dirs_ok ops g h ?fs" using ad(1) by (subst dirs_ok_cong [of _ "added g n d fs"]) simp_all
    moreover have "tmp_ok g h ?fs" using added_tmp [OF h f(2) a(1), of d] has by (simp add: tmp_ok_def dir_names_def get_dir_def)
    moreover have "first \<le> Suc n" using lg f(3,4) by (force simp: log_ok_def link_ok_def)
    then have "log_ok first es g h m ?fs" using lg ad(2) has by (auto simp: log_ok_def)
    ultimately show ?thesis using a(3) run by (auto simp: files_ok_def)
  qed
  then show "files_ok ops g h fs'" "log_ok first es g h m fs'" "r = Inr () \<Longrightarrow> link_ok g h fs' n" "\<And>e. r = Inl e \<Longrightarrow> link_ok g h fs' c"
    by auto
qed

lemma link_unique:
  assumes "hist_ok g h" and "link_ok g h fs c" and "link_ok g h fs c'"
  shows "c' = c"
proof -
  have c: "c \<le> length h" "fs_current fs = Some (snapshotName (version_at g c))" using assms(2) by (simp_all add: link_ok_def)
  have c': "c' \<le> length h" "fs_current fs = Some (snapshotName (version_at g c'))" using assms(3) by (simp_all add: link_ok_def)
  from c(2) c'(2) have "snapshotName (version_at g c') = snapshotName (version_at g c)" by (metis option.inject)
  then show ?thesis by (rule iffD1 [OF name_at_inj [OF assms(1) c'(1) c(1)]])
qed

lemma db_ok_parts:
  assumes "db_ok ops winv wfirst wentries g h m db"
  obtains w c where "hist_ok g h" "live_ok g h m db" "rewrite_ok g h db" "db_wal db = Some (WriteLog w)" "winv w"
    "log_ok (wfirst w) (wentries w) g h m (db_dir db)" "dirs_ok ops g h (db_dir db)" "tmp_ok g h (db_dir db)" "link_ok g h (db_dir db) c"
proof -
  obtain w where w: "db_wal db = Some (WriteLog w)" "winv w" "log_ok (wfirst w) (wentries w) g h m (db_dir db)"
    using assms by (auto simp: db_ok_def)
  have f: "files_ok ops g h (db_dir db)" and o: "hist_ok g h" "live_ok g h m db" "rewrite_ok g h db" using assms by (simp_all add: db_ok_def)
  obtain c where c: "link_ok g h (db_dir db) c" using f by (auto simp: files_ok_def)
  have "dirs_ok ops g h (db_dir db)" "tmp_ok g h (db_dir db)" using f by (simp_all add: files_ok_def)
  from that [OF o w this c] show thesis .
qed

text \<open>The invariant after a change of directory, log and rewrite only.\<close>

lemma db_ok_disk:
  assumes "db_ok ops winv wfirst wentries g h m db" and "winv w" and "log_ok (wfirst w) (wentries w) g h m fs" and "files_ok ops g h fs"
    and "rewrite_ok g h (db\<lparr>db_dir := fs, db_rewrite := rw, db_wal := Some (WriteLog w)\<rparr>)"
  shows "db_ok ops winv wfirst wentries g h m (db\<lparr>db_dir := fs, db_rewrite := rw, db_wal := Some (WriteLog w)\<rparr>)"
proof -
  have "live_ok g h m db" using assms(1) by (simp add: db_ok_def)
  then have "live_ok g h m (db\<lparr>db_dir := fs, db_rewrite := rw, db_wal := Some (WriteLog w)\<rparr>)"
    by (subst live_ok_frame [of _ db]) simp_all
  then show ?thesis using assms by (simp add: db_ok_def)
qed

lemma db_ok_rewritten:
  assumes d: "db_ok ops winv wfirst wentries g h m db" and n: "n \<le> length h" "loaded g h n t" "behind g h (db_dir db) n" and s: "sizes_ok t"
    and run: "run_steps (rewrite_steps sched canceled t) (db_dir db) = (r, fs)"
    and rw: "rw = None \<or> (\<exists>t'. rw = Some (Written t')) \<or> rw = Some (Ready \<lparr>sr_mtree = None, sr_err = None\<rparr>)"
  shows "db_ok ops winv wfirst wentries g h m (db\<lparr>db_dir := fs, db_rewrite := rw\<rparr>)"
proof -
  obtain w c where p: "hist_ok g h" "live_ok g h m db" "rewrite_ok g h db" "db_wal db = Some (WriteLog w)" "winv w"
    "log_ok (wfirst w) (wentries w) g h m (db_dir db)" "dirs_ok ops g h (db_dir db)" "tmp_ok g h (db_dir db)" "link_ok g h (db_dir db) c"
    by (rule db_ok_parts [OF d])
  have "c \<le> n" using n(3) p(9) by (simp add: behind_def)
  note k = rewrite_keeps [OF p(1) n(1) p(7-9) this n(2) s p(6) run]
  have "rewrite_ok g h (db\<lparr>db_dir := fs, db_rewrite := rw, db_wal := Some (WriteLog w)\<rparr>)" using rw by (auto simp: rewrite_ok_def)
  from db_ok_disk [OF d p(5) k(2,1) this]
  have "db_ok ops winv wfirst wentries g h m (db\<lparr>db_dir := fs, db_rewrite := rw, db_wal := Some (WriteLog w)\<rparr>)" .
  moreover have "db\<lparr>db_dir := fs, db_rewrite := rw, db_wal := Some (WriteLog w)\<rparr> = db\<lparr>db_dir := fs, db_rewrite := rw\<rparr>"
    using p(4) by (cases db) simp
  ultimately show ?thesis by simp
qed

lemma background_write_keeps:
  assumes "db_ok ops winv wfirst wentries g h m db" and "\<And>t. db_rewrite db = Some (Writing t) \<Longrightarrow> sizes_ok t"
  shows "db_ok ops winv wfirst wentries g h m (background_write sched canceled db)"
proof (cases "\<exists>t. db_rewrite db = Some (Writing t)")
  case True
  then obtain t where t: "db_rewrite db = Some (Writing t)" by blast
  have "rewrite_ok g h db" using assms(1) by (simp add: db_ok_def)
  then obtain n where n: "n \<le> length h" "loaded g h n t" "behind g h (db_dir db) n" using t by (auto simp: rewrite_ok_def)
  obtain r fs where run: "run_steps (rewrite_steps sched canceled t) (db_dir db) = (r, fs)" by force
  note k = db_ok_rewritten [OF assms(1) n assms(2) [OF t] run]
  show ?thesis using t run k [of "Some (Written t)"] k [of "Some (Ready \<lparr>sr_mtree = None, sr_err = None\<rparr>)"]
    by (cases r) (simp_all add: background_write_def)
next
  case False
  then have "background_write sched canceled db = db" by (auto simp: background_write_def split: option.split rewrite.split)
  then show ?thesis using assms(1) by simp
qed

lemma RewriteSnapshot_keeps:
  assumes "db_ok ops winv wfirst wentries g h m db" and "db_rewrite db = None" and "db_pendingLog db = empty_pending"
    and "sizes_ok (db_MultiTree db)" and "RewriteSnapshotWithContext sched canceled db = (r, db')"
  shows "db_ok ops winv wfirst wentries g h m db'"
proof -
  obtain r' fs where run: "run_steps (rewrite_steps sched canceled (db_MultiTree db)) (db_dir db) = (r', fs)" by force
  have "live_ok g h m db" "\<not> db_readOnly db" using assms(1) by (simp_all add: db_ok_def)
  note l = live_loaded [OF this(1) assms(3)] and ro = this(2)
  have "behind g h (db_dir db) (length h)" by (simp add: behind_def link_ok_def)
  from db_ok_rewritten [OF assms(1) order_refl l this assms(4) run, of None]
  have "db_ok ops winv wfirst wentries g h m (db\<lparr>db_dir := fs, db_rewrite := None\<rparr>)" by simp
  moreover have "db' = db\<lparr>db_dir := fs\<rparr>" using assms(5) run ro by (simp add: RewriteSnapshotWithContext_def)
  moreover have "db\<lparr>db_dir := fs\<rparr> = db\<lparr>db_dir := fs, db_rewrite := None\<rparr>" using assms(2) by (cases db) simp
  ultimately show ?thesis by simp
qed

lemma rewrite_ok_Ready:
  assumes "n \<le> length h" and "loaded g h n t" and "k \<le> n" and "SnapshotVersion t = Inr (version_at g k)" and "behind g h (db_dir db) n"
    and "db_rewrite db = Some (Ready \<lparr>sr_mtree = Some t, sr_err = e\<rparr>)"
  shows "rewrite_ok g h db"
  using assms by (auto simp: rewrite_ok_def)

context wal_package
begin

lemma catch_up:
  assumes "db_ok ops winv wfirst wentries g h m db" and "n \<le> length h" and "loaded g h n t" and "behind g h (db_dir db) n"
  shows "\<exists>w w' t'. db_wal db = Some (WriteLog w) \<and>
    catchupWAL ops' (handle_reader pkg (fs_wal (db_dir db))) 0 (WriteLog w) t = (Inr (), WriteLog w', t') \<and> winv w' \<and>
    log_ok (wfirst w') (wentries w') g h m (db_dir db) \<and> loaded g h (max n m) t' \<and> SnapshotVersion t' = SnapshotVersion t"
proof -
  obtain w c where p: "hist_ok g h" "live_ok g h m db" "rewrite_ok g h db" "db_wal db = Some (WriteLog w)" "winv w"
    "log_ok (wfirst w) (wentries w) g h m (db_dir db)" "dirs_ok ops g h (db_dir db)" "tmp_ok g h (db_dir db)" "link_ok g h (db_dir db) c"
    by (rule db_ok_parts [OF assms(1)])
  let ?dir = "fs_wal (db_dir db)"
  have hw: "handle_inv winv ?dir False (WriteLog w)" "handle_first wfirst (WriteLog w) = wfirst w"
    "handle_entries wentries ?dir (WriteLog w) = wentries w" using p(5) by (simp_all add: handle_defs)
  have "wfirst w \<le> Suc c" using p(6,9) by (simp add: log_ok_def link_ok_def)
  then have first: "wfirst w \<le> Suc n" using assms(4) p(9) by (force simp: behind_def)
  obtain hl' t' where c: "catchupWAL ops' (handle_reader pkg ?dir) 0 (WriteLog w) t = (Inr (), hl', t')" "loaded g h (max n m) t'"
    "mt_metadata t' = mt_metadata t" "handle_inv winv ?dir False hl'" "handle_first wfirst hl' = wfirst w"
    "handle_entries wentries ?dir hl' = wentries w"
    using catchup_at [OF p(1) hw(1), unfolded hw(2,3), OF p(6) assms(2) first assms(3), of 0 m ops'] by blast
  obtain w' where w': "hl' = WriteLog w'" "winv w'" using c(4) by (cases hl') (auto simp: handle_inv_def)
  then have "wfirst w' = wfirst w" "wentries w' = wentries w" using c(5,6) by (simp_all add: handle_defs)
  then show ?thesis using p(4,6) c(1,2) w' SnapshotVersion_cong [OF c(3)] by auto
qed

lemma background_load_keeps:
  assumes "db_ok ops winv wfirst wentries g h m db"
  shows "db_ok ops winv wfirst wentries g h m (background_load ops pkg db)"
proof (cases "\<exists>t. db_rewrite db = Some (Written t)")
  case True
  then obtain t where t: "db_rewrite db = Some (Written t)" by blast
  obtain w c where p: "hist_ok g h" "live_ok g h m db" "rewrite_ok g h db" "db_wal db = Some (WriteLog w)" "winv w"
    "log_ok (wfirst w) (wentries w) g h m (db_dir db)" "dirs_ok ops g h (db_dir db)" "tmp_ok g h (db_dir db)" "link_ok g h (db_dir db) c"
    by (rule db_ok_parts [OF assms])
  have c: "c \<le> length h" "has_snapshot g (db_dir db) c" "fs_current (db_dir db) = Some (snapshotName (version_at g c))"
    using p(9) by (simp_all add: link_ok_def)
  have "snapshot_ok ops g h c (current_dir (db_dir db))" using snapshot_at [OF p(1,7) c(1,2)] c(3) by (simp add: current_dir_def)
  then obtain t1 where t1: "LoadMultiTree ops (mt_zeroCopy t) (mt_cacheSize t) (mt_chainId t) (current_dir (db_dir db)) = Inr t1"
    "loaded g h c t1" "SnapshotVersion t1 = Inr (version_at g c)" unfolding snapshot_ok_def by blast
  have b: "behind g h (db_dir db) c" using link_unique [OF p(1,9)] by (auto simp: behind_def)
  obtain w' t' where w': "catchupWAL ops (handle_reader pkg (fs_wal (db_dir db))) 0 (WriteLog w) t1 = (Inr (), WriteLog w', t')" "winv w'"
    "log_ok (wfirst w') (wentries w') g h m (db_dir db)" "loaded g h (max c m) t'" "SnapshotVersion t' = Inr (version_at g c)"
    using catch_up [OF assms c(1) t1(2) b, of ops] p(4) t1(3) by auto
  let ?rw = "Some (Ready \<lparr>sr_mtree = Some t', sr_err = None\<rparr>)"
  have eq: "background_load ops pkg db = db\<lparr>db_dir := db_dir db, db_rewrite := ?rw, db_wal := Some (WriteLog w')\<rparr>"
    using t t1(1) p(4) w'(1) by (cases db) (simp add: background_load_def)
  have "max c m \<le> length h" using c(1) p(6) by (simp add: log_ok_def)
  moreover have "behind g h (db_dir db) (max c m)" using b by (auto simp: behind_def)
  ultimately have "rewrite_ok g h (db\<lparr>db_dir := db_dir db, db_rewrite := ?rw, db_wal := Some (WriteLog w')\<rparr>)"
    using w'(4,5) by (intro rewrite_ok_Ready [of "max c m" h g t' c]) simp_all
  moreover have "files_ok ops g h (db_dir db)" using assms by (simp add: db_ok_def)
  ultimately show ?thesis unfolding eq by (intro db_ok_disk [OF assms w'(2,3)])
next
  case False
  then have "background_load ops pkg db = db" by (auto simp: background_load_def split: option.split rewrite.split)
  then show ?thesis using assms by simp
qed

end

lemma start_rewrite_keeps:
  assumes "db_ok ops winv wfirst wentries g h m db" and "db_pendingLog db = empty_pending"
  shows "db_ok ops winv wfirst wentries g h m (snd (rewriteSnapshotBackground ops' db))"
proof (cases "db_rewrite db = None")
  case True
  let ?t = "db_MultiTree db"
  have h: "hist_ok g h" and l: "live_ok g h m db" using assms(1) by (simp_all add: db_ok_def)
  note c = Copy_loaded [OF h order_refl live_loaded [OF l assms(2)], of ops' 0]
  obtain k where k: "k \<le> m" "SnapshotVersion ?t = Inr (version_at g k)" using l by (auto simp: live_ok_def)
  let ?db = "db\<lparr>db_MultiTree := fst (mt_Copy ops' 0 ?t), db_rewrite := Some (Writing (snd (mt_Copy ops' 0 ?t)))\<rparr>"
  have "SnapshotVersion (fst (mt_Copy ops' 0 ?t)) = Inr (version_at g k)"
    using SnapshotVersion_cong [OF Copy_metadata(1) [of ops' 0 ?t]] k(2) by simp
  then have "live_ok g h m ?db" using loaded_live [OF c(1) k(1), of ?db] assms(2) by simp
  moreover have "rewrite_ok g h ?db" using c(2) by (auto simp: rewrite_ok_def behind_def link_ok_def)
  ultimately have "db_ok ops winv wfirst wentries g h m ?db" using assms(1) by (simp add: db_ok_def)
  then show ?thesis using True by (simp add: rewriteSnapshotBackground_def split_beta)
next
  case False
  then show ?thesis using assms(1) by (simp add: rewriteSnapshotBackground_def)
qed

section \<open>Installing the rewritten snapshot\<close>

lemma db_ok_ignores:
  "db_ok ops winv wfirst wentries g h m (db\<lparr>db_pruning := b\<rparr>) = db_ok ops winv wfirst wentries g h m db"
  "db_ok ops winv wfirst wentries g h m (db\<lparr>db_triggered := hs\<rparr>) = db_ok ops winv wfirst wentries g h m db"
  using live_ok_frame [of "db\<lparr>db_pruning := b\<rparr>" db g h m] live_ok_frame [of "db\<lparr>db_triggered := hs\<rparr>" db g h m]
    rewrite_ok_frame [of "db\<lparr>db_pruning := b\<rparr>" db g h] rewrite_ok_frame [of "db\<lparr>db_triggered := hs\<rparr>" db g h]
  by (simp_all add: db_ok_def)

lemma db_ok_no_rewrite: "db_ok ops winv wfirst wentries g h m db \<Longrightarrow> db_ok ops winv wfirst wentries g h m (db\<lparr>db_rewrite := None\<rparr>)"
proof -
  assume a: "db_ok ops winv wfirst wentries g h m db"
  have "rewrite_ok g h (db\<lparr>db_rewrite := None\<rparr>)" by (simp add: rewrite_ok_def)
  then show ?thesis using a live_ok_frame [of "db\<lparr>db_rewrite := None\<rparr>" db g h m] by (simp add: db_ok_def)
qed

lemma apply_empty: "applyWALEntry ops (pending_entry empty_pending) t = (Inr (), t)"
  by (simp add: applyWALEntry_def ApplyUpgrades_def pending_entry_def empty_pending_def)

lemma prune_fields:
  "db_pendingLog (prune_run pkg db) = db_pendingLog db" "db_MultiTree (prune_run pkg db) = db_MultiTree db"
  "db_snapshotInterval (prune_run pkg db) = db_snapshotInterval db"
  by (simp_all add: prune_run_def Let_def split: option.split wal_handle.split sum.split prod.split bool.split)

context wal_package
begin

lemma pruneSnapshots_keeps:
  assumes "db_ok ops winv wfirst wentries g h m db"
  shows "db_ok ops winv wfirst wentries g h m (pruneSnapshots pkg db)"
    "db_pendingLog (pruneSnapshots pkg db) = db_pendingLog db" "db_MultiTree (pruneSnapshots pkg db) = db_MultiTree db"
  using prune_keeps [OF assms] db_ok_ignores(1) [where db = "prune_run pkg db" and b = True]
  by (auto simp: pruneSnapshots_def Let_def prune_fields split: option.split wal_handle.split)

lemma install_keeps:
  assumes d: "db_ok ops winv wfirst wentries g h (length h) db" "db_pendingLog db = empty_pending"
    and n: "n \<le> length h" "loaded g h n mtree" "behind g h (db_dir db) n" and k: "k \<le> n" "SnapshotVersion mtree = Inr (version_at g k)"
  shows "\<exists>w w' t' db3. db_wal db = Some (WriteLog w) \<and>
    catchupWAL ops' (handle_reader pkg (fs_wal (db_dir db))) 0 (WriteLog w) mtree = (Inr (), WriteLog w', t') \<and>
    reloadMultiTree ops' t' (db\<lparr>db_wal := Some (WriteLog w')\<rparr>) = (Inr (), db3) \<and> db_ok ops winv wfirst wentries g h (length h) db3 \<and>
    db_pendingLog db3 = empty_pending \<and> SnapshotVersion (db_MultiTree db3) = Inr (version_at g k)"
proof -
  obtain w w' t' where w: "db_wal db = Some (WriteLog w)"
    "catchupWAL ops' (handle_reader pkg (fs_wal (db_dir db))) 0 (WriteLog w) mtree = (Inr (), WriteLog w', t')" "winv w'"
    "log_ok (wfirst w') (wentries w') g h (length h) (db_dir db)" "loaded g h (max n (length h)) t'" "SnapshotVersion t' = SnapshotVersion mtree"
    using catch_up [OF d(1) n, of ops'] by blast
  let ?db = "db\<lparr>db_wal := Some (WriteLog w'), db_MultiTree := t', db_retired := Some (db_MultiTree db)\<rparr>"
  have r: "reloadMultiTree ops' t' (db\<lparr>db_wal := Some (WriteLog w')\<rparr>) = (Inr (), ?db)"
    using d(2) by (simp add: reloadMultiTree_def apply_empty)
  have kl: "k \<le> length h" using k(1) n(1) by simp
  have "loaded g h (length h) t'" using w(5) n(1) by (simp add: max_def split: if_splits)
  then have "live_ok g h (length h) ?db" using loaded_live [OF _ kl, where t = t' and db = ?db] w(6) k(2) d(2) by simp
  moreover have "rewrite_ok g h ?db" using d(1) rewrite_ok_frame [of ?db db g h] by (simp add: db_ok_def)
  ultimately have "db_ok ops winv wfirst wentries g h (length h) ?db" using d(1) w(3,4) by (simp add: db_ok_def)
  then show ?thesis using w(1,2,6) r k(2) d(2) by auto
qed

lemma check_keeps:
  assumes d: "db_ok ops winv wfirst wentries g h m db" "db_pendingLog db = empty_pending"
    and run: "checkBackgroundSnapshotRewrite ops' pkg env db = (r, db')"
  shows "\<exists>m'. m \<le> m' \<and> db_ok ops winv wfirst wentries g h m' db' \<and> db_pendingLog db' = empty_pending \<and>
    r \<in> {None, Some (Inr ()), Some (Inl ErrWalTimeout)}"
proof (cases "\<exists>res. db_rewrite db = Some (Ready res)")
  case False
  then have "r = Some (Inr ())" "db' = db" using run by (auto simp: checkBackgroundSnapshotRewrite_def split: option.splits rewrite.splits)
  then show ?thesis using d by auto
next
  case True
  then obtain res where res: "db_rewrite db = Some (Ready res)" by blast
  let ?db = "db\<lparr>db_rewrite := None\<rparr>"
  have d1: "db_ok ops winv wfirst wentries g h m ?db" by (rule db_ok_no_rewrite [OF d(1)])
  have rw: "rewrite_ok g h db" using d(1) by (simp add: db_ok_def)
  show ?thesis
  proof (cases "sr_mtree res")
    case None
    then have "r = Some (Inr ())" "db' = ?db" using run res rw by (simp_all add: checkBackgroundSnapshotRewrite_def rewrite_ok_def)
    then show ?thesis using d1 d(2) by auto
  next
    case (Some mtree)
    then obtain n k where n: "n \<le> length h" "loaded g h n mtree" "behind g h (db_dir db) n" "k \<le> n" "SnapshotVersion mtree = Inr (version_at g k)"
      using rw res by (auto simp: rewrite_ok_def)
    obtain q db2 where q: "waitCommittedVersion pkg env (mt_Version (db_MultiTree ?db)) ?db = (q, db2)" by force
    obtain m' where m': "m \<le> m'" "db_ok ops winv wfirst wentries g h m' db2" "log_frame ?db db2"
      "q \<in> {None, Some (Inr ()), Some (Inl ErrWalTimeout)}" "q = Some (Inr ()) \<longrightarrow> m' = length h"
      using waited [OF d1 q] by blast
    have f: "db_pendingLog db2 = empty_pending" "db_dir db2 = db_dir db" using log_frame_fields [OF m'(3)] d(2) by simp_all
    show ?thesis
    proof (cases "q = Some (Inr ())")
      case False
      then have "r = q" "db' = db2" using run res Some q m'(4) by (auto simp: checkBackgroundSnapshotRewrite_def)
      then show ?thesis using m' f(1) by auto
    next
      case True
      then have ml: "m' = length h" using m'(5) by simp
      obtain w w' t' db3 where w: "db_wal db2 = Some (WriteLog w)"
        "catchupWAL ops' (handle_reader pkg (fs_wal (db_dir db2))) 0 (WriteLog w) mtree = (Inr (), WriteLog w', t')"
        "reloadMultiTree ops' t' (db2\<lparr>db_wal := Some (WriteLog w')\<rparr>) = (Inr (), db3)" "db_ok ops winv wfirst wentries g h (length h) db3"
        "db_pendingLog db3 = empty_pending" "SnapshotVersion (db_MultiTree db3) = Inr (version_at g k)"
        using install_keeps [OF m'(2) [unfolded ml] f(1) n(1,2) n(3) [folded f(2)] n(4,5), of ops'] by blast
      note p = pruneSnapshots_keeps [OF w(4)]
      let ?db4 = "pruneSnapshots pkg db3"
      have "r = Some (Inr ())" "db' = (if db_trigger ?db4 then ?db4\<lparr>db_triggered := db_triggered ?db4 @ [version_at g k]\<rparr> else ?db4)"
        using run res Some q True w(1-3,6) p(3) by (simp_all add: checkBackgroundSnapshotRewrite_def Let_def split: if_splits)
      then show ?thesis using p(1,2) w(5) m'(1) ml by (intro exI [of _ "length h"]) (simp add: db_ok_ignores(2))
    qed
  qed
qed

end

section \<open>Commits\<close>

lemma rewrite_ok_extends:
  assumes "hist_ok g h'" and "extends h h'" and "dirs_ok ops g h (db_dir db)" and "rewrite_ok g h db"
  shows "rewrite_ok g h' db"
proof -
  have l: "n \<le> length h \<Longrightarrow> n \<le> length h' \<and> (loaded g h' n t \<longleftrightarrow> loaded g h n t)" for n and t :: "'b multiTree"
    using extends_loaded [OF assms(2)] assms(2) by (auto simp: extends_def)
  note b = extends_behind [OF assms(1-3)]
  show ?thesis
  proof (cases "db_rewrite db")
    case (Some rw)
    show ?thesis
    proof (cases rw)
      case (Writing t)
      then show ?thesis using assms(4) Some l b by (auto simp: rewrite_ok_def)
    next
      case (Ready res)
      then show ?thesis using assms(4) Some l b by (cases "sr_mtree res") (auto simp: rewrite_ok_def)
    qed (use assms(4) Some in \<open>simp add: rewrite_ok_def\<close>)
  qed (simp add: rewrite_ok_def)
qed

lemma disk_extends:
  assumes "hist_ok g h'" and "extends h h'" and "files_ok ops g h fs" and "log_ok first es g h m fs"
  shows "files_ok ops g h' fs" "log_ok first es g h' m fs"
proof -
  have d: "dirs_ok ops g h fs" "tmp_ok g h fs" and l: "\<exists>c. link_ok g h fs c" using assms(3) by (simp_all add: files_ok_def)
  show "files_ok ops g h' fs"
    using l extends_link [OF assms(1,2) d(1)] extends_dirs [OF assms(2) d(1)] extends_tmp [OF assms(2) d(2)] by (simp add: files_ok_def)
  show "log_ok first es g h' m fs"
    using extends_log [OF assms(2,4)] snapshots_of_history [OF assms(1,2) d(1)] by blast
qed

lemma SaveVersion_commits:
  assumes d: "hist_ok g h" "live_ok g h m db" and l: "limits g (h @ [e])" and e: "e = pending_entry (db_pendingLog db)"
  shows "\<exists>t. mt_SaveVersion True (db_MultiTree db) = (Inr (version_at g (Suc (length h))), t) \<and>
    loaded g (h @ [e]) (Suc (length h)) t \<and> SnapshotVersion t = SnapshotVersion (db_MultiTree db) \<and> hist_ok g (h @ [e])"
proof -
  let ?t = "db_MultiTree db" and ?v = "version_at g (Suc (length h))"
  have "spec_entry e (state_at g h (length h)) = (Inr (), mt_state ?t)" using d(2) e by (simp add: live_ok_def pend_ok_def)
  note c = commit_extends [OF d(1) this l]
  have room: "roomy (2 ^ 62 - (total_size h + entry_size e)) ?t" using d(2) e by (simp add: live_ok_def)
  obtain t where t: "mt_SaveVersion True ?t = (Inr ?v, t)" "mt_state t = state_at g (h @ [e]) (Suc (length h))"
    using mt_SaveVersion_spec [of True ?t] c(1) by (cases "mt_SaveVersion True ?t") simp
  have "mt_Version t = ?v" using arg_cong [OF t(2), of ms_version] state_versions(1) [OF c(2), of "Suc (length h)"] by simp
  then have "mt_lastCommitInfo t = spec_info ?v (state_at g (h @ [e]) (Suc (length h)))"
    using mt_SaveVersion_info [OF room t(1)] t(2) by simp
  moreover have "roomy (2 ^ 62 - total_size (take (Suc (length h)) (h @ [e]))) t"
    using roomy_save [OF room, of True] t(1) by (simp add: total_size_def)
  moreover have "SnapshotVersion t = SnapshotVersion ?t"
    using SnapshotVersion_cong [of t ?t] SaveVersion_metadata [of True ?t] t(1) by simp
  ultimately show ?thesis using t c(2) by (simp add: loaded_def)
qed

context wal_package
begin

lemma log_entry_at:
  assumes d: "db_ok ops winv wfirst wentries g h m db" and h': "hist_ok g (h @ [e])"
  shows "\<exists>ch w m'. log_entry pkg send (word_of_nat (Suc (length h)), e) (db\<lparr>db_MultiTree := t\<rparr>) =
      (Inr (), db\<lparr>db_MultiTree := t, db_walChan := ch, db_wal := Some (WriteLog w)\<rparr>) \<and> m \<le> m' \<and> winv w \<and>
    log_ok (wfirst w) (wentries w) g (h @ [e]) m' (db_dir db) \<and> queue_ok (h @ [e]) m' ch \<and> (db_walChanSize db < 0 \<longrightarrow> ch = None)"
proof -
  obtain w where w: "db_wal db = Some (WriteLog w)" "winv w" "log_ok (wfirst w) (wentries w) g h m (db_dir db)"
    using d by (auto simp: db_ok_def)
  have q: "queue_ok h m (db_walChan db)" "db_walChanSize db < 0 \<Longrightarrow> db_walChan db = None" "\<not> db_walQuit db" "files_ok ops g h (db_dir db)"
    using d by (simp_all add: db_ok_def)
  have ml: "m \<le> length h" using w(3) by (simp add: log_ok_def)
  note lg = disk_extends(2) [OF h' extends_snoc q(4) w(3)]
  show ?thesis
  proof (cases "db_walChanSize db < 0")
    case True
    then have m: "db_walChan db = None" "m = length h" using q by (simp_all add: queue_ok_def)
    have "unwritten (h @ [e]) m (Suc m) = [(word_of_nat (Suc (length h)), e)]"
      using unwritten_snoc [of m h e] m(2) by (simp add: unwritten_def)
    then obtain w' where w': "write_entries pkg [(word_of_nat (Suc (length h)), e)] w = (Inr (), w')" "winv w'"
      "log_ok (wfirst w') (wentries w') g (h @ [e]) (Suc m) (db_dir db)"
      using write_entries_at [OF h' w(2) lg, of "Suc m"] m(2) by auto
    have "log_entry pkg send (word_of_nat (Suc (length h)), e) (db\<lparr>db_MultiTree := t\<rparr>) =
        (Inr (), db\<lparr>db_MultiTree := t, db_walChan := None, db_wal := Some (WriteLog w')\<rparr>)"
      using True w(1) w'(1) m(1) by (cases db) (simp add: log_entry_def writeWALSync_def)
    then show ?thesis using w'(2,3) m by (intro exI [of _ None] exI [of _ w'] exI [of _ "Suc m"]) (simp add: queue_ok_def)
  next
    case False
    define old where "old = (case db_walChan db of None \<Rightarrow> [] | Some ch \<Rightarrow> ch)"
    have old: "old = unwritten h m (length h)" using q(1) by (cases "db_walChan db") (simp_all add: old_def queue_ok_def unwritten_def)
    let ?ch = "Some (old @ [(word_of_nat (Suc (length h)), e)])"
    have "log_entry pkg send (word_of_nat (Suc (length h)), e) (db\<lparr>db_MultiTree := t\<rparr>) =
        (Inr (), db\<lparr>db_MultiTree := t, db_walChan := ?ch, db_wal := Some (WriteLog w)\<rparr>)"
      using False w(1) q(3) by (cases db; cases "db_walChan db") (simp_all add: log_entry_def enqueue_def old_def Let_def)
    moreover have "queue_ok (h @ [e]) m ?ch" using unwritten_snoc [OF ml, of e] by (simp add: queue_ok_def old)
    ultimately show ?thesis using w(2) lg False by (intro exI [of _ ?ch] exI [of _ w] exI [of _ m]) simp
  qed
qed

lemma committed_keeps:
  assumes d: "db_ok ops winv wfirst wentries g h m db" and l: "limits g (h @ [e])" and e: "e = pending_entry (db_pendingLog db)"
  shows "\<exists>t db2 m'. mt_SaveVersion True (db_MultiTree db) = (Inr (version_at g (Suc (length h))), t) \<and>
    log_entry pkg send (walIndex (version_at g (Suc (length h))) (mt_initialVersion t), e) (db\<lparr>db_MultiTree := t\<rparr>) = (Inr (), db2) \<and>
    m \<le> m' \<and> db_ok ops winv wfirst wentries g (h @ [e]) m' (clear_pending db2)"
proof -
  let ?h = "h @ [e]"
  have h: "hist_ok g h" "live_ok g h m db" "rewrite_ok g h db" and f: "files_ok ops g h (db_dir db)" using d by (simp_all add: db_ok_def)
  have dirs: "dirs_ok ops g h (db_dir db)" using f by (simp add: files_ok_def)
  obtain t where t: "mt_SaveVersion True (db_MultiTree db) = (Inr (version_at g (Suc (length h))), t)" "loaded g ?h (length ?h) t"
    "SnapshotVersion t = SnapshotVersion (db_MultiTree db)" "hist_ok g ?h"
    using SaveVersion_commits [OF h(1,2) l e] by auto
  have "mt_initialVersion t = ms_initial g" using loaded_versions_at(2) [OF t(4) order_refl t(2)] .
  then have idx: "walIndex (version_at g (Suc (length h))) (mt_initialVersion t) = word_of_nat (Suc (length h))"
    using walIndex_at [of g "Suc (length h)"] t(4) by (simp add: hist_ok_def)
  obtain ch w m' where w: "log_entry pkg send (word_of_nat (Suc (length h)), e) (db\<lparr>db_MultiTree := t\<rparr>) =
      (Inr (), db\<lparr>db_MultiTree := t, db_walChan := ch, db_wal := Some (WriteLog w)\<rparr>)" "m \<le> m'" "winv w"
    "log_ok (wfirst w) (wentries w) g ?h m' (db_dir db)" "queue_ok ?h m' ch" "db_walChanSize db < 0 \<longrightarrow> ch = None"
    using log_entry_at [OF d t(4), of send t] by blast
  let ?db = "clear_pending (db\<lparr>db_MultiTree := t, db_walChan := ch, db_wal := Some (WriteLog w)\<rparr>)"
  have "\<exists>k \<le> m. SnapshotVersion (db_MultiTree db) = Inr (version_at g k)" using h(2) by (simp add: live_ok_def)
  then obtain k where k: "k \<le> m'" "SnapshotVersion t = Inr (version_at g k)" using t(3) w(2) order_trans by metis
  have fields: "db_MultiTree ?db = t" "db_pendingLog ?db = empty_pending" "db_dir ?db = db_dir db" "db_rewrite ?db = db_rewrite db"
    "db_readOnly ?db = db_readOnly db" "db_walErr ?db = db_walErr db" "db_walQuit ?db = db_walQuit db" "db_walChan ?db = ch"
    "db_snapshotInterval ?db = db_snapshotInterval db" "db_wal ?db = Some (WriteLog w)" "db_walChanSize ?db = db_walChanSize db"
    by (simp_all add: clear_pending_def clearPendingChangesetMap_def)
  have "live_ok g ?h m' ?db" by (rule loaded_live [OF t(2) k fields(1,2)])
  moreover have "rewrite_ok g ?h ?db"
    using rewrite_ok_extends [OF t(4) extends_snoc dirs h(3)] rewrite_ok_frame [OF fields(4,3)] by simp
  moreover have "files_ok ops g ?h (db_dir ?db)" using disk_extends(1) [OF t(4) extends_snoc f] d fields(3) by (auto simp: db_ok_def)
  moreover have "\<not> db_readOnly db \<and> db_walErr db = None \<and> \<not> db_walQuit db \<and> db_snapshotInterval db \<noteq> 0" using d by (simp add: db_ok_def)
  ultimately have "db_ok ops winv wfirst wentries g ?h m' ?db" using t(4) w(3-6) unfolding db_ok_def fields by simp
  moreover note w(1) [folded idx]
  ultimately show ?thesis using t(1) w(2) by blast
qed

lemma Commit_keeps:
  assumes d: "db_ok ops winv wfirst wentries g h m db" and l: "limits g (h @ [e])" and e: "e = pending_entry (db_pendingLog db)"
    and run: "Commit ops' pkg send env db = (r, db')"
  shows "\<exists>m'. m \<le> m' \<and> db_ok ops winv wfirst wentries g (h @ [e]) m' db' \<and> db_pendingLog db' = empty_pending \<and>
    r \<in> {None, Some (Inr (version_at g (Suc (length h)))), Some (Inl ErrWalTimeout)}"
proof -
  let ?v = "version_at g (Suc (length h))"
  obtain t db2 m1 where c: "mt_SaveVersion True (db_MultiTree db) = (Inr ?v, t)"
    "log_entry pkg send (walIndex ?v (mt_initialVersion t), e) (db\<lparr>db_MultiTree := t\<rparr>) = (Inr (), db2)"
    "m \<le> m1" "db_ok ops winv wfirst wentries g (h @ [e]) m1 (clear_pending db2)"
    using committed_keeps [OF d l e, of send] by blast
  have ro: "\<not> db_readOnly db" "walError db = Inr ()" using d by (simp_all add: db_ok_def walError_def)
  have pend: "db_pendingLog (clear_pending db2) = empty_pending" by (simp add: clear_pending_def clearPendingChangesetMap_def)
  obtain q db4 where q: "checkBackgroundSnapshotRewrite ops' pkg env (clear_pending db2) = (q, db4)" by force
  obtain m' where m': "m1 \<le> m'" "db_ok ops winv wfirst wentries g (h @ [e]) m' db4" "db_pendingLog db4 = empty_pending"
    "q \<in> {None, Some (Inr ()), Some (Inl ErrWalTimeout)}"
    using check_keeps [OF c(4) pend q] by blast
  have "walError (clear_pending db2) = Inr ()" using c(4) by (simp add: db_ok_def walError_def)
  then have task: "checkAsyncTasks ops' pkg env (clear_pending db2) = (q, db4)"
    using q by (cases q) (simp_all add: checkAsyncTasks_def rbind_def)
  have iv: "db_snapshotInterval db4 \<noteq> 0" using m'(2) by (simp add: db_ok_def)
  define db5 where "db5 = snd (rewriteIfApplicable ops' ?v db4)"
  have db5: "rewriteIfApplicable ops' ?v db4 = (Inr (), db5)" "db5 = db4 \<or> db5 = snd (rewriteSnapshotBackground ops' db4)"
    using iv by (auto simp: db5_def rewriteIfApplicable_def)
  have k5: "db_ok ops winv wfirst wentries g (h @ [e]) m' db5" "db_pendingLog db5 = empty_pending"
    using db5(2) m'(2,3) start_rewrite_keeps [OF m'(2,3), of ops'] by (auto simp: rewriteSnapshotBackground_def split_beta)
  have "q = None \<and> r = None \<and> db' = db4 \<or> q = Some (Inr ()) \<and> r = Some (Inr ?v) \<and> db' = db5 \<or>
      q = Some (Inl ErrWalTimeout) \<and> r = Some (Inl ErrWalTimeout) \<and> db' = db4"
    using m'(4) run ro c(1,2) task db5(1) e by (auto simp: Commit_def rmap_def)
  moreover have "m \<le> m'" using c(3) m'(1) by simp
  ultimately show ?thesis using m'(2,3) k5 by (intro exI [of _ m']) auto
qed

lemma drain_keeps:
  assumes "db_ok ops winv wfirst wentries g h m db" and "db_walChan db = Some q"
  shows "db_ok ops winv wfirst wentries g h (length h) (drain pkg sizes db) \<and> m \<le> length h"
  using assms
proof (induction sizes arbitrary: db m q)
  case Nil
  have m: "m \<le> length h" and q: "q = unwritten h m (length h)" using Nil by (auto simp: db_ok_def queue_ok_def log_ok_def)
  have "min (m + Suc (length q)) (length h) = length h" using m by (simp add: q unwritten_def)
  then show ?case using async_round(1) [OF Nil, of "length q"] Nil(2) m by simp
next
  case (Cons k ks)
  have m: "m \<le> length h" using Cons.prems by (auto simp: db_ok_def log_ok_def)
  show ?case using Cons.IH [OF async_round [OF Cons.prems, of k]] m by simp
qed

lemma waitAsyncCommit_keeps:
  assumes "db_ok ops winv wfirst wentries g h m db" and "waitAsyncCommit pkg sizes db = (r, db')"
  shows "db_ok ops winv wfirst wentries g h (length h) db' \<and> m \<le> length h \<and> r = Inr ()"
proof (cases "db_walChan db")
  case None
  then have "m = length h" using assms(1) by (simp add: db_ok_def queue_ok_def)
  then show ?thesis using assms None by (simp add: waitAsyncCommit_def db_ok_def walError_def)
next
  case (Some q)
  let ?d = "drain pkg sizes db"
  note d = drain_keeps [OF assms(1) Some, of sizes]
  let ?db = "?d\<lparr>db_walChan := None, db_walQuit := False\<rparr>"
  have "db_ok ops winv wfirst wentries g h (length h) ?db"
    using d live_ok_frame [of ?db ?d g h "length h"] rewrite_ok_frame [of ?db ?d g h] by (simp add: db_ok_def queue_ok_def)
  moreover from this have "walError ?db = Inr ()" by (simp add: db_ok_def walError_def)
  ultimately show ?thesis using assms(2) Some d by (auto simp: waitAsyncCommit_def Let_def)
qed

end

section \<open>Reading the live trees\<close>

lemma db_ok_tree:
  assumes "db_ok ops winv wfirst wentries g h m db" and "mt_state t = mt_state (db_MultiTree db)"
    and "mt_lastCommitInfo t = mt_lastCommitInfo (db_MultiTree db)" and "mt_metadata t = mt_metadata (db_MultiTree db)"
    and "\<And>k. roomy k (db_MultiTree db) \<Longrightarrow> roomy k t"
  shows "db_ok ops winv wfirst wentries g h m (db\<lparr>db_MultiTree := t\<rparr>)"
proof -
  have "live_ok g h m db" using assms(1) by (simp add: db_ok_def)
  then have "live_ok g h m (db\<lparr>db_MultiTree := t\<rparr>)"
    using assms(2-5) SnapshotVersion_cong [OF assms(4)] by (simp add: live_ok_def pend_ok_def pending_inv_def)
  then show ?thesis by (rule db_ok_frame [OF assms(1)]) simp_all
qed

lemma live_inv:
  assumes "db_ok ops winv wfirst wentries g h m db"
  shows "mt_inv (db_MultiTree db)"
proof -
  have h: "hist_ok g h" and "live_ok g h m db" using assms by (simp_all add: db_ok_def)
  then have "spec_entry (pending_entry (db_pendingLog db)) (state_at g h (length h)) = (Inr (), mt_state (db_MultiTree db))"
    by (simp add: live_ok_def pend_ok_def)
  from spec_entry_keeps_inv [OF state_startable [OF h order_refl] this] show ?thesis by (simp add: mt_inv_def)
qed

lemma Copy_keeps:
  assumes "db_ok ops winv wfirst wentries g h m db" and "db_Copy ops' db = (db', c)"
  shows "db_ok ops winv wfirst wentries g h m db'"
proof -
  let ?t = "fst (mt_Copy ops' (mt_cacheSize (db_MultiTree db)) (db_MultiTree db))"
  have "db' = db\<lparr>db_MultiTree := ?t\<rparr>" using assms(2) by (simp add: db_Copy_def db_copy_def split_beta)
  moreover have "db_ok ops winv wfirst wentries g h m (db\<lparr>db_MultiTree := ?t\<rparr>)"
  proof (rule db_ok_tree [OF assms(1)])
    show "mt_state ?t = mt_state (db_MultiTree db)" using mt_Copy_state [OF live_inv [OF assms(1)], of ops'] by blast
    show "mt_lastCommitInfo ?t = mt_lastCommitInfo (db_MultiTree db)" "mt_metadata ?t = mt_metadata (db_MultiTree db)"
      by (simp_all add: mt_Copy_def Let_def)
    show "roomy k ?t" if "roomy k (db_MultiTree db)" for k using Copy_roomy [OF that] by blast
  qed
  ultimately show ?thesis by simp
qed

lemma WorkingCommitInfo_keeps:
  assumes "db_ok ops winv wfirst wentries g h m db" and "db_WorkingCommitInfo db = (ci, db')"
  shows "db_ok ops winv wfirst wentries g h m db'"
proof -
  let ?v = "nextVersion (mt_Version (db_MultiTree db)) (mt_initialVersion (db_MultiTree db))"
  let ?t = "snd (buildCommitInfo ?v (db_MultiTree db))"
  have "db' = db\<lparr>db_MultiTree := ?t\<rparr>" using assms(2) by (simp add: db_WorkingCommitInfo_def WorkingCommitInfo_def split_beta)
  moreover have "db_ok ops winv wfirst wentries g h m (db\<lparr>db_MultiTree := ?t\<rparr>)"
  proof (rule db_ok_tree [OF assms(1)])
    show "mt_state ?t = mt_state (db_MultiTree db)" using buildCommitInfo_state [of ?v "db_MultiTree db"] by simp
    show "mt_lastCommitInfo ?t = mt_lastCommitInfo (db_MultiTree db)" "mt_metadata ?t = mt_metadata (db_MultiTree db)"
      by (simp_all add: buildCommitInfo_def Let_def)
    show "roomy k ?t" if "roomy k (db_MultiTree db)" for k using roomy_buildCommitInfo [OF that] by blast
  qed
  ultimately show ?thesis by simp
qed

end
