(* ===== verification/DBCrash.thy ===== *)
theory DBCrash
  imports DBRun
begin

text \<open>
  Reachable states of a database and crashes. A run interleaves the methods, the asynchronous writer and the
  background goroutines in any order; a crash leaves the directory between two of their disk operations.
\<close>

section \<open>Runs\<close>

text \<open>
  One rule for each method and each step of a goroutine, with the entries that it commits. The methods of a block
  succeed: a change set for an unknown store is the caller's error. Upgrades come first in their block, and a
  snapshot is only asked for between blocks and not while another one is written, as the callers do.
\<close>

inductive db_step :: "'c cache_ops \<Rightarrow> 'w wal_pkg \<Rightarrow> walEntry list \<Rightarrow> ('c, 'w) db \<Rightarrow> ('c, 'w) db \<Rightarrow> bool"
  for ops :: "'c cache_ops" and pkg :: "'w wal_pkg" where
  apply_one: "db_ApplyChangeSet ops name cs db = (Inr (), db') \<Longrightarrow> entry_size (pending_entry (db_pendingLog db')) \<le> 2 ^ 60 \<Longrightarrow>
    db_step ops pkg [] db db'"
| apply_many: "db_ApplyChangeSets ops css db = (Inr (), db') \<Longrightarrow> entry_size (pending_entry (db_pendingLog db')) \<le> 2 ^ 60 \<Longrightarrow>
    db_step ops pkg [] db db'"
| upgrade: "db_pendingLog db = empty_pending \<Longrightarrow> db_ApplyUpgrades ops us db = (Inr (), db') \<Longrightarrow> db_step ops pkg [] db db'"
| commit: "Commit ops pkg send env db = (r, db') \<Longrightarrow> db_step ops pkg [pending_entry (db_pendingLog db)] db db'"
| write_async: "db_step ops pkg [] db (writeWALAsync pkg k db)"
| wait_async: "waitAsyncCommit pkg sizes db = (r, db') \<Longrightarrow> db_step ops pkg [] db db'"
| rewrite_now: "db_rewrite db = None \<Longrightarrow> db_pendingLog db = empty_pending \<Longrightarrow> sizes_ok (db_MultiTree db) \<Longrightarrow>
    RewriteSnapshotWithContext sched canceled db = (r, db') \<Longrightarrow> db_step ops pkg [] db db'"
| rewrite_start: "db_pendingLog db = empty_pending \<Longrightarrow> RewriteSnapshotBackground ops db = (r, db') \<Longrightarrow> db_step ops pkg [] db db'"
| rewrite_write: "(\<And>t. db_rewrite db = Some (Writing t) \<Longrightarrow> sizes_ok t) \<Longrightarrow> db_step ops pkg [] db (background_write sched canceled db)"
| rewrite_load: "db_step ops pkg [] db (background_load ops pkg db)"
| prune: "db_step ops pkg [] db (prune_run pkg db)"
| working: "db_WorkingCommitInfo db = (ci, db') \<Longrightarrow> db_step ops pkg [] db db'"
| copy: "db_Copy ops db = (db', c) \<Longrightarrow> db_step ops pkg [] db db'"

inductive db_run :: "'c cache_ops \<Rightarrow> 'w wal_pkg \<Rightarrow> walEntry list \<Rightarrow> ('c, 'w) db \<Rightarrow> ('c, 'w) db \<Rightarrow> bool"
  for ops :: "'c cache_ops" and pkg :: "'w wal_pkg" where
  start: "db_run ops pkg [] db db"
| step: "db_run ops pkg es db db1 \<Longrightarrow> db_step ops pkg es' db1 db2 \<Longrightarrow> db_run ops pkg (es @ es') db db2"

context wal_package
begin

lemma step_keeps:
  assumes "db_step ops pkg es db db'" and "db_ok ops winv wfirst wentries g h m db" and "limits g (h @ es)"
  shows "\<exists>m'. m \<le> m' \<and> db_ok ops winv wfirst wentries g (h @ es) m' db'"
  using assms
proof (induction rule: db_step.induct)
  case (apply_one name cs db db')
  have h: "startable (state_at g h (length h))" "pend_ok (state_at g h (length h)) db"
    using apply_one.prems(1) state_startable by (auto simp: db_ok_def live_ok_def)
  from ApplyChangeSet_effect [OF h apply_one.hyps(1)] show ?case
    using change_keeps [OF apply_one.prems(1) _ _ apply_one.hyps(2)] by auto
next
  case (apply_many css db db')
  have h: "startable (state_at g h (length h))" "pend_ok (state_at g h (length h)) db"
    using apply_many.prems(1) state_startable by (auto simp: db_ok_def live_ok_def)
  from ApplyChangeSets_effect [OF h apply_many.hyps(1)] show ?case
    using change_keeps [OF apply_many.prems(1) _ _ apply_many.hyps(2)] by auto
next
  case (upgrade db us db')
  have p: "pend_ok (state_at g h (length h)) db" using upgrade.prems(1) by (simp add: db_ok_def live_ok_def)
  note u = ApplyUpgrades_effect [OF p upgrade.hyps]
  then have "entry_size (pending_entry (db_pendingLog db')) \<le> 2 ^ 60" using upgrade.hyps(1) by (auto simp: pend_frame_def)
  then show ?case using change_keeps [OF upgrade.prems(1)] u by auto
next
  case (commit send env db r db')
  then show ?case using Commit_keeps [OF commit.prems refl commit.hyps] by blast
next
  case (write_async db k)
  show ?case by (rule async_keeps [OF write_async.prems(1), of k]) auto
next
  case (wait_async sizes db r db')
  then show ?case using waitAsyncCommit_keeps by fastforce
next
  case (rewrite_now db sched canceled r db')
  then show ?case using RewriteSnapshot_keeps by fastforce
next
  case (rewrite_start db r db')
  then have "db' = snd (rewriteSnapshotBackground ops db)" by (auto simp: RewriteSnapshotBackground_def db_ok_def)
  then show ?case using start_rewrite_keeps [OF rewrite_start.prems(1) rewrite_start.hyps(1), of ops] by auto
next
  case (rewrite_write db sched canceled)
  then show ?case using background_write_keeps by fastforce
next
  case (rewrite_load db)
  then show ?case using background_load_keeps by fastforce
next
  case (prune db)
  then show ?case using prune_keeps by fastforce
next
  case (working db ci db')
  then show ?case using WorkingCommitInfo_keeps by fastforce
next
  case (copy db db' c)
  then show ?case using Copy_keeps by fastforce
qed

end

lemma limits_prefix:
  assumes "0 \<le> ms_version g" and "limits g (h @ es)"
  shows "limits g h"
proof -
  have "version_at g (length h) \<le> version_at g (length (h @ es))" using version_at_mono(3) [OF assms(1)] by simp
  then have "small_version (version_at g (length h))"
    using assms(2) version_at_mono(5) [OF assms(1), of "length h"] by (auto simp: limits_def small_version_def)
  then show ?thesis using assms(2) by (auto simp: limits_def total_size_def)
qed

context wal_package
begin

lemma run_keeps:
  assumes "db_run ops pkg es db db'" and "db_ok ops winv wfirst wentries g h m db" and "limits g (h @ es)"
  shows "\<exists>m'. m \<le> m' \<and> db_ok ops winv wfirst wentries g (h @ es) m' db'"
  using assms
proof (induction rule: db_run.induct)
  case (start db)
  then show ?case by auto
next
  case (step es db db1 es' db2)
  have g: "0 \<le> ms_version g" using step.prems(1) by (simp add: db_ok_def hist_ok_def base_ok_def ms_inv_def)
  have l: "limits g ((h @ es) @ es')" using step.prems(2) by simp
  obtain m1 where m1: "m \<le> m1" "db_ok ops winv wfirst wentries g (h @ es) m1 db1"
    using step.IH [OF step.prems(1) limits_prefix [OF g l]] by blast
  obtain m2 where "m1 \<le> m2" "db_ok ops winv wfirst wentries g ((h @ es) @ es') m2 db2"
    using step_keeps [OF step.hyps(2) m1(2) l] by blast
  then show ?case using m1(1) order_trans by (intro exI [of _ m2]) auto
qed

end

section \<open>Crashes\<close>

text \<open>
  The directories that a crash may leave: between two steps of the run, after some of the disk operations of a
  rewrite, with a part of the temporary snapshot written, after some removals of a prune or in the middle of one,
  and with a rewrite and a prune both under way. The operations of the log package count as atomic here: a
  crash falls before or after an append, and what is done about an entry that was cut short is the subject of
  the theory WAL.
\<close>

definition prune_callback :: "int \<Rightarrow> int \<Rightarrow> u32 \<times> db_fs \<Rightarrow> bool result \<times> u32 \<times> db_fs" where
  "prune_callback current version =
     (\<lambda>(counter, fs').
        if version \<ge> current then (Inr False, counter, fs')
        else if counter > 0 then (Inr False, counter - 1, fs')
        else (Inr False, counter, snd (atomicRemoveDir (snapshotName version) fs')))"

lemma prune_snapshots_callback: "prune_snapshots current keep fs = traverseSnapshots fs False (prune_callback current) (keep, fs)"
  by (simp add: prune_snapshots_def prune_callback_def [abs_def] split_beta)

definition pruned_to :: "nat \<Rightarrow> int \<Rightarrow> u32 \<Rightarrow> db_fs \<Rightarrow> db_fs" where
  "pruned_to j current keep fs = snd (snd (traverse_names (prune_callback current) (take j (rev (read_dir fs))) (keep, fs)))"

definition rewriting :: "('c, 'w) db \<Rightarrow> 'c multiTree \<Rightarrow> bool" where
  "rewriting db t \<longleftrightarrow> sizes_ok t \<and>
     (db_rewrite db = Some (Writing t) \<or> db_rewrite db = None \<and> db_pendingLog db = empty_pending \<and> t = db_MultiTree db)"

text \<open>The directory without the work of a rewrite that has not ended; a prune may have removed some of its snapshots.\<close>

definition settled :: "('c, 'w) db \<Rightarrow> db_fs \<Rightarrow> bool" where
  "settled db fs \<longleftrightarrow> fs = db_dir db \<or>
     (\<exists>current j. currentVersion (db_dir db) = Inr current \<and> fs = pruned_to j current (db_snapshotKeepRecent db) (db_dir db))"

inductive crash_dir :: "('c, 'w) db \<Rightarrow> db_fs \<Rightarrow> bool" for db :: "('c, 'w) db" where
  idle: "settled db fs \<Longrightarrow> crash_dir db fs"
| in_rewrite: "settled db fs \<Longrightarrow> rewriting db t \<Longrightarrow> crash_dir db (snd (run_steps (take k (rewrite_steps sched canceled t)) fs))"
| in_write: "settled db fs \<Longrightarrow> rewriting db t \<Longrightarrow> crash_dir db (put_dir (snapshotName (mt_Version t) @ TmpSuffix) d fs)"
| in_remove: "crash_dir db fs \<Longrightarrow> currentVersion (db_dir db) = Inr current \<Longrightarrow>
    name \<in> dir_names fs \<Longrightarrow> parseVersion name = Inr v \<Longrightarrow> v < current \<Longrightarrow>
    crash_dir db (snd (rename_dir name (name @ TmpSuffix) fs))"

definition crashed :: "'w wal_pkg \<Rightarrow> ('c, 'w) db \<Rightarrow> db_fs \<Rightarrow> bool" where
  "crashed pkg db fs \<longleftrightarrow> (\<exists>dir w. crash_dir db dir \<and> db_wal db = Some (WriteLog w) \<and>
     fs = dir\<lparr>fs_wal := wp_files pkg w, fs_locked := False\<rparr>)"

text \<open>What a directory needs to be loaded: its snapshots, a link to the snapshot of version \<open>c\<close> or a later one, and the log.\<close>

definition loadable :: "nat \<Rightarrow> 'c cache_ops \<Rightarrow> mstate \<Rightarrow> walEntry list \<Rightarrow> nat \<Rightarrow> nat \<Rightarrow> bytes list \<Rightarrow> db_fs \<Rightarrow> bool" where
  "loadable c ops g h m first es fs \<longleftrightarrow> dirs_ok ops g h fs \<and> (\<exists>c' \<ge> c. link_ok g h fs c') \<and> log_ok first es g h m fs"

lemma loadable_same:
  assumes "hist_ok g h" and "loadable c ops g h m first es fs" and "same_snapshots fs fs'" and "fs_current fs' = fs_current fs"
  shows "loadable c ops g h m first es fs'"
  using assms(2) same_snapshots_ok [OF assms(3,1)] assms(4) by (auto simp: loadable_def)

lemma rewrite_points:
  assumes h: "hist_ok g h" "n \<le> length h" and f: "dirs_ok ops g h fs" "tmp_ok g h fs" "link_ok g h fs c" "c \<le> n"
    and t: "loaded g h n t" "sizes_ok t" and lg: "log_ok first es g h m fs"
  shows "loadable c ops g h m first es (snd (run_steps (take k (rewrite_steps sched canceled t)) fs))"
proof -
  let ?name = "snapshotName (version_at g n)" and ?fs = "snd (run_steps (take k (rewrite_steps sched canceled t)) fs)"
  have l: "loadable c ops g h m first es fs" using f lg by (auto simp: loadable_def)
  show ?thesis using rewrite_run [OF h f(1,2) t, of sched canceled]
  proof (elim disjE exE conjE)
    fix e fs1
    assume a: "same_snapshots fs fs1" "fs_current fs1 = fs_current fs"
      "\<forall>k. snd (run_steps (take k (rewrite_steps sched canceled t)) fs) \<in> {fs, fs1}"
    then have "?fs = fs \<or> ?fs = fs1" by blast
    then show ?thesis using l loadable_same [OF h(1) l a(1,2)] by auto
  next
    fix d
    let ?a = "added g n d fs"
    assume a: "\<not> has_snapshot g fs n" "snapshot_ok ops g h n d"
      "\<forall>k. snd (run_steps (take k (rewrite_steps sched canceled t)) fs) \<in> {fs, put_dir (tmp_name g n) d fs, ?a,
        ?a\<lparr>fs_currentTmp := Some ?name\<rparr>, ?a\<lparr>fs_current := Some ?name\<rparr>}"
    note ad = added_ok [OF h f(1) a(1,2)]
    have "first \<le> Suc n" using lg f(3,4) by (force simp: log_ok_def link_ok_def)
    then have lga: "log_ok first es g h m ?a" using lg ad(2) by (auto simp: log_ok_def)
    have cl: "c \<le> length h" using f(3) by (simp add: link_ok_def)
    have 1: "loadable c ops g h m first es fs'" if fs': "fs_dirs fs' = fs_dirs ?a" "fs_current fs' = fs_current fs \<or> fs_current fs' = Some ?name" for fs'
    proof -
      note hs = has_snapshot_cong [OF fs'(1), of g]
      have "link_ok g h fs' c \<or> link_ok g h fs' n"
        using fs'(2) f(3) h(2) ad(2) [OF cl] ad(2) [OF h(2)] hs by (auto simp: link_ok_def)
      moreover have "dirs_ok ops g h fs'" using ad(1) dirs_ok_cong [OF fs'(1), of ops g h] by simp
      moreover have "log_ok first es g h m fs'" using lga log_ok_cong [OF fs'(1), of first es g h m] by simp
      ultimately show ?thesis using f(4) by (auto simp: loadable_def)
    qed
    have 2: "loadable c ops g h m first es (put_dir (tmp_name g n) d fs)"
      by (rule loadable_same [OF h(1) l same_tmp(1) [OF h f(1)]]) (simp add: put_dir_def)
    have "?fs \<in> {fs, put_dir (tmp_name g n) d fs, ?a, ?a\<lparr>fs_currentTmp := Some ?name\<rparr>, ?a\<lparr>fs_current := Some ?name\<rparr>}" using a(3) by blast
    then show ?thesis using l 2 1 [of ?a] 1 [of "?a\<lparr>fs_currentTmp := Some ?name\<rparr>"] 1 [of "?a\<lparr>fs_current := Some ?name\<rparr>"]
      by (auto simp: added_def)
  qed
qed

lemma prune_points:
  fixes keep :: u32 and j :: nat
  assumes h: "hist_ok g h" and f: "dirs_ok ops g h fs" "tmp_ok g h fs" "link_ok g h fs c"
  defines "fs' \<equiv> pruned_to j (version_at g c) keep fs"
  shows "dirs_ok ops g h fs' \<and> tmp_ok g h fs' \<and> link_ok g h fs' c \<and> shrunk g fs fs'"
proof -
  let ?names = "take j (rev (read_dir fs))"
  let ?vs = "map name_version (filter isSnapshotName ?names)"
  have sub: "set ?names \<subseteq> set (read_dir fs)" using set_take_subset by fastforce
  have "\<forall>name \<in> set ?names. isSnapshotName name \<longrightarrow> (\<exists>v. small_version v \<and> name = snapshotName v)"
    using dirs_canonical [OF h f(1)] sub by (auto simp: canonical_def read_dir_def)
  note tv = traverse_names_versions [OF this, of "prune_callback (version_at g c)" "(keep, fs)"]
  have "set ?vs \<subseteq> set (versions fs)" using sub by (auto simp: versions_def)
  then have "\<forall>v \<in> set ?vs. \<exists>n \<le> length h. v = version_at g n" using versions_at [OF h f(1)] by blast
  from prune_loop [OF h f this, of keep] show ?thesis
    unfolding fs'_def pruned_to_def tv unfolding prune_callback_def [abs_def] by auto
qed

lemma remove_points:
  assumes h: "hist_ok g h" and l: "loadable c ops g h m first es fs"
    and v: "name \<in> dir_names fs" "parseVersion name = Inr v" "v < version_at g c"
  shows "loadable c ops g h m first es (snd (rename_dir name (name @ TmpSuffix) fs))"
proof (cases "snd (rename_dir name (name @ TmpSuffix) fs) = fs")
  case True
  then show ?thesis using l by simp
next
  case False
  obtain c' where f: "dirs_ok ops g h fs" "c \<le> c'" "link_ok g h fs c'" "log_ok first es g h m fs" using l by (auto simp: loadable_def)
  obtain d where d: "(name, d) \<in> set (fs_dirs fs)" using v(1) by (auto simp: dir_names_def)
  have "isSnapshotName name" using v(2) by (auto simp: parseVersion_def split: if_splits)
  then obtain n where n: "n \<le> length h" "name = snapshotName (version_at g n)" using f(1) d unfolding dirs_ok_def by blast
  then have "v = version_at g n" using v(2) small_version_name(2) [OF small_versions [OF h n(1)]] by simp
  then have "version_at g n < version_at g c" using v(3) by simp
  moreover have g: "0 \<le> ms_version g" using h by (simp add: hist_ok_def base_ok_def ms_inv_def)
  ultimately have nc: "n \<noteq> c'" using version_at_mono(3) [OF g] f(2) by (meson leD)
  have c: "c' \<le> length h" using f(3) by (simp add: link_ok_def)
  let ?fs = "without {name} fs"
  have has: "has_snapshot g ?fs k \<Longrightarrow> has_snapshot g fs k" for k by (simp add: has_snapshot_def names_without)
  have "has_snapshot g ?fs c'" using f(3) name_at_inj [OF h c n(1)] nc n(2) by (auto simp: link_ok_def has_snapshot_def names_without)
  then have "link_ok g h ?fs c'" using f(3) by (simp add: link_ok_def without_def)
  moreover have "log_ok first es g h m ?fs" using f(4) has by (auto simp: log_ok_def)
  ultimately have lo: "loadable c ops g h m first es ?fs" using dirs_ok_without [OF f(1)] f(2) by (auto simp: loadable_def)
  have "snd (rename_dir name (name @ TmpSuffix) fs) = put_dir (tmp_name g n) (the (map_of (fs_dirs fs) name)) ?fs"
    using False n(2) by (auto simp: rename_dir_def remove_dir_without tmp_name_def split: option.splits if_splits)
  moreover have "loadable c ops g h m first es (put_dir (tmp_name g n) d' ?fs)" for d'
    by (rule loadable_same [OF h lo same_tmp(1) [OF h n(1) dirs_ok_without [OF f(1)]]]) (simp add: put_dir_def)
  ultimately show ?thesis by simp
qed

lemma settled_points:
  assumes "hist_ok g h" and "settled db fs" and "log_ok first es g h m (db_dir db)"
    and f: "dirs_ok ops g h (db_dir db)" "tmp_ok g h (db_dir db)" "link_ok g h (db_dir db) c"
  shows "dirs_ok ops g h fs \<and> tmp_ok g h fs \<and> link_ok g h fs c \<and> log_ok first es g h m fs"
proof (cases "fs = db_dir db")
  case False
  then obtain current j where p: "currentVersion (db_dir db) = Inr current" "fs = pruned_to j current (db_snapshotKeepRecent db) (db_dir db)"
    using assms(2) by (auto simp: settled_def)
  have "c \<le> length h" using f(3) by (simp add: link_ok_def)
  then have "current = version_at g c"
    using p(1) f(3) small_version_name(2) [OF small_versions [OF assms(1)]] by (simp add: currentVersion_def link_ok_def)
  then show ?thesis
    using prune_points [OF assms(1) f, of j "db_snapshotKeepRecent db"] p(2) log_ok_shrunk [OF assms(3)] by auto
qed (use assms in simp)

lemma crash_loadable:
  assumes "db_ok ops winv wfirst wentries g h m db" and "crash_dir db dir"
  shows "\<exists>w c. db_wal db = Some (WriteLog w) \<and> winv w \<and> loadable c ops g h m (wfirst w) (wentries w) dir"
proof -
  obtain w c where p: "hist_ok g h" "live_ok g h m db" "rewrite_ok g h db" "db_wal db = Some (WriteLog w)" "winv w"
    "log_ok (wfirst w) (wentries w) g h m (db_dir db)" "dirs_ok ops g h (db_dir db)" "tmp_ok g h (db_dir db)" "link_ok g h (db_dir db) c"
    by (rule db_ok_parts [OF assms(1)])
  have cl: "c \<le> length h" using p(9) by (simp add: link_ok_def)
  have rw: "\<exists>n \<le> length h. loaded g h n t \<and> c \<le> n" if t: "rewriting db t" for t
  proof (cases "db_rewrite db = None")
    case True
    then show ?thesis using t live_loaded [OF p(2)] cl by (auto simp: rewriting_def)
  next
    case False
    then have "db_rewrite db = Some (Writing t)" using t by (auto simp: rewriting_def)
    then show ?thesis using p(3,9) by (auto simp: rewrite_ok_def behind_def)
  qed
  note st = settled_points [OF p(1) _ p(6-9)]
  have "loadable c ops g h m (wfirst w) (wentries w) dir" using assms(2)
  proof (induction rule: crash_dir.induct)
    case (idle fs)
    then show ?case using st by (auto simp: loadable_def)
  next
    case (in_rewrite fs t k sched canceled)
    then obtain n where "n \<le> length h" "loaded g h n t" "c \<le> n" using rw by blast
    then show ?case using rewrite_points [OF p(1)] st [OF in_rewrite(1)] in_rewrite(2) by (auto simp: rewriting_def)
  next
    case (in_write fs t d)
    then obtain n where n: "n \<le> length h" "loaded g h n t" using rw by blast
    have l: "loadable c ops g h m (wfirst w) (wentries w) fs" using st [OF in_write(1)] by (auto simp: loadable_def)
    have "snapshotName (mt_Version t) @ TmpSuffix = tmp_name g n" using loaded_versions_at(1) [OF p(1) n] by (simp add: tmp_name_def)
    then show ?case using loadable_same [OF p(1) l same_tmp(1) [OF p(1) n(1)], of ops d] st [OF in_write(1)] by (simp add: put_dir_def)
  next
    case (in_remove fs current name v)
    have "current = version_at g c"
      using in_remove(2) p(9) small_version_name(2) [OF small_versions [OF p(1) cl]] by (simp add: currentVersion_def link_ok_def)
    then show ?case using remove_points [OF p(1) in_remove(6) in_remove(3,4)] in_remove(5) by simp
  qed
  then show ?thesis using p(4,5) by blast
qed

section \<open>Recovery\<close>

lemma no_tmp_ok: "no_tmp fs \<Longrightarrow> tmp_ok g h fs"
  by (simp add: no_tmp_def tmp_ok_def)

definition plain_load :: "options \<Rightarrow> bool" where
  "plain_load opts \<longleftrightarrow> Validate opts = Inr () \<and> o_TargetVersion opts = 0 \<and> o_InitialStores opts = []"

definition queued :: "('c, 'w) db \<Rightarrow> nat" where
  "queued db = (case db_walChan db of None \<Rightarrow> 0 | Some ch \<Rightarrow> length ch)"

lemma queued_at: "db_ok ops winv wfirst wentries g h m db \<Longrightarrow> m = length h - queued db \<and> queued db \<le> length h"
  by (auto simp: db_ok_def queue_ok_def queued_def unwritten_def log_ok_def split: option.splits)

context wal_package
begin

lemma Load_db_ok:
  assumes h: "hist_ok g h" "disk_ok ops pkg winv wfirst wentries g h (length h) fs" "link_ok g h fs c" "\<not> fs_locked fs"
    and o: "plain_load opts" "\<not> o_ReadOnly opts" and load: "Load ops pkg gjson opts cid fs = (Inr db, fs')"
  shows "db_ok ops winv wfirst wentries g h (length h) db"
proof -
  have lk: "o_ReadOnly opts \<or> \<not> fs_locked fs" using h(4) by simp
  obtain db1 dir fs1 where l: "Load ops pkg gjson opts cid fs = (Inr db1, fs1)" "fs1 = (prepared (o_ReadOnly opts) fs)\<lparr>fs_wal := dir\<rparr>"
    "opened winv wfirst wentries g h (max c (length h)) (length h) (FillDefaults opts) fs1 db1"
    using Load_latest [OF h(1-3) lk, of gjson cid] o(1) unfolding plain_load_def by blast
  have cl: "max c (length h) = length h" using h(3) by (simp add: link_ok_def)
  have db: "db1 = db" using load l(1) by simp
  obtain t hl k where t: "db = new_db (FillDefaults opts) t hl fs1" "loaded g h (length h) t" "k \<le> length h" "SnapshotVersion t = Inr (version_at g k)"
    "handle_inv winv (fs_wal fs1) False hl" "log_ok (handle_first wfirst hl) (handle_entries wentries (fs_wal fs1) hl) g h (length h) fs1"
    using l(3) o(2) unfolding opened_def cl db by auto
  obtain w where w: "hl = WriteLog w" "winv w" using t(5) by (cases hl) (auto simp: handle_inv_def)
  note pr = prepare [OF h(1-3) lk]
  have "dirs_ok ops g h (prepared False fs)" "link_ok g h (prepared False fs) c" "no_tmp (prepared False fs)"
    using pr o(2) cleaned_no_tmp by (simp_all add: disk_ok_def prepared_def)
  then have "files_ok ops g h fs1"
    using l(2) o(2) no_tmp_ok [of fs1 g h] by (auto simp: files_ok_def dirs_ok_def link_ok_def no_tmp_def has_snapshot_def dir_names_def)
  moreover have "log_ok (wfirst w) (wentries w) g h (length h) fs1" using t(6) w(1) by (simp add: handle_defs)
  moreover have "live_ok g h (length h) db" by (rule loaded_live [OF t(2-4)]) (simp_all add: t(1) new_db_def)
  moreover have "o_SnapshotInterval (FillDefaults opts) \<noteq> 0" by (simp add: FillDefaults_def DefaultSnapshotInterval_def)
  ultimately show ?thesis
    using h(1) o(2) w unfolding t(1) by (simp add: db_ok_def new_db_def rewrite_ok_def queue_ok_def)
qed

lemma crash_recovers:
  assumes d: "db_ok ops winv wfirst wentries g h m db" and c: "crashed pkg db fs" and o: "plain_load opts"
  shows "\<exists>n db' fs'. Load ops pkg gjson opts cid fs = (Inr db', fs') \<and> m \<le> n \<and> n \<le> length h \<and>
    mt_state (db_MultiTree db') = state_at g h n \<and> mt_lastCommitInfo (db_MultiTree db') = spec_info (version_at g n) (state_at g h n) \<and>
    db_pendingLog db' = empty_pending"
proof -
  have h: "hist_ok g h" using d by (simp add: db_ok_def)
  obtain dir w where dir: "crash_dir db dir" "db_wal db = Some (WriteLog w)" "fs = dir\<lparr>fs_wal := wp_files pkg w, fs_locked := False\<rparr>"
    using c by (auto simp: crashed_def)
  obtain c where w: "winv w" "loadable c ops g h m (wfirst w) (wentries w) dir" using crash_loadable [OF d dir(1)] dir(2) by auto
  have fd: "fs_dirs fs = fs_dirs dir" "fs_current fs = fs_current dir" using dir(3) by simp_all
  obtain k where k: "link_ok g h dir k" using w(2) by (auto simp: loadable_def)
  have "disk_ok ops pkg winv wfirst wentries g h m fs"
    using w dirs_ok_cong [OF fd(1), of ops g h] log_ok_cong [OF fd(1), of "wfirst w" "wentries w" g h m] dir(3)
    by (auto simp: disk_ok_def loadable_def)
  moreover have "link_ok g h fs k" using k fd has_snapshot_cong [OF fd(1), of g] by (simp add: link_ok_def)
  moreover have "o_ReadOnly opts \<or> \<not> fs_locked fs" using dir(3) by simp
  ultimately obtain db' fs' where l: "Load ops pkg gjson opts cid fs = (Inr db', fs')"
    "opened winv wfirst wentries g h (max k m) m (FillDefaults opts) fs' db'"
    using Load_latest [OF h, of ops m fs k opts gjson cid] o unfolding plain_load_def by blast
  have "max k m \<le> length h" using k w(2) by (auto simp: link_ok_def loadable_def log_ok_def)
  then show ?thesis using l by (intro exI [of _ "max k m"] exI [of _ db'] exI [of _ fs']) (auto simp: opened_def loaded_def new_db_def)
qed

end

section \<open>A new database\<close>

definition new_state :: "u32 \<Rightarrow> mstate" where
  "new_state iv = \<lparr>ms_initial = iv, ms_version = 0, ms_index = Map.empty, ms_trees = []\<rparr>"

lemma new_hist: "hist_ok (new_state iv) []"
  by (simp add: hist_ok_def base_ok_def new_state_def ms_inv_def index_map_def walIndex_def nextVersion_def total_size_def small_version_def)

lemma new_loaded: "loaded (new_state iv) [] 0 (NewEmptyMultiTree iv cs cid)"
  by (simp add: loaded_def state_at_def new_state_def mt_state_def NewEmptyMultiTree_def mt_Version_def spec_info_def roomy_def)

lemma new_sizes: "sizes_ok (NewEmptyMultiTree iv cs cid)"
proof -
  have "unat (iv) < 128 ^ Suc 9" using unat_u32_less [of iv] by simp
  then have "length (put_uvarint (unat iv)) \<le> Suc 9" by (rule length_put_uvarint_le)
  moreover have "unat (word_of_int (int (unat iv)) :: u64) = unat iv" using unat_u32_less [of iv] unat_u64 [of "unat iv"] by simp
  ultimately show ?thesis
    by (simp add: sizes_ok_def metadata_of_def NewEmptyMultiTree_def MultiTreeMetadata_Marshal_def CommitInfo_Marshal_def pb_msg_def
        pb_int_def pb_repeated_def PutUvarint_def put_uvarint_small)
qed

lemma create_ok:
  assumes "fs_dirs fs = []" and "fs_current fs = None" and "fs_currentTmp fs = None"
  shows "\<exists>d. createDBIfNotExist iv cid fs = (Inr (), fs\<lparr>fs_dirs := [(snapshotName 0, d)], fs_current := Some (snapshotName 0)\<rparr>) \<and>
    snapshot_ok ops (new_state iv) [] 0 d"
proof -
  let ?t = "NewEmptyMultiTree iv 0 cid :: unit multiTree"
  obtain d where d: "WriteSnapshotWithContext undisturbed False ?t = Inr d" "snapshot_ok ops (new_state iv) [] 0 d"
    using snapshot_written [OF new_hist _ new_loaded new_sizes, of iv 0 cid ops] by auto
  have g: "get_dir (snapshotName 0) fs = empty_dir" "sd_metadata (current_dir fs) = None"
    using assms by (simp_all add: get_dir_def current_dir_def empty_dir_def)
  have "initEmptyDB iv cid fs = (Inr (), fs\<lparr>fs_dirs := [(snapshotName 0, d)], fs_current := Some (snapshotName 0)\<rparr>)"
    using assms g(1) d(1) overlay_new(1) [OF d(1)]
    by (cases fs) (simp add: initEmptyDB_def writeSnapshotWithLimit_def put_dir_def updateCurrentSymlink_def symlink_tmp_def rename_tmp_def)
  then show ?thesis using d(2) g(2) by (auto simp: createDBIfNotExist_def)
qed

lemma new_dir_ok:
  assumes "snapshot_ok ops (new_state iv) [] 0 d" and "fs_dirs fs = [(snapshotName 0, d)]" and "fs_current fs = Some (snapshotName 0)" and "fs_wal fs = []"
  shows "disk_ok ops pkg winv wfirst wentries (new_state iv) [] 0 fs" "link_ok (new_state iv) [] fs 0"
proof -
  have v: "version_at (new_state iv) 0 = 0" by (simp add: new_state_def)
  show "link_ok (new_state iv) [] fs 0" using assms(2,3) v by (simp add: link_ok_def has_snapshot_def dir_names_def)
  have "dirs_ok ops (new_state iv) [] fs" using assms(1,2) v by (auto simp: dirs_ok_def)
  then show "disk_ok ops pkg winv wfirst wentries (new_state iv) [] 0 fs" using assms(4) by (simp add: disk_ok_def log_ok_def)
qed

end
