(* ===== verification/DBProps.thy ===== *)
theory DBProps
  imports DBCrash
begin

text \<open>
  What the database guarantees: its live trees are those of the committed entries, a crash loses nothing that was
  written to the log, any version in reach of a snapshot can be loaded, and a rollback leaves the history up to
  its target. Waiting for the log ends. The last section shows two defects of the code.
\<close>

section \<open>An example\<close>

text \<open>A directory with the snapshot of the empty database and one entry in the log, which adds a store and a key.\<close>

definition new_snapshot :: snapshot_dir where
  "new_snapshot = (case WriteSnapshotWithContext undisturbed False (NewEmptyMultiTree 10 0 ''chain'' :: unit multiTree) of
     Inl e \<Rightarrow> empty_dir | Inr d \<Rightarrow> d)"

definition bank_log :: mem_log where
  "bank_log = \<lparr>lg_first = 1, lg_entries = [WALEntry_Marshal bank_entry]\<rparr>"

definition bank_dir :: db_fs where
  "bank_dir = \<lparr>fs_locked = False, fs_current = Some (snapshotName 0), fs_currentTmp = None,
     fs_dirs = [(snapshotName 0, new_snapshot)], fs_wal = log_files bank_log\<rparr>"

lemma new_snapshot_ok: "snapshot_ok ops (new_state 10) [] 0 new_snapshot"
proof -
  obtain d where "WriteSnapshotWithContext undisturbed False (NewEmptyMultiTree 10 0 ''chain'' :: unit multiTree) = Inr d"
    "snapshot_ok ops (new_state 10) [] 0 d"
    using snapshot_written [OF new_hist _ new_loaded new_sizes, of 10 0 "''chain''" ops] by auto
  then show ?thesis by (simp add: new_snapshot_def)
qed

lemma bank_entry_size: "length (WALEntry_Marshal bank_entry) < 1000"
  by (simp add: bank_entry_def add_bank_def WALEntry_Marshal_def NamedChangeSet_Marshal_def ChangeSet_Marshal_def KVPair_Marshal_def
      TreeNameUpgrade_Marshal_def pb_repeated_def pb_msg_def pb_bytes_def pb_bool_def PutUvarint_def put_uvarint_small string_bytes_def nonnil_def)

lemma bank_state: "new_state 10 = mt_state mt0"
  by (simp add: new_state_def mt_state_def mt0_def NewEmptyMultiTree_def mt_Version_def)

lemma bank_hist: "hist_ok (new_state 10) [bank_entry]"
proof -
  have "version_at (new_state 10) 1 = 10" by (simp add: version_at_def new_state_def nextVersion_def)
  then have "limits (new_state 10) [bank_entry]"
    using bank_entry_size by (simp add: limits_def small_version_def total_size_def entry_size_def bank_entry_def)
  then show ?thesis using new_hist [of 10] bank_run by (simp add: hist_ok_limits bank_state)
qed

lemma bank_log_inv: "file_inv bank_log"
  using bank_entry_size by (simp add: file_inv_def bank_log_def log_inv_def)

lemma bank_dir_ok:
  "disk_ok lru_ops one_file_log file_inv lg_first lg_entries (new_state 10) [bank_entry] 1 bank_dir"
  "link_ok (new_state 10) [bank_entry] bank_dir 0" "\<not> fs_locked bank_dir" "has_snapshot (new_state 10) bank_dir 0"
proof -
  have v: "version_at (new_state 10) 0 = 0" by (simp add: new_state_def)
  have s: "snapshot_ok lru_ops (new_state 10) [bank_entry] 0 new_snapshot"
    using new_snapshot_ok [of lru_ops] extends_snapshot [of "[]" "[bank_entry]" 0 lru_ops "new_state 10" new_snapshot] by (simp add: extends_def)
  have "dirs_ok lru_ops (new_state 10) [bank_entry] bank_dir" using s v by (auto simp: dirs_ok_def bank_dir_def)
  moreover have "log_ok (lg_first bank_log) (lg_entries bank_log) (new_state 10) [bank_entry] 1 bank_dir"
    by (simp add: log_ok_def bank_log_def)
  moreover have "fs_wal bank_dir = wp_files one_file_log bank_log" by (simp add: bank_dir_def one_file_log_def)
  ultimately show "disk_ok lru_ops one_file_log file_inv lg_first lg_entries (new_state 10) [bank_entry] 1 bank_dir"
    unfolding disk_ok_def using bank_log_inv by blast
  show "link_ok (new_state 10) [bank_entry] bank_dir 0" "\<not> fs_locked bank_dir" "has_snapshot (new_state 10) bank_dir 0"
    using v by (simp_all add: link_ok_def has_snapshot_def dir_names_def bank_dir_def)
qed

section \<open>Properties\<close>

text \<open>
  C1: a crash loses nothing that was written. A database is loaded from a consistent directory and runs: blocks of
  changes, commits, the asynchronous writer, snapshot rewrites and prunes, interleaved in any order. Then the
  process dies, between two steps, in the middle of a rewrite, with a half-written temporary snapshot or in the
  middle of a prune. The directory loads again, and the trees and the commit info are those after a prefix of the
  committed entries that misses at most the entries that were still in the queue of the asynchronous writer; with
  synchronous writing it is the state after all of them.
\<close>

theorem crash_recovery:
  assumes "wal_package pkg winv wfirst wentries"
    and "hist_ok g h" and "disk_ok ops pkg winv wfirst wentries g h (length h) fs0" and "link_ok g h fs0 c" and "\<not> fs_locked fs0"
    and "plain_load opts" and "\<not> o_ReadOnly opts" and "Load ops pkg gjson opts cid fs0 = (Inr start, fs1)"
    and "db_run ops pkg es start db" and "limits g (h @ es)" and "crashed pkg db fs" and "plain_load opts'"
  shows "\<exists>n db' fs'. Load ops pkg gjson' opts' cid' fs = (Inr db', fs') \<and>
    length (h @ es) - queued db \<le> n \<and> n \<le> length (h @ es) \<and> mt_state (db_MultiTree db') = state_at g (h @ es) n \<and>
    mt_lastCommitInfo (db_MultiTree db') = spec_info (version_at g n) (state_at g (h @ es) n) \<and> db_pendingLog db' = empty_pending"
proof -
  note wp = assms(1)
  have "db_ok ops winv wfirst wentries g h (length h) start" by (rule wal_package.Load_db_ok [OF wp assms(2-8)])
  from wal_package.run_keeps [OF wp assms(9) this assms(10)] obtain m where
    d: "db_ok ops winv wfirst wentries g (h @ es) m db" by blast
  have "m = length (h @ es) - queued db" using queued_at [OF d] by blast
  then show ?thesis using wal_package.crash_recovers [OF wp d assms(11,12), of gjson' cid'] by blast
qed

lemma plain_options_load: "plain_load plain_options" "\<not> o_ReadOnly plain_options"
  by (simp_all add: plain_load_def plain_options_def Validate_def)

text \<open>One more commit in the example.\<close>

lemma bank_run_commit:
  obtains start fs1 r db w where "Load lru_ops one_file_log (\<lambda>_. True) plain_options ''chain'' bank_dir = (Inr start, fs1)"
    "Commit lru_ops one_file_log True \<lparr>we_start = 0, we_polls = []\<rparr> start = (r, db)" "db_wal db = Some (WriteLog w)"
    "db_run lru_ops one_file_log [pending_entry empty_pending] start db" "limits (new_state 10) ([bank_entry] @ [pending_entry empty_pending])"
proof -
  have lk: "o_ReadOnly plain_options \<or> \<not> fs_locked bank_dir" using bank_dir_ok(3) by simp
  have pl: "Validate plain_options = Inr ()" "o_TargetVersion plain_options = 0" "o_InitialStores plain_options = []"
    by (simp_all add: plain_options_def Validate_def)
  obtain start fs1 where l: "Load lru_ops one_file_log (\<lambda>_. True) plain_options ''chain'' bank_dir = (Inr start, fs1)"
    "opened file_inv lg_first lg_entries (new_state 10) [bank_entry] (max 0 1) 1 (FillDefaults plain_options) fs1 start"
    using one_file.Load_latest [OF bank_hist bank_dir_ok(1,2) lk pl, of "\<lambda>_. True" "''chain''"] by blast
  have e: "db_pendingLog start = empty_pending"
    using l(2) by (auto simp: opened_def new_db_def FillDefaults_def plain_options_def)
  obtain r db where c: "Commit lru_ops one_file_log True \<lparr>we_start = 0, we_polls = []\<rparr> start = (r, db)" by force
  have run: "db_run lru_ops one_file_log [pending_entry empty_pending] start db"
    using db_run.step [OF db_run.start db_step.commit [OF c]] e by simp
  have "version_at (new_state 10) (Suc (Suc 0)) = 11" by (simp add: version_at_def new_state_def nextVersion_def)
  then have lim: "limits (new_state 10) ([bank_entry] @ [pending_entry empty_pending])"
    using bank_entry_size by (simp add: limits_def small_version_def total_size_def entry_size_def bank_entry_def pending_entry_def
        empty_pending_def WALEntry_Marshal_def pb_repeated_def)
  have "db_ok lru_ops file_inv lg_first lg_entries (new_state 10) [bank_entry] 1 start"
    using one_file.Load_db_ok [OF bank_hist _ bank_dir_ok(2,3) plain_options_load l(1)] bank_dir_ok(1) by simp
  from one_file.Commit_keeps [OF this _ _ c] lim e obtain m' where
    d: "db_ok lru_ops file_inv lg_first lg_entries (new_state 10) ([bank_entry] @ [pending_entry empty_pending]) m' db" by auto
  then obtain w where w: "db_wal db = Some (WriteLog w)" by (auto simp: db_ok_def)
  show thesis using that l(1) c w run lim by blast
qed

theorem crash_recovery_witness:
  "\<exists>(db :: (lru, _) db) fs n db' fs'. crashed one_file_log db fs \<and>
     Load lru_ops one_file_log (\<lambda>_. True) plain_options ''chain'' fs = (Inr db', fs') \<and>
     2 - queued db \<le> n \<and> n \<le> 2 \<and> mt_state (db_MultiTree db') = state_at (new_state 10) [bank_entry, pending_entry empty_pending] n"
proof -
  obtain start fs1 r and db :: "(lru, _) db" and w where x: "Load lru_ops one_file_log (\<lambda>_. True) plain_options ''chain'' bank_dir = (Inr start, fs1)"
    "Commit lru_ops one_file_log True \<lparr>we_start = 0, we_polls = []\<rparr> start = (r, db)" "db_wal db = Some (WriteLog w)"
    "db_run lru_ops one_file_log [pending_entry empty_pending] start db" "limits (new_state 10) ([bank_entry] @ [pending_entry empty_pending])"
    by (rule bank_run_commit)
  have c: "crashed one_file_log db ((db_dir db)\<lparr>fs_wal := wp_files one_file_log w, fs_locked := False\<rparr>)"
    using x(3) crash_dir.idle [of db "db_dir db"] by (auto simp: crashed_def settled_def)
  have "disk_ok lru_ops one_file_log file_inv lg_first lg_entries (new_state 10) [bank_entry] (length [bank_entry]) bank_dir"
    using bank_dir_ok(1) by simp
  from crash_recovery [OF one_file.wal_package_axioms bank_hist this bank_dir_ok(2,3) plain_options_load x(1,4,5) c plain_options_load(1),
      of "\<lambda>_. True" "''chain''"] c
  show ?thesis by (simp add: numeral_2_eq_2) blast
qed

text \<open>
  C2: what holds at every moment of a running database, whatever it has done since it was loaded. The trees are those
  of the replayed history with the pending entry applied, the commit info is that of the last version, no
  error is latched, the log holds exactly the committed entries from its first index on except those still queued,
  and \<^verbatim>\<open>current\<close> leads to a snapshot of a committed version that the log can catch up from. A commit
  returns the next version, or reports that its wait for the log timed out, or is still waiting.
\<close>

theorem running_database:
  assumes "wal_package pkg winv wfirst wentries"
    and "hist_ok g h" and "disk_ok ops pkg winv wfirst wentries g h (length h) fs0" and "link_ok g h fs0 c" and "\<not> fs_locked fs0"
    and "plain_load opts" and "\<not> o_ReadOnly opts" and "Load ops pkg gjson opts cid fs0 = (Inr start, fs1)"
    and "db_run ops pkg es start db" and "limits g (h @ es)"
    and "h' = h @ es" and "m = length h' - queued db" and "s = state_at g h' (length h')"
  shows "spec_entry (pending_entry (db_pendingLog db)) s = (Inr (), mt_state (db_MultiTree db)) \<and>
    mt_lastCommitInfo (db_MultiTree db) = spec_info (version_at g (length h')) s \<and> walError db = Inr () \<and>
    (\<exists>w. db_wal db = Some (WriteLog w) \<and> wfirst w \<le> Suc m \<and> wentries w = map WALEntry_Marshal (drop (wfirst w - 1) (take m h')) \<and>
      (\<exists>k \<le> length h'. fs_current (db_dir db) = Some (snapshotName (version_at g k)) \<and>
        snapshotName (version_at g k) \<in> fst ` set (fs_dirs (db_dir db)) \<and> wfirst w \<le> Suc k)) \<and>
    (\<forall>send env r db'. Commit ops pkg send env db = (r, db') \<and> limits g (h' @ [pending_entry (db_pendingLog db)]) \<longrightarrow>
      r \<in> {None, Some (Inr (version_at g (Suc (length h')))), Some (Inl ErrWalTimeout)})"
proof -
  note wp = assms(1)
  have "db_ok ops winv wfirst wentries g h (length h) start" by (rule wal_package.Load_db_ok [OF wp assms(2-8)])
  from wal_package.run_keeps [OF wp assms(9) this assms(10)] obtain m' where
    d: "db_ok ops winv wfirst wentries g h' m' db" unfolding assms(11) by blast
  have "m = m'" using queued_at [OF d] assms(12) by simp
  with d have d: "db_ok ops winv wfirst wentries g h' m db" by simp
  then obtain w k where w: "db_wal db = Some (WriteLog w)" "log_ok (wfirst w) (wentries w) g h' m (db_dir db)" "link_ok g h' (db_dir db) k"
    unfolding db_ok_def files_ok_def by blast
  then have "\<exists>w. db_wal db = Some (WriteLog w) \<and> wfirst w \<le> Suc m \<and> wentries w = map WALEntry_Marshal (drop (wfirst w - 1) (take m h')) \<and>
      (\<exists>k \<le> length h'. fs_current (db_dir db) = Some (snapshotName (version_at g k)) \<and>
        snapshotName (version_at g k) \<in> fst ` set (fs_dirs (db_dir db)) \<and> wfirst w \<le> Suc k)"
    by (auto simp: log_ok_def link_ok_def has_snapshot_def dir_names_def)
  moreover have "walError db = Inr ()" using d by (simp add: db_ok_def walError_def)
  moreover have "r \<in> {None, Some (Inr (version_at g (Suc (length h')))), Some (Inl ErrWalTimeout)}"
    if "Commit ops pkg send env db = (r, db')" "limits g (h' @ [pending_entry (db_pendingLog db)])" for send env r db'
    using wal_package.Commit_keeps [OF wp d _ _ that(1)] that(2) by auto
  ultimately show ?thesis using d assms(13) by (auto simp: db_ok_def live_ok_def pend_ok_def)
qed

theorem running_database_witness:
  "\<exists>start (db :: (lru, _) db). db_run lru_ops one_file_log [pending_entry empty_pending] start db \<and> mt_lastCommitInfo (db_MultiTree db) =
       spec_info (version_at (new_state 10) 2) (state_at (new_state 10) [bank_entry, pending_entry empty_pending] 2) \<and> walError db = Inr ()"
proof -
  obtain start fs1 r and db :: "(lru, _) db" and w where x: "Load lru_ops one_file_log (\<lambda>_. True) plain_options ''chain'' bank_dir = (Inr start, fs1)"
    "Commit lru_ops one_file_log True \<lparr>we_start = 0, we_polls = []\<rparr> start = (r, db)" "db_wal db = Some (WriteLog w)"
    "db_run lru_ops one_file_log [pending_entry empty_pending] start db" "limits (new_state 10) ([bank_entry] @ [pending_entry empty_pending])"
    by (rule bank_run_commit)
  have d: "disk_ok lru_ops one_file_log file_inv lg_first lg_entries (new_state 10) [bank_entry] (length [bank_entry]) bank_dir"
    using bank_dir_ok(1) by simp
  from running_database [OF one_file.wal_package_axioms bank_hist d bank_dir_ok(2,3) plain_options_load x(1,4,5) refl refl refl]
  have "mt_lastCommitInfo (db_MultiTree db) = spec_info (version_at (new_state 10) 2) (state_at (new_state 10) [bank_entry, pending_entry empty_pending] 2)"
    "walError db = Inr ()" by (simp_all add: numeral_2_eq_2)
  then show ?thesis using x(4) by blast
qed

text \<open>
  C9: a database can be loaded at any version of its past. When the directory has a snapshot that is not newer than
  the target and the log reaches the target, loading gives the trees and the commit info of exactly that version,
  whichever snapshots and later entries there are besides; the directory keeps its snapshots and its link.
\<close>

theorem load_at_version:
  assumes "wal_package pkg winv wfirst wentries"
    and "hist_ok g h" and "disk_ok ops pkg winv wfirst wentries g h m fs" and "link_ok g h fs c"
    and "o_ReadOnly opts \<or> \<not> fs_locked fs" and "Validate opts = Inr ()" and "\<not> o_LoadForOverwriting opts"
    and "p \<le> m" and "int (unat (o_TargetVersion opts)) = version_at g p" and "o_TargetVersion opts > 0"
    and "has_snapshot g fs n" and "n \<le> p"
  shows "\<exists>db fs'. Load ops pkg gjson opts cid fs = (Inr db, fs') \<and> mt_state (db_MultiTree db) = state_at g h p \<and>
    mt_lastCommitInfo (db_MultiTree db) = spec_info (version_at g p) (state_at g h p) \<and>
    fs_current fs' = fs_current fs \<and> (\<forall>k \<le> length h. has_snapshot g fs' k = has_snapshot g fs k)"
proof -
  obtain db dir fs' where l: "Load ops pkg gjson opts cid fs = (Inr db, fs')" "fs' = (prepared (o_ReadOnly opts) fs)\<lparr>fs_wal := dir\<rparr>"
    "opened winv wfirst wentries g h p m (FillDefaults opts) fs' db"
    using wal_package.Load_at_target [OF assms, of gjson cid] by blast
  show ?thesis
    using l prepare(3,4) [OF assms(2-5)] assms(4)
    by (auto simp: opened_def loaded_def new_db_def link_ok_def has_snapshot_def dir_names_def)
qed

theorem load_at_version_witness:
  "\<exists>(db :: (lru, _) db) fs'. Load lru_ops one_file_log (\<lambda>_. True) (plain_options\<lparr>o_TargetVersion := 10\<rparr>) ''chain'' bank_dir = (Inr db, fs') \<and>
     mt_state (db_MultiTree db) = state_at (new_state 10) [bank_entry] 1"
proof -
  let ?o = "plain_options\<lparr>o_TargetVersion := 10\<rparr>"
  have o: "o_ReadOnly ?o \<or> \<not> fs_locked bank_dir" "Validate ?o = Inr ()" "\<not> o_LoadForOverwriting ?o" "(1::nat) \<le> 1"
    "int (unat (o_TargetVersion ?o)) = version_at (new_state 10) 1" "o_TargetVersion ?o > 0" "(0::nat) \<le> 1"
    using bank_dir_ok(3) by (simp_all add: plain_options_def Validate_def version_at_def new_state_def nextVersion_def)
  show ?thesis
    using load_at_version [OF one_file.wal_package_axioms bank_hist bank_dir_ok(1,2) o(1-6) bank_dir_ok(4) o(7), of "\<lambda>_. True" "''chain''"] by blast
qed




text \<open>A wait for the log: each progress of the log moves the deadline, but the index it has seen can only grow.\<close>

lemma wait_loop_success:
  "wait_loop t timeout deadline seen polls = Some (Inr ()) \<Longrightarrow>
     \<exists>p \<in> set polls. \<exists>i. fst (snd p) = Inr i \<and> wt_version t \<le> committedVersionAt i (wt_initialVersion t) (wt_snapshotVersion t)"
  by (induction t timeout deadline seen polls rule: wait_loop.induct) (auto simp: Let_def split: option.splits sum.splits if_splits)

definition poll_end :: "poll \<Rightarrow> nat" where
  "poll_end p = snd (snd (snd p))"

definition clock_runs :: "(nat \<Rightarrow> poll) \<Rightarrow> bool" where
  "clock_runs ps \<longleftrightarrow> (\<forall>b. \<exists>i. b < poll_end (ps i))"

lemma clock_runs_Suc: "clock_runs ps \<Longrightarrow> clock_runs (\<lambda>i. ps (Suc i))"
  unfolding clock_runs_def
proof
  fix b assume "\<forall>b. \<exists>i. b < poll_end (ps i)"
  then obtain i where "max b (poll_end (ps 0)) < poll_end (ps i)" by blast
  then show "\<exists>i. b < poll_end (ps (Suc i))" by (cases i) auto
qed

lemma wait_loop_step:
  assumes later: "\<And>seen' deadline'. seen < seen' \<Longrightarrow> \<exists>k r. wait_loop t timeout deadline' seen' (map (\<lambda>i. ps (Suc i)) [0..<k]) = Some r"
    and same: "\<not> deadline < poll_end (ps 0) \<Longrightarrow> \<exists>k r. wait_loop t timeout deadline seen (map (\<lambda>i. ps (Suc i)) [0..<k]) = Some r"
  shows "\<exists>k r. wait_loop t timeout deadline seen (map ps [0..<k]) = Some r"
proof -
  obtain err logged now1 now2 where p: "ps 0 = (err, logged, now1, now2)" by (cases "ps 0")
  have m: "map ps [0..<Suc k] = ps 0 # map (\<lambda>i. ps (Suc i)) [0..<k]" for k by (simp add: map_upt_Suc del: upt_Suc)
  show ?thesis
  proof (cases "\<exists>r. wait_loop t timeout deadline seen [ps 0] = Some r")
    case True
    then show ?thesis using m [of 0] by (intro exI [of _ "Suc 0"]) simp
  next
    case False
    then obtain i where i: "err = None" "logged = Inr i" by (cases err; cases logged) (auto simp: p)
    have "\<exists>k r. wait_loop t timeout deadline seen (ps 0 # map (\<lambda>i. ps (Suc i)) [0..<k]) = Some r"
    proof (cases "seen < i")
      case True
      then show ?thesis using False i later [OF True, of "now1 + timeout"] by (auto simp: p Let_def split: if_splits)
    next
      case ni: False
      then show ?thesis using False i same by (auto simp: p Let_def poll_end_def split: if_splits)
    qed
    then show ?thesis unfolding m [symmetric] by blast
  qed
qed

lemma wait_loop_ends:
  "clock_runs ps \<Longrightarrow> \<exists>k r. wait_loop t timeout deadline seen (map ps [0..<k]) = Some r"
proof (induction "2 ^ 64 - unat seen" arbitrary: seen deadline ps rule: less_induct)
  case less
  have later: "\<exists>k r. wait_loop t timeout deadline' seen' (map ps' [0..<k]) = Some r" if "seen < seen'" "clock_runs ps'" for seen' deadline' ps'
  proof -
    have "unat seen < unat seen'" "unat seen' < 2 ^ 64" using that(1) unsigned_less [of seen'] by (simp_all add: word_less_nat_alt)
    then have "2 ^ 64 - unat seen' < 2 ^ 64 - unat seen" by linarith
    then show ?thesis using less.hyps that(2) by blast
  qed
  obtain i where "deadline < poll_end (ps i)" using less.prems by (auto simp: clock_runs_def)
  then show ?case using less.prems
  proof (induction i arbitrary: ps)
    case (0 ps)
    show ?case by (rule wait_loop_step) (use 0 later clock_runs_Suc in auto)
  next
    case (Suc i ps)
    have c: "clock_runs (\<lambda>i. ps (Suc i))" by (rule clock_runs_Suc) (rule Suc.prems(2))
    show ?case using wait_loop_step [of seen t timeout ps deadline] later [OF _ c] Suc.IH [OF Suc.prems(1) c] by blast
  qed
qed

text \<open>
  C13: waiting for the log ends. Whatever the polls see and however often the log makes progress (each time the
  deadline moves), a clock that runs on ends the wait after finitely many polls; success is reported only
  when some poll saw the target version in the log.
\<close>

theorem waitForWAL_ends:
  assumes "clock_runs ps"
  shows "\<exists>k r. waitForWAL t timeout now latched (map ps [0..<k]) = Some r \<and>
    (r = Inr () \<and> 0 < wt_version t \<and> int (unat (wt_initialVersion t)) \<le> wt_version t \<longrightarrow>
      (\<exists>i < k. \<exists>l. fst (snd (ps i)) = Inr l \<and> wt_version t \<le> committedVersionAt l (wt_initialVersion t) (wt_snapshotVersion t)))"
proof (cases "wt_version t < int (unat (wt_initialVersion t)) \<or> wt_version t \<le> 0")
  case True
  then show ?thesis by (auto simp: waitForWAL_def simp del: of_nat_unat)
next
  case False
  obtain k r where k: "wait_loop t timeout (now + timeout) 0 (map ps [0..<k]) = Some r" using wait_loop_ends [OF assms] by blast
  then have "waitForWAL t timeout now latched (map ps [0..<k]) = Some r" unfolding waitForWAL_def using False by (simp del: of_nat_unat)
  moreover have "\<exists>i < k. \<exists>l. fst (snd (ps i)) = Inr l \<and> wt_version t \<le> committedVersionAt l (wt_initialVersion t) (wt_snapshotVersion t)"
    if "r = Inr ()" using wait_loop_success [of t timeout "now + timeout" 0 "map ps [0..<k]"] k that by auto
  ultimately show ?thesis by blast
qed

theorem waitForWAL_ends_witness:
  "\<exists>k r. waitForWAL \<lparr>wt_initialVersion = 1, wt_version = 3, wt_snapshotVersion = 0\<rparr> 5 0 (Inr ()) (map (\<lambda>i. (None, Inr 1, i, i)) [0..<k]) = Some r"
proof -
  have "clock_runs (\<lambda>i. (None, Inr 1, i, i))" unfolding clock_runs_def poll_end_def by auto
  from waitForWAL_ends [OF this] show ?thesis by blast
qed

text \<open>
  C37: a first creation that is interrupted blocks the directory. When the process dies between making the temporary
  link and renaming it, every later load that creates a missing database fails, because the creation comes before the
  cleanup of leftovers and makes the temporary link again: however often it is tried, the answer is that the
  file exists.
\<close>

theorem interrupted_creation_blocks:
  assumes "fs_current fs = None" and "fs_currentTmp fs = None" and "o_CreateIfMissing opts" and "Validate opts = Inr ()"
    and "stopped = snd (run_steps [writeSnapshotWithLimit undisturbed False (NewEmptyMultiTree (o_InitialVersion opts) 0 cid :: unit multiTree)
      (snapshotName 0), symlink_tmp (snapshotName 0)] fs)"
  shows "fst (Load ops pkg gjson opts cid (((\<lambda>fs. snd (Load ops pkg gjson opts cid fs)) ^^ n) stopped)) = Inl ErrExist"
proof -
  let ?t = "NewEmptyMultiTree (o_InitialVersion opts) 0 cid :: unit multiTree"
  obtain d where d: "WriteSnapshotWithContext undisturbed False ?t = Inr d"
    using snapshot_written [OF new_hist _ new_loaded new_sizes, of "o_InitialVersion opts" 0 cid lru_ops] by auto
  have load: "\<exists>fs''. Load ops pkg gjson opts cid fs' = (Inl ErrExist, fs'') \<and> fs_current fs'' = None \<and> fs_currentTmp fs'' \<noteq> None"
    if "fs_current fs' = None" "fs_currentTmp fs' \<noteq> None" for fs'
  proof -
    have "createDBIfNotExist (o_InitialVersion opts) cid fs' =
        (Inl ErrExist, put_dir (snapshotName 0) (overlay (get_dir (snapshotName 0) fs') d) fs')"
      using that d by (auto simp: createDBIfNotExist_def current_dir_def empty_dir_def initEmptyDB_def writeSnapshotWithLimit_def
          updateCurrentSymlink_def symlink_tmp_def put_dir_def)
    then show ?thesis using that assms(3,4) by (auto simp: Load_def FillDefaults_def Let_def put_dir_def)
  qed
  have "fs_current stopped = None \<and> fs_currentTmp stopped \<noteq> None"
    using assms(1,2) d unfolding assms(5) by (simp add: writeSnapshotWithLimit_def symlink_tmp_def put_dir_def)
  then have "fs_current (((\<lambda>fs. snd (Load ops pkg gjson opts cid fs)) ^^ n) stopped) = None \<and>
      fs_currentTmp (((\<lambda>fs. snd (Load ops pkg gjson opts cid fs)) ^^ n) stopped) \<noteq> None"
  proof (induction n)
    case (Suc n)
    then show ?case using load [of "((\<lambda>fs. snd (Load ops pkg gjson opts cid fs)) ^^ n) stopped"] by auto
  qed simp
  then show ?thesis using load [of "((\<lambda>fs. snd (Load ops pkg gjson opts cid fs)) ^^ n) stopped"] by auto
qed

theorem interrupted_creation_blocks_witness:
  "\<exists>stopped. fst (Load lru_ops one_file_log (\<lambda>_. True) (plain_options\<lparr>o_CreateIfMissing := True\<rparr>) ''chain'' stopped) = Inl ErrExist"
proof -
  have o: "fs_current no_files = None" "fs_currentTmp no_files = None" "o_CreateIfMissing (plain_options\<lparr>o_CreateIfMissing := True\<rparr>)"
    "Validate (plain_options\<lparr>o_CreateIfMissing := True\<rparr>) = Inr ()"
    by (simp_all add: no_files_def plain_options_def Validate_def)
  show ?thesis using interrupted_creation_blocks [OF o refl, where n = 0 and cid = "''chain''"] by (intro exI) simp
qed

text \<open>Searching a directory with a name that cannot be read.\<close>

lemma traverse_skips:
  "\<forall>name \<in> set names. \<not> isSnapshotName name \<Longrightarrow> traverse_names callback (names @ names') s = traverse_names callback names' s"
  by (induction names) simp_all

lemma seekSnapshot_overflow:
  assumes c: "canonical fs" and w: "2 ^ 31 \<le> w" "w < 10 ^ 20"
  shows "seekSnapshot (put_dir (snapshotName w) d fs) t = Inl SnapshotVersionOverflow"
proof -
  let ?fs = "put_dir (snapshotName w) d fs"
  have dn: "set (read_dir ?fs) = insert (snapshotName w) (fst ` set (fs_dirs fs))"
    by (simp add: read_dir_def put_dir_def dom_update)
  then have "snapshotName w \<in> set (rev (read_dir ?fs))" by simp
  then obtain ys zs where s: "rev (read_dir ?fs) = ys @ snapshotName w # zs" "snapshotName w \<notin> set ys" by (meson split_list_first)
  have "sorted (rev (ys @ snapshotName w # zs))" unfolding s(1) [symmetric] by (simp add: read_dir_def)
  then have up: "\<forall>y \<in> set ys. snapshotName w \<le> y" by (auto simp: sorted_append)
  have "\<not> isSnapshotName y" if y: "y \<in> set ys" for y
  proof
    assume "isSnapshotName y"
    moreover have "y \<in> set (read_dir ?fs)" "y \<noteq> snapshotName w" using y s(2) arg_cong [OF s(1), of set] by auto
    then have "y \<in> fst ` set (fs_dirs fs)" unfolding dn by blast
    ultimately obtain v where v: "small_version v" "y = snapshotName v" using c by (auto simp: canonical_def)
    then have "snapshotName v < snapshotName w" using snapshotName_less [of v w] w by (simp add: small_version_def)
    then show False using up y v(2) by (auto simp: leD)
  qed
  then have "traverse_names cb (ys @ snapshotName w # zs) st = (Inl SnapshotVersionOverflow, st)" for cb :: "int \<Rightarrow> int option \<Rightarrow> _" and st
    using traverse_skips [of ys cb] parseVersion_name [of w] isSnapshotName_name [of w] w by simp
  then show ?thesis by (simp add: seekSnapshot_def traverseSnapshots_def s(1))
qed

text \<open>
  C38: the names of snapshots. Below \<open>2 ^ 31\<close> a name is read back as its version, and \<^verbatim>\<open>seekSnapshot\<close>, which walks the
  names in descending order, finds the greatest version up to the target, or reports that the target is pruned exactly
  when there is none. The names of greater versions still sort by version, but they are refused when read, although
  versions are 32-bit unsigned numbers; once the directory holds one, no older snapshot is found any more.
\<close>

theorem snapshot_names:
  assumes "0 \<le> v" and "v < 10 ^ 20" and "0 \<le> w" and "w < 10 ^ 20" and "canonical fs"
    and "names = fst ` set (fs_dirs fs)"
  shows "parseVersion (snapshotName v) = (if v < 2 ^ 31 then Inr v else Inl SnapshotVersionOverflow) \<and>
    (snapshotName v < snapshotName w \<longleftrightarrow> v < w) \<and>
    (case seekSnapshot fs t of
       Inl e \<Rightarrow> e = TargetPruned \<and> (\<forall>x. small_version x \<and> snapshotName x \<in> names \<longrightarrow> int (unat t) < x)
     | Inr u \<Rightarrow> small_version u \<and> snapshotName u \<in> names \<and> u \<le> int (unat t) \<and>
         (\<forall>x. small_version x \<and> snapshotName x \<in> names \<and> x \<le> int (unat t) \<longrightarrow> x \<le> u)) \<and>
    (2 ^ 31 \<le> w \<longrightarrow> seekSnapshot (put_dir (snapshotName w) d fs) t = Inl SnapshotVersionOverflow)"
proof (intro conjI impI)
  have mem: "small_version x \<and> snapshotName x \<in> names \<longleftrightarrow> x \<in> set (versions fs)" for x
    using versions_iff [OF assms(5), of x] versions_small [OF assms(5), of x] assms(6) by auto
  show "case seekSnapshot fs t of
       Inl e \<Rightarrow> e = TargetPruned \<and> (\<forall>x. small_version x \<and> snapshotName x \<in> names \<longrightarrow> int (unat t) < x)
     | Inr u \<Rightarrow> small_version u \<and> snapshotName u \<in> names \<and> u \<le> int (unat t) \<and>
         (\<forall>x. small_version x \<and> snapshotName x \<in> names \<and> x \<le> int (unat t) \<longrightarrow> x \<le> u)"
    using find_rev_greatest [OF versions_sorted [OF assms(5)], of "int (unat t)"] mem
    unfolding seekSnapshot_spec [OF assms(5)] by (auto split: option.splits simp del: of_nat_unat)
qed (use parseVersion_name [OF assms(1,2)] snapshotName_less [OF assms(1-4)] seekSnapshot_overflow [OF assms(5) _ assms(4)] in auto)

theorem snapshot_names_witness:
  "parseVersion (snapshotName 7) = Inr 7 \<and> snapshotName 7 < snapshotName 2147483648 \<and> snapshotName 0 \<in> fst ` set (fs_dirs bank_dir) \<and>
   seekSnapshot (put_dir (snapshotName 2147483648) new_snapshot bank_dir) 12 = Inl SnapshotVersionOverflow"
proof -
  have "small_version 0" by (simp add: small_version_def)
  then have "canonical bank_dir" by (auto simp: canonical_def bank_dir_def)
  from snapshot_names [of 7 2147483648, OF _ _ _ _ this refl, of 12 new_snapshot] show ?thesis by (simp add: bank_dir_def)
qed

end
