(* ===== verification/Spec2Isabelle.thy ===== *)
theory Spec2Isabelle
  imports Prelude Sha256 Node Cache Snapshot Tree Iterator MerkleProof ExportImport TreeState Cow WAL Proto MultiTree MultiTreeSpec
    DB DBNames DBLog DBPending DBSpec DBInv DBSteps DBFiles DBRun DBCrash DBProps
begin

text \<open>
  A verification development for cronos-store.

  \<^bold>\<open>The program.\<close> The repository stores the state of a blockchain application. \<^verbatim>\<open>src/memiavl\<close> keeps one IAVL tree (a
  Merkle AVL tree) per store in memory. The trees of all stores form a multi-tree under one version. A block applies
  change sets to the trees and commits a version; the commit writes the changes to a write-ahead log, and from
  time to time the trees are written to a snapshot in the background, after which old snapshots and the front of the
  log are pruned. Starting the program loads the snapshot that the link \<^verbatim>\<open>current\<close> leads to and replays the log.
  \<^verbatim>\<open>src/store\<close> adapts this database to the Cosmos SDK, and \<^verbatim>\<open>src/versiondb\<close> keeps the history of changes in
  RocksDB. The development models \<^verbatim>\<open>src/memiavl\<close>.

  \<^bold>\<open>Conventions.\<close> Fixed-width integers are words of their width; an \<^verbatim>\<open>int64\<close> that cannot overflow is an
  integer. Errors and panics are values of \<open>gerror\<close>, a fallible function returns \<open>gerror + 'a\<close>. State is passed
  explicitly. Code of other packages is an argument: the cache of \<^verbatim>\<open>cosmos/iavl\<close> (\<open>cache_ops\<close>, with the laws of locale
  \<open>cache_laws\<close>), \<^verbatim>\<open>tidwall/wal\<close> (\<open>wal_pkg\<close>, locale \<open>wal_package\<close>), \<^verbatim>\<open>ics23\<close>, \<^verbatim>\<open>gjson\<close>. Every locale is interpreted: the
  caches by the sharded cache of the code over an LRU cache, the log interface by the read-only log of the code and
  by a log of one file.

  \<^bold>\<open>The theories, bottom up.\<close>
  \<^item> Prelude: machine types, errors, \<^verbatim>\<open>bytes.Compare\<close>, little-endian and varint coding, \<^verbatim>\<open>sort.Search\<close>. Sha256: SHA-256.
  \<^item> Node (\<^verbatim>\<open>node.go\<close>, \<^verbatim>\<open>mem_node.go\<close>): nodes as values. Set and remove keep order, balance, sizes and cached hashes, and
    change exactly the pair; look-ups; equal root hashes mean equal trees or a hash collision.
  \<^item> Cache (\<^verbatim>\<open>tree.go\<close>): the sharded cache implements the laws of a cache over any lawful cache.
  \<^item> Snapshot (\<^verbatim>\<open>snapshot.go\<close>, \<^verbatim>\<open>persisted_node.go\<close>, \<^verbatim>\<open>layout_little_endian.go\<close>): the files of a tree. Writing and opening
    gives the tree back; the direct accesses of every persisted node agree with the descent in memory.
  \<^item> Tree (\<^verbatim>\<open>tree.go\<close>), Iterator (\<^verbatim>\<open>iterator.go\<close>), MerkleProof (\<^verbatim>\<open>proof.go\<close>): the operations of a tree, range iteration, and
    proofs that verify exactly for what is and is not stored.
  \<^item> ExportImport (\<^verbatim>\<open>export.go\<close>, \<^verbatim>\<open>import.go\<close>): streams of nodes, with the goroutines, their channels and the cancellation as
    step relations: the reader gets the post-order of the tree and nothing else, nothing is stuck, only trees are
    accepted, and a failed import is reported exactly once.
  \<^item> TreeState: operations depend on the visible state of a tree only. Cow (\<^verbatim>\<open>node.go\<close>, \<^verbatim>\<open>mem_node.go\<close>, \<^verbatim>\<open>tree.go\<close>): the same
    code on a heap of nodes that are changed in place; copies of saved trees stay independent.
  \<^item> WAL (\<^verbatim>\<open>wal.go\<close>): repair of a torn tail, listing of segments, the read-only log. Proto (the generated \<^verbatim>\<open>pb.go\<close> files):
    coding of log entries and metadata, with round trips.
  \<^item> MultiTree, MultiTreeSpec (\<^verbatim>\<open>multitree.go\<close>): the trees of a version; every operation implements a specification on the
    visible state; snapshots and replay of the log reproduce the state; upgrades; the worker group.
  \<^item> DB (\<^verbatim>\<open>db.go\<close>): the database. The directory is a record with the lock, the links, the snapshot directories and the
    files of the log; operations on it are sequences of steps, between which a crash may fall. The methods run under a
    mutex and are steps; the asynchronous writer, the background rewrite and the prune are steps of their own.
    DBNames: names of snapshots. DBLog: the contract of the log package. DBPending: the pending log entry has the effect
    of a block whose upgrades come first, and that a late deletion leaves an entry that cannot be replayed. DBSpec: histories, consistent directories and what loading them gives. DBInv, DBSteps, DBFiles, DBRun: the
    invariant of a running database and that each step keeps it. DBCrash: reachable states and crashes. DBProps:
    recovery after a crash, the invariant, loading at a version, rollback, waiting for the log, names, and a defect
    of the first creation.

  \<^bold>\<open>Bounds.\<close> Recursion over a snapshot is bounded by 256 levels, more than a height byte allows. Loops that poll take
  the list of what the polls see; that the wait ends is a theorem. The recursions on the heap are partial functions, and
  the theorems show that they return. Histories are limited to versions below \<open>2 ^ 31\<close> (the names of snapshots) and to
  \<open>2 ^ 61\<close> bytes of entries. A run does not rewrite a snapshot by hand while there are unsaved changes or while
  another rewrite is in progress, and upgrades come before the changes of a block. The calls of a run that apply
  changes and upgrades succeed; a commit, a rewrite or a prune may fail. A crash falls between operations of the log
  package, which are atomic for it; between all other operations on the directory it may fall anywhere, also with a
  rewrite and a prune both under way. A tree that is exported at the version of its snapshot must not have unsaved
  changes.

  \<^bold>\<open>Not modelled.\<close> Disk errors, \<^verbatim>\<open>fsync\<close> and \<^verbatim>\<open>mmap\<close>; mutexes and data races; loggers. The wrappers that string together the
  streams of several trees for state sync. The native layout, which is the little-endian one by pointer casts. \<^verbatim>\<open>src/store\<close>,
  which consists of calls into the Cosmos SDK, and \<^verbatim>\<open>src/versiondb\<close>, whose behaviour is that of RocksDB with
  timestamps, with its command-line tools and the external sort they use: they do not interact with the state of
  \<^verbatim>\<open>memiavl\<close> other than through the operations above.
\<close>

end
